(* ===== verification/Go_Prelude.thy ===== *)
theory Go_Prelude
  imports Main
begin

text \<open>
  Shared vocabulary of the development: Go's 64-bit signed integers as bounded
  HOL integers with the wrap-around written out, the standard library's binary
  search \<^verbatim>\<open>sort.Search\<close>, strict weak orders, and list lemmas that several
  components use.  A Go function that can fail returns \<open>'e + 'a\<close> with the error on
  the left.  Two rule collections are filled by the component theories:
  \<open>go_defs\<close> (definitions a proof may unfold at once) and \<open>go_inv\<close>
  (introduction rules for invariants).
\<close>

named_theorems go_defs
named_theorems go_inv

section \<open>Signed 64-bit integers\<close>

definition maxInt64 :: int where
  "maxInt64 = 9223372036854775807"

definition minInt64 :: int where
  "minInt64 = - 9223372036854775808"

definition is_int64 :: "int \<Rightarrow> bool" where
  "is_int64 x \<longleftrightarrow> minInt64 \<le> x \<and> x \<le> maxInt64"

text \<open>Go's \<open>int64\<close> arithmetic wraps around in two's complement: the result of an
  operation is the representative of the exact result modulo \<open>2^64\<close>.\<close>

definition wrap64 :: "int \<Rightarrow> int" where
  "wrap64 x = (x + 9223372036854775808) mod 18446744073709551616 - 9223372036854775808"

lemmas int64_defs = maxInt64_def minInt64_def is_int64_def

lemma wrap64_is_int64 [simp, intro]: "is_int64 (wrap64 x)"
proof -
  have "0 \<le> (x + 9223372036854775808) mod 18446744073709551616"
    and "(x + 9223372036854775808) mod 18446744073709551616 < 18446744073709551616"
    by simp_all
  then show ?thesis unfolding wrap64_def int64_defs by linarith
qed

lemma wrap64_id [simp]: "is_int64 x \<Longrightarrow> wrap64 x = x"
  by (simp add: wrap64_def int64_defs)

lemma wrap64_idem [simp]: "wrap64 (wrap64 x) = wrap64 x"
  by simp

lemma wrap64_add_left: "wrap64 (wrap64 x + y) = wrap64 (x + y)"
proof -
  have "(wrap64 x + y + 9223372036854775808) mod 18446744073709551616
      = ((x + 9223372036854775808) mod 18446744073709551616 + y) mod 18446744073709551616"
    by (simp add: wrap64_def algebra_simps)
  also have "\<dots> = (x + 9223372036854775808 + y) mod 18446744073709551616"
    by (rule mod_add_left_eq)
  finally show ?thesis by (simp add: wrap64_def algebra_simps)
qed

text \<open>Go's integer division truncates towards zero.\<close>

definition go_div :: "int \<Rightarrow> int \<Rightarrow> int" where
  "go_div a b = sgn a * sgn b * (\<bar>a\<bar> div \<bar>b\<bar>)"

section \<open>Binary search\<close>

text \<open>\<^verbatim>\<open>sort.Search(n, f)\<close> of the standard library: the loop keeps
  \<open>f (i-1) = false\<close> and \<open>f j = true\<close> and halves the interval.\<close>

function go_search_loop :: "(nat \<Rightarrow> bool) \<Rightarrow> nat \<Rightarrow> nat \<Rightarrow> nat" where
  "go_search_loop f i j =
     (if i < j then
        let h = (i + j) div 2
        in if \<not> f h then go_search_loop f (h + 1) j else go_search_loop f i h
      else i)"
  by pat_completeness auto
termination
  by (relation "measure (\<lambda>(f, i, j). j - i)") auto

declare go_search_loop.simps [simp del]

definition go_search :: "nat \<Rightarrow> (nat \<Rightarrow> bool) \<Rightarrow> nat" where
  "go_search n f = go_search_loop f 0 n"

lemma go_search_loop_split:
  assumes "\<forall>a b. a \<le> b \<longrightarrow> b < n \<longrightarrow> f a \<longrightarrow> f b"
    and "\<forall>a < i. \<not> f a" and "\<forall>a. j \<le> a \<longrightarrow> a < n \<longrightarrow> f a"
    and "i \<le> j" and "j \<le> n"
  shows "go_search_loop f i j \<le> n
       \<and> (\<forall>a < go_search_loop f i j. \<not> f a)
       \<and> (\<forall>a. go_search_loop f i j \<le> a \<longrightarrow> a < n \<longrightarrow> f a)"
  using assms
proof (induction f i j rule: go_search_loop.induct)
  case (1 f i j)
  show ?case
  proof (cases "i < j")
    case False
    then have "go_search_loop f i j = i" by (simp add: go_search_loop.simps [of f i j])
    with False "1.prems" show ?thesis by simp
  next
    case True
    define h where "h = (i + j) div 2"
    have h: "i \<le> h" "h < j" using True by (auto simp: h_def)
    show ?thesis
    proof (cases "f h")
      case True
      have up: "\<forall>a. h \<le> a \<longrightarrow> a < n \<longrightarrow> f a" using "1.prems"(1) True by blast
      have "go_search_loop f i h \<le> n
          \<and> (\<forall>a < go_search_loop f i h. \<not> f a)
          \<and> (\<forall>a. go_search_loop f i h \<le> a \<longrightarrow> a < n \<longrightarrow> f a)"
        using True "1.prems" h up by (intro "1.IH"(2) [OF \<open>i < j\<close> h_def]) simp_all
      with True \<open>i < j\<close> show ?thesis
        by (simp add: go_search_loop.simps [of f i j] h_def Let_def)
    next
      case False
      have nf: "\<forall>a < h + 1. \<not> f a"
        using "1.prems"(1) False h "1.prems"(5) by (metis Suc_eq_plus1 less_Suc_eq_le order_less_le_trans)
      have "go_search_loop f (h + 1) j \<le> n
          \<and> (\<forall>a < go_search_loop f (h + 1) j. \<not> f a)
          \<and> (\<forall>a. go_search_loop f (h + 1) j \<le> a \<longrightarrow> a < n \<longrightarrow> f a)"
        using False nf "1.prems" h by (intro "1.IH"(1) [OF \<open>i < j\<close> h_def]) simp_all
      with False \<open>i < j\<close> show ?thesis
        by (simp add: go_search_loop.simps [of f i j] h_def Let_def)
    qed
  qed
qed

lemma go_search_split:
  assumes "\<And>a b. a \<le> b \<Longrightarrow> b < n \<Longrightarrow> f a \<Longrightarrow> f b"
  shows go_search_le: "go_search n f \<le> n"
    and go_search_below: "a < go_search n f \<Longrightarrow> \<not> f a"
    and go_search_above: "go_search n f \<le> a \<Longrightarrow> a < n \<Longrightarrow> f a"
proof -
  have "\<forall>a b. a \<le> b \<longrightarrow> b < n \<longrightarrow> f a \<longrightarrow> f b" using assms by blast
  then have *: "go_search n f \<le> n \<and> (\<forall>a < go_search n f. \<not> f a)
      \<and> (\<forall>a. go_search n f \<le> a \<longrightarrow> a < n \<longrightarrow> f a)"
    unfolding go_search_def by (intro go_search_loop_split) simp_all
  from * show "go_search n f \<le> n" by simp
  from * show "a < go_search n f \<Longrightarrow> \<not> f a" by simp
  from * show "go_search n f \<le> a \<Longrightarrow> a < n \<Longrightarrow> f a" by simp
qed

section \<open>Strictly increasing lists\<close>

abbreviation strict_sorted_by :: "('a \<Rightarrow> int) \<Rightarrow> 'a list \<Rightarrow> bool" where
  "strict_sorted_by f xs \<equiv> sorted_wrt (<) (map f xs)"

lemma sorted_wrt_snoc [simp]:
  "sorted_wrt P (xs @ [x]) \<longleftrightarrow> sorted_wrt P xs \<and> (\<forall>y\<in>set xs. P y x)"
  by (simp add: sorted_wrt_append)

lemma sorted_wrt_less_last:
  "sorted_wrt (<) (xs :: int list) \<Longrightarrow> x \<in> set xs \<Longrightarrow> x \<le> last xs"
  by (induction xs) (auto dest: last_in_set simp: less_imp_le)


lemma length_filter_eq_iff: "length (filter P xs) = length xs \<longleftrightarrow> (\<forall>x\<in>set xs. P x)"
  by (metis filter_id_conv filter_True length_filter_less nat_neq_iff)

section \<open>Conversion to floating point\<close>

text \<open>Conversion of an \<^verbatim>\<open>int64\<close> to \<^verbatim>\<open>float64\<close>: the nearest number with a 53-bit significand,
  ties to even.  The result is again an integer.\<close>

fun bit_length :: "nat \<Rightarrow> nat" where
  "bit_length n = (if n = 0 then 0 else Suc (bit_length (n div 2)))"

declare bit_length.simps [simp del]

definition float64_of_int64 :: "int \<Rightarrow> int" where
  "float64_of_int64 x =
     (let n = nat \<bar>x\<bar>; e = bit_length n - 53
      in if e = 0 then x
         else let q = n div 2 ^ e; r = n mod 2 ^ e; half = 2 ^ (e - 1)
              in sgn x * int ((if r < half \<or> r = half \<and> even q then q else q + 1) * 2 ^ e))"

lemma bit_length_le: "n < 2 ^ k \<Longrightarrow> bit_length n \<le> k"
proof (induction n arbitrary: k rule: bit_length.induct)
  case (1 n)
  show ?case
  proof (cases "n = 0")
    case True
    then show ?thesis by (simp add: bit_length.simps)
  next
    case False
    with "1.prems" obtain j where k: "k = Suc j" by (cases k) auto
    with "1.prems" have "n div 2 < 2 ^ j" by auto
    with "1.IH" False have "bit_length (n div 2) \<le> j" by blast
    with False k show ?thesis by (subst bit_length.simps) simp
  qed
qed

lemma float64_of_int64_small: "\<bar>x\<bar> < 9007199254740992 \<Longrightarrow> float64_of_int64 x = x"
  using bit_length_le [of "nat \<bar>x\<bar>" 53] by (simp add: float64_of_int64_def Let_def)

text \<open>The rounding of the absolute value, which is monotone.\<close>

definition round53 :: "nat \<Rightarrow> nat" where
  "round53 n =
     (let e = bit_length n - 53; q = n div 2 ^ e; r = n mod 2 ^ e; half = 2 ^ (e - 1)
      in if e = 0 then n else (if r < half \<or> r = half \<and> even q then q else q + 1) * 2 ^ e)"

lemma float64_of_int64_round: "float64_of_int64 x = sgn x * int (round53 (nat \<bar>x\<bar>))"
  by (simp add: float64_of_int64_def round53_def Let_def sgn_mult_abs)

lemma bit_length_bounds: "n < 2 ^ bit_length n" "0 < n \<Longrightarrow> 2 ^ (bit_length n - 1) \<le> n"
proof (induction n rule: bit_length.induct)
  case (1 n)
  {
    case 1
    show ?case
    proof (cases "n = 0")
      case False
      then have "n div 2 < 2 ^ bit_length (n div 2)" using "1.IH"(1) by blast
      then show ?thesis using False by (subst bit_length.simps) simp
    qed simp
  next
    case 2
    show ?case
    proof (cases "n div 2 = 0")
      case True
      then show ?thesis using 2 by (subst bit_length.simps) (simp add: bit_length.simps)
    next
      case False
      then have "2 ^ (bit_length (n div 2) - 1) \<le> n div 2" "bit_length (n div 2) > 0"
        using "1.IH"(2) 2 by (simp, subst bit_length.simps, simp)
      then have "2 ^ bit_length (n div 2) \<le> n" by (cases "bit_length (n div 2)") simp_all
      then show ?thesis using 2 by (subst bit_length.simps) simp
    qed
  }
qed

lemma bit_length_mono: "m \<le> n \<Longrightarrow> bit_length m \<le> bit_length n"
  using bit_length_le [of m "bit_length n"] bit_length_bounds(1) [of n] by simp

text \<open>Rounding stays between the multiples of \<open>2 ^ e\<close> around a number.\<close>

lemma round53_between:
  assumes "e = bit_length n - 53"
  shows "n div 2 ^ e * 2 ^ e \<le> round53 n" "round53 n \<le> (n div 2 ^ e + 1) * 2 ^ e"
proof -
  have "n div 2 ^ e * 2 ^ e \<le> n" "n \<le> (n div 2 ^ e + 1) * 2 ^ e"
    using dividend_less_div_times [of "2 ^ e" n] by simp_all
  then show "n div 2 ^ e * 2 ^ e \<le> round53 n" "round53 n \<le> (n div 2 ^ e + 1) * 2 ^ e"
    unfolding round53_def Let_def assms [symmetric] by simp_all
qed

lemma round53_mono:
  assumes "m \<le> n"
  shows "round53 m \<le> round53 n"
proof (cases "bit_length m - 53 = bit_length n - 53")
  case True
  define e where "e = bit_length n - 53"
  have em: "e = bit_length m - 53" using True by (simp add: e_def)
  have q: "m div 2 ^ e \<le> n div 2 ^ e" using assms by (rule div_le_mono)
  show ?thesis
  proof (cases "m div 2 ^ e = n div 2 ^ e")
    case eq: True
    then have "m mod 2 ^ e \<le> n mod 2 ^ e" using assms by (metis add_le_cancel_left div_mult_mod_eq)
    with eq assms show ?thesis unfolding round53_def Let_def e_def [symmetric] em [symmetric] by auto
  next
    case False
    with q have "(m div 2 ^ e + 1) * 2 ^ e \<le> n div 2 ^ e * 2 ^ e" by (intro mult_le_mono1) simp
    with round53_between [OF em] round53_between [of e n] show ?thesis unfolding e_def by simp
  qed
next
  case False
  define a b where "a = bit_length m - 53" and "b = bit_length n - 53"
  have "bit_length m \<le> bit_length n" by (rule bit_length_mono [OF assms])
  with False have ab: "a < b" "bit_length n = 53 + b" "bit_length m \<le> 53 + a" by (auto simp: a_def b_def)
  have "m < 2 ^ (53 + a)"
    using bit_length_bounds(1) [of m] ab(3) by (meson less_le_trans one_le_numeral power_increasing)
  then have "m div 2 ^ a < 2 ^ 53" by (simp add: power_add less_mult_imp_div_less)
  then have "(m div 2 ^ a + 1) * 2 ^ a \<le> 2 ^ 53 * 2 ^ a" by (intro mult_le_mono1) simp
  with round53_between(2) [OF a_def] have "round53 m \<le> 2 ^ 53 * 2 ^ a" by (rule le_trans)
  also have "\<dots> = 2 ^ (53 + a)" by (rule power_add [symmetric])
  also have "\<dots> \<le> 2 ^ (52 + b)" using ab(1) by (intro power_increasing) simp_all
  also have "\<dots> = 2 ^ 52 * 2 ^ b" by (rule power_add)
  also have "\<dots> \<le> n div 2 ^ b * 2 ^ b"
  proof -
    have "n \<noteq> 0" using ab(2) bit_length.simps [of 0] by (cases "n = 0") simp_all
    then have "2 ^ (52 + b) \<le> n" using bit_length_bounds(2) [of n] ab(2) by simp
    then have "2 ^ 52 * 2 ^ b \<le> n" by (simp only: power_add)
    then show ?thesis by (intro mult_le_mono1) (simp add: less_eq_div_iff_mult_less_eq)
  qed
  also have "\<dots> \<le> round53 n" by (rule round53_between(1) [OF b_def])
  finally show ?thesis .
qed

lemma float64_of_int64_mono: "x \<le> y \<Longrightarrow> float64_of_int64 x \<le> float64_of_int64 y"
proof -
  assume le: "x \<le> y"
  consider "0 \<le> x" | "x < 0" "0 \<le> y" | "y < 0" using le by linarith
  then show ?thesis
  proof cases
    case 1
    then have "nat \<bar>x\<bar> \<le> nat \<bar>y\<bar>" using le by simp
    from round53_mono [OF this] 1 le show ?thesis by (simp add: float64_of_int64_round sgn_if)
  next
    case 2
    then show ?thesis by (simp add: float64_of_int64_round sgn_if)
  next
    case 3
    then have "nat \<bar>y\<bar> \<le> nat \<bar>x\<bar>" using le by simp
    from round53_mono [OF this] 3 le show ?thesis by (simp add: float64_of_int64_round sgn_if)
  qed
qed

end
