(* ===== verification/Wire_Errors.thy ===== *)
theory Wire_Errors
  imports Go_Prelude
begin

text \<open>
  The error values of the Pub/Sub Lite wire package (\<^verbatim>\<open>pubsublite/internal/wire\<close>):
  the exported and unexported error variables, \<^verbatim>\<open>wrapError\<close>, and the
  classification of gRPC stream errors of \<^verbatim>\<open>rpc.go\<close> that decides whether a
  broken stream is reconnected, reset or terminated.  Formatted messages are kept as
  constructors that carry the values the message prints.
\<close>

datatype grpc_code =
    OK | Canceled | Unknown | InvalidArgument | DeadlineExceeded | NotFound | AlreadyExists
  | PermissionDenied | ResourceExhausted | FailedPrecondition | Aborted | OutOfRange
  | Unimplemented | Internal | Unavailable | DataLoss | Unauthenticated

text \<open>A detail of a gRPC status: an \<^verbatim>\<open>errdetails.ErrorInfo\<close> with its reason and domain,
  or a message of another type.\<close>

datatype status_detail = ErrorInfo (reason: string) (domain: string) | OtherDetail

datatype wire_error =
    ErrOverflow
  | ErrOversizedMessage int
  | ErrServiceUninitialized
  | ErrServiceStarting
  | ErrServiceStopped
  | ErrBackendUnavailable
  | errOutOfOrderMessages
  | errTokenCounterBytesNegative
  | errTokenCounterMessagesNegative
  | errStartOffset int int
  | errTooManyConfirmed int int
  | errPublishQueueEmpty
  | errInconsistentOffset int int
  | errBundler wire_error
  | errInvalidInitialCommitResponse
  | errInvalidCommitResponse
  | errInvalidCommitCount int
  | errServerNoMessages
  | errInvalidInitialSubscribeResponse
  | errInvalidSubscribeResponse
  | errInvalidInitialPubResponse
  | errInvalidMsgPubResponse
  | errPublisherNotFound int
  | errInvalidPartitionCount int
  | errPartitionUpdate wire_error
  | errGenerateUUID wire_error
  | errChildServiceStarted
  | errUnexpectedInitialResponse
  | errInvalidSettings string
  | errInvalidPartition int
  | errDuplicatePartition int
  | EOF
  | StatusError grpc_code "status_detail list"
  | OpaqueError nat
  | WrappedError string string wire_error
  | UnavailableError wire_error

text \<open>\<open>OpaqueError\<close> stands for an error value made by code outside the package (a user
  callback, a client library); \<open>UnavailableError e\<close> is the error that \<^verbatim>\<open>initNewStream\<close>
  builds when the deadline passes: the text of \<open>e\<close> wrapping \<^verbatim>\<open>ErrBackendUnavailable\<close>.\<close>

definition wrapError :: "string \<Rightarrow> string \<Rightarrow> wire_error option \<Rightarrow> wire_error option" where
  "wrapError context resource err =
     (case err of Some e \<Rightarrow> Some (WrappedError context resource e) | None \<Rightarrow> None)"

section \<open>Retryable stream errors\<close>

definition isRetryableSendCode :: "grpc_code \<Rightarrow> bool" where
  "isRetryableSendCode code =
     (case code of DeadlineExceeded \<Rightarrow> True | Unavailable \<Rightarrow> True | _ \<Rightarrow> False)"

definition isRetryableRecvCode :: "grpc_code \<Rightarrow> bool" where
  "isRetryableRecvCode code =
     (case code of Aborted \<Rightarrow> True | DeadlineExceeded \<Rightarrow> True | Internal \<Rightarrow> True
      | ResourceExhausted \<Rightarrow> True | Unavailable \<Rightarrow> True | Unknown \<Rightarrow> True | _ \<Rightarrow> False)"

text \<open>\<^verbatim>\<open>status.FromError\<close>: the status carried by an error, if it is a gRPC status.\<close>

fun status_FromError :: "wire_error \<Rightarrow> (grpc_code \<times> status_detail list) option" where
  "status_FromError (StatusError c ds) = Some (c, ds)"
| "status_FromError _ = None"

definition isRetryableStreamError :: "wire_error \<Rightarrow> (grpc_code \<Rightarrow> bool) \<Rightarrow> bool" where
  "isRetryableStreamError err isEligible =
     (case status_FromError err of None \<Rightarrow> True | Some (c, ds) \<Rightarrow> isEligible c)"

definition isRetryableSendError :: "wire_error \<Rightarrow> bool" where
  "isRetryableSendError err = isRetryableStreamError err isRetryableSendCode"

definition isRetryableRecvError :: "wire_error \<Rightarrow> bool" where
  "isRetryableRecvError err = isRetryableStreamError err isRetryableRecvCode"

definition resetSignal :: string where
  "resetSignal = ''RESET''"

definition pubsubLiteErrorDomain :: string where
  "pubsubLiteErrorDomain = ''pubsublite.googleapis.com''"

definition isStreamResetSignal :: "wire_error \<Rightarrow> bool" where
  "isStreamResetSignal err =
     (case status_FromError err of
        None \<Rightarrow> False
      | Some (c, ds) \<Rightarrow>
          if \<not> isRetryableRecvCode c then False
          else list_ex (\<lambda>d. case d of ErrorInfo r d' \<Rightarrow> r = resetSignal \<and> d' = pubsubLiteErrorDomain
                                     | OtherDetail \<Rightarrow> False) ds)"

lemmas retry_defs = isRetryableSendCode_def isRetryableRecvCode_def isRetryableStreamError_def
  isRetryableSendError_def isRetryableRecvError_def isStreamResetSignal_def

lemma send_code_is_recv_code: "isRetryableSendCode c \<Longrightarrow> isRetryableRecvCode c"
  by (cases c) (simp_all add: retry_defs)

lemma retryable_send_recv: "isRetryableSendError e \<Longrightarrow> isRetryableRecvError e"
  by (auto simp: isRetryableSendError_def isRetryableRecvError_def isRetryableStreamError_def
      send_code_is_recv_code split: option.splits)

lemma reset_signal_retryable: "isStreamResetSignal e \<Longrightarrow> isRetryableRecvError e"
  by (auto simp: isStreamResetSignal_def isRetryableRecvError_def isRetryableStreamError_def
      split: option.splits if_splits)

end
