(* ===== verification/Wire_Settings.thy ===== *)
theory Wire_Settings
  imports Wire_Errors
begin

text \<open>
  Client settings of the Pub/Sub Lite wire package
  (\<^verbatim>\<open>pubsublite/internal/wire/settings.go\<close>) and their validation.  Durations are in
  nanoseconds; \<^verbatim>\<open>int\<close> is the 64-bit integer of the platform.
\<close>

definition MaxPublishRequestCount :: int where
  "MaxPublishRequestCount = 1000"

text \<open>\<^verbatim>\<open>3.5 * 1024 * 1024\<close>\<close>

definition MaxPublishRequestBytes :: int where
  "MaxPublishRequestBytes = 3670016"

record PublishSettings =
  DelayThreshold :: int
  CountThreshold :: int
  ByteThreshold :: int
  ps_Timeout :: int
  BufferedByteLimit :: int
  ConfigPollPeriod :: int
  ps_Framework :: string

definition DefaultPublishSettings :: PublishSettings where
  "DefaultPublishSettings =
     \<lparr>DelayThreshold = 10 * 10 ^ 6, CountThreshold = 100, ByteThreshold = 10 ^ 6,
      ps_Timeout = 7 * 24 * 3600 * 10 ^ 9, BufferedByteLimit = 2 ^ 30,
      ConfigPollPeriod = 600 * 10 ^ 9, ps_Framework = []\<rparr>"

definition validatePublishSettings :: "PublishSettings \<Rightarrow> wire_error option" where
  "validatePublishSettings settings =
     (if DelayThreshold settings \<le> 0 then Some (errInvalidSettings ''DelayThreshold'')
      else if ps_Timeout settings \<le> 0 then Some (errInvalidSettings ''Timeout'')
      else if CountThreshold settings \<le> 0 then Some (errInvalidSettings ''CountThreshold'')
      else if CountThreshold settings > MaxPublishRequestCount then Some (errInvalidSettings ''MaxPublishRequestCount'')
      else if ByteThreshold settings \<le> 0 then Some (errInvalidSettings ''ByteThreshold'')
      else if ByteThreshold settings > MaxPublishRequestBytes then Some (errInvalidSettings ''MaxPublishRequestBytes'')
      else if BufferedByteLimit settings \<le> 0 then Some (errInvalidSettings ''BufferedByteLimit'')
      else None)"

record ReceiveSettings =
  MaxOutstandingMessages :: int
  MaxOutstandingBytes :: int
  rs_Timeout :: int
  Partitions :: "int list"
  rs_Framework :: string

definition DefaultReceiveSettings :: ReceiveSettings where
  "DefaultReceiveSettings =
     \<lparr>MaxOutstandingMessages = 1000, MaxOutstandingBytes = 10 ^ 9,
      rs_Timeout = 7 * 24 * 3600 * 10 ^ 9, Partitions = [], rs_Framework = []\<rparr>"

text \<open>The loop over the partition numbers with the set of those seen so far.\<close>

fun partitions_loop :: "int list \<Rightarrow> int list \<Rightarrow> wire_error option" where
  "partitions_loop seen [] = None"
| "partitions_loop seen (p # ps) =
     (if p < 0 then Some (errInvalidPartition p)
      else if p \<in> set seen then Some (errDuplicatePartition p)
      else partitions_loop (p # seen) ps)"

definition validateReceiveSettings :: "ReceiveSettings \<Rightarrow> wire_error option" where
  "validateReceiveSettings settings =
     (if MaxOutstandingMessages settings \<le> 0 then Some (errInvalidSettings ''MaxOutstandingMessages'')
      else if MaxOutstandingBytes settings \<le> 0 then Some (errInvalidSettings ''MaxOutstandingBytes'')
      else if rs_Timeout settings \<le> 0 then Some (errInvalidSettings ''Timeout'')
      else if length (Partitions settings) > 0 then partitions_loop [] (Partitions settings)
      else None)"

lemma partitions_loop_None:
  "partitions_loop seen ps = None \<longleftrightarrow>
     (\<forall>p\<in>set ps. 0 \<le> p) \<and> distinct ps \<and> set ps \<inter> set seen = {}"
  by (induction seen ps rule: partitions_loop.induct) auto

text \<open>Receive settings are accepted exactly when the limits and the timeout are positive and
  the partition list has only non-negative numbers without repetition.\<close>

theorem validateReceiveSettings_accepts_iff:
  "validateReceiveSettings s = None \<longleftrightarrow>
     0 < MaxOutstandingMessages s \<and> 0 < MaxOutstandingBytes s \<and> 0 < rs_Timeout s
   \<and> distinct (Partitions s) \<and> Ball (set (Partitions s)) (\<lambda>p. 0 \<le> p)"
  by (auto simp: validateReceiveSettings_def partitions_loop_None)

theorem validateReceiveSettings_accepts_iff_witness:
  "validateReceiveSettings (DefaultReceiveSettings\<lparr>Partitions := [0, 1, 2]\<rparr>) = None
 \<and> validateReceiveSettings (DefaultReceiveSettings\<lparr>Partitions := [1, 0, 1]\<rparr>) \<noteq> None"
  using validateReceiveSettings_accepts_iff [of "DefaultReceiveSettings\<lparr>Partitions := [0, 1, 2]\<rparr>"]
    validateReceiveSettings_accepts_iff [of "DefaultReceiveSettings\<lparr>Partitions := [1, 0, 1]\<rparr>"]
  by (simp add: DefaultReceiveSettings_def)

lemma validatePublishSettings_ok:
  "validatePublishSettings s = None \<Longrightarrow>
     0 < BufferedByteLimit s \<and> 0 < CountThreshold s \<and> CountThreshold s \<le> MaxPublishRequestCount
   \<and> 0 < ByteThreshold s \<and> ByteThreshold s \<le> MaxPublishRequestBytes \<and> 0 < DelayThreshold s \<and> 0 < ps_Timeout s"
  by (auto simp: validatePublishSettings_def split: if_splits)

lemma default_settings_valid:
  "validatePublishSettings DefaultPublishSettings = None"
  "validateReceiveSettings DefaultReceiveSettings = None"
  by (simp_all add: validatePublishSettings_def DefaultPublishSettings_def MaxPublishRequestCount_def
      MaxPublishRequestBytes_def validateReceiveSettings_def DefaultReceiveSettings_def)

end
