(* ===== verification/Wire_Batcher.thy ===== *)
theory Wire_Batcher
  imports Wire_Settings
begin

text \<open>
  Batching of published messages (\<^verbatim>\<open>pubsublite/internal/wire/publish_batcher.go\<close>).  The
  bundler that groups messages is a library (\<^verbatim>\<open>google.golang.org/api/support/bundler\<close>) and a
  parameter here: its \<^verbatim>\<open>Add\<close> is an argument of \<open>AddMessage\<close>, and the bundles it hands over
  arrive as arguments of \<open>new_batch\<close>.  So is \<^verbatim>\<open>proto.Size\<close>.  The lemmas show that the buffer
  accounting is exact, that offsets are assigned to messages consecutively and in order,
  and that merging in-flight batches for a reconnection keeps the messages, their order
  and the request limits.
\<close>

type_synonym bytes = "nat list"

record PubSubMessage =
  pm_key :: bytes
  pm_data :: bytes

record MessageMetadata =
  Partition :: int
  mm_Offset :: int

text \<open>A \<^verbatim>\<open>PublishResultFunc\<close> is identified by a number; calling it is an entry of the result
  log: the callback, the metadata (nil on error) and the error.\<close>

type_synonym publishResult = "nat \<times> MessageMetadata option \<times> wire_error option"

record messageHolder =
  mh_msg :: PubSubMessage
  mh_size :: int
  mh_onResult :: nat

record publishBatch =
  msgHolders :: "messageHolder list"
  totalSize :: int

definition ToPublishRequest :: "publishBatch \<Rightarrow> PubSubMessage list" where
  "ToPublishRequest b = map mh_msg (msgHolders b)"

record 'b publishMessageBatcher =
  pb_partition :: int
  msgBundler :: 'b
  publishQueue :: "publishBatch list"
  minExpectedNextOffset :: int
  availableBufferBytes :: int

definition newPublishMessageBatcher :: "PublishSettings \<Rightarrow> int \<Rightarrow> 'b \<Rightarrow> 'b publishMessageBatcher" where
  "newPublishMessageBatcher settings part bundler =
     \<lparr>pb_partition = part, msgBundler = bundler, publishQueue = [], minExpectedNextOffset = 0,
      availableBufferBytes = BufferedByteLimit settings\<rparr>"

text \<open>The handler given to the bundler: it makes a batch of a bundle and passes it to
  \<^verbatim>\<open>onNewBatch\<close>; an empty bundle is ignored.\<close>

definition new_batch :: "messageHolder list \<Rightarrow> publishBatch option" where
  "new_batch msgs =
     (if msgs = [] then None
      else Some \<lparr>msgHolders = msgs, totalSize = fold (\<lambda>m t. wrap64 (t + mh_size m)) msgs 0\<rparr>)"

definition AddMessage ::
  "(messageHolder \<Rightarrow> int \<Rightarrow> 'b \<Rightarrow> 'b \<times> wire_error option) \<Rightarrow> (PubSubMessage \<Rightarrow> int) \<Rightarrow>
   PubSubMessage \<Rightarrow> nat \<Rightarrow> 'b publishMessageBatcher \<Rightarrow> 'b publishMessageBatcher \<times> wire_error option" where
  "AddMessage bundler_Add proto_Size msg onResult b =
     (let msgSize = proto_Size msg
      in if msgSize > MaxPublishRequestBytes then (b, Some (ErrOversizedMessage msgSize))
         else if msgSize > availableBufferBytes b then (b, Some ErrOverflow)
         else let holder = \<lparr>mh_msg = msg, mh_size = msgSize, mh_onResult = onResult\<rparr>
              in case bundler_Add holder msgSize (msgBundler b) of
                   (bundler', Some err) \<Rightarrow> (b\<lparr>msgBundler := bundler'\<rparr>, Some (errBundler err))
                 | (bundler', None) \<Rightarrow>
                     (b\<lparr>msgBundler := bundler',
                        availableBufferBytes := wrap64 (availableBufferBytes b - msgSize)\<rparr>, None))"

definition AddBatch :: "publishBatch \<Rightarrow> 'b publishMessageBatcher \<Rightarrow> 'b publishMessageBatcher" where
  "AddBatch batch b = b\<lparr>publishQueue := publishQueue b @ [batch]\<rparr>"

text \<open>The loop over the messages of the answered batch: \<open>i\<close> is the index of the next one.\<close>

fun release_loop :: "int \<Rightarrow> int \<Rightarrow> nat \<Rightarrow> messageHolder list \<Rightarrow> int \<Rightarrow> int \<times> publishResult list" where
  "release_loop part firstOffset i [] avail = (avail, [])"
| "release_loop part firstOffset i (h # hs) avail =
     (let mm = \<lparr>Partition = part, mm_Offset = wrap64 (firstOffset + int i)\<rparr>
      in case release_loop part firstOffset (Suc i) hs (wrap64 (avail + mh_size h)) of
           (avail', rs) \<Rightarrow> (avail', (mh_onResult h, Some mm, None) # rs))"

definition OnPublishResponse ::
  "int \<Rightarrow> 'b publishMessageBatcher \<Rightarrow> 'b publishMessageBatcher \<times> publishResult list \<times> wire_error option" where
  "OnPublishResponse firstOffset b =
     (case publishQueue b of
        [] \<Rightarrow> (b, [], Some errPublishQueueEmpty)
      | batch # rest \<Rightarrow>
          if firstOffset < minExpectedNextOffset b
          then (b, [], Some (errInconsistentOffset firstOffset (minExpectedNextOffset b)))
          else case release_loop (pb_partition b) firstOffset 0 (msgHolders batch) (availableBufferBytes b) of
                 (avail, results) \<Rightarrow>
                   (b\<lparr>availableBufferBytes := avail,
                      minExpectedNextOffset := wrap64 (firstOffset + int (length (msgHolders batch))),
                      publishQueue := rest\<rparr>, results, None))"

definition OnPermanentError ::
  "wire_error option \<Rightarrow> 'b publishMessageBatcher \<Rightarrow> 'b publishMessageBatcher \<times> publishResult list" where
  "OnPermanentError err b =
     (b\<lparr>publishQueue := []\<rparr>,
      concat (map (\<lambda>batch. map (\<lambda>h. (mh_onResult h, None, err)) (msgHolders batch)) (publishQueue b)))"

text \<open>The loop of \<^verbatim>\<open>InFlightBatches\<close> walks the queue; \<open>merged\<close> is the part of the queue before the
  current element, which is also the result so far.\<close>

definition mergeable :: "publishBatch \<Rightarrow> publishBatch \<Rightarrow> bool" where
  "mergeable prevBatch batch \<longleftrightarrow>
     wrap64 (totalSize prevBatch + totalSize batch) \<le> MaxPublishRequestBytes
   \<and> int (length (msgHolders prevBatch) + length (msgHolders batch)) \<le> MaxPublishRequestCount"

definition merge_batches :: "publishBatch \<Rightarrow> publishBatch \<Rightarrow> publishBatch" where
  "merge_batches prevBatch batch =
     \<lparr>msgHolders = msgHolders prevBatch @ msgHolders batch,
      totalSize = wrap64 (totalSize prevBatch + totalSize batch)\<rparr>"

fun inflight_loop :: "publishBatch list \<Rightarrow> publishBatch list \<Rightarrow> publishBatch list" where
  "inflight_loop merged [] = merged"
| "inflight_loop merged (batch # rest) =
     (if merged \<noteq> [] \<and> mergeable (last merged) batch
      then inflight_loop (butlast merged @ [merge_batches (last merged) batch]) rest
      else inflight_loop (merged @ [batch]) rest)"

definition InFlightBatches :: "'b publishMessageBatcher \<Rightarrow> 'b publishMessageBatcher \<times> publishBatch list" where
  "InFlightBatches b =
     (let batches = inflight_loop [] (publishQueue b) in (b\<lparr>publishQueue := batches\<rparr>, batches))"

definition InFlightBatchesEmpty :: "'b publishMessageBatcher \<Rightarrow> bool" where
  "InFlightBatchesEmpty b = (length (publishQueue b) = 0)"


section \<open>Sizes\<close>

abbreviation sizes :: "messageHolder list \<Rightarrow> int" where
  "sizes hs \<equiv> sum_list (map mh_size hs)"

definition inflight :: "publishBatch list \<Rightarrow> messageHolder list" where
  "inflight q = concat (map msgHolders q)"

lemma inflight_simps [simp]:
  "inflight [] = []" "inflight (b # q) = msgHolders b @ inflight q" "inflight (q @ q') = inflight q @ inflight q'"
  by (simp_all add: inflight_def)

lemma sizes_nonneg: "\<forall>h\<in>set hs. 0 \<le> mh_size h \<Longrightarrow> 0 \<le> sizes hs"
  by (auto intro!: sum_list_nonneg)

lemma sizes_fold:
  "\<lbrakk>\<forall>h\<in>set hs. 0 \<le> mh_size h; 0 \<le> t; t + sizes hs \<le> maxInt64\<rbrakk>
   \<Longrightarrow> fold (\<lambda>m t. wrap64 (t + mh_size m)) hs t = t + sizes hs"
proof (induction hs arbitrary: t)
  case (Cons h hs)
  have "wrap64 (t + mh_size h) = t + mh_size h"
    using Cons.prems sizes_nonneg [of hs] by (intro wrap64_id) (auto simp: int64_defs)
  with Cons show ?case by simp
qed simp

lemma enumerate_map_snd: "map (\<lambda>x. f (snd x)) (enumerate n xs) = map f xs"
  by (metis (no_types, lifting) map_eq_conv map_map comp_apply map_snd_enumerate)

lemma release_loop_results:
  "snd (release_loop p f i hs a) =
     map (\<lambda>(j, h). (mh_onResult h, Some \<lparr>Partition = p, mm_Offset = wrap64 (f + int j)\<rparr>, None)) (enumerate i hs)"
  by (induction p f i hs a rule: release_loop.induct) (simp_all add: split_beta Let_def)

lemma release_loop_avail:
  "\<lbrakk>\<forall>h\<in>set hs. 0 \<le> mh_size h; 0 \<le> a; a + sizes hs \<le> maxInt64\<rbrakk>
   \<Longrightarrow> fst (release_loop p f i hs a) = a + sizes hs"
proof (induction p f i hs a rule: release_loop.induct)
  case (2 p f i h hs a)
  have "wrap64 (a + mh_size h) = a + mh_size h"
    using "2.prems" sizes_nonneg [of hs] by (intro wrap64_id) (auto simp: int64_defs)
  with 2 show ?case by (simp add: split_beta Let_def)
qed simp

section \<open>Merging in-flight batches\<close>

definition batch_ok :: "publishBatch \<Rightarrow> bool" where
  "batch_ok b \<longleftrightarrow> totalSize b = sizes (msgHolders b) \<and> (\<forall>h\<in>set (msgHolders b). 0 \<le> mh_size h)
     \<and> msgHolders b \<noteq> []"

lemma inflight_nonneg: "\<forall>b\<in>set q. batch_ok b \<Longrightarrow> \<forall>h\<in>set (inflight q). 0 \<le> mh_size h"
  by (induction q) (auto simp: batch_ok_def)

lemma inflight_loop_messages: "inflight (inflight_loop merged q) = inflight merged @ inflight q"
proof (induction merged q rule: inflight_loop.induct)
  case (2 merged batch rest)
  have "inflight (butlast merged) @ msgHolders (last merged) = inflight merged" if "merged \<noteq> []"
    using that by (metis append_butlast_last_id inflight_simps append_Nil2)
  with 2 show ?case by (auto simp: merge_batches_def)
qed simp

lemma inflight_loop_ok:
  assumes "\<forall>b\<in>set (merged @ q). batch_ok b" and "sizes (inflight (merged @ q)) \<le> maxInt64"
  shows "\<forall>b\<in>set (inflight_loop merged q). batch_ok b"
  using assms
proof (induction merged q rule: inflight_loop.induct)
  case (2 merged batch rest)
  show ?case
  proof (cases "merged \<noteq> [] \<and> mergeable (last merged) batch")
    case False
    with 2 show ?thesis by auto
  next
    case True
    let ?l = "last merged"
    have m: "merged = butlast merged @ [?l]" using True by simp
    have ok: "batch_ok ?l" "batch_ok batch" using "2.prems"(1) True by auto
    have pos: "0 \<le> sizes (inflight (butlast merged))" "0 \<le> sizes (inflight rest)"
      using "2.prems"(1) by (auto dest: in_set_butlastD intro!: sizes_nonneg inflight_nonneg)
    have "sizes (inflight (butlast merged)) + totalSize ?l + totalSize batch + sizes (inflight rest) \<le> maxInt64"
      using "2.prems"(2) ok by (subst (asm) m) (simp add: batch_ok_def)
    moreover have "0 \<le> totalSize ?l" "0 \<le> totalSize batch"
      using ok by (auto simp: batch_ok_def intro: sizes_nonneg)
    ultimately have w: "wrap64 (totalSize ?l + totalSize batch) = totalSize ?l + totalSize batch"
      using pos by (intro wrap64_id) (auto simp: int64_defs)
    have okm: "batch_ok (merge_batches ?l batch)" using ok w by (auto simp: batch_ok_def merge_batches_def)
    have "inflight merged = inflight (butlast merged) @ msgHolders ?l" by (subst m) simp
    then have "inflight ((butlast merged @ [merge_batches ?l batch]) @ rest) = inflight (merged @ batch # rest)"
      by (simp add: merge_batches_def)
    then have "sizes (inflight ((butlast merged @ [merge_batches ?l batch]) @ rest)) \<le> maxInt64"
      using "2.prems"(2) by (simp only:)
    with 2 True okm show ?thesis by (auto dest: in_set_butlastD)
  qed
qed simp

definition batch_within_limits :: "publishBatch \<Rightarrow> bool" where
  "batch_within_limits b \<longleftrightarrow> totalSize b \<le> MaxPublishRequestBytes
     \<and> int (length (msgHolders b)) \<le> MaxPublishRequestCount"

lemma inflight_loop_limits:
  "\<forall>b\<in>set (merged @ q). batch_within_limits b \<Longrightarrow> \<forall>b\<in>set (inflight_loop merged q). batch_within_limits b"
proof (induction merged q rule: inflight_loop.induct)
  case (2 merged batch rest)
  have "batch_within_limits (merge_batches (last merged) batch)" if "mergeable (last merged) batch"
    using that by (simp add: batch_within_limits_def mergeable_def merge_batches_def)
  with 2 show ?case by (auto dest: in_set_butlastD)
qed simp

text \<open>Preparing the in-flight batches for a new connection keeps every message and their order,
  keeps the size of each batch exact, never makes a batch larger than one publish request
  may be, and leaves the batcher's queue equal to the batches that are sent again.\<close>

theorem InFlightBatches_correct:
  assumes "\<forall>q\<in>set (publishQueue b). batch_ok q \<and> batch_within_limits q"
    and "sizes (inflight (publishQueue b)) \<le> maxInt64"
    and "InFlightBatches b = (b', batches)"
  shows "publishQueue b' = batches \<and> inflight batches = inflight (publishQueue b)
       \<and> (\<forall>q\<in>set batches. batch_ok q \<and> batch_within_limits q) \<and> length batches \<le> length (publishQueue b)"
proof -
  have b: "batches = inflight_loop [] (publishQueue b)" "publishQueue b' = batches"
    using assms(3) by (auto simp: InFlightBatches_def Let_def)
  have "length (inflight_loop merged q) \<le> length merged + length q" for merged q
    by (induction merged q rule: inflight_loop.induct) auto
  from this [of "[]" "publishQueue b"] have len: "length batches \<le> length (publishQueue b)" by (simp add: b)
  have "\<forall>q\<in>set batches. batch_ok q" "\<forall>q\<in>set batches. batch_within_limits q"
    using assms(1,2) inflight_loop_ok [of "[]" "publishQueue b"] inflight_loop_limits [of "[]" "publishQueue b"]
    by (simp_all add: b)
  with len show ?thesis using b(2) by (simp add: inflight_loop_messages b(1))
qed

theorem InFlightBatches_correct_witness:
  "let h = (\<lambda>n. \<lparr>mh_msg = \<lparr>pm_key = [], pm_data = []\<rparr>, mh_size = 10, mh_onResult = n\<rparr>);
       q = [\<lparr>msgHolders = [h 1], totalSize = 10\<rparr>, \<lparr>msgHolders = [h 2], totalSize = 10\<rparr>];
       b = \<lparr>pb_partition = 0, msgBundler = (), publishQueue = q, minExpectedNextOffset = 0, availableBufferBytes = 5\<rparr>
   in inflight (snd (InFlightBatches b)) = [h 1, h 2] \<and> length (snd (InFlightBatches b)) = 1"
proof -
  let ?h = "\<lambda>n. \<lparr>mh_msg = \<lparr>pm_key = [], pm_data = []\<rparr>, mh_size = 10, mh_onResult = n\<rparr>"
  let ?b = "\<lparr>pb_partition = 0, msgBundler = (),
      publishQueue = [\<lparr>msgHolders = [?h 1], totalSize = 10\<rparr>, \<lparr>msgHolders = [?h 2], totalSize = 10\<rparr>],
      minExpectedNextOffset = 0, availableBufferBytes = 5\<rparr>"
  have "InFlightBatches ?b = (fst (InFlightBatches ?b), snd (InFlightBatches ?b))" by simp
  from InFlightBatches_correct [OF _ _ this]
  have "inflight (snd (InFlightBatches ?b)) = [?h 1, ?h 2]"
    by (simp add: batch_ok_def batch_within_limits_def MaxPublishRequestBytes_def MaxPublishRequestCount_def maxInt64_def)
  moreover have "length (snd (InFlightBatches ?b)) = 1"
    by (simp add: InFlightBatches_def Let_def mergeable_def MaxPublishRequestBytes_def
        MaxPublishRequestCount_def wrap64_def)
  ultimately show ?thesis by (simp add: Let_def)
qed


section \<open>Buffer accounting and ordering of results\<close>

text \<open>What the batcher relies on in the bundler: an item whose addition is accepted is appended
  to the items the bundler holds, a refused addition changes nothing, and the bundles it
  hands to its handler are taken from the front (\<^verbatim>\<open>HandlerLimit = 1\<close> serialises them).\<close>

definition bundler_ok ::
  "(messageHolder \<Rightarrow> int \<Rightarrow> 'b \<Rightarrow> 'b \<times> wire_error option) \<Rightarrow> ('b \<Rightarrow> 'b \<times> messageHolder list) \<Rightarrow>
   ('b \<Rightarrow> messageHolder list) \<Rightarrow> bool" where
  "bundler_ok bundler_Add handover contents \<longleftrightarrow>
     (\<forall>h n bu bu'. bundler_Add h n bu = (bu', None) \<longrightarrow> contents bu' = contents bu @ [h])
   \<and> (\<forall>h n bu bu' e. bundler_Add h n bu = (bu', Some e) \<longrightarrow> contents bu' = contents bu)
   \<and> (\<forall>bu bu' msgs. handover bu = (bu', msgs) \<longrightarrow> contents bu = msgs @ contents bu')"

text \<open>A run of the batcher, with the callbacks of the accepted messages and the results
  reported so far.  An error response leaves the state as it is (the publisher then
  terminates).\<close>

datatype batcherEvent = BeAdd PubSubMessage nat | BeBundle | BeResponse int | BeReconnect

type_synonym 'b batcherState = "'b publishMessageBatcher \<times> nat list \<times> publishResult list"

fun batcher_step ::
  "(messageHolder \<Rightarrow> int \<Rightarrow> 'b \<Rightarrow> 'b \<times> wire_error option) \<Rightarrow> (PubSubMessage \<Rightarrow> int) \<Rightarrow>
   ('b \<Rightarrow> 'b \<times> messageHolder list) \<Rightarrow> batcherEvent \<Rightarrow> 'b batcherState \<Rightarrow> 'b batcherState" where
  "batcher_step add sz hand (BeAdd msg cb) (b, acc, rs) =
     (case AddMessage add sz msg cb b of
        (b', None) \<Rightarrow> (b', acc @ [cb], rs) | (b', Some e) \<Rightarrow> (b', acc, rs))"
| "batcher_step add sz hand BeBundle (b, acc, rs) =
     (case hand (msgBundler b) of (bu', msgs) \<Rightarrow>
        case new_batch msgs of
          None \<Rightarrow> (b\<lparr>msgBundler := bu'\<rparr>, acc, rs)
        | Some batch \<Rightarrow> (AddBatch batch (b\<lparr>msgBundler := bu'\<rparr>), acc, rs))"
| "batcher_step add sz hand (BeResponse off) (b, acc, rs) =
     (case OnPublishResponse off b of (b', res, e) \<Rightarrow> (b', acc, rs @ res))"
| "batcher_step add sz hand BeReconnect (b, acc, rs) = (fst (InFlightBatches b), acc, rs)"

definition batcher_run where
  "batcher_run add sz hand es s = fold (batcher_step add sz hand) es s"

definition result_offsets :: "publishResult list \<Rightarrow> int list" where
  "result_offsets rs = map (\<lambda>(cb, mm, e). case mm of Some m \<Rightarrow> mm_Offset m | None \<Rightarrow> -1) rs"

definition batcher_inv :: "('b \<Rightarrow> messageHolder list) \<Rightarrow> int \<Rightarrow> 'b batcherState \<Rightarrow> bool" where
  "batcher_inv contents limit s \<longleftrightarrow>
     (case s of (b, acc, rs) \<Rightarrow>
        let held = inflight (publishQueue b) @ contents (msgBundler b)
        in (\<forall>h\<in>set held. 0 \<le> mh_size h)
         \<and> (\<forall>q\<in>set (publishQueue b). batch_ok q)
         \<and> 0 \<le> availableBufferBytes b
         \<and> availableBufferBytes b + sizes held = limit
         \<and> acc = map fst rs @ map mh_onResult held
         \<and> sorted_wrt (<) (result_offsets rs)
         \<and> (\<forall>x\<in>set (result_offsets rs). x < minExpectedNextOffset b))"

lemma batcher_inv_new:
  assumes "contents bu = []" and "0 \<le> BufferedByteLimit st"
  shows "batcher_inv contents (BufferedByteLimit st) (newPublishMessageBatcher st p bu, [], [])"
  using assms by (simp add: batcher_inv_def newPublishMessageBatcher_def result_offsets_def)

lemma batcher_inv_Add:
  assumes "bundler_ok add hand contents" and "batcher_inv contents limit (b, acc, rs)"
    and "limit \<le> maxInt64" and "0 \<le> sz msg"
  shows "batcher_inv contents limit (batcher_step add sz hand (BeAdd msg cb) (b, acc, rs))"
proof -
  let ?h = "\<lparr>mh_msg = msg, mh_size = sz msg, mh_onResult = cb\<rparr>"
  obtain bu' e where add: "add ?h (sz msg) (msgBundler b) = (bu', e)" by fastforce
  have "0 \<le> sizes (inflight (publishQueue b) @ contents (msgBundler b))"
    using assms(2) by (intro sizes_nonneg) (auto simp: batcher_inv_def Let_def)
  then have "wrap64 (availableBufferBytes b - sz msg) = availableBufferBytes b - sz msg"
    if "sz msg \<le> availableBufferBytes b"
    using that assms(2-4) by (intro wrap64_id) (auto simp: batcher_inv_def Let_def int64_defs)
  moreover have "contents bu' = (if e = None then contents (msgBundler b) @ [?h] else contents (msgBundler b))"
    using assms(1) add unfolding bundler_ok_def by (cases e; simp; blast)
  ultimately show ?thesis
    using assms(2,4) add
    by (cases e) (auto simp: AddMessage_def Let_def batcher_inv_def)
qed

lemma new_batch_ok:
  assumes "msgs \<noteq> []" and "\<forall>h\<in>set msgs. 0 \<le> mh_size h" and "sizes msgs \<le> maxInt64"
  shows "\<exists>batch. new_batch msgs = Some batch \<and> msgHolders batch = msgs \<and> batch_ok batch"
  using assms sizes_fold [of msgs 0] by (simp add: new_batch_def batch_ok_def)

lemma batcher_inv_Bundle:
  assumes "bundler_ok add hand contents" and "batcher_inv contents limit (b, acc, rs)"
    and "limit \<le> maxInt64"
  shows "batcher_inv contents limit (batcher_step add sz hand BeBundle (b, acc, rs))"
proof -
  obtain bu' msgs where h: "hand (msgBundler b) = (bu', msgs)" by fastforce
  have c: "contents (msgBundler b) = msgs @ contents bu'" using assms(1) h by (simp add: bundler_ok_def)
  show ?thesis
  proof (cases "msgs = []")
    case True
    with assms(2) h c show ?thesis by (simp add: batcher_inv_def new_batch_def)
  next
    case False
    have "0 \<le> sizes (inflight (publishQueue b))" "0 \<le> sizes (contents bu')"
      using assms(2) c by (auto simp: batcher_inv_def Let_def intro!: sizes_nonneg)
    then have "sizes msgs \<le> maxInt64" "\<forall>h\<in>set msgs. 0 \<le> mh_size h"
      using assms(2,3) c by (auto simp: batcher_inv_def Let_def)
    with new_batch_ok [OF False] obtain batch where
      "new_batch msgs = Some batch" "msgHolders batch = msgs" "batch_ok batch" by blast
    with assms(2) h c show ?thesis by (simp add: batcher_inv_def AddBatch_def Let_def)
  qed
qed


lemma result_offsets_batch:
  assumes "is_int64 f" and "is_int64 (f + int (length hs))"
  shows "result_offsets (snd (release_loop p f 0 hs a)) = map (\<lambda>i. f + int i) [0..<length hs]"
proof -
  have "wrap64 (f + int i) = f + int i" if "i < length hs" for i
    using assms that by (intro wrap64_id) (auto simp: int64_defs)
  then show ?thesis
    by (auto simp: release_loop_results result_offsets_def enumerate_eq_zip comp_def split_beta
        intro!: nth_equalityI)
qed

lemma batcher_inv_Response:
  assumes "batcher_inv contents limit (b, acc, rs)" and "limit \<le> maxInt64"
    and "is_int64 off" and "publishQueue b \<noteq> [] \<longrightarrow> is_int64 (off + int (length (msgHolders (hd (publishQueue b)))))"
  shows "batcher_inv contents limit (batcher_step add sz hand (BeResponse off) (b, acc, rs))"
proof (cases "publishQueue b = [] \<or> off < minExpectedNextOffset b")
  case True
  with assms(1) show ?thesis by (auto simp: OnPublishResponse_def split: list.splits)
next
  case False
  then obtain batch rest where q: "publishQueue b = batch # rest" by (cases "publishQueue b") auto
  let ?hs = "msgHolders batch"
  let ?rl = "release_loop (pb_partition b) off 0 ?hs (availableBufferBytes b)"
  have inv: "\<forall>h\<in>set (?hs @ inflight rest @ contents (msgBundler b)). 0 \<le> mh_size h"
    "\<forall>x\<in>set rest. batch_ok x" "0 \<le> availableBufferBytes b"
    "availableBufferBytes b + (sizes ?hs + (sizes (inflight rest) + sizes (contents (msgBundler b)))) = limit"
    "acc = map fst rs @ map mh_onResult ?hs @ map mh_onResult (inflight rest) @ map mh_onResult (contents (msgBundler b))"
    "sorted_wrt (<) (result_offsets rs)" "\<forall>x\<in>set (result_offsets rs). x < minExpectedNextOffset b"
    using assms(1) by (simp_all add: batcher_inv_def Let_def q)
  have i64: "is_int64 (off + int (length ?hs))" using assms(4) q by simp
  have nn: "0 \<le> sizes (inflight rest)" "0 \<le> sizes (contents (msgBundler b))" "0 \<le> sizes ?hs"
    using inv by (auto intro!: sizes_nonneg)
  have avail: "fst ?rl = availableBufferBytes b + sizes ?hs"
    using inv nn assms(2) by (intro release_loop_avail) auto
  have offs: "result_offsets (snd ?rl) = map (\<lambda>i. off + int i) [0..<length ?hs]"
    using assms(3) i64 by (rule result_offsets_batch)
  have cbs: "map fst (snd ?rl) = map mh_onResult ?hs"
    by (simp add: release_loop_results comp_def split_beta enumerate_map_snd)
  have step: "batcher_step add sz hand (BeResponse off) (b, acc, rs) =
      (b\<lparr>availableBufferBytes := fst ?rl, minExpectedNextOffset := off + int (length ?hs), publishQueue := rest\<rparr>,
       acc, rs @ snd ?rl)"
    using False i64 by (simp add: OnPublishResponse_def q split_beta)
  have app: "result_offsets (rs @ snd ?rl) = result_offsets rs @ map (\<lambda>i. off + int i) [0..<length ?hs]"
    using offs by (simp add: result_offsets_def)
  have srt: "sorted_wrt (<) (map (\<lambda>i. off + int i) [0..<length ?hs])"
    by (simp add: sorted_wrt_map)
  show ?thesis unfolding step batcher_inv_def Let_def
    using inv avail cbs False srt nn
    by (auto simp: app sorted_wrt_append intro!: sizes_nonneg)
qed


lemma batcher_inv_Reconnect:
  assumes "batcher_inv contents limit (b, acc, rs)" and "limit \<le> maxInt64"
  shows "batcher_inv contents limit (batcher_step add sz hand BeReconnect (b, acc, rs))"
proof -
  have held: "\<forall>h\<in>set (inflight (publishQueue b) @ contents (msgBundler b)). 0 \<le> mh_size h"
    "\<forall>q\<in>set (publishQueue b). batch_ok q"
    "availableBufferBytes b + (sizes (inflight (publishQueue b)) + sizes (contents (msgBundler b))) = limit"
    "0 \<le> availableBufferBytes b"
    using assms(1) by (simp_all add: batcher_inv_def Let_def)
  then have "0 \<le> sizes (contents (msgBundler b))" by (intro sizes_nonneg) simp
  then have "sizes (inflight (publishQueue b)) \<le> maxInt64" using held assms(2) by linarith
  then have "\<forall>q\<in>set (inflight_loop [] (publishQueue b)). batch_ok q"
    using inflight_loop_ok [of "[]" "publishQueue b"] held by simp
  with assms(1) show ?thesis
    by (simp add: batcher_inv_def InFlightBatches_def Let_def inflight_loop_messages)
qed

fun event_ok :: "(PubSubMessage \<Rightarrow> int) \<Rightarrow> batcherEvent \<Rightarrow> bool" where
  "event_ok sz (BeAdd msg cb) = (0 \<le> sz msg)"
| "event_ok sz (BeResponse off) = (0 \<le> off \<and> off \<le> 4611686018427387904)"
| "event_ok sz _ = True"

lemma batcher_step_accepted:
  "length (fst (snd (batcher_step add sz hand e (b, acc, rs)))) \<le> Suc (length acc)"
  by (cases e) (auto split: prod.splits option.splits)

lemma batcher_step_inv:
  assumes "bundler_ok add hand contents" and "batcher_inv contents limit s" and "limit \<le> maxInt64"
    and "event_ok sz e" and "int (length (fst (snd s))) \<le> 4611686018427387903"
  shows "batcher_inv contents limit (batcher_step add sz hand e s)"
proof -
  obtain b acc rs where s: "s = (b, acc, rs)" by (cases s)
  show ?thesis
  proof (cases e)
    case (BeResponse off)
    have "length (msgHolders (hd (publishQueue b))) \<le> length acc" if "publishQueue b \<noteq> []"
    proof -
      have "length acc = length rs + length (inflight (publishQueue b) @ contents (msgBundler b))"
        using assms(2) s by (simp add: batcher_inv_def Let_def)
      moreover have "inflight (publishQueue b) = msgHolders (hd (publishQueue b)) @ inflight (tl (publishQueue b))"
        using that by (cases "publishQueue b") auto
      ultimately show ?thesis by simp
    qed
    then show ?thesis
      using assms unfolding s BeResponse by (intro batcher_inv_Response) (auto simp: int64_defs)
  qed (use assms s in \<open>auto intro: batcher_inv_Add batcher_inv_Bundle batcher_inv_Reconnect simp del: batcher_step.simps\<close>)
qed

lemma batcher_run_inv:
  assumes "bundler_ok add hand contents" and "batcher_inv contents limit s" and "limit \<le> maxInt64"
    and "\<forall>e\<in>set es. event_ok sz e" and "int (length (fst (snd s)) + length es) \<le> 4611686018427387903"
  shows "batcher_inv contents limit (batcher_run add sz hand es s)"
  using assms(2,4,5)
proof (induction es arbitrary: s)
  case (Cons e es)
  have "batcher_inv contents limit (batcher_step add sz hand e s)"
    using Cons.prems by (intro batcher_step_inv [OF assms(1) _ assms(3)]) auto
  moreover have "length (fst (snd (batcher_step add sz hand e s))) \<le> Suc (length (fst (snd s)))"
    using batcher_step_accepted by (cases s) auto
  ultimately show ?case
    using Cons.IH [of "batcher_step add sz hand e s"] Cons.prems by (simp add: batcher_run_def)
qed (simp add: batcher_run_def)

text \<open>A response that is accepted: the messages of the first batch get consecutive offsets.\<close>

lemma response_results:
  assumes "is_int64 off" "is_int64 (off + int (length (msgHolders batch)))" "publishQueue b = batch # rest" "minExpectedNextOffset b \<le> off"
  shows "snd (snd (batcher_step add sz hand (BeResponse off) (b, acc, rs)))
    = rs @ map (\<lambda>(i, h). (mh_onResult h, Some \<lparr>Partition = pb_partition b, mm_Offset = off + int i\<rparr>, None)) (enumerate 0 (msgHolders batch))"
proof -
  have "wrap64 (off + int i) = off + int i" if "i < length (msgHolders batch)" for i
    using assms(1,2) that by (intro wrap64_id) (auto simp: int64_defs)
  then have "map (\<lambda>(i, h). (mh_onResult h, Some \<lparr>Partition = pb_partition b, mm_Offset = wrap64 (off + int i)\<rparr>, None :: wire_error option))
        (enumerate 0 (msgHolders batch))
      = map (\<lambda>(i, h). (mh_onResult h, Some \<lparr>Partition = pb_partition b, mm_Offset = off + int i\<rparr>, None)) (enumerate 0 (msgHolders batch))"
    by (auto simp: in_set_enumerate_eq)
  then show ?thesis using assms(3,4) by (simp add: OnPublishResponse_def split_beta release_loop_results)
qed

lemma batch_length:
  assumes "batcher_inv contents limit (b, acc, rs)" "publishQueue b = batch # rest"
  shows "length (msgHolders batch) \<le> length acc"
  using assms by (simp add: batcher_inv_def Let_def)

lemma batcher_run_accepted: "length (fst (snd (batcher_run add sz hand es s))) \<le> length (fst (snd s)) + length es"
proof (induction es arbitrary: s)
  case (Cons e es)
  have "length (fst (snd (batcher_step add sz hand e s))) \<le> Suc (length (fst (snd s)))"
    using batcher_step_accepted by (cases s) auto
  with Cons.IH [of "batcher_step add sz hand e s"] show ?case by (simp add: batcher_run_def)
qed (simp add: batcher_run_def)

text \<open>C7: Publishing is first in, first out and loses nothing: after any run of accepted messages,
  bundles, publish responses and reconnections, the accepted messages are, in order, those
  whose results were reported, those in flight and those still in the bundler; the offsets
  reported are strictly increasing; the free buffer space is exactly the configured limit
  less the sizes of the messages not yet answered, and never negative; and whatever the next response is, it either reports nothing (no batch is
  in flight, or its offset is below the one expected) or reports to the messages of the first batch in flight, in order, the
  consecutive offsets that begin with its own.\<close>

theorem batcher_fifo_and_accounting:
  assumes "bundler_ok add hand contents" and "contents bu = []"
    and "validatePublishSettings st = None" and "BufferedByteLimit st \<le> maxInt64"
    and "\<forall>e\<in>set es. event_ok sz e" and "int (length es) \<le> 4611686018427387903"
    and "batcher_run add sz hand es (newPublishMessageBatcher st p bu, [], []) = (b, accepted, results)"
    and "event_ok sz (BeResponse off)"
  shows "accepted = map fst results @ map mh_onResult (inflight (publishQueue b) @ contents (msgBundler b))
       \<and> sorted_wrt (<) (result_offsets results)
       \<and> availableBufferBytes b = BufferedByteLimit st - sizes (inflight (publishQueue b) @ contents (msgBundler b))
       \<and> 0 \<le> availableBufferBytes b
       \<and> snd (snd (batcher_step add sz hand (BeResponse off) (b, accepted, results))) = results @
           (case publishQueue b of
              [] \<Rightarrow> []
            | batch # _ \<Rightarrow>
                if off < minExpectedNextOffset b then []
                else map (\<lambda>(i, h). (mh_onResult h, Some \<lparr>Partition = pb_partition b, mm_Offset = off + int i\<rparr>, None))
                       (enumerate 0 (msgHolders batch)))"
proof -
  have "0 \<le> BufferedByteLimit st" using validatePublishSettings_ok [OF assms(3)] by simp
  then have "batcher_inv contents (BufferedByteLimit st) (newPublishMessageBatcher st p bu, [], [])"
    using assms(2) by (simp add: batcher_inv_new)
  with batcher_run_inv [OF assms(1) _ assms(4,5)] assms(6,7)
  have inv: "batcher_inv contents (BufferedByteLimit st) (b, accepted, results)" by (metis add_0 fst_conv list.size(3) snd_conv)
  have len: "length accepted \<le> length es"
    using batcher_run_accepted [of add sz hand es "(newPublishMessageBatcher st p bu, [], [])"] assms(7) by simp
  have "snd (snd (batcher_step add sz hand (BeResponse off) (b, accepted, results))) = results @
      map (\<lambda>(i, h). (mh_onResult h, Some \<lparr>Partition = pb_partition b, mm_Offset = off + int i\<rparr>, None)) (enumerate 0 (msgHolders batch))"
    if "publishQueue b = batch # rest" "minExpectedNextOffset b \<le> off" for batch rest
  proof (rule response_results [OF _ _ that])
    have "int (length (msgHolders batch)) \<le> 4611686018427387903" using batch_length [OF inv that(1)] len assms(6) by linarith
    then show "is_int64 off" "is_int64 (off + int (length (msgHolders batch)))" using assms(8) by (auto simp: int64_defs)
  qed
  moreover have "snd (snd (batcher_step add sz hand (BeResponse off) (b, accepted, results))) = results"
    if "publishQueue b = [] \<or> off < minExpectedNextOffset b"
    using that by (auto simp: OnPublishResponse_def split: list.split)
  ultimately show ?thesis using inv
    by (cases "publishQueue b") (auto simp: batcher_inv_def Let_def simp del: batcher_step.simps split: if_splits)
qed

text \<open>A bundler that keeps its items in a list and hands over at most two at a time.\<close>

definition list_bundler_Add :: "messageHolder \<Rightarrow> int \<Rightarrow> messageHolder list \<Rightarrow> messageHolder list \<times> wire_error option" where
  "list_bundler_Add h n bu = (bu @ [h], None)"

definition list_bundler_handover :: "messageHolder list \<Rightarrow> messageHolder list \<times> messageHolder list" where
  "list_bundler_handover bu = (drop 2 bu, take 2 bu)"

lemma list_bundler_ok: "bundler_ok list_bundler_Add list_bundler_handover (\<lambda>bu. bu)"
  by (simp add: bundler_ok_def list_bundler_Add_def list_bundler_handover_def)

text \<open>Two messages in one batch; the response then gives them the offsets 20 and 21.\<close>

theorem batcher_fifo_and_accounting_witness:
  "let (b, accepted, results) = batcher_run list_bundler_Add (\<lambda>_. 100) list_bundler_handover
         [BeAdd \<lparr>pm_key = [], pm_data = []\<rparr> 7, BeAdd \<lparr>pm_key = [], pm_data = []\<rparr> 8, BeBundle]
         (newPublishMessageBatcher DefaultPublishSettings 3 [], [], [])
   in accepted = map fst results @ map mh_onResult (inflight (publishQueue b) @ msgBundler b)
    \<and> snd (snd (batcher_step list_bundler_Add (\<lambda>_. 100) list_bundler_handover (BeResponse 20) (b, accepted, results)))
      = [(7, Some \<lparr>Partition = 3, mm_Offset = 20\<rparr>, None), (8, Some \<lparr>Partition = 3, mm_Offset = 21\<rparr>, None)]"
proof -
  let ?es = "[BeAdd \<lparr>pm_key = [], pm_data = []\<rparr> 7, BeAdd \<lparr>pm_key = [], pm_data = []\<rparr> 8, BeBundle]"
  obtain b accepted results where run: "batcher_run list_bundler_Add (\<lambda>_. 100) list_bundler_handover ?es
      (newPublishMessageBatcher DefaultPublishSettings 3 [], [], []) = (b, accepted, results)"
    using prod_cases3 by blast
  have q: "results = [] \<and> pb_partition b = 3 \<and> minExpectedNextOffset b = 0
      \<and> map (\<lambda>q. map mh_onResult (msgHolders q)) (publishQueue b) = [[7, 8]]"
    using run by (simp add: batcher_run_def newPublishMessageBatcher_def DefaultPublishSettings_def AddMessage_def Let_def list_bundler_Add_def
        list_bundler_handover_def new_batch_def AddBatch_def MaxPublishRequestBytes_def wrap64_def int64_defs) (auto)
  then obtain batch h1 h2 where b: "publishQueue b = [batch]" "msgHolders batch = [h1, h2]" "mh_onResult h1 = 7" "mh_onResult h2 = 8"
    by (auto simp: map_eq_Cons_conv)
  have "validatePublishSettings DefaultPublishSettings = None" by (rule default_settings_valid)
  moreover have "BufferedByteLimit DefaultPublishSettings \<le> maxInt64" by (simp add: maxInt64_def DefaultPublishSettings_def)
  moreover have "\<forall>e\<in>set ?es. event_ok (\<lambda>_. 100) e" "int (length ?es) \<le> 4611686018427387903" "event_ok (\<lambda>_. 100) (BeResponse 20)"
    by simp_all
  ultimately have t: "accepted = map fst results @ map mh_onResult (inflight (publishQueue b) @ msgBundler b)"
    "snd (snd (batcher_step list_bundler_Add (\<lambda>_. 100) list_bundler_handover (BeResponse 20) (b, accepted, results)))
      = results @ (case publishQueue b of [] \<Rightarrow> [] | batch # _ \<Rightarrow>
          if 20 < minExpectedNextOffset b then []
          else map (\<lambda>(i, h). (mh_onResult h, Some \<lparr>Partition = pb_partition b, mm_Offset = 20 + int i\<rparr>, None)) (enumerate 0 (msgHolders batch)))"
    using batcher_fifo_and_accounting [OF list_bundler_ok refl _ _ _ _ run, of 20] by blast+
  have "snd (snd (batcher_step list_bundler_Add (\<lambda>_. 100) list_bundler_handover (BeResponse 20) (b, accepted, results)))
      = [(7, Some \<lparr>Partition = 3, mm_Offset = 20\<rparr>, None), (8, Some \<lparr>Partition = 3, mm_Offset = 21\<rparr>, None)]"
    unfolding t(2) using q b by simp
  with t(1) show ?thesis unfolding run Let_def prod.case by blast
qed

end
