(* ===== verification/Wire_Timers.thy ===== *)
theory Wire_Timers
  imports Wire_Errors
begin

text \<open>
  The background timers of the wire package: \<^verbatim>\<open>periodic_task.go\<close> (a polling goroutine that can
  be started and stopped) and \<^verbatim>\<open>request_timer.go\<close> (a one-shot timer bounding a request, and
  the timer that detects idle streams).  Durations and instants are integers (nanoseconds of a
  monotonic clock); the current time is an argument.
\<close>

section \<open>periodicTask\<close>

text \<open>A ticker and the stop channel made with it are identified by a number drawn from
  \<open>pt_next\<close>; \<open>pt_pollers\<close> lists the stop channels of the goroutines started and \<open>pt_closed\<close>
  the channels closed so far.\<close>

record periodicTask =
  pt_period :: int
  pt_ticker :: "nat option"
  pt_stop :: "nat option"
  pt_next :: nat
  pt_pollers :: "nat list"
  pt_closed :: "nat list"

definition newPeriodicTask :: "int \<Rightarrow> periodicTask" where
  "newPeriodicTask period =
     \<lparr>pt_period = period, pt_ticker = None, pt_stop = None, pt_next = 0, pt_pollers = [], pt_closed = []\<rparr>"

definition periodicTask_Start :: "periodicTask \<Rightarrow> periodicTask" where
  "periodicTask_Start pt =
     (if pt_ticker pt \<noteq> None \<or> pt_period pt \<le> 0 then pt
      else pt\<lparr>pt_ticker := Some (pt_next pt), pt_stop := Some (pt_next pt),
              pt_next := Suc (pt_next pt), pt_pollers := pt_pollers pt @ [pt_next pt]\<rparr>)"

text \<open>Closing the stop channel; \<^verbatim>\<open>close\<close> panics on a nil channel and on one that is closed,
  which \<open>periodicTask_single_poller\<close> below excludes.\<close>

definition close_stop :: "periodicTask \<Rightarrow> periodicTask" where
  "close_stop pt = (case pt_stop pt of Some c \<Rightarrow> pt\<lparr>pt_closed := pt_closed pt @ [c]\<rparr> | None \<Rightarrow> pt)"

definition periodicTask_Stop :: "periodicTask \<Rightarrow> periodicTask" where
  "periodicTask_Stop pt =
     (if pt_ticker pt = None then pt
      else (close_stop pt)\<lparr>pt_ticker := None, pt_stop := None\<rparr>)"

text \<open>One round of the loop of \<^verbatim>\<open>poll\<close>: the two \<^verbatim>\<open>select\<close> statements see whether the stop channel
  is closed at their time; when both channels of the second one are ready the runtime picks
  one (\<open>pick_stop\<close>).  The result says whether the goroutine ends, runs the task or waits.\<close>

datatype poll_result = PollEnds | PollRunsTask | PollBlocks

definition poll :: "bool \<Rightarrow> bool \<Rightarrow> bool \<Rightarrow> bool \<Rightarrow> poll_result" where
  "poll stopped1 stopped2 tick pick_stop =
     (if stopped1 then PollEnds
      else if stopped2 \<and> (\<not> tick \<or> pick_stop) then PollEnds
      else if tick then PollRunsTask
      else PollBlocks)"

datatype taskEvent = TeStart | TeStop

fun task_step :: "taskEvent \<Rightarrow> periodicTask \<Rightarrow> periodicTask" where
  "task_step TeStart pt = periodicTask_Start pt"
| "task_step TeStop pt = periodicTask_Stop pt"

definition live_pollers :: "periodicTask \<Rightarrow> nat list" where
  "live_pollers pt = filter (\<lambda>c. c \<notin> set (pt_closed pt)) (pt_pollers pt)"

definition task_inv :: "periodicTask \<Rightarrow> bool" where
  "task_inv pt \<longleftrightarrow>
     live_pollers pt = (case pt_ticker pt of None \<Rightarrow> [] | Some c \<Rightarrow> [c])
   \<and> pt_stop pt = pt_ticker pt
   \<and> distinct (pt_closed pt)
   \<and> set (pt_closed pt) \<subseteq> {..< pt_next pt}
   \<and> (\<forall>c. pt_ticker pt = Some c \<longrightarrow> c < pt_next pt \<and> c \<notin> set (pt_closed pt))"

lemma task_inv_step: "task_inv pt \<Longrightarrow> task_inv (task_step e pt)"
proof (cases e)
  case TeStart
  assume inv: "task_inv pt"
  have "pt_next pt \<notin> set (pt_closed pt)" using inv by (auto simp: task_inv_def)
  then show ?thesis using inv TeStart
    by (auto simp: task_inv_def periodicTask_Start_def live_pollers_def)
next
  case TeStop
  assume inv: "task_inv pt"
  show ?thesis
  proof (cases "pt_ticker pt")
    case None
    then show ?thesis using inv TeStop by (simp add: periodicTask_Stop_def)
  next
    case (Some c)
    have "filter (\<lambda>x. x \<notin> set (pt_closed pt) \<and> x \<noteq> c) (pt_pollers pt)
        = filter (\<lambda>x. x \<noteq> c) (live_pollers pt)"
      by (simp add: live_pollers_def conj_commute)
    also have "\<dots> = []" using inv Some by (simp add: task_inv_def)
    finally have "filter (\<lambda>d. d \<notin> set (pt_closed pt) \<and> d \<noteq> c) (pt_pollers pt) = []" .
    then show ?thesis using inv TeStop Some
      by (auto simp: task_inv_def periodicTask_Stop_def close_stop_def live_pollers_def conj_commute)
  qed
qed

lemma task_inv_run: "task_inv pt \<Longrightarrow> task_inv (fold task_step es pt)"
  by (induction es arbitrary: pt) (simp_all add: task_inv_step)

text \<open>However \<^verbatim>\<open>Start\<close> and \<^verbatim>\<open>Stop\<close> are called, a periodic task has at most one live polling
  goroutine, exactly when its ticker is set; no stop channel is closed twice or while nil; and
  a goroutine whose channel is closed when it comes round never runs the task again.\<close>

theorem periodicTask_single_poller:
  "let pt = fold task_step es (newPeriodicTask period)
   in live_pollers pt = (case pt_ticker pt of None \<Rightarrow> [] | Some c \<Rightarrow> [c])
    \<and> distinct (pt_closed pt) \<and> (pt_ticker pt = None) = (pt_stop pt = None)
    \<and> poll True s2 tick pick \<noteq> PollRunsTask"
proof -
  have "task_inv (newPeriodicTask period)"
    by (simp add: task_inv_def newPeriodicTask_def live_pollers_def)
  from task_inv_run [OF this, of es] show ?thesis
    by (simp add: task_inv_def Let_def poll_def)
qed

section \<open>requestTimer\<close>

datatype timerStatus = timerActive | timerStopped | timerTriggered

definition minDuration :: "int \<Rightarrow> int \<Rightarrow> int" where
  "minDuration a b = (if a < b then a else b)"

text \<open>\<open>rt_fired\<close> counts the calls of \<^verbatim>\<open>onTimeout\<close>.\<close>

record requestTimer =
  rt_timeoutErr :: wire_error
  rt_status :: timerStatus
  rt_fired :: nat

definition newRequestTimer :: "wire_error \<Rightarrow> requestTimer" where
  "newRequestTimer timeoutErr = \<lparr>rt_timeoutErr = timeoutErr, rt_status = timerActive, rt_fired = 0\<rparr>"

definition onTriggered :: "requestTimer \<Rightarrow> requestTimer" where
  "onTriggered rt =
     (if rt_status rt = timerActive
      then rt\<lparr>rt_status := timerTriggered, rt_fired := Suc (rt_fired rt)\<rparr> else rt)"

definition requestTimer_Stop :: "requestTimer \<Rightarrow> requestTimer" where
  "requestTimer_Stop rt =
     (if rt_status rt = timerActive then rt\<lparr>rt_status := timerStopped\<rparr> else rt)"

definition ResolveError :: "wire_error option \<Rightarrow> requestTimer \<Rightarrow> wire_error option" where
  "ResolveError originalErr rt =
     (if rt_status rt = timerTriggered then Some (rt_timeoutErr rt) else originalErr)"

datatype requestTimerEvent = ReTriggered | ReStop

fun request_step :: "requestTimerEvent \<Rightarrow> requestTimer \<Rightarrow> requestTimer" where
  "request_step ReTriggered rt = onTriggered rt"
| "request_step ReStop rt = requestTimer_Stop rt"

lemma request_settled:
  "rt_status rt \<noteq> timerActive \<Longrightarrow> fold request_step es rt = rt"
proof (induction es)
  case (Cons e es)
  then show ?case by (cases e) (simp_all add: onTriggered_def requestTimer_Stop_def)
qed simp

text \<open>A request timer is decided by what happens to it first: if it expires before it is
  stopped, the timeout handler runs exactly once and every error is resolved to the timeout
  error; if it is stopped first, the handler never runs and errors are passed on.\<close>

theorem requestTimer_one_shot:
  "let rt = fold request_step (e # es) (newRequestTimer terr)
   in case e of ReTriggered \<Rightarrow> rt_fired rt = 1 \<and> ResolveError err rt = Some terr
              | ReStop \<Rightarrow> rt_fired rt = 0 \<and> ResolveError err rt = err"
proof (cases e)
  case ReTriggered
  have "rt_status (onTriggered (newRequestTimer terr)) \<noteq> timerActive"
    by (simp add: onTriggered_def newRequestTimer_def)
  from request_settled [OF this, of es] show ?thesis using ReTriggered
    by (simp add: Let_def onTriggered_def newRequestTimer_def ResolveError_def)
next
  case ReStop
  have "rt_status (requestTimer_Stop (newRequestTimer terr)) \<noteq> timerActive"
    by (simp add: requestTimer_Stop_def newRequestTimer_def)
  from request_settled [OF this, of es] show ?thesis using ReStop
    by (simp add: Let_def requestTimer_Stop_def newRequestTimer_def ResolveError_def)
qed

section \<open>streamIdleTimer\<close>

record streamIdleTimer =
  st_timeout :: int
  st_task :: periodicTask
  st_status :: timerStatus
  st_startTime :: int

definition pollDivisor :: int where
  "pollDivisor = 4"

definition maxPollInterval :: int where
  "maxPollInterval = 60000000000"

definition newStreamIdleTimer :: "int \<Rightarrow> streamIdleTimer" where
  "newStreamIdleTimer timeout =
     \<lparr>st_timeout = timeout,
      st_task = periodicTask_Start (newPeriodicTask (minDuration (go_div timeout pollDivisor) maxPollInterval)),
      st_status = timerStopped, st_startTime = 0\<rparr>"

definition streamIdleTimer_Restart :: "int \<Rightarrow> streamIdleTimer \<Rightarrow> streamIdleTimer" where
  "streamIdleTimer_Restart now st = st\<lparr>st_status := timerActive, st_startTime := now\<rparr>"

definition streamIdleTimer_Stop :: "streamIdleTimer \<Rightarrow> streamIdleTimer" where
  "streamIdleTimer_Stop st = st\<lparr>st_status := timerStopped\<rparr>"

definition streamIdleTimer_Shutdown :: "streamIdleTimer \<Rightarrow> streamIdleTimer" where
  "streamIdleTimer_Shutdown st =
     (streamIdleTimer_Stop st)\<lparr>st_task := periodicTask_Stop (st_task st)\<rparr>"

text \<open>The result says whether \<^verbatim>\<open>onTimeout\<close> is called.\<close>

definition onPoll :: "int \<Rightarrow> streamIdleTimer \<Rightarrow> streamIdleTimer \<times> bool" where
  "onPoll now st =
     (if st_status st = timerActive \<and> now - st_startTime st > st_timeout st
      then (st\<lparr>st_status := timerTriggered\<rparr>, True) else (st, False))"

datatype idleEvent = IeRestart int | IeStop | IeShutdown | IePoll int

fun idle_step :: "idleEvent \<Rightarrow> streamIdleTimer \<Rightarrow> streamIdleTimer" where
  "idle_step (IeRestart t) st = streamIdleTimer_Restart t st"
| "idle_step IeStop st = streamIdleTimer_Stop st"
| "idle_step IeShutdown st = streamIdleTimer_Shutdown st"
| "idle_step (IePoll t) st = fst (onPoll t st)"

definition idle_run :: "idleEvent list \<Rightarrow> streamIdleTimer \<Rightarrow> streamIdleTimer" where
  "idle_run es st = fold idle_step es st"

lemma idle_timeout [simp]: "st_timeout (fold idle_step es st) = st_timeout st"
proof (induction es arbitrary: st)
  case (Cons e es)
  have "st_timeout (idle_step e st) = st_timeout st"
    by (cases e) (simp_all add: streamIdleTimer_Restart_def streamIdleTimer_Stop_def
        streamIdleTimer_Shutdown_def onPoll_def)
  with Cons show ?case by simp
qed simp

lemma idle_polls:
  assumes "st_status st = timerActive"
  shows "st_startTime (fold idle_step (map IePoll ts) st) = st_startTime st
       \<and> st_status (fold idle_step (map IePoll ts) st) =
           (if \<exists>t\<in>set ts. t - st_startTime st > st_timeout st then timerTriggered else timerActive)"
proof (induction ts rule: rev_induct)
  case Nil
  then show ?case using assms by simp
next
  case (snoc t ts)
  then show ?case by (auto simp: onPoll_def)
qed

lemma idle_polls_inactive:
  "st_status st \<noteq> timerActive \<Longrightarrow> fold idle_step (map IePoll ts) st = st"
  by (induction ts) (simp_all add: onPoll_def)

text \<open>After a restart at time \<open>s\<close> a poll reports an idle stream exactly when more than the
  timeout has passed since \<open>s\<close> and no earlier poll has reported it, so every restart leads to
  one report at most; after a stop or a shutdown no poll reports anything.\<close>

theorem streamIdleTimer_reports_once:
  "snd (onPoll t (idle_run (es @ IeRestart s # map IePoll ts) (newStreamIdleTimer timeout)))
     = (t - s > timeout \<and> list_all (\<lambda>t'. t' - s \<le> timeout) ts)
 \<and> \<not> snd (onPoll t (idle_run (es @ IeStop # map IePoll ts) (newStreamIdleTimer timeout)))
 \<and> \<not> snd (onPoll t (idle_run (es @ IeShutdown # map IePoll ts) (newStreamIdleTimer timeout)))"
proof -
  define st where "st = fold idle_step es (newStreamIdleTimer timeout)"
  have tmo: "st_timeout st = timeout" by (simp add: st_def newStreamIdleTimer_def)
  have 1: "snd (onPoll t (fold idle_step (map IePoll ts) (streamIdleTimer_Restart s st)))
      = (t - s > timeout \<and> list_all (\<lambda>t'. t' - s \<le> timeout) ts)"
    using idle_polls [of "streamIdleTimer_Restart s st" ts] tmo
    by (auto simp: streamIdleTimer_Restart_def onPoll_def list_all_iff not_le split: if_splits)
  have 2: "\<not> snd (onPoll t (fold idle_step (map IePoll ts) st'))" if "st_status st' \<noteq> timerActive" for st'
    using that by (simp add: idle_polls_inactive onPoll_def)
  show ?thesis
    using 1 2 [of "streamIdleTimer_Stop st"] 2 [of "streamIdleTimer_Shutdown st"]
    by (simp add: idle_run_def st_def streamIdleTimer_Stop_def streamIdleTimer_Shutdown_def)
qed

end
