(* ===== verification/Wire_Streams.thy ===== *)
theory Wire_Streams
  imports Wire_Timers "HOL-Library.Multiset"
begin

text \<open>
  \<^verbatim>\<open>streams.go\<close>: the wrapper around a bidirectional gRPC stream that reconnects it when it
  breaks.  Each critical section under \<^verbatim>\<open>retryableStream.mu\<close> is a function on the stream's
  record; the goroutines running \<^verbatim>\<open>connectStream\<close>, \<^verbatim>\<open>listen\<close>, the idle timer and the final
  notification are program counters, and the interleavings of their sections with calls of
  \<^verbatim>\<open>Start\<close>, \<^verbatim>\<open>Stop\<close> and \<^verbatim>\<open>Send\<close> are the step relation \<open>rs_step\<close>.
\<close>

section \<open>State\<close>

datatype streamStatus =
  streamUninitialized | streamReconnecting | streamResetState | streamConnected | streamTerminated

text \<open>A context made by \<^verbatim>\<open>newStreamContext\<close> is identified by a number, and so is the client
  stream created with it.  A goroutine is where it is between two critical sections.\<close>

datatype goroutine =
    GConnect bool
  | GReconnecting bool
  | GReset
  | GCheck
  | GInit
  | GAttempt nat
  | GLoop wire_error bool
  | GFail wire_error
  | GSucceed nat
  | GConnected nat
  | GListen nat
  | GReceived nat "wire_error option"
  | GHandle nat "wire_error option"
  | GIdle
  | GTerminated

text \<open>
  Beside the fields of the struct the record has what the runtime keeps: the goroutines that
  run (\<open>rs_go\<close>), the notifications the handler has received (\<open>rs_notified\<close>), the number of
  contexts made and those cancelled, and, of the current stream, the number of \<^verbatim>\<open>SendMsg\<close>
  calls and the requests for which it succeeded.
\<close>

record 'req retryableStream =
  rs_stream :: "nat option"
  rs_cancelStream :: "nat option"
  rs_status :: streamStatus
  rs_finalErr :: "wire_error option"
  rs_idleTimer :: streamIdleTimer
  rs_connectTimeout :: int
  rs_initTimeout :: int
  rs_go :: "goroutine multiset"
  rs_notified :: "streamStatus list"
  rs_nextCtx :: nat
  rs_cancelled :: "nat list"
  rs_sends :: nat
  rs_sent :: "'req list"

definition defaultStreamInitTimeout :: int where
  "defaultStreamInitTimeout = 120000000000"

definition defaultStreamIdleTimeout :: int where
  "defaultStreamIdleTimeout = 120000000000"

definition errStreamInitTimeout :: wire_error where
  "errStreamInitTimeout = StatusError DeadlineExceeded []"

definition streamIdleTimeout :: "int \<Rightarrow> int" where
  "streamIdleTimeout userTimeout = minDuration (go_div userTimeout 2) defaultStreamIdleTimeout"

definition newRetryableStream :: "int \<Rightarrow> int \<Rightarrow> 'req retryableStream" where
  "newRetryableStream connectTimeout idleTimeout =
     \<lparr>rs_stream = None, rs_cancelStream = None, rs_status = streamUninitialized, rs_finalErr = None,
      rs_idleTimer = newStreamIdleTimer idleTimeout,
      rs_connectTimeout = connectTimeout,
      rs_initTimeout = minDuration (go_div connectTimeout 2) defaultStreamInitTimeout,
      rs_go = {#}, rs_notified = [], rs_nextCtx = 0, rs_cancelled = [], rs_sends = 0, rs_sent = []\<rparr>"

section \<open>Critical sections\<close>

definition go :: "goroutine \<Rightarrow> 'req retryableStream \<Rightarrow> 'req retryableStream" where
  "go g rs = rs\<lparr>rs_go := add_mset g (rs_go rs)\<rparr>"

definition end_go :: "goroutine \<Rightarrow> 'req retryableStream \<Rightarrow> 'req retryableStream" where
  "end_go g rs = rs\<lparr>rs_go := rs_go rs - {#g#}\<rparr>"

definition notify :: "streamStatus \<Rightarrow> 'req retryableStream \<Rightarrow> 'req retryableStream" where
  "notify s rs = rs\<lparr>rs_notified := rs_notified rs @ [s]\<rparr>"

definition cancel :: "nat \<Rightarrow> 'req retryableStream \<Rightarrow> 'req retryableStream" where
  "cancel ctx rs = rs\<lparr>rs_cancelled := ctx # rs_cancelled rs\<rparr>"

definition unsafeClearStream :: "'req retryableStream \<Rightarrow> 'req retryableStream" where
  "unsafeClearStream rs =
     (let rs1 = (case rs_cancelStream rs of
                   Some ctx \<Rightarrow> (cancel ctx rs)\<lparr>rs_cancelStream := None\<rparr> | None \<Rightarrow> rs)
      in if rs_stream rs1 \<noteq> None then rs1\<lparr>rs_stream := None\<rparr> else rs1)"

definition unsafeTerminate :: "wire_error option \<Rightarrow> 'req retryableStream \<Rightarrow> 'req retryableStream" where
  "unsafeTerminate err rs =
     (if rs_status rs = streamTerminated then rs
      else go GTerminated (unsafeClearStream
             (rs\<lparr>rs_status := streamTerminated, rs_finalErr := err,
                 rs_idleTimer := streamIdleTimer_Shutdown (rs_idleTimer rs)\<rparr>)))"

definition retryableStream_Start :: "'req retryableStream \<Rightarrow> 'req retryableStream" where
  "retryableStream_Start rs =
     (if rs_status rs = streamUninitialized then go (GConnect False) rs else rs)"

definition retryableStream_Stop :: "'req retryableStream \<Rightarrow> 'req retryableStream" where
  "retryableStream_Stop rs = unsafeTerminate None rs"

text \<open>\<^verbatim>\<open>Send\<close>.  The gRPC stream is the parameter \<open>SendMsg\<close>: the error, if any, that the
  \<open>k\<close>-th call of \<^verbatim>\<open>SendMsg\<close> on stream \<open>sid\<close> returns.\<close>

definition retryableStream_Send ::
  "(nat \<Rightarrow> nat \<Rightarrow> wire_error option) \<Rightarrow> 'req \<Rightarrow> 'req retryableStream \<Rightarrow> 'req retryableStream \<times> bool" where
  "retryableStream_Send SendMsg request rs =
     (case rs_stream rs of
        None \<Rightarrow> (rs, False)
      | Some sid \<Rightarrow>
          let err = SendMsg sid (rs_sends rs);
              rs1 = rs\<lparr>rs_sends := Suc (rs_sends rs)\<rparr>
          in case err of
               None \<Rightarrow> (rs1\<lparr>rs_sent := rs_sent rs @ [request]\<rparr>, True)
             | Some e \<Rightarrow>
                 if e = EOF then (rs1, False)
                 else if isRetryableSendError e then (go (GConnect False) rs1, False)
                 else (unsafeTerminate (Some e) rs1, False))"

definition onStreamIdle :: "'req retryableStream \<Rightarrow> 'req retryableStream" where
  "onStreamIdle rs = go (GConnect False) (unsafeClearStream rs)"

definition newStreamContext :: "'req retryableStream \<Rightarrow> 'req retryableStream \<times> nat" where
  "newStreamContext rs =
     (let ctx = rs_nextCtx rs
      in ((unsafeClearStream rs)\<lparr>rs_nextCtx := Suc ctx, rs_cancelStream := Some ctx\<rparr>, ctx))"

text \<open>The two closures of \<^verbatim>\<open>connectStream\<close>.\<close>

definition canReconnect :: "'req retryableStream \<Rightarrow> 'req retryableStream \<times> bool" where
  "canReconnect rs =
     (if rs_status rs = streamReconnecting then (rs, False)
      else if rs_status rs = streamTerminated then (rs, False)
      else ((unsafeClearStream (rs\<lparr>rs_status := streamReconnecting\<rparr>))
               \<lparr>rs_idleTimer := streamIdleTimer_Stop (rs_idleTimer rs)\<rparr>, True))"

definition connected :: "int \<Rightarrow> nat \<Rightarrow> 'req retryableStream \<Rightarrow> 'req retryableStream \<times> bool" where
  "connected now newStream rs =
     (if rs_status rs = streamTerminated then (unsafeClearStream rs, False)
      else (rs\<lparr>rs_status := streamConnected, rs_stream := Some newStream,
              rs_idleTimer := streamIdleTimer_Restart now (rs_idleTimer rs),
              rs_sends := 0, rs_sent := []\<rparr>, True))"

section \<open>One attempt to initialise a stream\<close>

text \<open>What the calls made by an attempt return, and whether the initialisation timer has expired
  when each is resolved (\<open>at_expired\<close>; the timer's goroutine may run at any time).\<close>

record 'res attempt =
  at_newStream :: "wire_error option"
  at_send :: "wire_error option"
  at_recv :: "wire_error + 'res"
  at_expired :: "nat \<Rightarrow> bool"

definition timer_at :: "bool \<Rightarrow> requestTimer \<Rightarrow> requestTimer" where
  "timer_at expired it = (if expired then onTriggered it else it)"

definition RetrySend :: "wire_error \<Rightarrow> wire_error option \<times> bool" where
  "RetrySend err = (Some err, isRetryableSendError err)"

definition RetryRecv :: "wire_error \<Rightarrow> wire_error option \<times> bool" where
  "RetryRecv err = (Some err, isRetryableRecvError err)"

text \<open>The closure in the loop of \<^verbatim>\<open>initNewStream\<close>: the error, whether to retry (the pause before
  the next attempt apart), and whether the handler was told to reset its state.\<close>

definition init_attempt ::
  "bool \<Rightarrow> ('res \<Rightarrow> wire_error option) \<Rightarrow> 'res attempt \<Rightarrow> (wire_error option \<times> bool) \<times> bool" where
  "init_attempt needsResponse validateInitialResponse a =
     (let it0 = timer_at (at_expired a 0) (newRequestTimer errStreamInitTimeout)
      in case ResolveError (at_newStream a) it0 of
           Some err \<Rightarrow> (RetryRecv err, False)
         | None \<Rightarrow>
     let it1 = timer_at (at_expired a 1) it0
      in case ResolveError (at_send a) it1 of
           Some err \<Rightarrow> (RetrySend err, False)
         | None \<Rightarrow>
     let it2 = timer_at (at_expired a 2) it1;
         recvErr = (case at_recv a of Inl e \<Rightarrow> Some e | Inr _ \<Rightarrow> None);
         recvOut = (if needsResponse then ResolveError recvErr it2 else None);
         invalid = (if needsResponse then (case at_recv a of Inr r \<Rightarrow> validateInitialResponse r | Inl _ \<Rightarrow> None)
                    else None)
      in case recvOut of
           Some err \<Rightarrow> (RetryRecv err, isStreamResetSignal err)
         | None \<Rightarrow>
     (case invalid of
        Some err \<Rightarrow> ((Some err, False), False)
      | None \<Rightarrow>
     let it3 = requestTimer_Stop (timer_at (at_expired a 3) it2)
      in case ResolveError None it3 of
           Some err \<Rightarrow> (RetryRecv err, False)
         | None \<Rightarrow> ((None, False), False)))"


section \<open>The goroutines\<close>

text \<open>\<^verbatim>\<open>connectStream\<close>, from one critical section or handler call to the next.  A handler call is
  its notification: what the handler does with the stream is a step of its own.\<close>

definition connectStream_enter :: "bool \<Rightarrow> 'req retryableStream \<Rightarrow> 'req retryableStream" where
  "connectStream_enter notifyReset rs =
     (case canReconnect rs of (rs1, ok) \<Rightarrow> if ok then go (GReconnecting notifyReset) rs1 else rs1)"

definition connectStream_notify :: "bool \<Rightarrow> 'req retryableStream \<Rightarrow> 'req retryableStream" where
  "connectStream_notify notifyReset rs =
     go (if notifyReset then GReset else GCheck) (notify streamReconnecting rs)"

definition connectStream_check :: "'req retryableStream \<Rightarrow> 'req retryableStream" where
  "connectStream_check rs = (if rs_status rs = streamTerminated then rs else go GInit rs)"

text \<open>\<^verbatim>\<open>initNewStream\<close>: the head of its loop, the attempt with the clean-up after it, and the tests
  before the next round (\<open>exceeded\<close>: the retryer's deadline has passed, \<open>slept\<close>: the error of
  \<^verbatim>\<open>gax.Sleep\<close>).\<close>

definition initNewStream_head :: "'req retryableStream \<Rightarrow> 'req retryableStream" where
  "initNewStream_head rs = (case newStreamContext rs of (rs1, ctx) \<Rightarrow> go (GAttempt ctx) rs1)"

definition initNewStream_attempt ::
  "bool \<Rightarrow> ('res \<Rightarrow> wire_error option) \<Rightarrow> 'res attempt \<Rightarrow> nat \<Rightarrow> 'req retryableStream \<Rightarrow> 'req retryableStream" where
  "initNewStream_attempt needsResponse validate a ctx rs =
     (case init_attempt needsResponse validate a of
        ((err, shouldRetry), reset) \<Rightarrow>
          let rs1 = (if reset then notify streamResetState rs else rs)
          in case err of
               Some e \<Rightarrow> go (GLoop e shouldRetry) (cancel ctx rs1)
             | None \<Rightarrow> go (GSucceed ctx) rs1)"

definition initNewStream_next ::
  "bool \<Rightarrow> wire_error option \<Rightarrow> wire_error \<Rightarrow> bool \<Rightarrow> 'req retryableStream \<Rightarrow> 'req retryableStream" where
  "initNewStream_next exceeded slept err shouldRetry rs =
     (if \<not> shouldRetry \<or> rs_status rs = streamTerminated then go (GFail err) rs
      else if exceeded then go (GFail (UnavailableError err)) rs
      else case slept of Some e \<Rightarrow> go (GFail e) rs | None \<Rightarrow> go GInit rs)"

definition connectStream_connected :: "int \<Rightarrow> nat \<Rightarrow> 'req retryableStream \<Rightarrow> 'req retryableStream" where
  "connectStream_connected now newStream rs =
     (case connected now newStream rs of (rs1, ok) \<Rightarrow> if ok then go (GConnected newStream) rs1 else rs1)"

text \<open>\<^verbatim>\<open>listen\<close>: after \<^verbatim>\<open>RecvMsg\<close> has returned, the test that the stream is still the current one;
  the restart of the idle timer; and the handling of the error or the response.\<close>

definition listen_check :: "wire_error option \<Rightarrow> nat \<Rightarrow> 'req retryableStream \<Rightarrow> 'req retryableStream" where
  "listen_check err recvStream rs =
     (if rs_stream rs \<noteq> Some recvStream then rs else go (GReceived recvStream err) rs)"

definition listen_restart :: "int \<Rightarrow> wire_error option \<Rightarrow> nat \<Rightarrow> 'req retryableStream \<Rightarrow> 'req retryableStream" where
  "listen_restart now err recvStream rs =
     go (GHandle recvStream err) (rs\<lparr>rs_idleTimer := streamIdleTimer_Restart now (rs_idleTimer rs)\<rparr>)"

definition listen_handle :: "wire_error option \<Rightarrow> nat \<Rightarrow> 'req retryableStream \<Rightarrow> 'req retryableStream" where
  "listen_handle err recvStream rs =
     (case err of
        Some e \<Rightarrow> if isRetryableRecvError e then go (GConnect (isStreamResetSignal e)) rs
                  else unsafeTerminate (Some e) rs
      | None \<Rightarrow> go (GListen recvStream) rs)"

definition idle_poll :: "int \<Rightarrow> 'req retryableStream \<Rightarrow> 'req retryableStream" where
  "idle_poll now rs =
     (case onPoll now (rs_idleTimer rs) of
        (st, expired) \<Rightarrow> if expired then go GIdle (rs\<lparr>rs_idleTimer := st\<rparr>) else rs\<lparr>rs_idleTimer := st\<rparr>)"

text \<open>One step: a call of the user or of the handler, a poll of the idle timer, or a section of one
  goroutine, with any outcome of the calls it makes.\<close>

inductive rs_step :: "bool \<Rightarrow> ('res \<Rightarrow> wire_error option) \<Rightarrow> 'req retryableStream \<Rightarrow> 'req retryableStream \<Rightarrow> bool"
  for needsResponse :: bool and validate :: "'res \<Rightarrow> wire_error option" where
  Start: "rs_step needsResponse validate rs (retryableStream_Start rs)"
| Stop: "rs_step needsResponse validate rs (retryableStream_Stop rs)"
| Send: "rs_step needsResponse validate rs (fst (retryableStream_Send SendMsg request rs))"
| Poll: "rs_step needsResponse validate rs (idle_poll now rs)"
| Idle: "GIdle \<in># rs_go rs \<Longrightarrow> rs_step needsResponse validate rs (onStreamIdle (end_go GIdle rs))"
| Connect: "GConnect n \<in># rs_go rs
    \<Longrightarrow> rs_step needsResponse validate rs (connectStream_enter n (end_go (GConnect n) rs))"
| Reconnecting: "GReconnecting n \<in># rs_go rs
    \<Longrightarrow> rs_step needsResponse validate rs (connectStream_notify n (end_go (GReconnecting n) rs))"
| Reset: "GReset \<in># rs_go rs
    \<Longrightarrow> rs_step needsResponse validate rs (go GCheck (notify streamResetState (end_go GReset rs)))"
| Check: "GCheck \<in># rs_go rs
    \<Longrightarrow> rs_step needsResponse validate rs (connectStream_check (end_go GCheck rs))"
| Init: "GInit \<in># rs_go rs
    \<Longrightarrow> rs_step needsResponse validate rs (initNewStream_head (end_go GInit rs))"
| Attempt: "GAttempt ctx \<in># rs_go rs
    \<Longrightarrow> rs_step needsResponse validate rs
          (initNewStream_attempt needsResponse validate a ctx (end_go (GAttempt ctx) rs))"
| Loop: "GLoop err sr \<in># rs_go rs
    \<Longrightarrow> rs_step needsResponse validate rs (initNewStream_next exceeded slept err sr (end_go (GLoop err sr) rs))"
| Fail: "GFail err \<in># rs_go rs
    \<Longrightarrow> rs_step needsResponse validate rs (unsafeTerminate (Some err) (end_go (GFail err) rs))"
| Succeed: "GSucceed ctx \<in># rs_go rs
    \<Longrightarrow> rs_step needsResponse validate rs (connectStream_connected now ctx (end_go (GSucceed ctx) rs))"
| Connected: "GConnected ctx \<in># rs_go rs
    \<Longrightarrow> rs_step needsResponse validate rs (go (GListen ctx) (notify streamConnected (end_go (GConnected ctx) rs)))"
| Listen: "GListen ctx \<in># rs_go rs
    \<Longrightarrow> rs_step needsResponse validate rs (listen_check err ctx (end_go (GListen ctx) rs))"
| Received: "GReceived ctx err \<in># rs_go rs
    \<Longrightarrow> rs_step needsResponse validate rs (listen_restart now err ctx (end_go (GReceived ctx err) rs))"
| Handle: "GHandle ctx err \<in># rs_go rs
    \<Longrightarrow> rs_step needsResponse validate rs (listen_handle err ctx (end_go (GHandle ctx err) rs))"
| Terminated: "GTerminated \<in># rs_go rs
    \<Longrightarrow> rs_step needsResponse validate rs (notify streamTerminated (end_go GTerminated rs))"

definition rs_reachable :: "bool \<Rightarrow> ('res \<Rightarrow> wire_error option) \<Rightarrow> 'req retryableStream \<Rightarrow> bool" where
  "rs_reachable needsResponse validate rs \<longleftrightarrow>
     (\<exists>ct idle. (rs_step needsResponse validate)\<^sup>*\<^sup>* (newRetryableStream ct idle) rs)"


section \<open>Invariants\<close>

text \<open>The goroutines between a successful \<^verbatim>\<open>canReconnect\<close> and the end of the reconnection.\<close>

fun in_reconnection :: "goroutine \<Rightarrow> bool" where
  "in_reconnection (GReconnecting _) = True"
| "in_reconnection GReset = True"
| "in_reconnection GCheck = True"
| "in_reconnection GInit = True"
| "in_reconnection (GAttempt _) = True"
| "in_reconnection (GLoop _ _) = True"
| "in_reconnection (GFail _) = True"
| "in_reconnection (GSucceed _) = True"
| "in_reconnection _ = False"

definition reconnecting :: "'req retryableStream \<Rightarrow> nat" where
  "reconnecting rs = size (filter_mset in_reconnection (rs_go rs))"

text \<open>The notifications of termination that have been started or delivered.\<close>

definition term_notices :: "'req retryableStream \<Rightarrow> nat" where
  "term_notices rs = count (rs_go rs) GTerminated + count_list (rs_notified rs) streamTerminated"

definition single_inv :: "'req retryableStream \<Rightarrow> bool" where
  "single_inv rs \<longleftrightarrow>
     (rs_status rs = streamReconnecting \<longrightarrow> reconnecting rs = 1)
   \<and> (rs_status rs = streamTerminated \<longrightarrow> reconnecting rs \<le> 1)
   \<and> (rs_status rs \<noteq> streamReconnecting \<and> rs_status rs \<noteq> streamTerminated \<longrightarrow> reconnecting rs = 0)
   \<and> rs_status rs \<noteq> streamResetState
   \<and> (rs_stream rs \<noteq> None \<longrightarrow> rs_status rs = streamConnected)
   \<and> term_notices rs = (if rs_status rs = streamTerminated then 1 else 0)"

definition context_inv :: "'req retryableStream \<Rightarrow> bool" where
  "context_inv rs \<longleftrightarrow>
     (\<forall>c < rs_nextCtx rs. c \<in> set (rs_cancelled rs) \<or> rs_cancelStream rs = Some c)
   \<and> (\<forall>c. rs_status rs = streamTerminated \<and> rs_cancelStream rs = Some c \<longrightarrow>
        c \<in> set (rs_cancelled rs) \<or> GAttempt c \<in># rs_go rs \<or> GSucceed c \<in># rs_go rs)"

text \<open>What each primitive leaves of the fields.\<close>

lemma clear_fields [simp]:
  "rs_status (unsafeClearStream rs) = rs_status rs"
  "rs_go (unsafeClearStream rs) = rs_go rs"
  "rs_notified (unsafeClearStream rs) = rs_notified rs"
  "rs_nextCtx (unsafeClearStream rs) = rs_nextCtx rs"
  "rs_stream (unsafeClearStream rs) = None"
  "rs_cancelStream (unsafeClearStream rs) = None"
  "rs_finalErr (unsafeClearStream rs) = rs_finalErr rs"
  "rs_idleTimer (unsafeClearStream rs) = rs_idleTimer rs"
  "rs_sent (unsafeClearStream rs) = rs_sent rs"
  "rs_sends (unsafeClearStream rs) = rs_sends rs"
  "set (rs_cancelled (unsafeClearStream rs)) = set_option (rs_cancelStream rs) \<union> set (rs_cancelled rs)"
  by (simp_all add: unsafeClearStream_def cancel_def Let_def split: option.split)

lemma go_fields [simp]:
  "rs_status (go g rs) = rs_status rs"
  "rs_go (go g rs) = add_mset g (rs_go rs)"
  "rs_notified (go g rs) = rs_notified rs"
  "rs_nextCtx (go g rs) = rs_nextCtx rs"
  "rs_stream (go g rs) = rs_stream rs"
  "rs_cancelStream (go g rs) = rs_cancelStream rs"
  "rs_finalErr (go g rs) = rs_finalErr rs"
  "rs_idleTimer (go g rs) = rs_idleTimer rs"
  "rs_sent (go g rs) = rs_sent rs"
  "rs_sends (go g rs) = rs_sends rs"
  "rs_cancelled (go g rs) = rs_cancelled rs"
  by (simp_all add: go_def)

lemma end_go_fields [simp]:
  "rs_status (end_go g rs) = rs_status rs"
  "rs_notified (end_go g rs) = rs_notified rs"
  "rs_nextCtx (end_go g rs) = rs_nextCtx rs"
  "rs_stream (end_go g rs) = rs_stream rs"
  "rs_cancelStream (end_go g rs) = rs_cancelStream rs"
  "rs_finalErr (end_go g rs) = rs_finalErr rs"
  "rs_idleTimer (end_go g rs) = rs_idleTimer rs"
  "rs_cancelled (end_go g rs) = rs_cancelled rs"
  "rs_go (end_go g rs) = rs_go rs - {#g#}"
  by (simp_all add: end_go_def)

lemma notify_fields [simp]:
  "rs_status (notify s rs) = rs_status rs"
  "rs_go (notify s rs) = rs_go rs"
  "rs_notified (notify s rs) = rs_notified rs @ [s]"
  "rs_nextCtx (notify s rs) = rs_nextCtx rs"
  "rs_stream (notify s rs) = rs_stream rs"
  "rs_cancelStream (notify s rs) = rs_cancelStream rs"
  "rs_finalErr (notify s rs) = rs_finalErr rs"
  "rs_cancelled (notify s rs) = rs_cancelled rs"
  by (simp_all add: notify_def)

lemma cancel_fields [simp]:
  "rs_status (cancel c rs) = rs_status rs"
  "rs_go (cancel c rs) = rs_go rs"
  "rs_notified (cancel c rs) = rs_notified rs"
  "rs_nextCtx (cancel c rs) = rs_nextCtx rs"
  "rs_stream (cancel c rs) = rs_stream rs"
  "rs_cancelStream (cancel c rs) = rs_cancelStream rs"
  "rs_finalErr (cancel c rs) = rs_finalErr rs"
  "rs_cancelled (cancel c rs) = c # rs_cancelled rs"
  by (simp_all add: cancel_def)

lemma reconnecting_simps [simp]:
  "reconnecting (go g rs) = reconnecting rs + (if in_reconnection g then 1 else 0)"
  "reconnecting (notify s rs) = reconnecting rs"
  "reconnecting (cancel c rs) = reconnecting rs"
  "reconnecting (unsafeClearStream rs) = reconnecting rs"
  by (simp_all add: reconnecting_def)

lemma reconnecting_end_go [simp]:
  "g \<in># rs_go rs \<Longrightarrow> reconnecting (end_go g rs) = reconnecting rs - (if in_reconnection g then 1 else 0)"
  by (auto dest!: multi_member_split simp: reconnecting_def)

lemma reconnecting_pos: "g \<in># rs_go rs \<Longrightarrow> in_reconnection g \<Longrightarrow> 0 < reconnecting rs"
  by (auto dest!: multi_member_split simp: reconnecting_def)

lemma terminate_fields:
  "rs_status (unsafeTerminate e rs) = streamTerminated"
  "reconnecting (unsafeTerminate e rs) = reconnecting rs"
  by (simp_all add: unsafeTerminate_def reconnecting_def)

lemma term_notices_simps [simp]:
  "term_notices (go g rs) = term_notices rs + (if g = GTerminated then 1 else 0)"
  "term_notices (unsafeClearStream rs) = term_notices rs"
  "term_notices (cancel c rs) = term_notices rs"
  "term_notices (notify s rs) = term_notices rs + (if s = streamTerminated then 1 else 0)"
  by (simp_all add: term_notices_def)

lemma term_notices_end_go [simp]:
  "g \<in># rs_go rs \<Longrightarrow> term_notices (end_go g rs) + (if g = GTerminated then 1 else 0) = term_notices rs"
  by (auto dest!: multi_member_split simp: term_notices_def)

lemmas stream_sections =
  retryableStream_Start_def retryableStream_Stop_def retryableStream_Send_def onStreamIdle_def
  newStreamContext_def canReconnect_def connected_def connectStream_enter_def connectStream_notify_def
  connectStream_check_def initNewStream_head_def initNewStream_attempt_def initNewStream_next_def
  connectStream_connected_def listen_check_def listen_restart_def listen_handle_def idle_poll_def


lemma reconnecting_updates [simp]:
  "reconnecting (rs\<lparr>rs_status := st\<rparr>) = reconnecting rs"
  "reconnecting (rs\<lparr>rs_idleTimer := it\<rparr>) = reconnecting rs"
  "reconnecting (rs\<lparr>rs_finalErr := e\<rparr>) = reconnecting rs"
  "reconnecting (rs\<lparr>rs_stream := sid\<rparr>) = reconnecting rs"
  "reconnecting (rs\<lparr>rs_cancelStream := c\<rparr>) = reconnecting rs"
  "reconnecting (rs\<lparr>rs_nextCtx := n\<rparr>) = reconnecting rs"
  "reconnecting (rs\<lparr>rs_sends := n\<rparr>) = reconnecting rs"
  "reconnecting (rs\<lparr>rs_sent := l\<rparr>) = reconnecting rs"
  by (simp_all add: reconnecting_def)

lemma term_notices_updates [simp]:
  "term_notices (rs\<lparr>rs_status := st\<rparr>) = term_notices rs"
  "term_notices (rs\<lparr>rs_idleTimer := it\<rparr>) = term_notices rs"
  "term_notices (rs\<lparr>rs_finalErr := e\<rparr>) = term_notices rs"
  "term_notices (rs\<lparr>rs_stream := sid\<rparr>) = term_notices rs"
  "term_notices (rs\<lparr>rs_cancelStream := c\<rparr>) = term_notices rs"
  "term_notices (rs\<lparr>rs_nextCtx := n\<rparr>) = term_notices rs"
  "term_notices (rs\<lparr>rs_sends := n\<rparr>) = term_notices rs"
  "term_notices (rs\<lparr>rs_sent := l\<rparr>) = term_notices rs"
  by (simp_all add: term_notices_def)

lemma single_inv_new: "single_inv (newRetryableStream ct idle)"
  by (simp add: single_inv_def newRetryableStream_def reconnecting_def term_notices_def)

text \<open>The state with one goroutine of the reconnection taken out: no other is in it.\<close>

definition vacant :: "'req retryableStream \<Rightarrow> bool" where
  "vacant rs \<longleftrightarrow> reconnecting rs = 0 \<and> (rs_status rs = streamReconnecting \<or> rs_status rs = streamTerminated)
   \<and> rs_stream rs = None
   \<and> term_notices rs = (if rs_status rs = streamTerminated then 1 else 0)"

lemma vacant_end_go:
  assumes "single_inv rs" "g \<in># rs_go rs" "in_reconnection g"
  shows "vacant (end_go g rs)"
proof -
  have "reconnecting rs = 1" "rs_status rs = streamReconnecting \<or> rs_status rs = streamTerminated"
    using assms(1) reconnecting_pos [OF assms(2,3)]
    by (auto simp: single_inv_def)
  moreover have "g \<noteq> GTerminated" using assms(3) by auto
  ultimately show ?thesis
    using assms term_notices_end_go [OF assms(2)] by (auto simp: vacant_def single_inv_def)
qed

lemma single_inv_end_go:
  assumes "single_inv rs" "g \<in># rs_go rs" "\<not> in_reconnection g" "g \<noteq> GTerminated"
  shows "single_inv (end_go g rs)"
  using assms term_notices_end_go [OF assms(2)] by (simp add: single_inv_def)

lemma single_inv_terminate: "single_inv rs \<Longrightarrow> single_inv (unsafeTerminate e rs)"
  by (auto simp: single_inv_def unsafeTerminate_def)

lemma vacant_terminate: "vacant rs \<Longrightarrow> single_inv (unsafeTerminate e rs)"
  by (auto simp: single_inv_def vacant_def unsafeTerminate_def)

lemma vacant_go: "vacant rs \<Longrightarrow> in_reconnection g \<Longrightarrow> single_inv (go g rs)"
  by (auto simp: single_inv_def vacant_def)

lemma vacant_end: "vacant rs \<Longrightarrow> rs_status rs = streamTerminated \<Longrightarrow> single_inv rs"
  by (simp add: single_inv_def vacant_def)

lemma single_inv_go:
  "single_inv rs \<Longrightarrow> \<not> in_reconnection g \<Longrightarrow> g \<noteq> GTerminated \<Longrightarrow> single_inv (go g rs)"
  by (simp add: single_inv_def)

lemma single_inv_idle [simp]: "single_inv (rs\<lparr>rs_idleTimer := it\<rparr>) = single_inv rs"
  by (simp add: single_inv_def)

lemma single_inv_notify [simp]: "s \<noteq> streamTerminated \<Longrightarrow> single_inv (notify s rs) = single_inv rs"
  by (simp add: single_inv_def)

lemma vacant_notify [simp]: "s \<noteq> streamTerminated \<Longrightarrow> vacant (notify s rs) = vacant rs"
  by (simp add: vacant_def)

lemma vacant_cancel [simp]: "vacant (cancel c rs) = vacant rs"
  by (simp add: vacant_def)

lemma single_inv_send: "single_inv rs \<Longrightarrow> single_inv (fst (retryableStream_Send SendMsg r rs))"
  by (auto simp: retryableStream_Send_def Let_def single_inv_def unsafeTerminate_def split: option.split)

lemma single_inv_enter: "single_inv rs \<Longrightarrow> single_inv (connectStream_enter n rs)"
  by (auto simp: connectStream_enter_def canReconnect_def single_inv_def)

lemma single_inv_connected: "vacant rs \<Longrightarrow> single_inv (connectStream_connected now c rs)"
  by (auto simp: connectStream_connected_def connected_def vacant_def single_inv_def)

lemma single_inv_step:
  assumes step: "rs_step needs validate rs rs'" and inv: "single_inv rs"
  shows "single_inv rs'"
  using step
proof (cases rule: rs_step.cases)
  case Start
  then show ?thesis using inv by (simp add: retryableStream_Start_def single_inv_go)
next
  case Stop
  then show ?thesis using inv by (simp add: retryableStream_Stop_def single_inv_terminate)
next
  case Send
  then show ?thesis using inv by (simp add: single_inv_send)
next
  case Poll
  then show ?thesis using inv by (simp add: idle_poll_def single_inv_go split: prod.split)
next
  case Idle
  then have "single_inv (end_go GIdle rs)" using inv by (simp add: single_inv_end_go)
  then show ?thesis using Idle by (auto simp: onStreamIdle_def single_inv_def)
next
  case (Connect n)
  then show ?thesis using inv by (simp add: single_inv_end_go single_inv_enter)
next
  case (Reconnecting n)
  then have "vacant (end_go (GReconnecting n) rs)" using inv by (simp add: vacant_end_go)
  then show ?thesis using Reconnecting by (simp add: connectStream_notify_def vacant_go)
next
  case Reset
  then have "vacant (end_go GReset rs)" using inv by (simp add: vacant_end_go)
  then show ?thesis using Reset by (simp add: vacant_go)
next
  case Check
  then have "vacant (end_go GCheck rs)" using inv by (simp add: vacant_end_go)
  then show ?thesis using Check by (simp add: connectStream_check_def vacant_go vacant_end)
next
  case Init
  then have "vacant (end_go GInit rs)" using inv by (simp add: vacant_end_go)
  then show ?thesis using Init
    by (auto simp: initNewStream_head_def newStreamContext_def Let_def vacant_def single_inv_def)
next
  case (Attempt ctx a)
  then have "vacant (end_go (GAttempt ctx) rs)" using inv by (simp add: vacant_end_go)
  then show ?thesis using Attempt
    by (auto simp: initNewStream_attempt_def Let_def vacant_go split: prod.split option.split)
next
  case (Loop err sr exceeded slept)
  then have "vacant (end_go (GLoop err sr) rs)" using inv by (simp add: vacant_end_go)
  then show ?thesis using Loop by (auto simp: initNewStream_next_def vacant_go split: option.split)
next
  case (Fail err)
  then have "vacant (end_go (GFail err) rs)" using inv by (simp add: vacant_end_go)
  then show ?thesis using Fail by (simp add: vacant_terminate)
next
  case (Succeed ctx now)
  then have "vacant (end_go (GSucceed ctx) rs)" using inv by (simp add: vacant_end_go)
  then show ?thesis using Succeed by (simp add: single_inv_connected)
next
  case (Connected ctx)
  then show ?thesis using inv by (simp add: single_inv_end_go single_inv_go)
next
  case (Listen ctx err)
  then show ?thesis using inv by (simp add: listen_check_def single_inv_end_go single_inv_go)
next
  case (Received ctx err now)
  then show ?thesis using inv by (simp add: listen_restart_def single_inv_end_go single_inv_go)
next
  case (Handle ctx err)
  then have "single_inv (end_go (GHandle ctx err) rs)" using inv by (simp add: single_inv_end_go)
  then show ?thesis using Handle
    by (auto simp: listen_handle_def single_inv_go single_inv_terminate split: option.split)
next
  case Terminated
  then show ?thesis using inv term_notices_end_go [of GTerminated rs]
    by (auto simp: single_inv_def)
qed


lemma single_inv_run: "(rs_step needs validate)\<^sup>*\<^sup>* rs rs' \<Longrightarrow> single_inv rs \<Longrightarrow> single_inv rs'"
  by (induction rule: rtranclp_induct) (auto intro: single_inv_step)

text \<open>C8: Whatever the interleaving, at most one goroutine is between deciding to reconnect and
  having reconnected; a client stream is published to \<^verbatim>\<open>Send\<close> only while the status is
  \<^verbatim>\<open>streamConnected\<close>; and the handler is told of termination once, exactly when the stream has
  terminated.\<close>

theorem stream_single_reconnection:
  assumes "rs_reachable needs validate rs"
  shows "reconnecting rs \<le> 1
       \<and> (rs_stream rs \<noteq> None \<longrightarrow> rs_status rs = streamConnected \<and> reconnecting rs = 0)
       \<and> term_notices rs = (if rs_status rs = streamTerminated then 1 else 0)"
proof -
  have "single_inv rs"
    using assms single_inv_run [OF _ single_inv_new] by (auto simp: rs_reachable_def)
  then show ?thesis by (cases "rs_status rs") (auto simp: single_inv_def)
qed

lemma rs_reachable_new: "rs_reachable needs validate (newRetryableStream ct idle)"
  by (auto simp: rs_reachable_def)

lemma rs_reachable_step: "rs_reachable needs validate rs \<Longrightarrow> rs_step needs validate rs rs' \<Longrightarrow> rs_reachable needs validate rs'"
  by (auto simp: rs_reachable_def intro: rtranclp.rtrancl_into_rtrancl)

section \<open>Termination of the stream is final\<close>

definition final_le :: "'req retryableStream \<Rightarrow> 'req retryableStream \<Rightarrow> bool" where
  "final_le rs rs' \<longleftrightarrow> (rs_status rs = streamTerminated \<longrightarrow>
      rs_status rs' = streamTerminated \<and> rs_finalErr rs' = rs_finalErr rs)"

lemma final_le_step:
  assumes "rs_step needs validate rs rs'"
  shows "final_le rs rs'"
  using assms
  by (cases rule: rs_step.cases)
    (auto simp: final_le_def stream_sections unsafeTerminate_def Let_def split: option.split prod.split)

lemma final_le_run: "(rs_step needs validate)\<^sup>*\<^sup>* rs rs' \<Longrightarrow> final_le rs rs'"
proof (induction rule: rtranclp_induct)
  case (step y z)
  from final_le_step [OF step(2)] step(3) show ?case by (auto simp: final_le_def)
qed (simp add: final_le_def)


section \<open>No stream context leaks\<close>

lemma in_remove1: "a \<noteq> b \<Longrightarrow> a \<in># M - {#b#} \<longleftrightarrow> a \<in># M"
  by (simp add: in_diff_count)

lemma context_inv_new: "context_inv (newRetryableStream ct idle)"
  by (simp add: context_inv_def newRetryableStream_def)

lemma context_inv_go: "context_inv rs \<Longrightarrow> context_inv (go g rs)"
  by (auto simp: context_inv_def)

lemma context_inv_end_go:
  "context_inv rs \<Longrightarrow> \<forall>c. g \<noteq> GAttempt c \<and> g \<noteq> GSucceed c \<Longrightarrow> context_inv (end_go g rs)"
  by (simp add: context_inv_def) (metis in_remove1)

lemma context_inv_clear: "context_inv rs \<Longrightarrow> context_inv (unsafeClearStream rs)"
  by (auto simp: context_inv_def)

lemma context_inv_terminate: "context_inv rs \<Longrightarrow> context_inv (unsafeTerminate e rs)"
  by (auto simp: context_inv_def unsafeTerminate_def)

lemma context_inv_updates [simp]:
  "context_inv (rs\<lparr>rs_idleTimer := it\<rparr>) = context_inv rs"
  "context_inv (rs\<lparr>rs_sends := n\<rparr>) = context_inv rs"
  "context_inv (rs\<lparr>rs_sent := l\<rparr>) = context_inv rs"
  "context_inv (notify s rs) = context_inv rs"
  by (simp_all add: context_inv_def)

lemma context_inv_head: "context_inv rs \<Longrightarrow> context_inv (initNewStream_head rs)"
  by (auto simp: context_inv_def initNewStream_head_def newStreamContext_def Let_def less_Suc_eq)

lemma attempt_remains: "GAttempt c \<in># M \<Longrightarrow> GAttempt c \<notin># M - {#GAttempt ctx#} \<Longrightarrow> c = ctx"
  using in_remove1 [of "GAttempt c" "GAttempt ctx" M] by auto

lemma context_inv_attempt:
  "context_inv rs \<Longrightarrow> context_inv (initNewStream_attempt needs validate a ctx (end_go (GAttempt ctx) rs))"
  by (auto simp: context_inv_def initNewStream_attempt_def Let_def in_remove1
      dest: attempt_remains split: prod.split option.split)

lemma context_inv_succeed:
  "context_inv rs \<Longrightarrow> context_inv (connectStream_connected now ctx (end_go (GSucceed ctx) rs))"
  by (auto simp: context_inv_def connectStream_connected_def connected_def)

lemma context_inv_enter: "context_inv rs \<Longrightarrow> context_inv (connectStream_enter n rs)"
  by (auto simp: context_inv_def connectStream_enter_def canReconnect_def)

lemmas context_inv_intros = context_inv_go context_inv_end_go context_inv_clear context_inv_terminate
  context_inv_head context_inv_attempt context_inv_succeed context_inv_enter

lemma context_inv_step:
  assumes "rs_step needs validate rs rs'" "context_inv rs"
  shows "context_inv rs'"
  using assms
  by (cases rule: rs_step.cases)
    (auto simp: retryableStream_Start_def retryableStream_Stop_def retryableStream_Send_def idle_poll_def
      onStreamIdle_def connectStream_notify_def connectStream_check_def initNewStream_next_def
      listen_check_def listen_restart_def listen_handle_def Let_def intro!: context_inv_intros
      split: option.split prod.split)

lemma context_inv_run: "(rs_step needs validate)\<^sup>*\<^sup>* rs rs' \<Longrightarrow> context_inv rs \<Longrightarrow> context_inv rs'"
  by (induction rule: rtranclp_induct) (auto intro: context_inv_step)

text \<open>Termination is final and leaks nothing: once a reachable stream has terminated, every
  later state is terminated with the same error and has no stream to send on, and as soon as no
  goroutine is still reconnecting every context ever made for a stream has been cancelled.\<close>

theorem stream_termination_final:
  assumes "rs_reachable needs validate rs" and "rs_status rs = streamTerminated"
    and "(rs_step needs validate)\<^sup>*\<^sup>* rs rs'"
  shows "rs_status rs' = streamTerminated \<and> rs_finalErr rs' = rs_finalErr rs \<and> rs_stream rs' = None
       \<and> (reconnecting rs' = 0 \<longrightarrow> (\<forall>c < rs_nextCtx rs'. c \<in> set (rs_cancelled rs')))"
proof -
  obtain ct idle where run: "(rs_step needs validate)\<^sup>*\<^sup>* (newRetryableStream ct idle) rs'"
    using assms(1,3) by (auto simp: rs_reachable_def intro: rtranclp_trans)
  have fin: "rs_status rs' = streamTerminated" "rs_finalErr rs' = rs_finalErr rs"
    using final_le_run [OF assms(3)] assms(2) by (auto simp: final_le_def)
  have "single_inv rs'" using single_inv_run [OF run single_inv_new] .
  then have stream: "rs_stream rs' = None" using fin by (auto simp: single_inv_def)
  have ctx: "context_inv rs'" using context_inv_run [OF run context_inv_new] .
  have "c \<in> set (rs_cancelled rs')" if "reconnecting rs' = 0" "c < rs_nextCtx rs'" for c
    using ctx fin that reconnecting_pos [of "GAttempt c" rs'] reconnecting_pos [of "GSucceed c" rs']
    by (auto simp: context_inv_def)
  then show ?thesis using fin stream by blast
qed


section \<open>Examples\<close>

definition example_ok :: "unit attempt" where
  "example_ok = \<lparr>at_newStream = None, at_send = None, at_recv = Inr (), at_expired = (\<lambda>_. False)\<rparr>"

text \<open>A stream that connects: started, reconnecting, context 0 made, connected at time 0.\<close>

definition example_attempting :: "nat retryableStream" where
  "example_attempting =
     initNewStream_head (end_go GInit
      (connectStream_check (end_go GCheck
       (connectStream_notify False (end_go (GReconnecting False)
        (connectStream_enter False (end_go (GConnect False)
          (retryableStream_Start (newRetryableStream 60 60)))))))))"

definition example_connected :: "nat retryableStream" where
  "example_connected =
     go (GListen 0) (notify streamConnected (end_go (GConnected 0)
      (connectStream_connected 0 0 (end_go (GSucceed 0)
       (initNewStream_attempt True (\<lambda>_. None) example_ok 0 (end_go (GAttempt 0) example_attempting))))))"

lemmas example_simps = stream_sections go_def end_go_def notify_def cancel_def unsafeClearStream_def
  newRetryableStream_def Let_def

lemma example_attempting_go: "rs_go example_attempting = {#GAttempt 0#}"
  by (simp add: example_attempting_def example_simps)

lemma example_attempting_reachable: "rs_reachable True (\<lambda>_::unit. None) example_attempting"
  unfolding example_attempting_def
  by (rule rs_reachable_step [OF _ rs_step.Init] rs_reachable_step [OF _ rs_step.Check]
      rs_reachable_step [OF _ rs_step.Reconnecting] rs_reachable_step [OF _ rs_step.Connect]
      rs_reachable_step [OF _ rs_step.Start] rs_reachable_new | simp add: example_simps)+

lemma example_connected_go: "rs_go example_connected = {#GListen 0#}"
  by (simp add: example_connected_def example_attempting_def example_simps init_attempt_def example_ok_def
      timer_at_def newRequestTimer_def ResolveError_def requestTimer_Stop_def)


lemmas example_attempt_simps = init_attempt_def example_ok_def timer_at_def newRequestTimer_def
  ResolveError_def requestTimer_Stop_def

lemma example_connected_reachable: "rs_reachable True (\<lambda>_::unit. None) example_connected"
  unfolding example_connected_def
  by (rule rs_reachable_step [OF _ rs_step.Connected] rs_reachable_step [OF _ rs_step.Succeed]
      rs_reachable_step [OF _ rs_step.Attempt] example_attempting_reachable
      | simp add: example_attempting_go
      | simp add: example_attempt_simps example_attempting_def example_simps)+

lemma example_connected_fields:
  "rs_stream example_connected = Some 0" "rs_status example_connected = streamConnected"
  "rs_cancelStream example_connected = Some 0" "rs_nextCtx example_connected = 1"
  "st_status (rs_idleTimer example_connected) = timerActive"
  "st_startTime (rs_idleTimer example_connected) = 0"
  "st_timeout (rs_idleTimer example_connected) = 60"
  "rs_notified example_connected = [streamReconnecting, streamConnected]"
  by (simp_all add: example_connected_def example_attempting_def example_simps example_attempt_simps
      streamIdleTimer_Restart_def streamIdleTimer_Stop_def newStreamIdleTimer_def)

theorem stream_single_reconnection_witness:
  "reconnecting example_connected = 0 \<and> term_notices example_connected = 0
   \<and> rs_stream example_connected = Some 0"
  using stream_single_reconnection [OF example_connected_reachable]
  by (simp add: example_connected_fields)

theorem stream_termination_final_witness:
  "rs_status (retryableStream_Start (retryableStream_Stop example_connected)) = streamTerminated
 \<and> rs_finalErr (retryableStream_Start (retryableStream_Stop example_connected)) = None
 \<and> (0::nat) \<in> set (rs_cancelled (retryableStream_Start (retryableStream_Stop example_connected)))"
proof -
  define stopped where "stopped = retryableStream_Stop example_connected"
  have r: "rs_reachable True (\<lambda>_::unit. None) stopped"
    unfolding stopped_def by (rule rs_reachable_step [OF example_connected_reachable rs_step.Stop])
  have t: "rs_status stopped = streamTerminated" "rs_finalErr stopped = None"
    by (simp_all add: stopped_def retryableStream_Stop_def unsafeTerminate_def example_connected_fields)
  have s: "(rs_step True (\<lambda>_::unit. None))\<^sup>*\<^sup>* stopped (retryableStream_Start stopped)"
    by (rule r_into_rtranclp) (rule rs_step.Start)
  have q: "reconnecting (retryableStream_Start stopped) = 0"
    by (simp add: stopped_def retryableStream_Stop_def retryableStream_Start_def unsafeTerminate_def
        example_connected_fields reconnecting_def example_connected_go)
  have n: "rs_nextCtx (retryableStream_Start stopped) = 1"
    by (simp add: stopped_def retryableStream_Stop_def retryableStream_Start_def unsafeTerminate_def
        example_connected_fields)
  show ?thesis
    using stream_termination_final [OF r t(1) s] t(2) q n unfolding stopped_def [symmetric] by simp
qed

text \<open>A race between the idle timer and a reconnection.  The timer's poll decides that the stream is
  idle; before its callback runs, the stream breaks and a goroutine starts to reconnect it; the
  callback then cancels the context of that attempt, although the goroutine it starts to
  reconnect will find that a reconnection is under way and end.\<close>

definition example_race :: "nat retryableStream" where
  "example_race =
     (let polled = idle_poll 61 example_connected;
          broken = listen_handle (Some EOF) 0 (end_go (GHandle 0 (Some EOF))
                    (listen_restart 61 (Some EOF) 0 (end_go (GReceived 0 (Some EOF))
                     (listen_check (Some EOF) 0 (end_go (GListen 0) polled)))));
          attempt = initNewStream_head (end_go GInit
                     (connectStream_check (end_go GCheck
                      (connectStream_notify False (end_go (GReconnecting False)
                       (connectStream_enter False (end_go (GConnect False) broken)))))))
      in onStreamIdle (end_go GIdle attempt))"

lemmas race_simps = stream_sections example_connected_fields example_connected_go onPoll_def
  isRetryableRecvError_def isRetryableStreamError_def isStreamResetSignal_def Let_def

text \<open>C20: There is an interleaving in which the idle callback cancels the context of a reconnection that
  another goroutine has under way: a reachable state is still reconnecting, with an attempt
  whose context has been cancelled by the client itself.\<close>

theorem idle_callback_cancels_reconnection:
  "rs_reachable True (\<lambda>_::unit. None) example_race
 \<and> rs_status example_race = streamReconnecting \<and> GAttempt 1 \<in># rs_go example_race
 \<and> 1 \<in> set (rs_cancelled example_race)"
proof -
  have "rs_reachable True (\<lambda>_::unit. None) example_race"
    unfolding example_race_def Let_def
    by (rule rs_reachable_step [OF _ rs_step.Idle] rs_reachable_step [OF _ rs_step.Init]
        rs_reachable_step [OF _ rs_step.Check] rs_reachable_step [OF _ rs_step.Reconnecting]
        rs_reachable_step [OF _ rs_step.Connect] rs_reachable_step [OF _ rs_step.Handle]
        rs_reachable_step [OF _ rs_step.Received] rs_reachable_step [OF _ rs_step.Listen]
        rs_reachable_step [OF _ rs_step.Poll] example_connected_reachable
        | simp add: race_simps)+
  moreover have "rs_status example_race = streamReconnecting" "GAttempt 1 \<in># rs_go example_race"
    "1 \<in> set (rs_cancelled example_race)"
    by (simp_all add: example_race_def race_simps)
  ultimately show ?thesis by simp
qed

end
