(* ===== verification/Wire_Service.thy ===== *)
theory Wire_Service
  imports Wire_Errors "HOL-Library.AList" "HOL-Library.Multiset"
begin

text \<open>
  The lifecycle of the Pub/Sub Lite services (\<^verbatim>\<open>pubsublite/internal/wire/service.go\<close>).
  \<open>abstractService\<close> is the part every service embeds: a status that only moves forward,
  the error that caused termination, and receivers that are told of every change.
  \<open>compositeService\<close> manages child services through the \<^verbatim>\<open>service\<close> interface, which is a
  record of functions here (Go passes a method table); what a composite needs from its
  children is the locale \<open>service_contract\<close>.
\<close>

section \<open>Service status\<close>

datatype serviceStatus =
  serviceUninitialized | serviceStarting | serviceActive | serviceTerminating | serviceTerminated

fun status_rank :: "serviceStatus \<Rightarrow> nat" where
  "status_rank serviceUninitialized = 0"
| "status_rank serviceStarting = 1"
| "status_rank serviceActive = 2"
| "status_rank serviceTerminating = 3"
| "status_rank serviceTerminated = 4"

lemma status_rank_inject: "status_rank a = status_rank b \<Longrightarrow> a = b"
  by (cases a; cases b) simp_all

instantiation serviceStatus :: linorder
begin

definition less_eq_serviceStatus :: "serviceStatus \<Rightarrow> serviceStatus \<Rightarrow> bool" where
  "less_eq_serviceStatus a b \<longleftrightarrow> status_rank a \<le> status_rank b"

definition less_serviceStatus :: "serviceStatus \<Rightarrow> serviceStatus \<Rightarrow> bool" where
  "less_serviceStatus a b \<longleftrightarrow> status_rank a < status_rank b"

instance
  by standard
    (auto simp: less_eq_serviceStatus_def less_serviceStatus_def intro: status_rank_inject)

end

lemmas status_order = less_eq_serviceStatus_def less_serviceStatus_def

lemma serviceTerminated_top [simp]: "s \<le> serviceTerminated"
  by (cases s) (simp_all add: status_order)

lemma serviceTerminated_le [simp]: "serviceTerminated \<le> s \<longleftrightarrow> s = serviceTerminated"
  by (cases s) (simp_all add: status_order)

lemma serviceUninitialized_bot [simp]: "serviceUninitialized \<le> s"
  by (cases s) (simp_all add: status_order)

lemma serviceUninitialized_ge [simp]: "s \<le> serviceUninitialized \<longleftrightarrow> s = serviceUninitialized"
  by (cases s) (simp_all add: status_order)

lemma status_consts [simp]:
  "serviceStarting < serviceActive" "serviceStarting < serviceTerminating"
  "serviceActive < serviceTerminating" "serviceTerminating < serviceTerminated"
  "serviceActive < serviceTerminated" "serviceStarting < serviceTerminated"
  "serviceUninitialized < serviceStarting" "serviceUninitialized < serviceTerminating"
  "serviceStarting \<le> serviceActive" "serviceStarting \<le> serviceTerminating"
  "serviceActive \<le> serviceTerminating" "\<not> serviceActive \<le> serviceStarting"
  "\<not> serviceTerminating \<le> serviceActive" "\<not> serviceTerminating \<le> serviceStarting"
  by (simp_all add: status_order)

lemma ge_terminating_cases: "serviceTerminating \<le> s \<longleftrightarrow> s = serviceTerminating \<or> s = serviceTerminated"
  by (cases s) (simp_all add: status_order)

section \<open>The abstract service\<close>

type_synonym handle = nat

record statusChangeReceiver =
  scr_handle :: handle
  scr_onStatusChange :: nat

text \<open>A status change is delivered by a goroutine per receiver; a notification is such a
  call, with the callback, the status and the error.  The field \<open>as_notified\<close> records the
  goroutines that have been started, in order; the code only ever appends to it.\<close>

type_synonym notification = "nat \<times> serviceStatus \<times> wire_error option"

record abstractService =
  statusChangeReceivers :: "statusChangeReceiver list"
  as_status :: serviceStatus
  as_err :: "wire_error option"
  as_notified :: "notification list"

definition new_abstractService :: abstractService where
  "new_abstractService =
     \<lparr>statusChangeReceivers = [], as_status = serviceUninitialized, as_err = None, as_notified = []\<rparr>"

definition AddStatusChangeReceiver :: "handle \<Rightarrow> nat \<Rightarrow> abstractService \<Rightarrow> abstractService" where
  "AddStatusChangeReceiver handle onStatusChange as =
     as\<lparr>statusChangeReceivers := statusChangeReceivers as
          @ [\<lparr>scr_handle = handle, scr_onStatusChange = onStatusChange\<rparr>]\<rparr>"

text \<open>The loop runs the index downwards; an entry that matches is overwritten by the last
  element and the slice is cut by one.\<close>

fun remove_loop :: "nat \<Rightarrow> handle \<Rightarrow> statusChangeReceiver list \<Rightarrow> statusChangeReceiver list" where
  "remove_loop 0 handle rs = rs"
| "remove_loop (Suc i) handle rs =
     remove_loop i handle
       (if scr_handle (rs ! i) = handle
        then let lastIdx = length rs - 1
             in take lastIdx (if i \<noteq> lastIdx then rs[i := rs ! lastIdx] else rs)
        else rs)"

definition RemoveStatusChangeReceiver :: "handle \<Rightarrow> abstractService \<Rightarrow> abstractService" where
  "RemoveStatusChangeReceiver handle as =
     as\<lparr>statusChangeReceivers :=
          remove_loop (length (statusChangeReceivers as)) handle (statusChangeReceivers as)\<rparr>"

definition unsafeCheckServiceStatus :: "abstractService \<Rightarrow> wire_error option" where
  "unsafeCheckServiceStatus as =
     (if as_status as = serviceUninitialized then Some ErrServiceUninitialized
      else if as_status as = serviceStarting then Some ErrServiceStarting
      else if as_status as \<ge> serviceTerminating then Some ErrServiceStopped
      else None)"

definition unsafeUpdateStatus ::
  "serviceStatus \<Rightarrow> wire_error option \<Rightarrow> abstractService \<Rightarrow> abstractService \<times> bool" where
  "unsafeUpdateStatus targetStatus err as =
     (if as_status as \<ge> targetStatus then (as, False)
      else let as' = as\<lparr>as_status := targetStatus,
                        as_err := (case as_err as of None \<Rightarrow> err | Some e \<Rightarrow> Some e)\<rparr>
           in (as'\<lparr>as_notified := as_notified as'
                     @ map (\<lambda>r. (scr_onStatusChange r, as_status as', as_err as'))
                           (statusChangeReceivers as')\<rparr>, True))"

lemma unsafeUpdateStatus_status [simp]:
  "as_status (fst (unsafeUpdateStatus t e as)) = max (as_status as) t"
  by (auto simp: unsafeUpdateStatus_def Let_def max_def)

lemma unsafeUpdateStatus_ret [simp]: "snd (unsafeUpdateStatus t e as) \<longleftrightarrow> as_status as < t"
  by (auto simp: unsafeUpdateStatus_def Let_def)

lemma unsafeUpdateStatus_receivers [simp]:
  "statusChangeReceivers (fst (unsafeUpdateStatus t e as)) = statusChangeReceivers as"
  by (simp add: unsafeUpdateStatus_def Let_def)

lemma unsafeUpdateStatus_err:
  "as_err (fst (unsafeUpdateStatus t e as)) =
     (if as_status as < t \<and> as_err as = None then e else as_err as)"
  by (auto simp: unsafeUpdateStatus_def Let_def split: option.splits)

lemma remove_loop_mset:
  assumes "i \<le> length rs" and "\<forall>j. i \<le> j \<longrightarrow> j < length rs \<longrightarrow> scr_handle (rs ! j) \<noteq> h"
  shows "mset (remove_loop i h rs) = filter_mset (\<lambda>r. scr_handle r \<noteq> h) (mset rs)"
  using assms
proof (induction i h rs rule: remove_loop.induct)
  case (1 h rs)
  then have "\<forall>r\<in>set rs. scr_handle r \<noteq> h" by (auto simp: in_set_conv_nth)
  then have "filter (\<lambda>r. scr_handle r \<noteq> h) rs = rs" by (simp add: filter_id_conv)
  then show ?case by (metis mset_filter remove_loop.simps(1))
next
  case (2 i h rs)
  show ?case
  proof (cases "scr_handle (rs ! i) = h")
    case False
    have "\<forall>j. i \<le> j \<longrightarrow> j < length rs \<longrightarrow> scr_handle (rs ! j) \<noteq> h"
      using "2.prems"(2) False by (metis Suc_leI le_neq_implies_less)
    with "2.IH" "2.prems"(1) False show ?thesis by simp
  next
    case True
    define k where "k = length rs - 1"
    define rs' where "rs' = take k (if i \<noteq> k then rs[i := rs ! k] else rs)"
    have i: "i \<le> k" "k < length rs" using "2.prems"(1) by (auto simp: k_def)
    have eq: "(if scr_handle (rs ! i) = h
        then let lastIdx = length rs - 1 in take lastIdx (if i \<noteq> lastIdx then rs[i := rs ! lastIdx] else rs)
        else rs) = rs'" using True by (simp add: Let_def rs'_def k_def)
    have "rs = butlast rs @ [rs ! k]" using i
      by (metis append_butlast_last_id k_def last_conv_nth less_nat_zero_code list.size(3))
    then have "mset rs = mset (butlast rs @ [rs ! k])" by (rule arg_cong)
    then have mset_rs: "mset rs = add_mset (rs ! k) (mset (butlast rs))" by simp
    have mset: "mset rs = add_mset (rs ! i) (mset rs')"
    proof (cases "i = k")
      case True
      then have "rs' = butlast rs" by (simp add: rs'_def butlast_conv_take k_def)
      with True mset_rs show ?thesis by simp
    next
      case False
      with i have ik: "i < k" by simp
      have "rs' = (butlast rs)[i := rs ! k]"
        using ik by (simp add: rs'_def butlast_conv_take take_update_swap k_def)
      moreover have "mset ((butlast rs)[i := rs ! k]) = add_mset (rs ! k) (mset (butlast rs) - {#rs ! i#})"
        using ik by (simp add: mset_update nth_butlast k_def)
      moreover have "mset (butlast rs) = add_mset (rs ! i) (mset (butlast rs) - {#rs ! i#})"
        using ik unfolding k_def
        by (metis insert_DiffM in_multiset_in_set length_butlast nth_butlast nth_mem)
      ultimately show ?thesis by (metis add_mset_commute mset_rs)
    qed
    have len: "length rs' = k" using i by (auto simp: rs'_def)
    have "scr_handle (rs' ! j) \<noteq> h" if "i \<le> j" "j < length rs'" for j
      using that "2.prems"(2) i len by (cases "j = i") (auto simp: rs'_def)
    with "2.IH" have "mset (remove_loop i h rs') = filter_mset (\<lambda>r. scr_handle r \<noteq> h) (mset rs')"
      unfolding eq using i len by blast
    with True mset show ?thesis unfolding remove_loop.simps(2) eq by simp
  qed
qed

text \<open>Removing a status change receiver by its handle removes every receiver with that handle
  and no other, whatever the order in which the swap-and-truncate loop leaves the rest.\<close>

theorem RemoveStatusChangeReceiver_removes:
  "mset (statusChangeReceivers (RemoveStatusChangeReceiver h as)) =
     filter_mset (\<lambda>r. scr_handle r \<noteq> h) (mset (statusChangeReceivers as))"
  by (simp add: RemoveStatusChangeReceiver_def remove_loop_mset)


section \<open>The service interface\<close>

record 'c service_ops =
  svc_Start :: "'c \<Rightarrow> 'c"
  svc_Stop :: "'c \<Rightarrow> 'c"
  svc_AddStatusChangeReceiver :: "handle \<Rightarrow> nat \<Rightarrow> 'c \<Rightarrow> 'c"
  svc_RemoveStatusChangeReceiver :: "handle \<Rightarrow> 'c \<Rightarrow> 'c"
  svc_Status :: "'c \<Rightarrow> serviceStatus"

section \<open>The composite service\<close>

text \<open>A map keyed by service handles is an association list with distinct keys; its order is
  the order in which \<^verbatim>\<open>range\<close> happens to visit the entries.  The two channels are only ever
  closed, so each is the number of times it has been closed (closing twice panics).  The
  callback a composite registers with a child is its own, identified by its handle.  A
  removed service that has terminated leaves both maps; its final state is kept in the
  ghost field \<open>released\<close>, which no operation reads.\<close>

record 'c compositeService =
  cs_handle :: handle
  waitStarted :: nat
  waitTerminated :: nat
  dependencies :: "(handle \<times> 'c) list"
  removed :: "(handle \<times> 'c) list"
  released :: "(handle \<times> 'c) list"
  cs_abstract :: abstractService

abbreviation cs_status :: "'c compositeService \<Rightarrow> serviceStatus" where
  "cs_status cs \<equiv> as_status (cs_abstract cs)"

definition compositeService_init :: "handle \<Rightarrow> 'c compositeService" where
  "compositeService_init handle =
     \<lparr>cs_handle = handle, waitStarted = 0, waitTerminated = 0, dependencies = [], removed = [], released = [],
      cs_abstract = new_abstractService\<rparr>"

definition map_values :: "('c \<Rightarrow> 'c) \<Rightarrow> (handle \<times> 'c) list \<Rightarrow> (handle \<times> 'c) list" where
  "map_values f xs = map (\<lambda>(k, c). (k, f c)) xs"

definition compositeService_Start :: "'c service_ops \<Rightarrow> 'c compositeService \<Rightarrow> 'c compositeService" where
  "compositeService_Start ops cs =
     (case unsafeUpdateStatus serviceStarting None (cs_abstract cs) of
        (as, updated) \<Rightarrow>
          if updated then cs\<lparr>cs_abstract := as,
                             dependencies := map_values (svc_Start ops) (dependencies cs)\<rparr>
          else cs)"

definition compositeService_unsafeUpdateStatus ::
  "serviceStatus \<Rightarrow> wire_error option \<Rightarrow> 'c compositeService \<Rightarrow> 'c compositeService \<times> bool" where
  "compositeService_unsafeUpdateStatus targetStatus err cs =
     (let previousStatus = cs_status cs
      in case unsafeUpdateStatus targetStatus err (cs_abstract cs) of
           (as, ret) \<Rightarrow>
             if ret then
               (cs\<lparr>cs_abstract := as,
                   waitStarted := waitStarted cs
                     + (if previousStatus < serviceActive \<and> targetStatus \<ge> serviceActive then 1 else 0),
                   waitTerminated := waitTerminated cs
                     + (if targetStatus = serviceTerminated then 1 else 0)\<rparr>, True)
             else (cs\<lparr>cs_abstract := as\<rparr>, False))"

definition stop_unless_terminating :: "'c service_ops \<Rightarrow> 'c \<Rightarrow> 'c" where
  "stop_unless_terminating ops s = (if svc_Status ops s < serviceTerminating then svc_Stop ops s else s)"

definition compositeService_unsafeInitiateShutdown ::
  "'c service_ops \<Rightarrow> serviceStatus \<Rightarrow> wire_error option \<Rightarrow> 'c compositeService \<Rightarrow> 'c compositeService" where
  "compositeService_unsafeInitiateShutdown ops targetStatus err cs =
     (case compositeService_unsafeUpdateStatus targetStatus err cs of
        (cs', updated) \<Rightarrow>
          if updated then cs'\<lparr>dependencies := map_values (stop_unless_terminating ops) (dependencies cs')\<rparr>
          else cs')"

definition compositeService_Stop :: "'c service_ops \<Rightarrow> 'c compositeService \<Rightarrow> 'c compositeService" where
  "compositeService_Stop ops cs = compositeService_unsafeInitiateShutdown ops serviceTerminating None cs"

fun unsafeAddServices_loop ::
  "'c service_ops \<Rightarrow> (handle \<times> 'c) list \<Rightarrow> 'c compositeService \<Rightarrow> 'c compositeService \<times> wire_error option" where
  "unsafeAddServices_loop ops [] cs = (cs, None)"
| "unsafeAddServices_loop ops ((h, s) # services) cs =
     (if svc_Status ops s > serviceUninitialized then (cs, Some errChildServiceStarted)
      else let s1 = svc_AddStatusChangeReceiver ops (cs_handle cs) (cs_handle cs) s;
               s2 = (if cs_status cs > serviceUninitialized then svc_Start ops s1 else s1)
           in unsafeAddServices_loop ops services
                (cs\<lparr>dependencies := AList.update h s2 (dependencies cs)\<rparr>))"

definition unsafeAddServices ::
  "'c service_ops \<Rightarrow> (handle \<times> 'c) list \<Rightarrow> 'c compositeService \<Rightarrow> 'c compositeService \<times> wire_error option" where
  "unsafeAddServices ops services cs =
     (if cs_status cs \<ge> serviceTerminating then (cs, Some ErrServiceStopped)
      else unsafeAddServices_loop ops services cs)"

definition unsafeRemoveService :: "'c service_ops \<Rightarrow> handle \<Rightarrow> 'c compositeService \<Rightarrow> 'c compositeService" where
  "unsafeRemoveService ops h cs =
     (case map_of (dependencies cs) h of
        None \<Rightarrow> cs
      | Some remove \<Rightarrow>
          cs\<lparr>dependencies := AList.delete h (dependencies cs),
             removed := AList.update h (stop_unless_terminating ops remove) (removed cs)\<rparr>)"

text \<open>The first part of \<^verbatim>\<open>onServiceStatusChange\<close>: forget a removed service that has
  terminated.\<close>

definition forget_removed ::
  "'c service_ops \<Rightarrow> handle \<Rightarrow> serviceStatus \<Rightarrow> 'c compositeService \<Rightarrow> 'c compositeService" where
  "forget_removed ops h status cs =
     (case map_of (removed cs) h of
        None \<Rightarrow> cs
      | Some removedService \<Rightarrow>
          if status = serviceTerminated
          then cs\<lparr>released := released cs
                    @ [(h, svc_RemoveStatusChangeReceiver ops (cs_handle cs) removedService)],
                  removed := AList.delete h (removed cs)\<rparr>
          else cs)"

definition onServiceStatusChange ::
  "'c service_ops \<Rightarrow> handle \<Rightarrow> serviceStatus \<Rightarrow> wire_error option \<Rightarrow> 'c compositeService \<Rightarrow> 'c compositeService" where
  "onServiceStatusChange ops h status err cs =
     (let cs1 = forget_removed ops h status cs;
          isDependency = (map_of (dependencies cs1) h \<noteq> None);
          shouldTerminate = (status \<ge> serviceTerminating \<and> isDependency);
          deps = (if shouldTerminate then map_values (stop_unless_terminating ops) (dependencies cs1)
                  else dependencies cs1);
          numStarted = length (filter (\<lambda>(_, s). svc_Status ops s \<ge> serviceActive) deps);
          numTerminated = length (filter (\<lambda>(_, s). svc_Status ops s = serviceTerminated) deps);
          cs2 = cs1\<lparr>dependencies := deps\<rparr>
      in if numTerminated = length deps \<and> removed cs2 = []
         then fst (compositeService_unsafeUpdateStatus serviceTerminated err cs2)
         else if shouldTerminate then fst (compositeService_unsafeUpdateStatus serviceTerminating err cs2)
         else if numStarted = length deps then fst (compositeService_unsafeUpdateStatus serviceActive err cs2)
         else cs2)"

text \<open>A call on the child with a handle that is not part of the interface above.\<close>

definition update_child :: "handle \<Rightarrow> ('c \<Rightarrow> 'c) \<Rightarrow> 'c compositeService \<Rightarrow> 'c compositeService" where
  "update_child h f cs = cs\<lparr>dependencies := map (\<lambda>(k, c). (k, if k = h then f c else c)) (dependencies cs)\<rparr>"

text \<open>A composite is itself a service.\<close>

definition composite_ops :: "'c service_ops \<Rightarrow> 'c compositeService service_ops" where
  "composite_ops ops =
     \<lparr>svc_Start = compositeService_Start ops,
      svc_Stop = compositeService_Stop ops,
      svc_AddStatusChangeReceiver =
        (\<lambda>h f cs. cs\<lparr>cs_abstract := AddStatusChangeReceiver h f (cs_abstract cs)\<rparr>),
      svc_RemoveStatusChangeReceiver =
        (\<lambda>h cs. cs\<lparr>cs_abstract := RemoveStatusChangeReceiver h (cs_abstract cs)\<rparr>),
      svc_Status = cs_status\<rparr>"

section \<open>Lifecycle of a composite\<close>

text \<open>The operations a composite goes through, with its children moving on their own
  (\<open>CeChild\<close>: the child under a handle has moved to some state).\<close>

datatype 'c compositeEvent =
    CeStart
  | CeStop
  | CeShutdown serviceStatus "wire_error option"
  | CeAdd "(handle \<times> 'c) list"
  | CeRemove handle
  | CeStatusChange handle serviceStatus "wire_error option"
  | CeChild handle 'c

fun composite_step :: "'c service_ops \<Rightarrow> 'c compositeEvent \<Rightarrow> 'c compositeService \<Rightarrow> 'c compositeService" where
  "composite_step ops CeStart cs = compositeService_Start ops cs"
| "composite_step ops CeStop cs = compositeService_Stop ops cs"
| "composite_step ops (CeShutdown t e) cs = compositeService_unsafeInitiateShutdown ops t e cs"
| "composite_step ops (CeAdd ss) cs = fst (unsafeAddServices ops ss cs)"
| "composite_step ops (CeRemove h) cs = unsafeRemoveService ops h cs"
| "composite_step ops (CeStatusChange h s e) cs = onServiceStatusChange ops h s e cs"
| "composite_step ops (CeChild h c) cs =
     cs\<lparr>dependencies := map (\<lambda>(k, d). (k, if k = h then c else d)) (dependencies cs)\<rparr>"

definition composite_run :: "'c service_ops \<Rightarrow> 'c compositeEvent list \<Rightarrow> 'c compositeService \<Rightarrow> 'c compositeService" where
  "composite_run ops es cs = fold (composite_step ops) es cs"

definition channels_ok :: "'c compositeService \<Rightarrow> bool" where
  "channels_ok cs \<longleftrightarrow>
     waitStarted cs = (if cs_status cs \<ge> serviceActive then 1 else 0)
   \<and> waitTerminated cs = (if cs_status cs = serviceTerminated then 1 else 0)"

text \<open>How one operation may change the lifecycle part: the status never goes back and the
  first error stays.\<close>

definition lifecycle_le :: "abstractService \<Rightarrow> abstractService \<Rightarrow> bool" where
  "lifecycle_le a b \<longleftrightarrow> as_status a \<le> as_status b
     \<and> (as_err a \<noteq> None \<longrightarrow> as_err b = as_err a)
     \<and> (as_status a = as_status b \<longrightarrow> as_err b = as_err a)"

lemma lifecycle_le_refl [simp]: "lifecycle_le a a"
  by (simp add: lifecycle_le_def)

lemma lifecycle_le_trans: "lifecycle_le a b \<Longrightarrow> lifecycle_le b c \<Longrightarrow> lifecycle_le a c"
  by (auto simp: lifecycle_le_def)

lemma lifecycle_le_update [simp]: "lifecycle_le a (fst (unsafeUpdateStatus t e a))"
  by (auto simp: lifecycle_le_def unsafeUpdateStatus_err max_def)

lemma compositeService_unsafeUpdateStatus_abstract [simp]:
  "cs_abstract (fst (compositeService_unsafeUpdateStatus t e cs)) = fst (unsafeUpdateStatus t e (cs_abstract cs))"
  "dependencies (fst (compositeService_unsafeUpdateStatus t e cs)) = dependencies cs"
  "removed (fst (compositeService_unsafeUpdateStatus t e cs)) = removed cs"
  "snd (compositeService_unsafeUpdateStatus t e cs) \<longleftrightarrow> cs_status cs < t"
  by (simp_all add: compositeService_unsafeUpdateStatus_def Let_def split_beta)

lemma channels_ok_update [go_inv]:
  assumes "channels_ok cs"
  shows "channels_ok (fst (compositeService_unsafeUpdateStatus t e cs))"
proof (cases "cs_status cs < t")
  case True
  then show ?thesis
    using assms unfolding channels_ok_def compositeService_unsafeUpdateStatus_def unsafeUpdateStatus_def Let_def
    by (cases t; cases "cs_status cs") (simp_all add: status_order)
next
  case False
  then have "unsafeUpdateStatus t e (cs_abstract cs) = (cs_abstract cs, False)"
    by (simp add: unsafeUpdateStatus_def)
  with assms show ?thesis
    by (simp add: channels_ok_def compositeService_unsafeUpdateStatus_def)
qed

lemma composite_start_abstract [simp]:
  "cs_abstract (compositeService_Start ops cs) = fst (unsafeUpdateStatus serviceStarting None (cs_abstract cs))"
  by (auto simp: compositeService_Start_def unsafeUpdateStatus_def Let_def)

lemma composite_shutdown_abstract [simp]:
  "cs_abstract (compositeService_unsafeInitiateShutdown ops t e cs) = fst (unsafeUpdateStatus t e (cs_abstract cs))"
  by (simp add: compositeService_unsafeInitiateShutdown_def split_beta)

lemma add_loop_frame [simp]:
  "cs_abstract (fst (unsafeAddServices_loop ops ss cs)) = cs_abstract cs"
  "waitStarted (fst (unsafeAddServices_loop ops ss cs)) = waitStarted cs"
  "waitTerminated (fst (unsafeAddServices_loop ops ss cs)) = waitTerminated cs"
  by (induction ops ss cs rule: unsafeAddServices_loop.induct) (auto simp: Let_def)

lemma add_services_frame [simp]:
  "cs_abstract (fst (unsafeAddServices ops ss cs)) = cs_abstract cs"
  "waitStarted (fst (unsafeAddServices ops ss cs)) = waitStarted cs"
  "waitTerminated (fst (unsafeAddServices ops ss cs)) = waitTerminated cs"
  by (simp_all add: unsafeAddServices_def)

lemma remove_service_frame [simp]:
  "cs_abstract (unsafeRemoveService ops h cs) = cs_abstract cs"
  "waitStarted (unsafeRemoveService ops h cs) = waitStarted cs"
  "waitTerminated (unsafeRemoveService ops h cs) = waitTerminated cs"
  by (simp_all add: unsafeRemoveService_def split: option.splits)

lemma channels_ok_start: "channels_ok cs \<Longrightarrow> channels_ok (compositeService_Start ops cs)"
  by (cases "cs_status cs")
    (auto simp: channels_ok_def compositeService_Start_def unsafeUpdateStatus_def Let_def status_order)

lemma channels_ok_cong:
  "\<lbrakk>channels_ok cs; cs_abstract cs' = cs_abstract cs; waitStarted cs' = waitStarted cs;
    waitTerminated cs' = waitTerminated cs\<rbrakk> \<Longrightarrow> channels_ok cs'"
  by (simp add: channels_ok_def)

lemma channels_ok_shutdown:
  assumes "channels_ok cs"
  shows "channels_ok (compositeService_unsafeInitiateShutdown ops t e cs)"
  by (rule channels_ok_cong [OF channels_ok_update [OF assms, of t e]])
    (simp_all add: compositeService_unsafeInitiateShutdown_def split_beta)

lemma forget_removed_frame [simp]:
  "cs_abstract (forget_removed ops h s cs) = cs_abstract cs"
  "waitStarted (forget_removed ops h s cs) = waitStarted cs"
  "waitTerminated (forget_removed ops h s cs) = waitTerminated cs"
  "dependencies (forget_removed ops h s cs) = dependencies cs"
  by (simp_all add: forget_removed_def split: option.splits)

lemma onServiceStatusChange_cases:
  obtains cs2 where "cs_abstract cs2 = cs_abstract cs" "waitStarted cs2 = waitStarted cs"
    "waitTerminated cs2 = waitTerminated cs"
    "onServiceStatusChange ops h s e cs = cs2
     \<or> (\<exists>t. onServiceStatusChange ops h s e cs = fst (compositeService_unsafeUpdateStatus t e cs2))"
proof -
  define deps where "deps = (if s \<ge> serviceTerminating \<and> map_of (dependencies cs) h \<noteq> None
    then map_values (stop_unless_terminating ops) (dependencies cs) else dependencies cs)"
  show thesis
    by (rule that [of "(forget_removed ops h s cs)\<lparr>dependencies := deps\<rparr>"])
      (auto simp: onServiceStatusChange_def Let_def deps_def)
qed

lemma composite_step_lifecycle:
  assumes "channels_ok cs"
  shows "channels_ok (composite_step ops ev cs)
       \<and> lifecycle_le (cs_abstract cs) (cs_abstract (composite_step ops ev cs))"
proof (cases ev)
  case (CeStatusChange h s e)
  obtain cs2 where "cs_abstract cs2 = cs_abstract cs" "waitStarted cs2 = waitStarted cs"
    "waitTerminated cs2 = waitTerminated cs"
    and "onServiceStatusChange ops h s e cs = cs2
     \<or> (\<exists>t. onServiceStatusChange ops h s e cs = fst (compositeService_unsafeUpdateStatus t e cs2))"
    by (rule onServiceStatusChange_cases)
  moreover from this have "channels_ok cs2" using assms channels_ok_cong by metis
  ultimately show ?thesis
    using CeStatusChange channels_ok_update [of cs2]
    by (metis composite_step.simps(6) compositeService_unsafeUpdateStatus_abstract(1) lifecycle_le_refl
        lifecycle_le_update)
qed (use assms in \<open>auto simp: compositeService_Stop_def intro: channels_ok_start channels_ok_shutdown
      channels_ok_cong\<close>)

text \<open>C19: Whatever happens to a composite service (start, stop, children added, removed, moving or
  reporting status changes), its status never moves back, the error that made it terminate
  is never overwritten, and its two channels are each closed exactly when the status first
  reaches active, respectively terminated, so no run closes a channel twice.\<close>

theorem composite_lifecycle:
  "let cs = compositeService_init h; cs' = composite_run ops es cs; cs'' = composite_run ops es' cs'
   in channels_ok cs' \<and> waitStarted cs'' \<le> 1 \<and> waitTerminated cs'' \<le> 1
    \<and> lifecycle_le (cs_abstract cs') (cs_abstract cs'')"
proof -
  have run: "channels_ok (composite_run ops es cs)
      \<and> lifecycle_le (cs_abstract cs) (cs_abstract (composite_run ops es cs))"
    if "channels_ok cs" for es and cs :: "'a compositeService"
    using that
  proof (induction es arbitrary: cs)
    case (Cons ev es)
    with composite_step_lifecycle [OF Cons.prems, of ops ev] show ?case
      by (auto simp: composite_run_def intro: lifecycle_le_trans)
  qed (simp add: composite_run_def)
  have "channels_ok (compositeService_init h)"
    by (simp add: channels_ok_def compositeService_init_def new_abstractService_def status_order)
  with run have "channels_ok (composite_run ops es (compositeService_init h))" by blast
  with run [OF this, of es'] show ?thesis by (simp add: Let_def channels_ok_def)
qed

section \<open>The contract of a child service\<close>

locale service_contract =
  fixes ops :: "'c service_ops"
  assumes stop_terminating: "serviceTerminating \<le> svc_Status ops (svc_Stop ops c)"
    and start_started: "serviceUninitialized < svc_Status ops (svc_Start ops c)"
    and start_mono: "svc_Status ops c \<le> svc_Status ops (svc_Start ops c)"
    and stop_mono: "svc_Status ops c \<le> svc_Status ops (svc_Stop ops c)"
    and add_status: "svc_Status ops (svc_AddStatusChangeReceiver ops h f c) = svc_Status ops c"
    and remove_status: "svc_Status ops (svc_RemoveStatusChangeReceiver ops h c) = svc_Status ops c"
begin

lemma stop_unless_terminating_status [simp]:
  "serviceTerminating \<le> svc_Status ops (stop_unless_terminating ops c)"
  by (simp add: stop_unless_terminating_def stop_terminating not_less)

text \<open>When a dependency reports that it is terminating, every dependency is told to stop and the
  composite leaves the active state.\<close>

lemma dependency_failure_stops_all:
  assumes "map_of (dependencies cs) h \<noteq> None" and "serviceTerminating \<le> s"
  shows "(\<forall>(k, c)\<in>set (dependencies (onServiceStatusChange ops h s e cs)).
             serviceTerminating \<le> svc_Status ops c)
       \<and> serviceTerminating \<le> cs_status (onServiceStatusChange ops h s e cs)"
  using assms
  by (auto simp: onServiceStatusChange_def Let_def map_values_def le_max_iff_disj
      split: option.splits if_splits)

text \<open>The composite reports termination only when all its dependencies have terminated and no
  removed service is still terminating.\<close>

lemma terminated_only_when_all_are:
  assumes "cs_status cs \<noteq> serviceTerminated"
    and "cs_status (onServiceStatusChange ops h s e cs) = serviceTerminated"
  shows "removed (onServiceStatusChange ops h s e cs) = []
       \<and> (\<forall>(k, c)\<in>set (dependencies (onServiceStatusChange ops h s e cs)).
            svc_Status ops c = serviceTerminated)"
proof -
  have "max (cs_status cs) serviceTerminating \<noteq> serviceTerminated"
    "max (cs_status cs) serviceActive \<noteq> serviceTerminated"
    using assms(1) by (auto simp: max_def)
  with assms show ?thesis
    by (auto simp: onServiceStatusChange_def Let_def length_filter_eq_iff split: option.splits if_splits)
qed

text \<open>A composite of services that keep the contract keeps it, so composites nest.\<close>

lemma composite_contract: "service_contract (composite_ops ops)"
  by unfold_locales
    (auto simp: composite_ops_def compositeService_Stop_def AddStatusChangeReceiver_def
      RemoveStatusChangeReceiver_def le_max_iff_disj less_max_iff_disj)

end

end
