(* ===== verification/Wire_Router.thy ===== *)
theory Wire_Router
  imports Wire_Batcher
begin

text \<open>
  Routing of messages to partitions (\<^verbatim>\<open>pubsublite/internal/wire/message_router.go\<close>).  The
  \<^verbatim>\<open>messageRouter\<close> interface is the locale \<open>message_router\<close>; the round-robin, hashing and
  composite routers are its interpretations.  SHA-256 and the random number generator are
  not code of the repository: the hash is an argument \<open>sha256\<close> and the random start of the
  round robin an argument of the constructor, in the range \<^verbatim>\<open>Int63n\<close> documents.
\<close>

section \<open>The routers\<close>

record roundRobinMsgRouter =
  rr_partitionCount :: int
  nextPartition :: int

definition newRoundRobinMsgRouter :: "int \<Rightarrow> int \<Rightarrow> roundRobinMsgRouter" where
  "newRoundRobinMsgRouter rnd count = \<lparr>rr_partitionCount = count, nextPartition = rnd\<rparr>"

definition roundRobinMsgRouter_Route :: "bytes \<Rightarrow> roundRobinMsgRouter \<Rightarrow> roundRobinMsgRouter \<times> int" where
  "roundRobinMsgRouter_Route key r =
     (let part = nextPartition r
      in (r\<lparr>nextPartition := (part + 1) mod rr_partitionCount r\<rparr>, part))"

record hashingMsgRouter =
  hm_partitionCount :: int

definition newHashingMsgRouter :: "int \<Rightarrow> hashingMsgRouter" where
  "newHashingMsgRouter count = \<lparr>hm_partitionCount = count\<rparr>"

text \<open>\<^verbatim>\<open>big.Int.SetBytes\<close>: the unsigned big-endian number.\<close>

definition big_SetBytes :: "bytes \<Rightarrow> int" where
  "big_SetBytes bs = foldl (\<lambda>n b. 256 * n + int b) 0 bs"

definition hashingMsgRouter_Route ::
  "(bytes \<Rightarrow> bytes) \<Rightarrow> bytes \<Rightarrow> hashingMsgRouter \<Rightarrow> hashingMsgRouter \<times> int" where
  "hashingMsgRouter_Route sha256 orderingKey r =
     (if length orderingKey = 0 then (r, -1)
      else (r, big_SetBytes (sha256 orderingKey) mod hm_partitionCount r))"

record compositeMsgRouter =
  keyedRouter :: hashingMsgRouter
  keylessRouter :: roundRobinMsgRouter

definition compositeMsgRouter_Route ::
  "(bytes \<Rightarrow> bytes) \<Rightarrow> bytes \<Rightarrow> compositeMsgRouter \<Rightarrow> compositeMsgRouter \<times> int" where
  "compositeMsgRouter_Route sha256 orderingKey r =
     (if length orderingKey > 0
      then case hashingMsgRouter_Route sha256 orderingKey (keyedRouter r) of
             (k, p) \<Rightarrow> (r\<lparr>keyedRouter := k\<rparr>, p)
      else case roundRobinMsgRouter_Route orderingKey (keylessRouter r) of
             (k, p) \<Rightarrow> (r\<lparr>keylessRouter := k\<rparr>, p))"

definition messageRouterFactory_New :: "int \<Rightarrow> int \<Rightarrow> compositeMsgRouter" where
  "messageRouterFactory_New rnd partitionCount =
     \<lparr>keyedRouter = newHashingMsgRouter partitionCount,
      keylessRouter = newRoundRobinMsgRouter rnd partitionCount\<rparr>"

section \<open>The router interface\<close>

text \<open>What a publisher needs from a router with \<open>count r\<close> partitions: for a key the router
  \<open>accepts\<close>, a partition in range, and a router that still has its invariant and count.\<close>

locale message_router =
  fixes Route :: "bytes \<Rightarrow> 'r \<Rightarrow> 'r \<times> int"
    and accepts :: "bytes \<Rightarrow> bool"
    and router_inv :: "'r \<Rightarrow> bool"
    and count :: "'r \<Rightarrow> int"
  assumes route_range: "router_inv r \<Longrightarrow> accepts key \<Longrightarrow> 0 \<le> snd (Route key r) \<and> snd (Route key r) < count r"
    and route_inv: "router_inv r \<Longrightarrow> accepts key \<Longrightarrow> router_inv (fst (Route key r))"
    and route_count: "count (fst (Route key r)) = count r"
begin

definition route_all :: "bytes list \<Rightarrow> 'r \<Rightarrow> 'r \<times> int list" where
  "route_all keys r = fold (\<lambda>key (r, ps). case Route key r of (r', p) \<Rightarrow> (r', ps @ [p])) keys (r, [])"

lemma route_all_snoc:
  "route_all (keys @ [key]) r =
     (let (r1, ps) = route_all keys r; (r2, p) = Route key r1 in (r2, ps @ [p]))"
  by (simp add: route_all_def split_beta Let_def)

lemma route_all_range:
  assumes "router_inv r" and "\<forall>key\<in>set keys. accepts key"
  shows "router_inv (fst (route_all keys r)) \<and> count (fst (route_all keys r)) = count r
       \<and> (\<forall>p\<in>set (snd (route_all keys r)). 0 \<le> p \<and> p < count r)"
  using assms(2)
proof (induction keys rule: rev_induct)
  case Nil
  then show ?case using assms(1) by (simp add: route_all_def)
next
  case (snoc key keys)
  then have IH: "router_inv (fst (route_all keys r))" "count (fst (route_all keys r)) = count r"
    "\<forall>p\<in>set (snd (route_all keys r)). 0 \<le> p \<and> p < count r" and key: "accepts key" by auto
  from route_range [OF IH(1) key] route_inv [OF IH(1) key] IH(2,3) route_count show ?case
    by (auto simp: route_all_snoc split_beta Let_def)
qed

end

definition rr_inv :: "roundRobinMsgRouter \<Rightarrow> bool" where
  "rr_inv r \<longleftrightarrow> 0 \<le> nextPartition r \<and> nextPartition r < rr_partitionCount r"

definition composite_inv :: "compositeMsgRouter \<Rightarrow> bool" where
  "composite_inv r \<longleftrightarrow> rr_inv (keylessRouter r) \<and> hm_partitionCount (keyedRouter r) = rr_partitionCount (keylessRouter r)"

definition composite_count :: "compositeMsgRouter \<Rightarrow> int" where
  "composite_count r = rr_partitionCount (keylessRouter r)"

interpretation round_robin: message_router roundRobinMsgRouter_Route "\<lambda>_. True" rr_inv rr_partitionCount
  by unfold_locales (auto simp: roundRobinMsgRouter_Route_def Let_def rr_inv_def)

interpretation hashing: message_router "hashingMsgRouter_Route sha256" "\<lambda>key. key \<noteq> []"
    "\<lambda>r. 0 < hm_partitionCount r" hm_partitionCount for sha256
  by unfold_locales (auto simp: hashingMsgRouter_Route_def)

lemma composite_route_cases:
  "compositeMsgRouter_Route sha256 key r =
     (if key \<noteq> [] then (r, snd (hashingMsgRouter_Route sha256 key (keyedRouter r)))
      else (r\<lparr>keylessRouter := fst (roundRobinMsgRouter_Route key (keylessRouter r))\<rparr>,
            snd (roundRobinMsgRouter_Route key (keylessRouter r))))"
  by (auto simp: compositeMsgRouter_Route_def hashingMsgRouter_Route_def split_beta)

interpretation composite: message_router "compositeMsgRouter_Route sha256" "\<lambda>_. True"
    composite_inv composite_count for sha256
proof
  fix r key
  assume inv: "composite_inv r"
  then have keyed: "0 < hm_partitionCount (keyedRouter r)"
    and keyless: "rr_inv (keylessRouter r)" and eq: "hm_partitionCount (keyedRouter r) = composite_count r"
    by (auto simp: composite_inv_def rr_inv_def composite_count_def)
  show "0 \<le> snd (compositeMsgRouter_Route sha256 key r)
      \<and> snd (compositeMsgRouter_Route sha256 key r) < composite_count r"
    using hashing.route_range [OF keyed, of key sha256] round_robin.route_range [OF keyless, of key] eq
    by (auto simp: composite_route_cases composite_count_def)
  show "composite_inv (fst (compositeMsgRouter_Route sha256 key r))"
    using inv round_robin.route_inv [OF keyless, of key] round_robin.route_count [of key "keylessRouter r"]
    by (auto simp: composite_route_cases composite_inv_def)
next
  fix r key
  show "composite_count (fst (compositeMsgRouter_Route sha256 key r)) = composite_count r"
    using round_robin.route_count [of key "keylessRouter r"]
    by (auto simp: composite_route_cases composite_count_def)
qed

lemma factory_inv:
  "0 \<le> rnd \<Longrightarrow> rnd < n \<Longrightarrow> composite_inv (messageRouterFactory_New rnd n) \<and> composite_count (messageRouterFactory_New rnd n) = n"
  by (simp add: composite_inv_def rr_inv_def composite_count_def messageRouterFactory_New_def
      newRoundRobinMsgRouter_def newHashingMsgRouter_def)

section \<open>Round robin visits every partition\<close>

fun rr_routes :: "nat \<Rightarrow> roundRobinMsgRouter \<Rightarrow> int list" where
  "rr_routes 0 r = []"
| "rr_routes (Suc n) r = (case roundRobinMsgRouter_Route [] r of (r', p) \<Rightarrow> p # rr_routes n r')"

lemma rr_routes_eq:
  "rr_inv r \<Longrightarrow> rr_routes n r = map (\<lambda>i. (nextPartition r + int i) mod rr_partitionCount r) [0..<n]"
proof (induction n arbitrary: r)
  case (Suc n)
  let ?r = "fst (roundRobinMsgRouter_Route [] r)"
  have "rr_inv ?r" using Suc.prems by (simp add: round_robin.route_inv)
  then have "rr_routes n ?r = map (\<lambda>i. (nextPartition ?r + int i) mod rr_partitionCount ?r) [0..<n]"
    by (rule Suc.IH)
  also have "\<dots> = map (\<lambda>i. (nextPartition r + int (Suc i)) mod rr_partitionCount r) [0..<n]"
    by (simp add: roundRobinMsgRouter_Route_def Let_def mod_simps algebra_simps)
  finally have tl: "rr_routes n ?r = map (\<lambda>i. (nextPartition r + int (Suc i)) mod rr_partitionCount r) [0..<n]" .
  have "snd (roundRobinMsgRouter_Route [] r) = (nextPartition r + int 0) mod rr_partitionCount r"
    using Suc.prems by (simp add: roundRobinMsgRouter_Route_def Let_def rr_inv_def)
  with tl show ?case by (simp add: split_beta map_upt_Suc del: upt_Suc)
qed simp

text \<open>Messages without a key are spread evenly: as many consecutive keyless messages as there
  are partitions go to every partition exactly once, whatever the random start.\<close>

theorem round_robin_visits_all:
  assumes "rr_inv r"
  shows "distinct (rr_routes (nat (rr_partitionCount r)) r)
       \<and> set (rr_routes (nat (rr_partitionCount r)) r) = {0..<rr_partitionCount r}"
proof -
  let ?n = "rr_partitionCount r" and ?s = "nextPartition r"
  have n: "0 < ?n" "0 \<le> ?s" "?s < ?n" using assms by (auto simp: rr_inv_def)
  have "i = j" if "i < nat ?n" "j < nat ?n" "(?s + int i) mod ?n = (?s + int j) mod ?n" for i j
  proof -
    have "int i mod ?n = int j mod ?n" using that(3) by (metis add_diff_cancel_left' mod_diff_left_eq)
    with that show ?thesis by simp
  qed
  then have "inj_on (\<lambda>i. (?s + int i) mod ?n) (set [0..<nat ?n])" by (intro inj_onI) simp
  then have d: "distinct (rr_routes (nat ?n) r)" by (simp add: rr_routes_eq [OF assms] distinct_map)
  have "set (rr_routes (nat ?n) r) \<subseteq> {0..<?n}" using n by (auto simp: rr_routes_eq [OF assms])
  moreover have "card (set (rr_routes (nat ?n) r)) = card {0..<?n}"
    using distinct_card [OF d] by (simp add: rr_routes_eq [OF assms])
  ultimately show ?thesis using d by (simp add: card_subset_eq)
qed

theorem round_robin_visits_all_witness:
  "set (rr_routes 3 (newRoundRobinMsgRouter 2 3)) = {0..<3}"
  using round_robin_visits_all [of "newRoundRobinMsgRouter 2 3"]
  by (simp add: rr_inv_def newRoundRobinMsgRouter_def)

text \<open>Ordering keys are sticky: however many messages are routed in between, a message with a
  given non-empty ordering key goes to the same partition, and every partition a router of
  \<open>n\<close> partitions returns is between \<open>0\<close> and \<open>n - 1\<close>.\<close>

theorem composite_router_sticky:
  assumes "0 \<le> rnd" and "rnd < n" and "key \<noteq> []"
    and "r = fst (composite.route_all sha256 keys (messageRouterFactory_New rnd n))"
  shows "snd (compositeMsgRouter_Route sha256 key r) = big_SetBytes (sha256 key) mod n
       \<and> (\<forall>p\<in>set (snd (composite.route_all sha256 keys (messageRouterFactory_New rnd n))). 0 \<le> p \<and> p < n)"
proof -
  let ?f = "messageRouterFactory_New rnd n"
  have f: "composite_inv ?f" "composite_count ?f = n" using factory_inv assms(1,2) by auto
  from composite.route_all_range [OF f(1), of keys sha256]
  have "composite_inv r" "composite_count r = n"
    and ps: "\<forall>p\<in>set (snd (composite.route_all sha256 keys ?f)). 0 \<le> p \<and> p < n"
    using f(2) by (auto simp: assms(4))
  then have "hm_partitionCount (keyedRouter r) = n"
    by (simp add: composite_inv_def composite_count_def)
  with assms(3) ps show ?thesis
    by (simp add: composite_route_cases hashingMsgRouter_Route_def)
qed

theorem composite_router_sticky_witness:
  "snd (compositeMsgRouter_Route (\<lambda>k. k) [1, 2]
     (fst (composite.route_all (\<lambda>k. k) [[], [1, 2], []] (messageRouterFactory_New 0 5)))) = 258 mod 5"
  using composite_router_sticky [of 0 5 "[1, 2]" _ "\<lambda>k. k" "[[], [1, 2], []]", OF _ _ _ refl]
  by (simp add: big_SetBytes_def)

end
