(* ===== verification/Wire_Publisher.thy ===== *)
theory Wire_Publisher
  imports Wire_Batcher Wire_Streams Wire_Service Wire_Router
begin

text \<open>
  \<^verbatim>\<open>publisher.go\<close>: the publisher of one topic partition, which sends message batches to its
  stream, resends the batches in flight after a reconnection and matches responses with
  batches; and the routing publisher over all partitions.  The bundler, \<^verbatim>\<open>proto.Size\<close> and the
  gRPC stream are parameters.  \<^verbatim>\<open>unsafeInitiateShutdown\<close> releases the mutex while it flushes the
  bundler, so it is two functions and the calls waiting for their flush are part of the state.
\<close>

section \<open>The publisher of one partition\<close>

text \<open>A shutdown that waits for \<^verbatim>\<open>Flush\<close>: its target status, its error, and the result that
  \<^verbatim>\<open>Publish\<close> reports when its call of \<^verbatim>\<open>unsafeInitiateShutdown\<close> returns.\<close>

record shutdownCall =
  sc_target :: serviceStatus
  sc_err :: "wire_error option"
  sc_result :: "publishResult option"

text \<open>\<open>pp_results\<close> logs the calls of the result callbacks, \<open>pp_answered\<close> counts the responses
  processed on the current connection.  The goroutines that run \<^verbatim>\<open>connectStream\<close> change the stream in one critical section and
  tell the publisher of it in another, of another mutex: \<open>pp_notices\<close> are the notices that are on their way, and \<open>pp_connecting\<close>
  says that a goroutine has passed \<^verbatim>\<open>canReconnect\<close> and not yet \<^verbatim>\<open>connected\<close> (there is at most one).\<close>

record 'b singlePartitionPublisher =
  pp_topic :: string
  pp_stream :: "PubSubMessage list retryableStream"
  pp_batcher :: "'b publishMessageBatcher"
  enableSendToStream :: bool
  pp_service :: abstractService
  pp_flushing :: "shutdownCall list"
  pp_results :: "publishResult list"
  pp_answered :: nat
  pp_connecting :: bool
  pp_notices :: "streamStatus multiset"

abbreviation pp_status :: "'b singlePartitionPublisher \<Rightarrow> serviceStatus" where
  "pp_status pp \<equiv> as_status (pp_service pp)"

definition newSinglePartitionPublisher ::
  "PublishSettings \<Rightarrow> string \<Rightarrow> int \<Rightarrow> 'b \<Rightarrow> 'b singlePartitionPublisher" where
  "newSinglePartitionPublisher settings topic part bundler =
     \<lparr>pp_topic = topic,
      pp_stream = newRetryableStream (ps_Timeout settings) (streamIdleTimeout (ps_Timeout settings)),
      pp_batcher = newPublishMessageBatcher settings part bundler,
      enableSendToStream = False, pp_service = new_abstractService,
      pp_flushing = [], pp_results = [], pp_answered = 0,
      pp_connecting = False, pp_notices = {#}\<rparr>"

definition pp_updateStatus ::
  "serviceStatus \<Rightarrow> wire_error option \<Rightarrow> 'b singlePartitionPublisher \<Rightarrow> 'b singlePartitionPublisher \<times> bool" where
  "pp_updateStatus target err pp =
     (case unsafeUpdateStatus target err (pp_service pp) of (as, ok) \<Rightarrow> (pp\<lparr>pp_service := as\<rparr>, ok))"

definition publisher_Start :: "'b singlePartitionPublisher \<Rightarrow> 'b singlePartitionPublisher" where
  "publisher_Start pp =
     (case pp_updateStatus serviceStarting None pp of (pp1, updated) \<Rightarrow>
        if updated then pp1\<lparr>pp_stream := retryableStream_Start (pp_stream pp1)\<rparr> else pp1)"

definition report :: "publishResult option \<Rightarrow> 'b singlePartitionPublisher \<Rightarrow> 'b singlePartitionPublisher" where
  "report r pp = pp\<lparr>pp_results := pp_results pp @ (case r of Some x \<Rightarrow> [x] | None \<Rightarrow> [])\<rparr>"

definition publisher_unsafeCheckDone :: "'b singlePartitionPublisher \<Rightarrow> 'b singlePartitionPublisher" where
  "publisher_unsafeCheckDone pp =
     (if pp_status pp = serviceTerminating \<and> InFlightBatchesEmpty (pp_batcher pp)
      then pp\<lparr>pp_stream := retryableStream_Stop (pp_stream pp)\<rparr> else pp)"

text \<open>\<^verbatim>\<open>unsafeInitiateShutdown\<close> up to the flush of the bundler, and after it.\<close>

definition publisher_initiateShutdown ::
  "serviceStatus \<Rightarrow> wire_error option \<Rightarrow> publishResult option \<Rightarrow> 'b singlePartitionPublisher \<Rightarrow> 'b singlePartitionPublisher" where
  "publisher_initiateShutdown targetStatus err result pp =
     (case pp_updateStatus targetStatus (wrapError ''publisher'' (pp_topic pp) err) pp of
        (pp1, updated) \<Rightarrow>
          if \<not> updated then report result pp1
          else let pp2 = (if targetStatus = serviceTerminated
                          then pp1\<lparr>enableSendToStream := False,
                                   pp_stream := retryableStream_Stop (pp_stream pp1)\<rparr>
                          else pp1)
               in pp2\<lparr>pp_flushing := pp_flushing pp2
                        @ [\<lparr>sc_target = targetStatus, sc_err = err, sc_result = result\<rparr>]\<rparr>)"

definition publisher_afterFlush :: "shutdownCall \<Rightarrow> 'b singlePartitionPublisher \<Rightarrow> 'b singlePartitionPublisher" where
  "publisher_afterFlush call pp =
     (if sc_target call = serviceTerminating then report (sc_result call) (publisher_unsafeCheckDone pp)
      else case OnPermanentError (sc_err call) (pp_batcher pp) of
             (b, results) \<Rightarrow>
               report (sc_result call) (pp\<lparr>pp_batcher := b, pp_results := pp_results pp @ results\<rparr>))"

definition publisher_Stop :: "'b singlePartitionPublisher \<Rightarrow> 'b singlePartitionPublisher" where
  "publisher_Stop pp = publisher_initiateShutdown serviceTerminating None None pp"

definition processMessage ::
  "(messageHolder \<Rightarrow> int \<Rightarrow> 'b \<Rightarrow> 'b \<times> wire_error option) \<Rightarrow> (PubSubMessage \<Rightarrow> int) \<Rightarrow>
   PubSubMessage \<Rightarrow> nat \<Rightarrow> 'b singlePartitionPublisher \<Rightarrow> 'b singlePartitionPublisher \<times> wire_error option" where
  "processMessage bundler_Add proto_Size msg onResult pp =
     (if pp_status pp = serviceUninitialized then (pp, Some ErrServiceUninitialized)
      else if pp_status pp \<ge> serviceTerminating then (pp, Some ErrServiceStopped)
      else case AddMessage bundler_Add proto_Size msg onResult (pp_batcher pp) of
             (b, err) \<Rightarrow> (pp\<lparr>pp_batcher := b\<rparr>, err))"

definition publisher_Publish ::
  "(messageHolder \<Rightarrow> int \<Rightarrow> 'b \<Rightarrow> 'b \<times> wire_error option) \<Rightarrow> (PubSubMessage \<Rightarrow> int) \<Rightarrow>
   PubSubMessage \<Rightarrow> nat \<Rightarrow> 'b singlePartitionPublisher \<Rightarrow> 'b singlePartitionPublisher" where
  "publisher_Publish bundler_Add proto_Size msg onResult pp =
     (case processMessage bundler_Add proto_Size msg onResult pp of
        (pp1, None) \<Rightarrow> pp1
      | (pp1, Some err) \<Rightarrow>
          publisher_initiateShutdown serviceTerminating (Some err) (Some (onResult, None, Some err)) pp1)"

text \<open>The loop that resends the batches in flight; the result says whether all were sent.\<close>

fun resend_loop ::
  "(nat \<Rightarrow> nat \<Rightarrow> wire_error option) \<Rightarrow> publishBatch list \<Rightarrow> PubSubMessage list retryableStream
   \<Rightarrow> PubSubMessage list retryableStream \<times> bool" where
  "resend_loop SendMsg [] rs = (rs, True)"
| "resend_loop SendMsg (batch # batches) rs =
     (case retryableStream_Send SendMsg (ToPublishRequest batch) rs of
        (rs1, sent) \<Rightarrow> if \<not> sent then (rs1, False) else resend_loop SendMsg batches rs1)"

definition publisher_onStreamStatusChange ::
  "(nat \<Rightarrow> nat \<Rightarrow> wire_error option) \<Rightarrow> streamStatus \<Rightarrow> 'b singlePartitionPublisher \<Rightarrow> 'b singlePartitionPublisher" where
  "publisher_onStreamStatusChange SendMsg status pp =
     (case status of
        streamReconnecting \<Rightarrow> pp\<lparr>enableSendToStream := False\<rparr>
      | streamConnected \<Rightarrow>
          let pp1 = fst (pp_updateStatus serviceActive None pp)
          in (case InFlightBatches (pp_batcher pp1) of
                (b, batches) \<Rightarrow>
                  case resend_loop SendMsg batches (pp_stream pp1) of
                    (rs, True) \<Rightarrow> pp1\<lparr>pp_batcher := b, pp_stream := rs, enableSendToStream := True\<rparr>
                  | (rs, False) \<Rightarrow> pp1\<lparr>pp_batcher := b, pp_stream := rs\<rparr>)
      | streamTerminated \<Rightarrow>
          publisher_initiateShutdown serviceTerminated (rs_finalErr (pp_stream pp)) None pp
      | _ \<Rightarrow> pp)"

definition onNewBatch ::
  "(nat \<Rightarrow> nat \<Rightarrow> wire_error option) \<Rightarrow> publishBatch \<Rightarrow> 'b singlePartitionPublisher \<Rightarrow> 'b singlePartitionPublisher" where
  "onNewBatch SendMsg batch pp =
     (let pp1 = pp\<lparr>pp_batcher := AddBatch batch (pp_batcher pp)\<rparr>
      in if enableSendToStream pp1
         then pp1\<lparr>pp_stream := fst (retryableStream_Send SendMsg (ToPublishRequest batch) (pp_stream pp1))\<rparr>
         else pp1)"

datatype publishResponse = PubInitial | PubMessages int | PubOther

definition publisher_validateInitialResponse :: "publishResponse \<Rightarrow> wire_error option" where
  "publisher_validateInitialResponse response =
     (if response = PubInitial then None else Some errInvalidInitialPubResponse)"

definition publisher_processResponse ::
  "publishResponse \<Rightarrow> 'b singlePartitionPublisher \<Rightarrow> 'b singlePartitionPublisher \<times> wire_error option" where
  "publisher_processResponse response pp =
     (case response of
        PubMessages firstOffset \<Rightarrow>
          (case OnPublishResponse firstOffset (pp_batcher pp) of
             (b, results, Some err) \<Rightarrow> (pp\<lparr>pp_batcher := b\<rparr>, Some err)
           | (b, results, None) \<Rightarrow>
               (publisher_unsafeCheckDone
                  (pp\<lparr>pp_batcher := b, pp_results := pp_results pp @ results, pp_answered := Suc (pp_answered pp)\<rparr>),
                None))
      | _ \<Rightarrow> (pp, Some errInvalidMsgPubResponse))"

definition publisher_onResponse :: "publishResponse \<Rightarrow> 'b singlePartitionPublisher \<Rightarrow> 'b singlePartitionPublisher" where
  "publisher_onResponse response pp =
     (case publisher_processResponse response pp of
        (pp1, None) \<Rightarrow> pp1
      | (pp1, Some err) \<Rightarrow> publisher_initiateShutdown serviceTerminated (Some err) None pp1)"

section \<open>Runs\<close>

text \<open>What happens to a publisher.  \<open>PpBundle\<close>: the bundler hands a bundle to its handler;
  \<open>PpFlushed i\<close>: the flush that the \<open>i\<close>-th waiting shutdown made has returned, which it does
  when the bundler is empty (\<open>bundler_Empty\<close>).  \<open>PpReconnecting\<close> and \<open>PpConnected\<close> are the critical sections \<^verbatim>\<open>canReconnect\<close> and
  \<^verbatim>\<open>connected\<close> of \<^verbatim>\<open>connectStream\<close>, the latter after the goroutine has given its notice of reconnecting; \<open>PpNotify\<close>: one of the
  notices on their way reaches \<^verbatim>\<open>onStreamStatusChange\<close>, in any order.  \<open>PpIdle\<close>: the idle timer drops the stream.\<close>

datatype publishEvent =
    PpStart
  | PpStop
  | PpPublish PubSubMessage nat
  | PpBundle
  | PpFlushed nat
  | PpResponse publishResponse
  | PpReconnecting
  | PpConnected int nat
  | PpNotify streamStatus
  | PpIdle
  | PpBroken wire_error
  | PpTerminatedNotice

record 'b bundlerOps =
  bundler_Add :: "messageHolder \<Rightarrow> int \<Rightarrow> 'b \<Rightarrow> 'b \<times> wire_error option"
  bundler_handover :: "'b \<Rightarrow> 'b \<times> messageHolder list"
  bundler_Empty :: "'b \<Rightarrow> bool"

text \<open>\<^verbatim>\<open>Flush\<close> blocks until the bundler has handed over its items.\<close>

definition Flush_returns :: "'b bundlerOps \<Rightarrow> 'b publishMessageBatcher \<Rightarrow> bool" where
  "Flush_returns bops b = bundler_Empty bops (msgBundler b)"

fun publisher_step ::
  "'b bundlerOps \<Rightarrow> (PubSubMessage \<Rightarrow> int) \<Rightarrow> (nat \<Rightarrow> nat \<Rightarrow> wire_error option) \<Rightarrow>
   publishEvent \<Rightarrow> 'b singlePartitionPublisher \<Rightarrow> 'b singlePartitionPublisher" where
  "publisher_step bops sz SendMsg PpStart pp = publisher_Start pp"
| "publisher_step bops sz SendMsg PpStop pp = publisher_Stop pp"
| "publisher_step bops sz SendMsg (PpPublish msg cb) pp = publisher_Publish (bundler_Add bops) sz msg cb pp"
| "publisher_step bops sz SendMsg PpBundle pp =
     (case bundler_handover bops (msgBundler (pp_batcher pp)) of (bu, msgs) \<Rightarrow>
        let pp1 = pp\<lparr>pp_batcher := (pp_batcher pp)\<lparr>msgBundler := bu\<rparr>\<rparr>
        in case new_batch msgs of None \<Rightarrow> pp1 | Some batch \<Rightarrow> onNewBatch SendMsg batch pp1)"
| "publisher_step bops sz SendMsg (PpFlushed i) pp =
     (if i < length (pp_flushing pp) \<and> Flush_returns bops (pp_batcher pp)
      then publisher_afterFlush (pp_flushing pp ! i)
             (pp\<lparr>pp_flushing := take i (pp_flushing pp) @ drop (Suc i) (pp_flushing pp)\<rparr>)
      else pp)"
| "publisher_step bops sz SendMsg (PpResponse r) pp = publisher_onResponse r pp"
| "publisher_step bops sz SendMsg PpReconnecting pp =
     (case canReconnect (pp_stream pp) of
        (st, ok) \<Rightarrow> if ok then pp\<lparr>pp_stream := st, pp_connecting := True, pp_notices := add_mset streamReconnecting (pp_notices pp)\<rparr>
                    else pp)"
| "publisher_step bops sz SendMsg (PpConnected now sid) pp =
     (if pp_connecting pp \<and> streamReconnecting \<notin># pp_notices pp
      then case connected now sid (pp_stream pp) of
             (st, ok) \<Rightarrow> if ok then pp\<lparr>pp_stream := st, pp_connecting := False, pp_answered := 0,
                                      pp_notices := add_mset streamConnected (pp_notices pp)\<rparr>
                         else pp\<lparr>pp_stream := st, pp_connecting := False\<rparr>
      else pp)"
| "publisher_step bops sz SendMsg (PpNotify status) pp =
     (if status \<in># pp_notices pp
      then publisher_onStreamStatusChange SendMsg status (pp\<lparr>pp_notices := pp_notices pp - {#status#}\<rparr>)
      else pp)"
| "publisher_step bops sz SendMsg PpIdle pp = pp\<lparr>pp_stream := unsafeClearStream (pp_stream pp)\<rparr>"
| "publisher_step bops sz SendMsg (PpBroken err) pp = pp\<lparr>pp_stream := unsafeTerminate (Some err) (pp_stream pp)\<rparr>"
| "publisher_step bops sz SendMsg PpTerminatedNotice pp =
     (if rs_status (pp_stream pp) = streamTerminated
      then publisher_onStreamStatusChange SendMsg streamTerminated pp else pp)"

definition publisher_run ::
  "'b bundlerOps \<Rightarrow> (PubSubMessage \<Rightarrow> int) \<Rightarrow> (nat \<Rightarrow> nat \<Rightarrow> wire_error option) \<Rightarrow>
   publishEvent list \<Rightarrow> 'b singlePartitionPublisher \<Rightarrow> 'b singlePartitionPublisher" where
  "publisher_run bops sz SendMsg es pp = fold (publisher_step bops sz SendMsg) es pp"


section \<open>Responses match requests\<close>

text \<open>What the publisher relies on in gRPC: \<^verbatim>\<open>SendMsg\<close> aborts its stream on an error, so that every
  later call on the same stream fails too.\<close>

definition send_aborts :: "(nat \<Rightarrow> nat \<Rightarrow> wire_error option) \<Rightarrow> bool" where
  "send_aborts SendMsg \<longleftrightarrow> (\<forall>sid k k'. k \<le> k' \<and> SendMsg sid k \<noteq> None \<longrightarrow> SendMsg sid k' \<noteq> None)"

definition send_broken :: "(nat \<Rightarrow> nat \<Rightarrow> wire_error option) \<Rightarrow> 'req retryableStream \<Rightarrow> bool" where
  "send_broken SendMsg rs \<longleftrightarrow>
     (case rs_stream rs of None \<Rightarrow> True | Some sid \<Rightarrow> \<exists>k < rs_sends rs. SendMsg sid k \<noteq> None)"

lemma Send_spec:
  assumes "retryableStream_Send SendMsg r rs = (rs', ok)"
  shows "rs_sent rs' = rs_sent rs @ (if ok then [r] else [])"
    and "\<not> ok \<Longrightarrow> send_broken SendMsg rs'"
    and "send_aborts SendMsg \<Longrightarrow> send_broken SendMsg rs \<Longrightarrow> \<not> ok"
proof -
  show "rs_sent rs' = rs_sent rs @ (if ok then [r] else [])"
    using assms by (auto simp: retryableStream_Send_def Let_def unsafeTerminate_def split: option.splits if_splits)
  show "send_broken SendMsg rs'" if "\<not> ok"
    using assms that
    by (auto simp: retryableStream_Send_def send_broken_def Let_def unsafeTerminate_def
        split: option.splits if_splits)
  assume a: "send_aborts SendMsg" "send_broken SendMsg rs"
  show "\<not> ok"
  proof (cases "rs_stream rs")
    case None
    then show ?thesis using assms by (simp add: retryableStream_Send_def)
  next
    case (Some sid)
    then have "SendMsg sid (rs_sends rs) \<noteq> None"
      using a unfolding send_broken_def send_aborts_def by (simp del: not_None_eq) (meson less_imp_le)
    then show ?thesis using assms Some
      by (auto simp: retryableStream_Send_def Let_def split: option.splits if_splits)
  qed
qed

lemma resend_loop_spec:
  assumes "resend_loop SendMsg batches rs = (rs', ok)"
  shows "\<exists>rest. rs_sent rs @ map ToPublishRequest batches = rs_sent rs' @ rest
       \<and> (ok \<longrightarrow> rest = []) \<and> (\<not> ok \<longrightarrow> send_broken SendMsg rs')"
  using assms
proof (induction batches arbitrary: rs)
  case (Cons b bs)
  obtain rs1 sent where s: "retryableStream_Send SendMsg (ToPublishRequest b) rs = (rs1, sent)" by fastforce
  note spec = Send_spec [OF s]
  show ?case
  proof (cases sent)
    case True
    with Cons.IH [of rs1] Cons.prems spec s show ?thesis by auto
  next
    case False
    with Cons.prems spec s show ?thesis by auto
  qed
qed auto

text \<open>The requests on the connection that are not answered are the first batches of the publish
  queue; if batches behind them have not been sent, none will be sent on this connection.\<close>

definition match_inv :: "(nat \<Rightarrow> nat \<Rightarrow> wire_error option) \<Rightarrow> 'b singlePartitionPublisher \<Rightarrow> bool" where
  "match_inv SendMsg pp \<longleftrightarrow>
     (pp_status pp < serviceTerminated \<longrightarrow>
        pp_answered pp \<le> length (rs_sent (pp_stream pp))
      \<and> (\<exists>rest. map ToPublishRequest (publishQueue (pp_batcher pp))
                 = drop (pp_answered pp) (rs_sent (pp_stream pp)) @ rest
             \<and> (rest \<noteq> [] \<longrightarrow> \<not> enableSendToStream pp \<or> send_broken SendMsg (pp_stream pp))))
   \<and> (\<forall>call\<in>set (pp_flushing pp). sc_target call = serviceTerminating \<or> pp_status pp = serviceTerminated)"

lemma pp_updateStatus_fields [simp]:
  "pp_batcher (fst (pp_updateStatus t e pp)) = pp_batcher pp"
  "pp_stream (fst (pp_updateStatus t e pp)) = pp_stream pp"
  "enableSendToStream (fst (pp_updateStatus t e pp)) = enableSendToStream pp"
  "pp_flushing (fst (pp_updateStatus t e pp)) = pp_flushing pp"
  "pp_results (fst (pp_updateStatus t e pp)) = pp_results pp"
  "pp_answered (fst (pp_updateStatus t e pp)) = pp_answered pp"
  "pp_connecting (fst (pp_updateStatus t e pp)) = pp_connecting pp"
  "pp_notices (fst (pp_updateStatus t e pp)) = pp_notices pp"
  "pp_status (fst (pp_updateStatus t e pp)) = max (pp_status pp) t"
  "snd (pp_updateStatus t e pp) \<longleftrightarrow> pp_status pp < t"
  using unsafeUpdateStatus_status [of t e "pp_service pp"] unsafeUpdateStatus_ret [of t e "pp_service pp"]
  by (simp_all add: pp_updateStatus_def case_prod_beta)

lemma report_fields [simp]:
  "pp_batcher (report r pp) = pp_batcher pp" "pp_stream (report r pp) = pp_stream pp"
  "enableSendToStream (report r pp) = enableSendToStream pp" "pp_service (report r pp) = pp_service pp"
  "pp_flushing (report r pp) = pp_flushing pp" "pp_answered (report r pp) = pp_answered pp"
  "pp_connecting (report r pp) = pp_connecting pp" "pp_notices (report r pp) = pp_notices pp"
  by (simp_all add: report_def)

lemma stop_broken [simp]:
  "send_broken SendMsg (unsafeTerminate e rs) \<longleftrightarrow> send_broken SendMsg rs \<or> rs_status rs \<noteq> streamTerminated"
  "send_broken SendMsg (retryableStream_Stop rs) \<longleftrightarrow> send_broken SendMsg rs \<or> rs_status rs \<noteq> streamTerminated"
  by (auto simp: send_broken_def unsafeTerminate_def retryableStream_Stop_def)

lemma stream_sent [simp]:
  "rs_sent (unsafeTerminate e rs) = rs_sent rs"
  "rs_sent (retryableStream_Stop rs) = rs_sent rs"
  "rs_sent (retryableStream_Start rs) = rs_sent rs"
  "send_broken SendMsg (retryableStream_Start rs) = send_broken SendMsg rs"
  by (simp_all add: unsafeTerminate_def retryableStream_Stop_def retryableStream_Start_def send_broken_def
      split: option.split)

lemma match_inv_checkDone: "match_inv SendMsg pp \<Longrightarrow> match_inv SendMsg (publisher_unsafeCheckDone pp)"
  by (auto simp: match_inv_def publisher_unsafeCheckDone_def)

lemma match_inv_report: "match_inv SendMsg (report r pp) = match_inv SendMsg pp"
  by (simp add: match_inv_def)

lemma match_inv_shutdown:
  assumes "match_inv SendMsg pp" "t = serviceTerminating \<or> t = serviceTerminated"
  shows "match_inv SendMsg (publisher_initiateShutdown t e r pp)"
proof -
  obtain pp1 ok where u: "pp_updateStatus t (wrapError ''publisher'' (pp_topic pp) e) pp = (pp1, ok)" by fastforce
  have f: "pp_batcher pp1 = pp_batcher pp" "pp_stream pp1 = pp_stream pp"
    "enableSendToStream pp1 = enableSendToStream pp" "pp_flushing pp1 = pp_flushing pp"
    "pp_answered pp1 = pp_answered pp" "pp_status pp1 = max (pp_status pp) t" "ok \<longleftrightarrow> pp_status pp < t"
    using pp_updateStatus_fields [of t "wrapError ''publisher'' (pp_topic pp) e" pp] u by simp_all
  show ?thesis
    using assms f
    by (auto simp: publisher_initiateShutdown_def u Let_def match_inv_def max_def)
qed


lemma match_inv_flush:
  assumes "match_inv SendMsg pp" "i < length (pp_flushing pp)"
  shows "match_inv SendMsg (publisher_afterFlush (pp_flushing pp ! i)
           (pp\<lparr>pp_flushing := take i (pp_flushing pp) @ drop (Suc i) (pp_flushing pp)\<rparr>))"
proof -
  let ?pp = "pp\<lparr>pp_flushing := take i (pp_flushing pp) @ drop (Suc i) (pp_flushing pp)\<rparr>"
  have mem: "pp_flushing pp ! i \<in> set (pp_flushing pp)" using assms(2) by simp
  have inv: "match_inv SendMsg ?pp"
    using assms(1) by (auto simp: match_inv_def dest: in_set_takeD in_set_dropD)
  show ?thesis
  proof (cases "sc_target (pp_flushing pp ! i) = serviceTerminating")
    case True
    then show ?thesis using match_inv_checkDone [OF inv] by (simp add: publisher_afterFlush_def match_inv_report)
  next
    case False
    then have "pp_status pp = serviceTerminated" using assms(1) mem by (auto simp: match_inv_def)
    then show ?thesis
      by (simp add: publisher_afterFlush_def False case_prod_beta match_inv_report match_inv_def)
  qed
qed

lemma AddMessage_queue: "publishQueue (fst (AddMessage add sz msg cb b)) = publishQueue b"
  by (simp add: AddMessage_def Let_def split: prod.split option.split)

lemma match_inv_publish:
  assumes "match_inv SendMsg pp"
  shows "match_inv SendMsg (publisher_Publish add sz msg cb pp)"
proof -
  obtain pp1 e where p: "processMessage add sz msg cb pp = (pp1, e)" by fastforce
  have "match_inv SendMsg pp1"
    using assms p AddMessage_queue [of add sz msg cb "pp_batcher pp"]
    by (auto simp: processMessage_def match_inv_def split: prod.splits if_splits)
  then show ?thesis by (simp add: publisher_Publish_def p match_inv_shutdown split: option.split)
qed

lemma match_inv_onNewBatch:
  assumes "match_inv SendMsg pp" "send_aborts SendMsg"
  shows "match_inv SendMsg (onNewBatch SendMsg batch pp)"
proof -
  obtain rs ok where s: "retryableStream_Send SendMsg (ToPublishRequest batch) (pp_stream pp) = (rs, ok)"
    by fastforce
  note spec = Send_spec [OF s]
  show ?thesis
  proof (cases "pp_status pp < serviceTerminated")
    case False
    then show ?thesis using assms(1) by (simp add: match_inv_def onNewBatch_def Let_def)
  next
    case True
    then obtain rest where ans: "pp_answered pp \<le> length (rs_sent (pp_stream pp))"
      and q: "map ToPublishRequest (publishQueue (pp_batcher pp)) = drop (pp_answered pp) (rs_sent (pp_stream pp)) @ rest"
      and r: "rest \<noteq> [] \<longrightarrow> \<not> enableSendToStream pp \<or> send_broken SendMsg (pp_stream pp)"
      using assms(1) by (auto simp: match_inv_def)
    have fl: "\<forall>call\<in>set (pp_flushing pp). sc_target call = serviceTerminating \<or> pp_status pp = serviceTerminated"
      using assms(1) by (simp add: match_inv_def)
    have "rest = []" if "enableSendToStream pp" ok
      using r spec(3) [OF assms(2)] that by blast
    then show ?thesis
      using ans q r fl spec(1,2)
      by (cases ok) (auto simp: match_inv_def onNewBatch_def Let_def AddBatch_def s)
  qed
qed

lemma match_inv_connected:
  assumes "pp_answered pp = 0" "\<forall>call\<in>set (pp_flushing pp). sc_target call = serviceTerminating \<or> pp_status pp = serviceTerminated"
    and "rs_sent (pp_stream pp) = []"
  shows "match_inv SendMsg (publisher_onStreamStatusChange SendMsg streamConnected pp)"
proof -
  obtain b batches where f: "InFlightBatches (pp_batcher pp) = (b, batches)" by fastforce
  have qb: "publishQueue b = batches" using f by (auto simp: InFlightBatches_def Let_def)
  obtain rs ok where s: "resend_loop SendMsg batches (pp_stream pp) = (rs, ok)" by fastforce
  obtain rest where "map ToPublishRequest batches = rs_sent rs @ rest" "ok \<longrightarrow> rest = []"
    "\<not> ok \<longrightarrow> send_broken SendMsg rs"
    using resend_loop_spec [OF s] assms(3) by auto
  then show ?thesis
    using assms(1,2)
    by (cases ok) (auto simp: publisher_onStreamStatusChange_def Let_def f s qb match_inv_def max_def)
qed

text \<open>The server answers only requests it has got: a message response arrives while a request of
  the connection is unanswered.\<close>

fun server_ok ::
  "'b bundlerOps \<Rightarrow> (PubSubMessage \<Rightarrow> int) \<Rightarrow> (nat \<Rightarrow> nat \<Rightarrow> wire_error option) \<Rightarrow>
   publishEvent list \<Rightarrow> 'b singlePartitionPublisher \<Rightarrow> bool" where
  "server_ok bops sz SendMsg [] pp = True"
| "server_ok bops sz SendMsg (e # es) pp =
     ((case e of PpResponse (PubMessages _) \<Rightarrow> pp_answered pp < length (rs_sent (pp_stream pp)) | _ \<Rightarrow> True)
      \<and> server_ok bops sz SendMsg es (publisher_step bops sz SendMsg e pp))"

lemma match_inv_response:
  assumes "match_inv SendMsg pp"
    and "\<And>off. r = PubMessages off \<Longrightarrow> pp_answered pp < length (rs_sent (pp_stream pp))"
  shows "match_inv SendMsg (publisher_onResponse r pp)"
proof (cases r)
  case (PubMessages off)
  obtain b results e where o: "OnPublishResponse off (pp_batcher pp) = (b, results, e)" by (metis prod_cases3)
  show ?thesis
  proof (cases e)
    case None
    then obtain batch where q: "publishQueue (pp_batcher pp) = batch # publishQueue b"
      using o by (auto simp: OnPublishResponse_def split: list.splits if_splits prod.splits)
    have "match_inv SendMsg (pp\<lparr>pp_batcher := b, pp_results := pp_results pp @ results,
        pp_answered := Suc (pp_answered pp)\<rparr>)"
    proof (cases "pp_status pp < serviceTerminated")
      case True
      obtain rest where "ToPublishRequest batch # map ToPublishRequest (publishQueue b)
          = drop (pp_answered pp) (rs_sent (pp_stream pp)) @ rest"
        "rest \<noteq> [] \<longrightarrow> \<not> enableSendToStream pp \<or> send_broken SendMsg (pp_stream pp)"
        using assms(1) True q by (auto simp: match_inv_def)
      moreover have "drop (pp_answered pp) (rs_sent (pp_stream pp))
          = rs_sent (pp_stream pp) ! pp_answered pp # drop (Suc (pp_answered pp)) (rs_sent (pp_stream pp))"
        using assms(2) [OF PubMessages] by (rule Cons_nth_drop_Suc [symmetric])
      ultimately show ?thesis
        using assms(1) assms(2) [OF PubMessages] by (auto simp: match_inv_def)
    qed (use assms(1) in \<open>simp add: match_inv_def\<close>)
    then show ?thesis
      by (simp add: publisher_onResponse_def publisher_processResponse_def PubMessages o None match_inv_checkDone)
  next
    case (Some err)
    then have "b = pp_batcher pp"
      using o by (auto simp: OnPublishResponse_def split: list.splits if_splits prod.splits)
    then show ?thesis using assms(1) Some
      by (simp add: publisher_onResponse_def publisher_processResponse_def PubMessages o match_inv_shutdown)
  qed
qed (use assms(1) in \<open>simp_all add: publisher_onResponse_def publisher_processResponse_def match_inv_shutdown\<close>)

lemma early_status: "s \<le> serviceStarting \<Longrightarrow> s < serviceTerminated"
  by (cases s) (simp_all add: status_order)

text \<open>Notices in time: a stream is not reconnected again while the notice of its connection is still on its way.\<close>

fun notices_timely ::
  "'b bundlerOps \<Rightarrow> (PubSubMessage \<Rightarrow> int) \<Rightarrow> (nat \<Rightarrow> nat \<Rightarrow> wire_error option) \<Rightarrow>
   publishEvent list \<Rightarrow> 'b singlePartitionPublisher \<Rightarrow> bool" where
  "notices_timely bops sz SendMsg [] pp = True"
| "notices_timely bops sz SendMsg (e # es) pp =
     ((e = PpReconnecting \<longrightarrow> streamConnected \<notin># pp_notices pp)
      \<and> notices_timely bops sz SendMsg es (publisher_step bops sz SendMsg e pp))"

text \<open>Between the critical section of a connection and its notice, nothing is sent.\<close>

definition notice_inv :: "'b singlePartitionPublisher \<Rightarrow> bool" where
  "notice_inv pp \<longleftrightarrow>
     (streamConnected \<in># pp_notices pp \<longrightarrow>
        \<not> pp_connecting pp \<and> \<not> enableSendToStream pp \<and> rs_sent (pp_stream pp) = [] \<and> pp_answered pp = 0)
   \<and> (pp_connecting pp \<and> streamReconnecting \<notin># pp_notices pp \<longrightarrow> \<not> enableSendToStream pp)
   \<and> (streamReconnecting \<in># pp_notices pp \<longrightarrow> pp_connecting pp)
   \<and> (pp_connecting pp \<longrightarrow> rs_status (pp_stream pp) \<in> {streamReconnecting, streamTerminated})
   \<and> pp_notices pp \<subseteq># {#streamReconnecting, streamConnected#}"

text \<open>Steps that have nothing to do with the notices.\<close>

definition quiet :: "'b singlePartitionPublisher \<Rightarrow> 'b singlePartitionPublisher \<Rightarrow> bool" where
  "quiet pp pp' \<longleftrightarrow>
     pp_connecting pp' = pp_connecting pp \<and> pp_notices pp' = pp_notices pp \<and> pp_answered pp' = pp_answered pp
   \<and> (enableSendToStream pp' \<longrightarrow> enableSendToStream pp)
   \<and> (\<not> enableSendToStream pp \<longrightarrow> rs_sent (pp_stream pp') = rs_sent (pp_stream pp))
   \<and> (rs_status (pp_stream pp') = rs_status (pp_stream pp) \<or> rs_status (pp_stream pp') = streamTerminated)"

lemma quiet_notice_inv: "quiet pp pp' \<Longrightarrow> notice_inv pp \<Longrightarrow> notice_inv pp'"
  unfolding quiet_def notice_inv_def by auto

lemma quiet_refl [simp]: "quiet pp pp"
  by (simp add: quiet_def)

lemma quiet_trans: "quiet a b \<Longrightarrow> quiet b c \<Longrightarrow> quiet a c"
  unfolding quiet_def by metis

lemma stream_status [simp]:
  "rs_status (unsafeTerminate e rs) = streamTerminated"
  "rs_status (retryableStream_Stop rs) = streamTerminated"
  "rs_status (retryableStream_Start rs) = rs_status rs"
  "rs_status (unsafeClearStream rs) = rs_status rs" "rs_sent (unsafeClearStream rs) = rs_sent rs"
  by (auto simp: unsafeTerminate_def retryableStream_Stop_def retryableStream_Start_def go_def unsafeClearStream_def cancel_def Let_def
      split: option.split)

lemma quiet_checkDone: "quiet pp (publisher_unsafeCheckDone pp)"
  by (simp add: quiet_def publisher_unsafeCheckDone_def)

lemma quiet_report: "quiet pp (report r pp)"
  by (simp add: quiet_def)

lemma quiet_shutdown: "quiet pp (publisher_initiateShutdown t e r pp)"
  by (auto simp: quiet_def publisher_initiateShutdown_def Let_def case_prod_beta)

lemma quiet_publish: "quiet pp (publisher_Publish add sz msg cb pp)"
proof -
  obtain pp1 e where p: "processMessage add sz msg cb pp = (pp1, e)" by fastforce
  have "quiet pp pp1" using p by (auto simp: processMessage_def quiet_def split: prod.splits if_splits)
  then show ?thesis by (auto simp: publisher_Publish_def p split: option.split intro: quiet_trans [OF _ quiet_shutdown])
qed

lemma Send_status:
  "rs_status (fst (retryableStream_Send SendMsg r rs)) = rs_status rs
   \<or> rs_status (fst (retryableStream_Send SendMsg r rs)) = streamTerminated"
  by (auto simp: retryableStream_Send_def Let_def go_def split: option.split)

lemma quiet_onNewBatch: "quiet pp (onNewBatch SendMsg batch pp)"
  using Send_status [of SendMsg "ToPublishRequest batch" "pp_stream pp"] by (auto simp: quiet_def onNewBatch_def Let_def)

lemma quiet_afterFlush: "quiet pp (publisher_afterFlush call (pp\<lparr>pp_flushing := fl\<rparr>))"
  by (auto simp: quiet_def publisher_afterFlush_def case_prod_beta publisher_unsafeCheckDone_def)

lemma notice_inv_response:
  assumes "notice_inv pp" "\<And>off. r = PubMessages off \<Longrightarrow> pp_answered pp < length (rs_sent (pp_stream pp))"
  shows "notice_inv (publisher_onResponse r pp)"
proof (cases r)
  case (PubMessages off)
  obtain b results e where o: "OnPublishResponse off (pp_batcher pp) = (b, results, e)" by (metis prod_cases3)
  show ?thesis
  proof (cases e)
    case None
    have "streamConnected \<notin># pp_notices pp" using assms PubMessages by (auto simp: notice_inv_def)
    then have "notice_inv (pp\<lparr>pp_batcher := b, pp_results := pp_results pp @ results, pp_answered := Suc (pp_answered pp)\<rparr>)"
      using assms(1) by (simp add: notice_inv_def)
    then show ?thesis
      using quiet_notice_inv [OF quiet_checkDone] by (simp add: publisher_onResponse_def publisher_processResponse_def PubMessages o None)
  next
    case (Some err)
    have "notice_inv (pp\<lparr>pp_batcher := b\<rparr>)" using assms(1) by (simp add: notice_inv_def)
    then show ?thesis
      using quiet_notice_inv [OF quiet_shutdown] by (simp add: publisher_onResponse_def publisher_processResponse_def PubMessages o Some)
  qed
qed (use assms(1) quiet_notice_inv [OF quiet_shutdown] in \<open>simp_all add: publisher_onResponse_def publisher_processResponse_def\<close>)

text \<open>The notices.\<close>

lemma resend_status:
  "rs_status (fst (resend_loop SendMsg bs rs)) = rs_status rs \<or> rs_status (fst (resend_loop SendMsg bs rs)) = streamTerminated"
proof (induction SendMsg bs rs rule: resend_loop.induct)
  case (2 SendMsg b bs rs)
  obtain rs1 sent where s: "retryableStream_Send SendMsg (ToPublishRequest b) rs = (rs1, sent)" by fastforce
  show ?case
  proof (cases sent)
    case True
    then show ?thesis using 2 [OF s [symmetric]] Send_status [of SendMsg "ToPublishRequest b" rs] s by auto
  next
    case False
    then show ?thesis using Send_status [of SendMsg "ToPublishRequest b" rs] s by simp
  qed
qed simp

lemma notices_sub:
  assumes "N \<subseteq># {#streamReconnecting, streamConnected#}"
  shows "N \<in> {{#}, {#streamReconnecting#}, {#streamConnected#}, {#streamReconnecting, streamConnected#}}"
proof -
  have c: "count N x \<le> (if x = streamReconnecting \<or> x = streamConnected then 1 else 0)" for x
    using mset_subset_eq_count [OF assms, of x] by auto
  have "N = replicate_mset (count N streamReconnecting) streamReconnecting + replicate_mset (count N streamConnected) streamConnected"
  proof (rule multiset_eqI)
    fix x
    show "count N x = count (replicate_mset (count N streamReconnecting) streamReconnecting
        + replicate_mset (count N streamConnected) streamConnected) x"
      using c [of x] by auto
  qed
  moreover have "count N streamReconnecting \<in> {0, 1}" "count N streamConnected \<in> {0, 1}"
    using c [of streamReconnecting] c [of streamConnected] by auto
  ultimately show ?thesis by auto
qed

lemma notice_inv_notify:
  assumes "notice_inv pp" "status \<in># pp_notices pp"
  shows "notice_inv (publisher_onStreamStatusChange SendMsg status (pp\<lparr>pp_notices := pp_notices pp - {#status#}\<rparr>))"
proof -
  have sub: "pp_notices pp \<subseteq># {#streamReconnecting, streamConnected#}" using assms(1) by (simp add: notice_inv_def)
  from notices_sub [OF sub] assms(2) have "status = streamReconnecting \<or> status = streamConnected" by auto
  then show ?thesis
  proof
    assume R: "status = streamReconnecting"
    then have "streamReconnecting \<notin># pp_notices pp - {#status#}" using notices_sub [OF sub] by auto
    moreover have "pp_connecting pp" "streamConnected \<notin># pp_notices pp" using assms R by (auto simp: notice_inv_def)
    ultimately show ?thesis
      using assms(1) R notices_sub [OF sub] by (auto simp: publisher_onStreamStatusChange_def notice_inv_def)
  next
    assume C: "status = streamConnected"
    have N: "pp_notices pp = {#streamConnected#}" "\<not> pp_connecting pp"
      using assms C notices_sub [OF sub] by (auto simp: notice_inv_def)
    then show ?thesis
      by (auto simp: C publisher_onStreamStatusChange_def notice_inv_def Let_def split: prod.split bool.split)
  qed
qed

lemma notice_inv_step:
  assumes "notice_inv pp"
    and "\<And>off. e = PpResponse (PubMessages off) \<Longrightarrow> pp_answered pp < length (rs_sent (pp_stream pp))"
    and "e = PpReconnecting \<Longrightarrow> streamConnected \<notin># pp_notices pp"
  shows "notice_inv (publisher_step bops sz SendMsg e pp)"
proof (cases e)
  case PpStart
  have "quiet pp (publisher_Start pp)" by (auto simp: quiet_def publisher_Start_def case_prod_beta)
  then show ?thesis using quiet_notice_inv assms(1) PpStart by simp
next
  case PpBundle
  have "notice_inv (pp\<lparr>pp_batcher := b\<rparr>)" for b using assms(1) by (simp add: notice_inv_def)
  then show ?thesis using PpBundle quiet_notice_inv [OF quiet_onNewBatch]
    by (auto simp: Let_def split: prod.split option.split)
next
  case PpReconnecting
  show ?thesis
  proof (cases "snd (canReconnect (pp_stream pp))")
    case True
    then have "\<not> pp_connecting pp" using assms(1) by (auto simp: canReconnect_def notice_inv_def split: if_splits)
    then have "pp_notices pp = {#}"
      using assms(1,3) PpReconnecting notices_sub [of "pp_notices pp"] by (auto simp: notice_inv_def)
    moreover have "rs_status (fst (canReconnect (pp_stream pp))) = streamReconnecting"
      using True by (auto simp: canReconnect_def split: if_splits)
    ultimately show ?thesis using True PpReconnecting by (simp add: notice_inv_def case_prod_beta)
  qed (use assms(1) PpReconnecting in \<open>simp add: case_prod_beta\<close>)
next
  case (PpConnected now sid)
  then show ?thesis
    using assms(1) notices_sub [of "pp_notices pp"] by (auto simp: notice_inv_def connected_def)
next
  case (PpNotify status)
  then show ?thesis using assms(1) by (simp add: notice_inv_notify)
next
  case (PpResponse r)
  then show ?thesis using assms by (simp add: notice_inv_response)
next
  case PpIdle
  then show ?thesis using assms(1) by (simp add: notice_inv_def)
next
  case (PpBroken err)
  then show ?thesis using assms(1) by (auto simp: notice_inv_def)
qed (use assms(1) quiet_notice_inv [OF quiet_shutdown] quiet_notice_inv [OF quiet_publish] quiet_notice_inv [OF quiet_afterFlush] in
    \<open>auto simp: publisher_Stop_def publisher_onStreamStatusChange_def\<close>)

lemma match_inv_step:
  assumes "match_inv SendMsg pp" "send_aborts SendMsg" "notice_inv pp"
    and "\<And>off. e = PpResponse (PubMessages off) \<Longrightarrow> pp_answered pp < length (rs_sent (pp_stream pp))"
  shows "match_inv SendMsg (publisher_step bops sz SendMsg e pp)"
proof (cases e)
  case PpStart
  then show ?thesis using assms(1) early_status [of "pp_status pp"]
    by (auto simp: publisher_Start_def case_prod_beta match_inv_def max_def)
next
  case PpBundle
  have "match_inv SendMsg (pp\<lparr>pp_batcher := (pp_batcher pp)\<lparr>msgBundler := bu\<rparr>\<rparr>)" for bu
    using assms(1) by (simp add: match_inv_def)
  then show ?thesis using PpBundle assms(2)
    by (auto simp: Let_def match_inv_onNewBatch split: prod.split option.split)
next
  case PpReconnecting
  have "send_broken SendMsg (fst (canReconnect (pp_stream pp)))" "rs_sent (fst (canReconnect (pp_stream pp))) = rs_sent (pp_stream pp)"
    if "snd (canReconnect (pp_stream pp))"
    using that by (auto simp: canReconnect_def send_broken_def split: if_splits)
  then show ?thesis using PpReconnecting assms(1) by (auto simp: match_inv_def split: prod.split)
next
  case (PpConnected now sid)
  show ?thesis
  proof (cases "rs_status (pp_stream pp) = streamTerminated")
    case True
    then show ?thesis using PpConnected assms(1) by (auto simp: connected_def match_inv_def send_broken_def)
  next
    case False
    then show ?thesis using PpConnected assms(1,3) by (auto simp: connected_def match_inv_def notice_inv_def)
  qed
next
  case (PpNotify status)
  show ?thesis
  proof (cases "status \<in># pp_notices pp")
    case True
    let ?pp = "pp\<lparr>pp_notices := pp_notices pp - {#status#}\<rparr>"
    have m: "match_inv SendMsg ?pp" using assms(1) by (simp add: match_inv_def)
    have "status = streamReconnecting \<or> status = streamConnected"
      using True assms(3) notices_sub [of "pp_notices pp"] by (auto simp: notice_inv_def)
    then have "match_inv SendMsg (publisher_onStreamStatusChange SendMsg status ?pp)"
    proof
      assume "status = streamReconnecting"
      then show ?thesis using m by (auto simp: publisher_onStreamStatusChange_def match_inv_def)
    next
      assume C: "status = streamConnected"
      have "pp_answered ?pp = 0" "rs_sent (pp_stream ?pp) = []" using True C assms(3) by (auto simp: notice_inv_def)
      moreover have "\<forall>call\<in>set (pp_flushing ?pp). sc_target call = serviceTerminating \<or> pp_status ?pp = serviceTerminated"
        using m by (simp add: match_inv_def)
      ultimately show ?thesis unfolding C by (intro match_inv_connected)
    qed
    then show ?thesis using True PpNotify by simp
  qed (use assms(1) PpNotify in simp)
next
  case PpIdle
  have "send_broken SendMsg (unsafeClearStream (pp_stream pp))" by (simp add: send_broken_def)
  then show ?thesis using assms(1) PpIdle by (auto simp: match_inv_def)
next
  case (PpBroken err)
  then show ?thesis using assms(1) by (auto simp: match_inv_def)
next
  case (PpResponse r)
  then show ?thesis using assms by (simp add: match_inv_response)
qed (use assms in \<open>simp_all add: publisher_Stop_def match_inv_shutdown match_inv_publish match_inv_flush
        publisher_onStreamStatusChange_def\<close>)

lemma match_inv_run:
  assumes "match_inv SendMsg pp" "notice_inv pp" "send_aborts SendMsg" "server_ok bops sz SendMsg es pp" "notices_timely bops sz SendMsg es pp"
  shows "match_inv SendMsg (publisher_run bops sz SendMsg es pp)"
  using assms(1,2,4,5)
proof (induction es arbitrary: pp)
  case (Cons e es)
  have "match_inv SendMsg (publisher_step bops sz SendMsg e pp)"
    using Cons.prems by (intro match_inv_step [OF _ assms(3)]) auto
  moreover have "notice_inv (publisher_step bops sz SendMsg e pp)"
    using Cons.prems by (intro notice_inv_step) auto
  ultimately show ?case using Cons by (simp add: publisher_run_def)
qed (simp add: publisher_run_def)



section \<open>Every publish gets one result\<close>

definition call_result :: "shutdownCall \<Rightarrow> nat multiset" where
  "call_result call = (case sc_result call of Some r \<Rightarrow> {#fst r#} | None \<Rightarrow> {#})"

text \<open>The callbacks that have been called, that belong to messages in flight or in the bundler, or
  that a waiting shutdown will call.\<close>

definition callbacks :: "('b \<Rightarrow> messageHolder list) \<Rightarrow> 'b singlePartitionPublisher \<Rightarrow> nat multiset" where
  "callbacks contents pp =
     mset (map fst (pp_results pp))
   + mset (map mh_onResult (inflight (publishQueue (pp_batcher pp)) @ contents (msgBundler (pp_batcher pp))))
   + sum_list (map call_result (pp_flushing pp))"

fun published :: "publishEvent \<Rightarrow> nat multiset" where
  "published (PpPublish msg cb) = {#cb#}"
| "published _ = {#}"

lemma callbacks_stream [simp]:
  "callbacks contents (pp\<lparr>pp_stream := rs\<rparr>) = callbacks contents pp"
  "callbacks contents (pp\<lparr>enableSendToStream := b\<rparr>) = callbacks contents pp"
  "callbacks contents (pp\<lparr>pp_answered := n\<rparr>) = callbacks contents pp"
  "callbacks contents (pp\<lparr>pp_service := s\<rparr>) = callbacks contents pp"
  "callbacks contents (pp\<lparr>pp_connecting := c\<rparr>) = callbacks contents pp"
  "callbacks contents (pp\<lparr>pp_notices := ns\<rparr>) = callbacks contents pp"
  by (simp_all add: callbacks_def)

lemma callbacks_status [simp]: "callbacks contents (fst (pp_updateStatus t e pp)) = callbacks contents pp"
  by (simp add: callbacks_def)

lemma callbacks_checkDone [simp]: "callbacks contents (publisher_unsafeCheckDone pp) = callbacks contents pp"
  by (simp add: publisher_unsafeCheckDone_def)

lemma callbacks_report [simp]:
  "callbacks contents (report r pp) = callbacks contents pp + (case r of Some x \<Rightarrow> {#fst x#} | None \<Rightarrow> {#})"
  by (simp add: callbacks_def report_def split: option.split)

lemma callbacks_shutdown [simp]:
  "callbacks contents (publisher_initiateShutdown t e r pp)
     = callbacks contents pp + (case r of Some x \<Rightarrow> {#fst x#} | None \<Rightarrow> {#})"
proof -
  obtain pp1 ok where u: "pp_updateStatus t (wrapError ''publisher'' (pp_topic pp) e) pp = (pp1, ok)" by fastforce
  have eq: "callbacks contents pp1 = callbacks contents pp"
    using callbacks_status [of contents t "wrapError ''publisher'' (pp_topic pp) e" pp] u by simp
  have add: "callbacks contents (p\<lparr>pp_flushing := pp_flushing p @ [c]\<rparr>) = callbacks contents p + call_result c" for p c
    by (simp add: callbacks_def)
  show ?thesis
  proof (cases ok)
    case False
    then show ?thesis by (simp add: publisher_initiateShutdown_def u eq)
  next
    case True
    define pp2 where "pp2 = (if t = serviceTerminated
        then pp1\<lparr>enableSendToStream := False, pp_stream := retryableStream_Stop (pp_stream pp1)\<rparr> else pp1)"
    have "publisher_initiateShutdown t e r pp =
        pp2\<lparr>pp_flushing := pp_flushing pp2 @ [\<lparr>sc_target = t, sc_err = e, sc_result = r\<rparr>]\<rparr>"
      by (simp add: publisher_initiateShutdown_def u True pp2_def Let_def)
    moreover have "callbacks contents pp2 = callbacks contents pp" by (simp add: pp2_def eq)
    ultimately show ?thesis by (simp add: add call_result_def)
  qed
qed

lemma callbacks_flush:
  assumes "i < length (pp_flushing pp)"
  shows "callbacks contents (publisher_afterFlush (pp_flushing pp ! i)
           (pp\<lparr>pp_flushing := take i (pp_flushing pp) @ drop (Suc i) (pp_flushing pp)\<rparr>)) = callbacks contents pp"
proof -
  let ?c = "pp_flushing pp ! i"
  let ?pp = "pp\<lparr>pp_flushing := take i (pp_flushing pp) @ drop (Suc i) (pp_flushing pp)\<rparr>"
  have "pp_flushing pp = take i (pp_flushing pp) @ ?c # drop (Suc i) (pp_flushing pp)"
    using assms by (rule id_take_nth_drop)
  then have "sum_list (map call_result (pp_flushing pp)) =
      sum_list (map call_result (take i (pp_flushing pp) @ ?c # drop (Suc i) (pp_flushing pp)))" by simp
  then have eq: "callbacks contents pp = callbacks contents ?pp + call_result ?c"
    by (simp add: callbacks_def)
  have err: "map fst (concat (map (\<lambda>batch. map (\<lambda>h. (mh_onResult h, None, e)) (msgHolders batch)) q))
      = map mh_onResult (inflight q)" for q and e :: "wire_error option"
    by (induction q) (simp_all add: comp_def)
  show ?thesis
    by (auto simp: eq publisher_afterFlush_def OnPermanentError_def call_result_def split: option.split)
      (auto simp: callbacks_def err)
qed


lemma AddMessage_callbacks:
  assumes "bundler_ok add hand contents" "AddMessage add sz msg cb b = (b', e)"
  shows "publishQueue b' = publishQueue b"
    and "image_mset mh_onResult (mset (contents (msgBundler b'))) =
           image_mset mh_onResult (mset (contents (msgBundler b))) + (if e = None then {#cb#} else {#})"
proof -
  show "publishQueue b' = publishQueue b"
    using AddMessage_queue [of add sz msg cb b] assms(2) by simp
  define h where "h = \<lparr>mh_msg = msg, mh_size = sz msg, mh_onResult = cb\<rparr>"
  obtain bu r where a: "add h (sz msg) (msgBundler b) = (bu, r)" by fastforce
  have "r = None \<Longrightarrow> contents bu = contents (msgBundler b) @ [h]"
    using assms(1) a unfolding bundler_ok_def by blast
  moreover have "r = Some x \<Longrightarrow> contents bu = contents (msgBundler b)" for x
    using assms(1) a unfolding bundler_ok_def by blast
  ultimately show "image_mset mh_onResult (mset (contents (msgBundler b'))) =
           image_mset mh_onResult (mset (contents (msgBundler b))) + (if e = None then {#cb#} else {#})"
    using assms(2) a
    by (cases r) (auto simp: AddMessage_def Let_def h_def split: if_splits)
qed

lemma callbacks_publish:
  assumes "bundler_ok add hand contents"
  shows "callbacks contents (publisher_Publish add sz msg cb pp) = callbacks contents pp + {#cb#}"
proof -
  obtain pp1 e where p: "processMessage add sz msg cb pp = (pp1, e)" by fastforce
  obtain b' e' where a: "AddMessage add sz msg cb (pp_batcher pp) = (b', e')" by fastforce
  have "callbacks contents pp1 = callbacks contents pp + (if e = None then {#cb#} else {#})"
    using p a AddMessage_callbacks [OF assms a]
    by (auto simp: processMessage_def callbacks_def split: if_splits)
  then show ?thesis by (cases e) (simp_all add: publisher_Publish_def p)
qed

lemma callbacks_bundle:
  assumes "bundler_ok add hand contents" "hand (msgBundler (pp_batcher pp)) = (bu, msgs)"
  shows "callbacks contents
           (let pp1 = pp\<lparr>pp_batcher := (pp_batcher pp)\<lparr>msgBundler := bu\<rparr>\<rparr>
            in case new_batch msgs of None \<Rightarrow> pp1 | Some batch \<Rightarrow> onNewBatch SendMsg batch pp1)
       = callbacks contents pp"
proof -
  have c: "contents (msgBundler (pp_batcher pp)) = msgs @ contents bu"
    using assms by (auto simp: bundler_ok_def)
  show ?thesis
  proof (cases "msgs = []")
    case True
    then show ?thesis using c by (simp add: new_batch_def callbacks_def)
  next
    case False
    then show ?thesis using c
      by (simp add: new_batch_def onNewBatch_def Let_def) (simp add: callbacks_def AddBatch_def)
  qed
qed

lemma callbacks_response: "callbacks contents (publisher_onResponse r pp) = callbacks contents pp"
proof (cases r)
  case (PubMessages off)
  obtain b results e where o: "OnPublishResponse off (pp_batcher pp) = (b, results, e)" by (metis prod_cases3)
  show ?thesis
  proof (cases e)
    case None
    then obtain batch where q: "publishQueue (pp_batcher pp) = batch # publishQueue b"
      and bu: "msgBundler b = msgBundler (pp_batcher pp)" and "map fst results = map mh_onResult (msgHolders batch)"
      using o by (auto simp: OnPublishResponse_def split_beta release_loop_results comp_def enumerate_map_snd
          split: list.splits if_splits)
    then show ?thesis
      by (simp add: publisher_onResponse_def publisher_processResponse_def PubMessages o None)
        (simp add: callbacks_def)
  next
    case (Some err)
    then have "b = pp_batcher pp"
      using o by (auto simp: OnPublishResponse_def split: list.splits if_splits prod.splits)
    then show ?thesis using Some
      by (simp add: publisher_onResponse_def publisher_processResponse_def PubMessages o)
  qed
qed (simp_all add: publisher_onResponse_def publisher_processResponse_def)

lemma callbacks_connected:
  "callbacks contents (publisher_onStreamStatusChange SendMsg streamConnected pp) = callbacks contents pp"
proof -
  obtain b batches where f: "InFlightBatches (pp_batcher pp) = (b, batches)" by fastforce
  have b: "inflight (publishQueue b) = inflight (publishQueue (pp_batcher pp))"
    "msgBundler b = msgBundler (pp_batcher pp)"
    using f by (auto simp: InFlightBatches_def Let_def inflight_loop_messages)
  show ?thesis
    by (auto simp: publisher_onStreamStatusChange_def Let_def f split: prod.split bool.split)
      (simp_all add: callbacks_def b)
qed

lemma callbacks_status_changes [simp]:
  "callbacks contents (publisher_onStreamStatusChange SendMsg streamReconnecting pp) = callbacks contents pp"
  "callbacks contents (publisher_onStreamStatusChange SendMsg streamTerminated pp) = callbacks contents pp"
  by (simp_all add: publisher_onStreamStatusChange_def)

lemma callbacks_step:
  assumes "bundler_ok (bundler_Add bops) (bundler_handover bops) contents"
  shows "callbacks contents (publisher_step bops sz SendMsg e pp) = callbacks contents pp + published e"
proof (cases e)
  case PpBundle
  obtain bu msgs where h: "bundler_handover bops (msgBundler (pp_batcher pp)) = (bu, msgs)" by fastforce
  show ?thesis using callbacks_bundle [OF assms h, of SendMsg] by (simp add: PpBundle h)
next
  case (PpNotify status)
  have "callbacks contents (publisher_onStreamStatusChange SendMsg status pp') = callbacks contents pp'" for pp'
    by (cases status) (simp_all add: callbacks_connected, simp_all add: publisher_onStreamStatusChange_def)
  then show ?thesis by (simp add: PpNotify)
qed (simp_all add: publisher_Start_def publisher_Stop_def case_prod_beta callbacks_publish [OF assms]
      callbacks_flush callbacks_response callbacks_connected)


text \<open>C4: No publish result is lost or reported twice: after any run, the callbacks passed to
  \<^verbatim>\<open>Publish\<close> are, as a multiset, those that have been called, those of the messages in flight or
  in the bundler, and those a shutdown that waits for its flush will call.\<close>

theorem publisher_results_exactly_once:
  assumes "bundler_ok (bundler_Add bops) (bundler_handover bops) contents" and "contents bu = []"
  shows "callbacks contents (publisher_run bops sz SendMsg es (newSinglePartitionPublisher settings topic part bu))
       = sum_list (map published es)"
proof -
  have run: "callbacks contents (publisher_run bops sz SendMsg es pp) = callbacks contents pp + sum_list (map published es)" for pp
    unfolding publisher_run_def
    by (induction es arbitrary: pp) (simp_all add: callbacks_step [OF assms(1)] add.assoc)
  have "callbacks contents (newSinglePartitionPublisher settings topic part bu) = {#}"
    using assms(2) by (simp add: callbacks_def newSinglePartitionPublisher_def newPublishMessageBatcher_def)
  with run show ?thesis by simp
qed


section \<open>A graceful stop that drops messages\<close>

text \<open>A stream that has ended without an error is never used again.\<close>

definition stream_closed :: "'req list \<Rightarrow> 'req retryableStream \<Rightarrow> bool" where
  "stream_closed sent rs \<longleftrightarrow>
     rs_status rs = streamTerminated \<and> rs_stream rs = None \<and> rs_finalErr rs = None \<and> rs_sent rs = sent"

lemma stream_closed_ops:
  assumes "stream_closed sent rs"
  shows "retryableStream_Stop rs = rs" "unsafeTerminate e rs = rs" "retryableStream_Start rs = rs"
    "canReconnect rs = (rs, False)" "retryableStream_Send SendMsg r rs = (rs, False)"
    "connected now sid rs = (unsafeClearStream rs, False)" "stream_closed sent (unsafeClearStream rs)"
  using assms by (auto simp: stream_closed_def retryableStream_Stop_def unsafeTerminate_def retryableStream_Start_def
      canReconnect_def retryableStream_Send_def connected_def unsafeClearStream_def cancel_def Let_def split: option.split)

lemma stream_closed_resend: "stream_closed sent rs \<Longrightarrow> fst (resend_loop SendMsg bs rs) = rs"
  by (cases bs) (simp_all add: stream_closed_ops)

text \<open>A publisher with such a stream: every request has been answered, and no result reported since then, or still to be
  reported, has metadata.\<close>

definition no_metadata :: "publishResult option \<Rightarrow> bool" where
  "no_metadata r \<longleftrightarrow> (case r of Some (cb, mm, err) \<Rightarrow> mm = None | None \<Rightarrow> True)"

definition publisher_closed ::
  "PubSubMessage list list \<Rightarrow> publishResult list \<Rightarrow> 'b singlePartitionPublisher \<Rightarrow> bool" where
  "publisher_closed sent before pp \<longleftrightarrow>
     stream_closed sent (pp_stream pp) \<and> pp_answered pp = length sent
   \<and> (\<exists>later. pp_results pp = before @ later \<and> (\<forall>r\<in>set later. no_metadata (Some r)))
   \<and> (\<forall>call\<in>set (pp_flushing pp). no_metadata (sc_result call))"

lemma closed_report: "publisher_closed sent before pp \<Longrightarrow> no_metadata r \<Longrightarrow> publisher_closed sent before (report r pp)"
  by (auto simp: publisher_closed_def report_def split: option.split)

lemma closed_shutdown:
  assumes "publisher_closed sent before pp" "no_metadata r"
  shows "publisher_closed sent before (publisher_initiateShutdown t e r pp)"
proof -
  obtain pp1 ok where u: "pp_updateStatus t (wrapError ''publisher'' (pp_topic pp) e) pp = (pp1, ok)" by fastforce
  have c: "publisher_closed sent before pp1"
    using assms(1) pp_updateStatus_fields [of t "wrapError ''publisher'' (pp_topic pp) e" pp] u
    by (simp add: publisher_closed_def)
  have st: "retryableStream_Stop (pp_stream pp1) = pp_stream pp1" using c stream_closed_ops(1) by (auto simp: publisher_closed_def)
  show ?thesis
    using c closed_report [OF c assms(2)] assms(2)
    by (simp add: publisher_initiateShutdown_def u st Let_def) (auto simp: publisher_closed_def)
qed

lemma closed_batcher: "publisher_closed sent before (pp\<lparr>pp_batcher := b\<rparr>) = publisher_closed sent before pp"
  by (simp add: publisher_closed_def)

lemma closed_checkDone:
  assumes "publisher_closed sent before pp"
  shows "publisher_closed sent before (publisher_unsafeCheckDone pp)"
  using assms stream_closed_ops(1) [of sent "pp_stream pp"]
  by (simp add: publisher_unsafeCheckDone_def publisher_closed_def)

lemma closed_afterFlush:
  fixes pp :: "'b singlePartitionPublisher"
  assumes "publisher_closed sent before pp" "i < length (pp_flushing pp)"
  shows "publisher_closed sent before (publisher_afterFlush (pp_flushing pp ! i)
           (pp\<lparr>pp_flushing := take i (pp_flushing pp) @ drop (Suc i) (pp_flushing pp)\<rparr>))"
proof -
  let ?pp = "pp\<lparr>pp_flushing := take i (pp_flushing pp) @ drop (Suc i) (pp_flushing pp)\<rparr>"
  have c: "publisher_closed sent before ?pp"
    using assms(1) by (auto simp: publisher_closed_def dest: in_set_takeD in_set_dropD)
  have r: "no_metadata (sc_result (pp_flushing pp ! i))" using assms by (auto simp: publisher_closed_def)
  have "\<forall>r\<in>set (snd (OnPermanentError e b)). no_metadata (Some r)" for e and b :: "'b publishMessageBatcher"
    by (auto simp: OnPermanentError_def no_metadata_def)
  then have p: "publisher_closed sent before (?pp\<lparr>pp_batcher := fst (OnPermanentError e b),
      pp_results := pp_results ?pp @ snd (OnPermanentError e b)\<rparr>)" for e and b :: "'b publishMessageBatcher"
    using c by (auto simp: publisher_closed_def)
  then show ?thesis
    using closed_report [OF closed_checkDone [OF c] r] closed_report [OF p r, of "sc_err (pp_flushing pp ! i)" "pp_batcher pp"]
    by (simp add: publisher_afterFlush_def case_prod_beta)
qed

lemma closed_publish:
  assumes "publisher_closed sent before pp"
  shows "publisher_closed sent before (publisher_Publish add sz msg cb pp)"
proof -
  obtain pp1 e where p: "processMessage add sz msg cb pp = (pp1, e)" by fastforce
  have "publisher_closed sent before pp1"
    using assms p by (auto simp: processMessage_def publisher_closed_def split: prod.splits if_splits)
  then show ?thesis
    by (simp add: publisher_Publish_def p closed_shutdown no_metadata_def split: option.split)
qed

lemma closed_status_change:
  assumes "publisher_closed sent before pp"
  shows "publisher_closed sent before (publisher_onStreamStatusChange SendMsg status pp)"
proof (cases status)
  case streamConnected
  let ?pp1 = "fst (pp_updateStatus serviceActive None pp)"
  have c: "stream_closed sent (pp_stream pp)" using assms by (simp add: publisher_closed_def)
  obtain b batches where f: "InFlightBatches (pp_batcher pp) = (b, batches)" by fastforce
  obtain ok where s: "resend_loop SendMsg batches (pp_stream pp) = (pp_stream pp, ok)"
    using stream_closed_resend [OF c] by (metis prod.collapse)
  show ?thesis using assms
    by (cases ok) (simp_all add: streamConnected publisher_onStreamStatusChange_def Let_def f s publisher_closed_def)
next
  case streamTerminated
  then show ?thesis using closed_shutdown [OF assms] by (simp add: publisher_onStreamStatusChange_def no_metadata_def)
qed (use assms in \<open>simp_all add: publisher_onStreamStatusChange_def publisher_closed_def\<close>)

lemma closed_step:
  assumes "publisher_closed sent before pp" "\<And>off. e \<noteq> PpResponse (PubMessages off)"
  shows "publisher_closed sent before (publisher_step bops sz SendMsg e pp)"
proof -
  have c: "stream_closed sent (pp_stream pp)" using assms(1) by (simp add: publisher_closed_def)
  note ops = stream_closed_ops [OF c]
  show ?thesis
  proof (cases e)
    case PpStart
    then show ?thesis using assms(1) by (simp add: publisher_Start_def case_prod_beta publisher_closed_def ops)
  next
    case PpBundle
    then show ?thesis using assms(1)
      by (simp add: Let_def onNewBatch_def ops closed_batcher publisher_closed_def split: prod.split option.split)
  next
    case (PpResponse r)
    with assms(2) have "\<forall>off. r \<noteq> PubMessages off" by blast
    then show ?thesis using closed_shutdown [OF assms(1)] PpResponse
      by (cases r) (simp_all add: publisher_onResponse_def publisher_processResponse_def no_metadata_def)
  next
    case (PpNotify status)
    have "publisher_closed sent before (pp\<lparr>pp_notices := ns\<rparr>)" for ns using assms(1) by (simp add: publisher_closed_def)
    then show ?thesis using PpNotify assms(1) by (simp add: closed_status_change)
  next
    case (PpConnected now sid)
    then show ?thesis using assms(1) by (simp add: ops publisher_closed_def)
  next
    case PpIdle
    then show ?thesis using assms(1) by (simp add: ops publisher_closed_def)
  qed (use assms(1) in \<open>simp_all add: ops publisher_Stop_def closed_status_change closed_shutdown closed_publish closed_afterFlush
         no_metadata_def\<close>)
qed

lemma closed_run:
  assumes "publisher_closed sent before pp" "server_ok bops sz SendMsg es pp"
  shows "publisher_closed sent before (publisher_run bops sz SendMsg es pp)"
  using assms
proof (induction es arbitrary: pp)
  case (Cons e es)
  have "e \<noteq> PpResponse (PubMessages off)" for off
    using Cons.prems by (auto simp: publisher_closed_def stream_closed_def)
  then show ?case using Cons closed_step [OF Cons.prems(1)] by (simp add: publisher_run_def)
qed (simp add: publisher_run_def)

text \<open>The response to the only batch in flight arrives while \<^verbatim>\<open>Stop\<close> waits for the flush, with the mutex released.\<close>

lemma stop_response_closes:
  assumes "pp_status pp < serviceTerminating" "publishQueue (pp_batcher pp) = [batch]" "rs_status (pp_stream pp) \<noteq> streamTerminated"
    and "minExpectedNextOffset (pp_batcher pp) \<le> off" "length (rs_sent (pp_stream pp)) = Suc (pp_answered pp)" "pp_flushing pp = []"
    and "pp1 = publisher_run bops sz SendMsg [PpStop, PpResponse (PubMessages off)] pp"
  shows "publisher_closed (rs_sent (pp_stream pp)) (pp_results pp1) pp1"
    and "publishQueue (pp_batcher pp1) = []" "msgBundler (pp_batcher pp1) = msgBundler (pp_batcher pp)"
    and "pp_status pp1 = serviceTerminating" "length (pp_flushing pp1) = 1"
proof -
  let ?calls = "[\<lparr>sc_target = serviceTerminating, sc_err = None, sc_result = None\<rparr>]"
  obtain pp0 where u: "pp_updateStatus serviceTerminating (wrapError ''publisher'' (pp_topic pp) None) pp = (pp0, True)"
    using pp_updateStatus_fields(10) [of serviceTerminating "wrapError ''publisher'' (pp_topic pp) None" pp] assms(1)
    by (cases "pp_updateStatus serviceTerminating (wrapError ''publisher'' (pp_topic pp) None) pp") simp
  note f = pp_updateStatus_fields [of serviceTerminating "wrapError ''publisher'' (pp_topic pp) None" pp, unfolded u fst_conv]
  have s: "publisher_Stop pp = pp0\<lparr>pp_flushing := ?calls\<rparr>"
    using f assms(6) by (simp add: publisher_Stop_def publisher_initiateShutdown_def u)
  obtain b results where o: "OnPublishResponse off (pp_batcher pp) = (b, results, None)"
    and b: "publishQueue b = []" "msgBundler b = msgBundler (pp_batcher pp)"
    using assms(2,4)
    by (cases "release_loop (pb_partition (pp_batcher pp)) off 0 (msgHolders batch) (availableBufferBytes (pp_batcher pp))")
      (auto simp: OnPublishResponse_def)
  have st: "pp_status pp0 = serviceTerminating" using f assms(1) by (simp add: max.absorb4)
  have pp1: "pp1 = pp0\<lparr>pp_flushing := ?calls, pp_batcher := b, pp_results := pp_results pp @ results,
      pp_answered := Suc (pp_answered pp), pp_stream := retryableStream_Stop (pp_stream pp)\<rparr>"
    using st f o b s
    by (simp add: assms(7) publisher_run_def publisher_onResponse_def publisher_processResponse_def publisher_unsafeCheckDone_def
        InFlightBatchesEmpty_def)
  have "stream_closed (rs_sent (pp_stream pp)) (retryableStream_Stop (pp_stream pp))"
    using assms(3) by (simp add: stream_closed_def retryableStream_Stop_def unsafeTerminate_def)
  then show "publisher_closed (rs_sent (pp_stream pp)) (pp_results pp1) pp1"
    using assms(5) by (simp add: pp1 publisher_closed_def no_metadata_def)
  show "publishQueue (pp_batcher pp1) = []" "msgBundler (pp_batcher pp1) = msgBundler (pp_batcher pp)"
    "pp_status pp1 = serviceTerminating" "length (pp_flushing pp1) = 1"
    using st b by (simp_all add: pp1)
qed

lemma closed_terminated_notice:
  assumes "publisher_closed sent before pp" "pp_status pp = serviceTerminating" "length (pp_flushing pp) = 1"
    and "bundler_Empty bops (msgBundler (pp_batcher pp))"
  shows "pp_results (publisher_run bops sz SendMsg [PpTerminatedNotice, PpFlushed 1] pp)
       = pp_results pp @ map (\<lambda>h. (mh_onResult h, None, None)) (inflight (publishQueue (pp_batcher pp)))"
proof -
  let ?call = "\<lparr>sc_target = serviceTerminated, sc_err = None, sc_result = None\<rparr>"
  obtain pp0 where u: "pp_updateStatus serviceTerminated (wrapError ''publisher'' (pp_topic pp) None) pp = (pp0, True)"
    using pp_updateStatus_fields(10) [of serviceTerminated "wrapError ''publisher'' (pp_topic pp) None" pp] assms(2)
    by (cases "pp_updateStatus serviceTerminated (wrapError ''publisher'' (pp_topic pp) None) pp") (simp add: status_order)
  note f = pp_updateStatus_fields [of serviceTerminated "wrapError ''publisher'' (pp_topic pp) None" pp, unfolded u fst_conv]
  have n: "publisher_onStreamStatusChange SendMsg streamTerminated pp =
      pp0\<lparr>enableSendToStream := False, pp_stream := retryableStream_Stop (pp_stream pp), pp_flushing := pp_flushing pp @ [?call]\<rparr>"
    using assms(1) f by (simp add: publisher_onStreamStatusChange_def publisher_initiateShutdown_def u publisher_closed_def stream_closed_def)
  have err: "concat (map (\<lambda>batch. map (\<lambda>h. (mh_onResult h, None, e)) (msgHolders batch)) q)
      = map (\<lambda>h. (mh_onResult h, None, e)) (inflight q)" for q and e :: "wire_error option"
    by (induction q) simp_all
  show ?thesis
    using assms f
    by (simp add: publisher_run_def n publisher_closed_def stream_closed_def Flush_returns_def nth_append publisher_afterFlush_def
        OnPermanentError_def report_def err)
qed

text \<open>C22: A graceful stop can drop accepted messages.  Take any publisher that is not shutting down, with one batch in flight, and let
  the response to that batch arrive after \<^verbatim>\<open>Stop\<close> was called, while it waits for the flush of the bundler: whatever happens then
  (with a server that answers only requests it has got), nothing more is ever sent, the stream ends without an error, and every result reported
  from then on has no metadata.  In particular, the messages that the bundler hands over next are reported with neither metadata nor an error once
  the end of the stream is known.\<close>

theorem publisher_stop_drops_message:
  assumes "pp_status pp < serviceTerminating" "publishQueue (pp_batcher pp) = [batch]" "rs_status (pp_stream pp) \<noteq> streamTerminated"
    and "minExpectedNextOffset (pp_batcher pp) \<le> off" "length (rs_sent (pp_stream pp)) = Suc (pp_answered pp)" "pp_flushing pp = []"
    and "pp1 = publisher_run bops sz SendMsg [PpStop, PpResponse (PubMessages off)] pp"
    and "server_ok bops sz SendMsg es pp1" "pp2 = publisher_run bops sz SendMsg es pp1"
    and "bundler_handover bops (msgBundler (pp_batcher pp)) = (bu, msgs)" "msgs \<noteq> []" "bundler_Empty bops bu"
  shows "rs_status (pp_stream pp2) = streamTerminated \<and> rs_finalErr (pp_stream pp2) = None
       \<and> rs_sent (pp_stream pp2) = rs_sent (pp_stream pp)
       \<and> (\<exists>later. pp_results pp2 = pp_results pp1 @ later \<and> (\<forall>(cb, mm, err)\<in>set later. mm = None))
       \<and> pp_results (publisher_run bops sz SendMsg [PpBundle, PpTerminatedNotice, PpFlushed 1] pp1)
           = pp_results pp1 @ map (\<lambda>h. (mh_onResult h, None, None)) msgs"
proof -
  note pp1 = stop_response_closes [OF assms(1-7)]
  have "publisher_closed (rs_sent (pp_stream pp)) (pp_results pp1) pp2"
    unfolding assms(9) by (rule closed_run [OF pp1(1) assms(8)])
  then have general: "rs_status (pp_stream pp2) = streamTerminated \<and> rs_finalErr (pp_stream pp2) = None
       \<and> rs_sent (pp_stream pp2) = rs_sent (pp_stream pp)
       \<and> (\<exists>later. pp_results pp2 = pp_results pp1 @ later \<and> (\<forall>(cb, mm, err)\<in>set later. mm = None))"
    by (auto simp: publisher_closed_def stream_closed_def no_metadata_def)
  define pp3 where "pp3 = publisher_step bops sz SendMsg PpBundle pp1"
  have "stream_closed (rs_sent (pp_stream pp)) (pp_stream pp1)" using pp1(1) by (simp add: publisher_closed_def)
  note ops = stream_closed_ops [OF this]
  have f: "inflight (publishQueue (pp_batcher pp3)) = msgs" "msgBundler (pp_batcher pp3) = bu" "pp_status pp3 = serviceTerminating"
    "length (pp_flushing pp3) = 1" "pp_results pp3 = pp_results pp1"
    using pp1(2-5) assms(10,11) by (simp_all add: pp3_def new_batch_def onNewBatch_def ops AddBatch_def Let_def)
  have "publisher_closed (rs_sent (pp_stream pp)) (pp_results pp1) pp3"
    unfolding pp3_def by (rule closed_step [OF pp1(1)]) simp
  from closed_terminated_notice [OF this f(3,4), of bops sz SendMsg] f assms(12)
  have "pp_results (publisher_run bops sz SendMsg [PpBundle, PpTerminatedNotice, PpFlushed 1] pp1)
      = pp_results pp1 @ map (\<lambda>h. (mh_onResult h, None, None)) msgs"
    by (simp add: publisher_run_def pp3_def)
  with general show ?thesis by blast
qed


section \<open>A notice that comes late\<close>

text \<open>The notice of a connection waits for the mutex of the publisher; meanwhile the stream is reconnected once more (its idle timer
  runs from \<^verbatim>\<open>connected\<close> on), and the notice arrives before the second connection is there.\<close>

definition late_notice :: "int \<Rightarrow> nat \<Rightarrow> int \<Rightarrow> nat \<Rightarrow> publishEvent list" where
  "late_notice t1 sid1 t2 sid2 =
     [PpReconnecting, PpNotify streamReconnecting, PpConnected t1 sid1, PpReconnecting, PpNotify streamReconnecting,
      PpNotify streamConnected, PpConnected t2 sid2, PpBundle, PpNotify streamConnected]"

lemma Send_ok:
  "rs_stream rs = Some sid \<Longrightarrow> SendMsg sid (rs_sends rs) = None \<Longrightarrow>
   retryableStream_Send SendMsg r rs = (rs\<lparr>rs_sends := Suc (rs_sends rs), rs_sent := rs_sent rs @ [r]\<rparr>, True)"
  by (simp add: retryableStream_Send_def)

lemma late_notice_run:
  assumes "rs_status (pp_stream pp) = streamConnected" "pp_notices pp = {#}" "publishQueue (pp_batcher pp) = []"
    and "bundler_handover bops (msgBundler (pp_batcher pp)) = (bu, msgs)" "new_batch msgs = Some batch"
    and "SendMsg sid2 0 = None" "SendMsg sid2 1 = None"
    and "pp1 = publisher_run bops sz SendMsg (late_notice t1 sid1 t2 sid2) pp"
  shows "rs_sent (pp_stream pp1) = [ToPublishRequest batch, ToPublishRequest batch]" "publishQueue (pp_batcher pp1) = [batch]"
    and "pp_answered pp1 = 0" "pp_status pp1 = max (pp_status pp) serviceActive"
    and "minExpectedNextOffset (pp_batcher pp1) = minExpectedNextOffset (pp_batcher pp)"
  using assms(1-7)
  by (simp_all add: assms(8) publisher_run_def late_notice_def canReconnect_def connected_def publisher_onStreamStatusChange_def Let_def
      InFlightBatches_def onNewBatch_def AddBatch_def Send_ok)

lemma response_to_empty_queue:
  assumes "publishQueue (pp_batcher pp) = []" "pp_status pp < serviceTerminated"
  shows "pp_status (publisher_onResponse (PubMessages off) pp) = serviceTerminated"
    and "map sc_err (pp_flushing (publisher_onResponse (PubMessages off) pp)) = map sc_err (pp_flushing pp) @ [Some errPublishQueueEmpty]"
  using assms
  by (auto simp: publisher_onResponse_def publisher_processResponse_def OnPublishResponse_def publisher_initiateShutdown_def
      case_prod_beta Let_def max.absorb4)

lemma response_to_single_batch:
  assumes "publishQueue (pp_batcher pp) = [batch]" "minExpectedNextOffset (pp_batcher pp) \<le> off" "pp_status pp = serviceActive"
  shows "publishQueue (pp_batcher (publisher_onResponse (PubMessages off) pp)) = []"
    and "pp_status (publisher_onResponse (PubMessages off) pp) = serviceActive"
  using assms
  by (simp_all add: publisher_onResponse_def publisher_processResponse_def OnPublishResponse_def publisher_unsafeCheckDone_def
      split: prod.split)

text \<open>C23: Why the condition on the notices is needed above.  Take any active publisher with a connected stream, nothing in flight and
  something to send, and let the notice of a connection arrive after the stream has begun to reconnect once more: it enables sending before the
  second connection is there, so that a batch handed over between that connection and its notice is sent twice on the same connection.  Its
  messages are then published twice, and the response to the second copy, which finds the queue empty, terminates the publisher with an error.\<close>

theorem late_notice_sends_twice:
  assumes "pp_status pp = serviceActive" "rs_status (pp_stream pp) = streamConnected" "pp_notices pp = {#}"
    and "publishQueue (pp_batcher pp) = []"
    and "bundler_handover bops (msgBundler (pp_batcher pp)) = (bu, msgs)" "new_batch msgs = Some batch"
    and "SendMsg sid2 0 = None" "SendMsg sid2 1 = None"
    and "pp1 = publisher_run bops sz SendMsg (late_notice t1 sid1 t2 sid2) pp"
    and "minExpectedNextOffset (pp_batcher pp) \<le> off"
    and "pp2 = publisher_run bops sz SendMsg [PpResponse (PubMessages off), PpResponse (PubMessages off')] pp1"
  shows "rs_sent (pp_stream pp1) = [ToPublishRequest batch, ToPublishRequest batch]
       \<and> publishQueue (pp_batcher pp1) = [batch] \<and> pp_answered pp1 = 0
       \<and> server_ok bops sz SendMsg [PpResponse (PubMessages off), PpResponse (PubMessages off')] pp1
       \<and> pp_status pp2 = serviceTerminated \<and> sc_err (last (pp_flushing pp2)) = Some errPublishQueueEmpty"
proof -
  note pp1 = late_notice_run [OF assms(2-9)]
  let ?pp = "publisher_onResponse (PubMessages off) pp1"
  have "pp_status pp1 = serviceActive" using pp1(4) assms(1) by simp
  moreover have "minExpectedNextOffset (pp_batcher pp1) \<le> off" using pp1(5) assms(10) by simp
  ultimately have r: "publishQueue (pp_batcher ?pp) = []" "pp_status ?pp = serviceActive"
    using response_to_single_batch [OF pp1(2)] by blast+
  have ans: "pp_answered ?pp = Suc 0" "rs_sent (pp_stream ?pp) = rs_sent (pp_stream pp1)"
    using pp1(2,3) \<open>pp_status pp1 = serviceActive\<close> \<open>minExpectedNextOffset (pp_batcher pp1) \<le> off\<close>
    by (simp_all add: publisher_onResponse_def publisher_processResponse_def OnPublishResponse_def publisher_unsafeCheckDone_def
        split: prod.split)
  have "pp_status ?pp < serviceTerminated" using r(2) by (simp add: status_order)
  note e = response_to_empty_queue [OF r(1) this, of off']
  have pp2: "pp2 = publisher_onResponse (PubMessages off') ?pp" by (simp add: assms(11) publisher_run_def)
  have "pp_flushing pp2 \<noteq> []" using e(2) by (auto simp: pp2)
  then have "sc_err (last (pp_flushing pp2)) = Some errPublishQueueEmpty"
    using e(2) by (simp add: pp2 flip: last_map [of _ sc_err])
  then show ?thesis using pp1(1-3) ans e(1) pp2 by simp
qed


section \<open>Examples\<close>

definition list_bundler :: "messageHolder list bundlerOps" where
  "list_bundler = \<lparr>bundler_Add = list_bundler_Add, bundler_handover = list_bundler_handover,
                   bundler_Empty = (\<lambda>bu. bu = [])\<rparr>"

definition example_msg :: PubSubMessage where
  "example_msg = \<lparr>pm_key = [], pm_data = [7]\<rparr>"

definition example_publisher :: "messageHolder list singlePartitionPublisher" where
  "example_publisher = newSinglePartitionPublisher DefaultPublishSettings ''t/0'' 0 []"

text \<open>Two messages are published one by one; the stream breaks when the second batch is sent and
  is reconnected, which merges the two batches into one request, and the server answers it.\<close>

definition example_publish :: "publishEvent list" where
  "example_publish = [PpStart, PpReconnecting, PpNotify streamReconnecting, PpConnected 0 0, PpNotify streamConnected,
     PpPublish example_msg 1, PpBundle, PpPublish example_msg 2, PpBundle,
     PpReconnecting, PpNotify streamReconnecting, PpConnected 9 1, PpNotify streamConnected, PpResponse (PubMessages 50)]"

definition example_net :: "nat \<Rightarrow> nat \<Rightarrow> wire_error option" where
  "example_net sid k = (if sid = 0 \<and> 1 \<le> k then Some EOF else None)"

lemma example_net_aborts: "send_aborts example_net"
  by (auto simp: send_aborts_def example_net_def)

lemmas publisher_example_simps = publisher_run_def example_publish_def example_publisher_def list_bundler_def
  newSinglePartitionPublisher_def newPublishMessageBatcher_def newRetryableStream_def new_abstractService_def
  publisher_Start_def pp_updateStatus_def unsafeUpdateStatus_def status_order Let_def retryableStream_Start_def go_def
  canReconnect_def unsafeClearStream_def publisher_onStreamStatusChange_def connected_def InFlightBatches_def
  publisher_Publish_def processMessage_def AddMessage_def MaxPublishRequestBytes_def MaxPublishRequestCount_def
  list_bundler_Add_def list_bundler_handover_def example_msg_def DefaultPublishSettings_def wrap64_def int64_defs
  onNewBatch_def new_batch_def AddBatch_def retryableStream_Send_def example_net_def ToPublishRequest_def
  mergeable_def merge_batches_def publisher_onResponse_def publisher_processResponse_def OnPublishResponse_def
  publisher_unsafeCheckDone_def

lemma example_publish_fields:
  "let pp = publisher_run list_bundler (\<lambda>_. 100) example_net example_publish example_publisher
   in pp_status pp = serviceActive \<and> map fst (pp_results pp) = [1, 2]
    \<and> server_ok list_bundler (\<lambda>_. 100) example_net example_publish example_publisher
    \<and> notices_timely list_bundler (\<lambda>_. 100) example_net example_publish example_publisher"
  by (simp add: publisher_example_simps)



text \<open>A publisher with one batch in flight and a message in the bundler, and one with nothing in flight.\<close>

definition example_sending :: "publishEvent list" where
  "example_sending = [PpStart, PpReconnecting, PpNotify streamReconnecting, PpConnected 0 0, PpNotify streamConnected,
     PpPublish example_msg 1, PpBundle, PpPublish example_msg 2]"

definition example_waiting :: "publishEvent list" where
  "example_waiting = [PpStart, PpReconnecting, PpNotify streamReconnecting, PpConnected 0 0, PpNotify streamConnected,
     PpPublish example_msg 1]"

definition example_holder :: "nat \<Rightarrow> messageHolder" where
  "example_holder cb = \<lparr>mh_msg = example_msg, mh_size = 100, mh_onResult = cb\<rparr>"

lemma example_sending_fields:
  "let pp = publisher_run list_bundler (\<lambda>_. 100) (\<lambda>_ _. None) example_sending example_publisher
   in pp_status pp = serviceActive \<and> publishQueue (pp_batcher pp) = [\<lparr>msgHolders = [example_holder 1], totalSize = 100\<rparr>]
    \<and> rs_status (pp_stream pp) = streamConnected \<and> minExpectedNextOffset (pp_batcher pp) = 0
    \<and> rs_sent (pp_stream pp) = [[example_msg]] \<and> pp_answered pp = 0 \<and> pp_flushing pp = []
    \<and> msgBundler (pp_batcher pp) = [example_holder 2]"
  by (simp add: publisher_example_simps example_sending_def example_holder_def)

lemma example_waiting_fields:
  "let pp = publisher_run list_bundler (\<lambda>_. 100) (\<lambda>_ _. None) example_waiting example_publisher
   in pp_status pp = serviceActive \<and> publishQueue (pp_batcher pp) = [] \<and> rs_status (pp_stream pp) = streamConnected
    \<and> pp_notices pp = {#} \<and> minExpectedNextOffset (pp_batcher pp) = 0 \<and> msgBundler (pp_batcher pp) = [example_holder 1]"
  by (simp add: publisher_example_simps example_waiting_def example_holder_def)

theorem publisher_stop_drops_message_witness:
  "let pp1 = publisher_run list_bundler (\<lambda>_. 100) (\<lambda>_ _. None) [PpStop, PpResponse (PubMessages 50)]
               (publisher_run list_bundler (\<lambda>_. 100) (\<lambda>_ _. None) example_sending example_publisher)
   in rs_sent (pp_stream pp1) = [[example_msg]]
    \<and> pp_results (publisher_run list_bundler (\<lambda>_. 100) (\<lambda>_ _. None) [PpBundle, PpTerminatedNotice, PpFlushed 1] pp1)
        = pp_results pp1 @ [(2, None, None)]"
proof -
  define pp where "pp = publisher_run list_bundler (\<lambda>_. 100) (\<lambda>_ _. None) example_sending example_publisher"
  note f = example_sending_fields [folded pp_def, unfolded Let_def]
  define pp1 where "pp1 = publisher_run list_bundler (\<lambda>_. 100) (\<lambda>_ _. None) [PpStop, PpResponse (PubMessages 50)] pp"
  have "bundler_handover list_bundler (msgBundler (pp_batcher pp)) = ([], [example_holder 2])" "bundler_Empty list_bundler []"
    using f by (simp_all add: list_bundler_def list_bundler_handover_def)
  moreover have "pp1 = publisher_run list_bundler (\<lambda>_. 100) (\<lambda>_ _. None) [] pp1" by (simp add: publisher_run_def)
  ultimately have "rs_sent (pp_stream pp1) = rs_sent (pp_stream pp)
    \<and> pp_results (publisher_run list_bundler (\<lambda>_. 100) (\<lambda>_ _. None) [PpBundle, PpTerminatedNotice, PpFlushed 1] pp1)
        = pp_results pp1 @ map (\<lambda>h. (mh_onResult h, None, None)) [example_holder 2]"
    using publisher_stop_drops_message [of pp "\<lparr>msgHolders = [example_holder 1], totalSize = 100\<rparr>" 50 pp1 list_bundler "\<lambda>_. 100"
        "\<lambda>_ _. None" "[]" pp1 "[]" "[example_holder 2]", OF _ _ _ _ _ _ pp1_def] f
    by (simp add: status_order)
  then show ?thesis using f by (simp add: Let_def example_holder_def flip: pp_def pp1_def)
qed

theorem late_notice_sends_twice_witness:
  "let pp1 = publisher_run list_bundler (\<lambda>_. 100) (\<lambda>_ _. None) (late_notice 10 1 20 2)
               (publisher_run list_bundler (\<lambda>_. 100) (\<lambda>_ _. None) example_waiting example_publisher)
   in rs_sent (pp_stream pp1) = [[example_msg], [example_msg]]
    \<and> pp_status (publisher_run list_bundler (\<lambda>_. 100) (\<lambda>_ _. None)
                   [PpResponse (PubMessages 50), PpResponse (PubMessages 51)] pp1) = serviceTerminated"
proof -
  define pp where "pp = publisher_run list_bundler (\<lambda>_. 100) (\<lambda>_ _. None) example_waiting example_publisher"
  note f = example_waiting_fields [folded pp_def, unfolded Let_def]
  have h: "bundler_handover list_bundler (msgBundler (pp_batcher pp)) = ([], [example_holder 1])"
    using f by (simp add: list_bundler_def list_bundler_handover_def)
  have b: "new_batch [example_holder 1] = Some \<lparr>msgHolders = [example_holder 1], totalSize = 100\<rparr>"
    by (simp add: new_batch_def example_holder_def wrap64_def int64_defs)
  from late_notice_sends_twice [of pp list_bundler "[]" "[example_holder 1]" _ "\<lambda>_ _. None" 2 _ "\<lambda>_. 100" 10 1 20 50 _ 51, OF _ _ _ _ h b _ _ refl _ refl] f
  show ?thesis by (simp add: ToPublishRequest_def flip: pp_def) (simp add: example_holder_def)
qed

theorem publisher_results_exactly_once_witness:
  "callbacks (\<lambda>bu. bu) (publisher_run list_bundler (\<lambda>_. 100) example_net example_publish
     (newSinglePartitionPublisher DefaultPublishSettings ''t/0'' 0 [])) = {#1, 2#}"
  using publisher_results_exactly_once [of list_bundler "\<lambda>bu. bu" "[]" "\<lambda>_. 100" example_net example_publish
      DefaultPublishSettings "''t/0''" 0] list_bundler_ok
  by (simp add: list_bundler_def example_publish_def)

section \<open>The publisher is a service\<close>

definition publisher_ops :: "'b singlePartitionPublisher service_ops" where
  "publisher_ops =
     \<lparr>svc_Start = publisher_Start,
      svc_Stop = publisher_Stop,
      svc_AddStatusChangeReceiver = (\<lambda>h f pp. pp\<lparr>pp_service := AddStatusChangeReceiver h f (pp_service pp)\<rparr>),
      svc_RemoveStatusChangeReceiver = (\<lambda>h pp. pp\<lparr>pp_service := RemoveStatusChangeReceiver h (pp_service pp)\<rparr>),
      svc_Status = pp_status\<rparr>"

lemma publisher_Start_status [simp]: "pp_status (publisher_Start pp) = max (pp_status pp) serviceStarting"
  by (simp add: publisher_Start_def case_prod_beta)

lemma publisher_shutdown_status [simp]:
  "pp_status (publisher_initiateShutdown t e r pp) = max (pp_status pp) t"
  by (simp add: publisher_initiateShutdown_def case_prod_beta Let_def)

interpretation publisher_service: service_contract publisher_ops
  by unfold_locales
    (auto simp: publisher_ops_def publisher_Stop_def AddStatusChangeReceiver_def
      RemoveStatusChangeReceiver_def le_max_iff_disj less_max_iff_disj)

end
