(* ===== verification/Wire_Resources.thy ===== *)
theory Wire_Resources
  imports Wire_Batcher
begin

text \<open>
  Resource names (\<^verbatim>\<open>resources.go\<close>) and the encoded message metadata of \<^verbatim>\<open>pscompat/message.go\<close>:
  printing, parsing and that they are inverse to each other.  The regular expressions of the
  source are sequences of literal path segments and non-empty segments without a slash, and
  are modelled by splitting the input at slashes.
\<close>

section \<open>strings.Split, fmt and strconv\<close>

fun go_Split :: "char \<Rightarrow> string \<Rightarrow> string list" where
  "go_Split c [] = [[]]"
| "go_Split c (x # xs) =
     (if x = c then [] # go_Split c xs
      else case go_Split c xs of p # ps \<Rightarrow> (x # p) # ps | [] \<Rightarrow> [[x]])"

fun go_Join :: "char \<Rightarrow> string list \<Rightarrow> string" where
  "go_Join c [] = []"
| "go_Join c [p] = p"
| "go_Join c (p # ps) = p @ c # go_Join c ps"

definition digit :: "nat \<Rightarrow> char" where
  "digit n = char_of (48 + n)"

fun show_nat :: "nat \<Rightarrow> string" where
  "show_nat n = (if n < 10 then [digit n] else show_nat (n div 10) @ [digit (n mod 10)])"

declare show_nat.simps [simp del]

definition show_int :: "int \<Rightarrow> string" where
  "show_int i = (if i < 0 then CHR ''-'' # show_nat (nat (- i)) else show_nat (nat i))"

text \<open>\<^verbatim>\<open>strconv.ParseInt(s, 10, 64)\<close>: an optional sign, one or more decimal digits, and a value in
  the range of \<^verbatim>\<open>int64\<close>.\<close>

fun parse_digits :: "nat \<Rightarrow> string \<Rightarrow> nat option" where
  "parse_digits acc [] = Some acc"
| "parse_digits acc (c # cs) =
     (let n = of_char c in if 48 \<le> n \<and> n \<le> (57 :: nat) then parse_digits (10 * acc + (n - 48)) cs else None)"

definition ParseInt :: "string \<Rightarrow> int option" where
  "ParseInt s =
     (let neg = (s \<noteq> [] \<and> hd s = CHR ''-'');
          ds = (if s \<noteq> [] \<and> (hd s = CHR ''-'' \<or> hd s = CHR ''+'') then tl s else s)
      in if ds = [] then None
         else case parse_digits 0 ds of
                None \<Rightarrow> None
              | Some n \<Rightarrow> let v = (if neg then - int n else int n) in if is_int64 v then Some v else None)"

lemma go_Split_ne [simp]: "go_Split c s \<noteq> []"
  by (induction s) (auto split: list.split)

lemma go_Join_Split [simp]: "go_Join c (go_Split c s) = s"
proof (induction s)
  case (Cons x xs)
  obtain p ps where "go_Split c xs = p # ps" using go_Split_ne by (cases "go_Split c xs") blast+
  with Cons show ?case by (cases ps) auto
qed simp

lemma go_Split_free [simp]: "c \<notin> set s \<Longrightarrow> go_Split c s = [s]"
  by (induction s) auto

lemma go_Split_append [simp]: "c \<notin> set p \<Longrightarrow> go_Split c (p @ c # s) = p # go_Split c s"
proof (induction p)
  case (Cons x p)
  then show ?case by auto
qed simp

lemma go_Split_parts: "p \<in> set (go_Split c s) \<Longrightarrow> c \<notin> set p"
proof (induction s arbitrary: p)
  case (Cons x xs)
  then show ?case by (auto split: if_splits list.splits)
qed simp

lemma of_char_digit: "n < 10 \<Longrightarrow> of_char (digit n) = 48 + n"
  by (simp add: digit_def)

lemma parse_digits_append:
  "parse_digits acc (xs @ ys) = (case parse_digits acc xs of None \<Rightarrow> None | Some n \<Rightarrow> parse_digits n ys)"
  by (induction xs arbitrary: acc) (auto simp: Let_def)

lemma parse_show_nat: "parse_digits 0 (show_nat n) = Some n"
proof (induction n rule: show_nat.induct)
  case (1 n)
  show ?case
  proof (cases "n < 10")
    case True
    then show ?thesis by (subst show_nat.simps) (simp add: of_char_digit Let_def)
  next
    case False
    then show ?thesis using 1
      by (subst show_nat.simps) (simp add: parse_digits_append of_char_digit Let_def)
  qed
qed

lemma show_nat_chars: "c \<in> set (show_nat n) \<Longrightarrow> 48 \<le> (of_char c :: nat) \<and> (of_char c :: nat) \<le> 57"
proof (induction n rule: show_nat.induct)
  case (1 n)
  then show ?case by (subst (asm) (2) show_nat.simps) (auto simp: of_char_digit split: if_splits)
qed

lemma show_nat_ne [simp]: "show_nat n \<noteq> []"
  by (subst show_nat.simps) simp

lemma show_nat_hd: "hd (show_nat n) \<noteq> CHR ''-''" "hd (show_nat n) \<noteq> CHR ''+''"
  using show_nat_chars [OF hd_in_set [OF show_nat_ne], of n] by auto

lemma ParseInt_show: "is_int64 i \<Longrightarrow> ParseInt (show_int i) = Some i"
  using show_nat_hd [of "nat i"]
  by (auto simp: ParseInt_def show_int_def parse_show_nat Let_def)

lemma show_int_chars: "c \<in> set (show_int i) \<Longrightarrow> c \<noteq> CHR '':'' \<and> c \<noteq> CHR ''/''"
  using show_nat_chars [of c] by (auto simp: show_int_def split: if_splits)


section \<open>Regions and locations\<close>

datatype resource_error =
    errInvalidRegion string
  | errInvalidLocation string
  | errInvalidPath string string
  | errInvalidMetadata string

definition ValidateRegion :: "string \<Rightarrow> resource_error option" where
  "ValidateRegion input =
     (let parts = go_Split CHR ''-'' input
      in if length parts \<noteq> 2 then Some (errInvalidRegion input) else None)"

definition LocationToRegion :: "string \<Rightarrow> resource_error + string" where
  "LocationToRegion location =
     (let parts = go_Split CHR ''-'' location
      in if length parts = 3 then Inr (go_Join CHR ''-'' (take (length parts - 1) parts))
         else if length parts = 2 then Inr location
         else Inl (errInvalidLocation location))"

section \<open>Paths\<close>

record LocationPath =
  lp_Project :: string
  lp_Location :: string

record TopicPath =
  tp_Project :: string
  tp_Location :: string
  tp_TopicID :: string

record SubscriptionPath =
  sp_Project :: string
  sp_Location :: string
  sp_SubscriptionID :: string

record ReservationPath =
  rp_Project :: string
  rp_Region :: string
  rp_ReservationID :: string

definition LocationPath_String :: "LocationPath \<Rightarrow> string" where
  "LocationPath_String l = ''projects/'' @ lp_Project l @ ''/locations/'' @ lp_Location l"

definition TopicPath_String :: "TopicPath \<Rightarrow> string" where
  "TopicPath_String t =
     ''projects/'' @ tp_Project t @ ''/locations/'' @ tp_Location t @ ''/topics/'' @ tp_TopicID t"

definition SubscriptionPath_String :: "SubscriptionPath \<Rightarrow> string" where
  "SubscriptionPath_String s =
     ''projects/'' @ sp_Project s @ ''/locations/'' @ sp_Location s @ ''/subscriptions/'' @ sp_SubscriptionID s"

definition ReservationPath_String :: "ReservationPath \<Rightarrow> string" where
  "ReservationPath_String r =
     ''projects/'' @ rp_Project r @ ''/locations/'' @ rp_Region r @ ''/reservations/'' @ rp_ReservationID r"

definition TopicPath_LocationPath :: "TopicPath \<Rightarrow> LocationPath" where
  "TopicPath_LocationPath t = \<lparr>lp_Project = tp_Project t, lp_Location = tp_Location t\<rparr>"

definition SubscriptionPath_LocationPath :: "SubscriptionPath \<Rightarrow> LocationPath" where
  "SubscriptionPath_LocationPath s = \<lparr>lp_Project = sp_Project s, lp_Location = sp_Location s\<rparr>"

definition ReservationPath_Location :: "ReservationPath \<Rightarrow> LocationPath" where
  "ReservationPath_Location r = \<lparr>lp_Project = rp_Project r, lp_Location = rp_Region r\<rparr>"

text \<open>The regular expressions \<^verbatim>\<open>^projects/([^/]+)/locations/([^/]+)$\<close> and those with a third pair
  of segments named \<open>kind\<close>: the submatches, if the input matches.\<close>

definition locPathRE :: "string \<Rightarrow> (string \<times> string) option" where
  "locPathRE input =
     (case go_Split CHR ''/'' input of
        [a, p, b, l] \<Rightarrow> if a = ''projects'' \<and> b = ''locations'' \<and> p \<noteq> [] \<and> l \<noteq> [] then Some (p, l) else None
      | _ \<Rightarrow> None)"

definition pathRE :: "string \<Rightarrow> string \<Rightarrow> (string \<times> string \<times> string) option" where
  "pathRE kind input =
     (case go_Split CHR ''/'' input of
        [a, p, b, l, c, i] \<Rightarrow>
          if a = ''projects'' \<and> b = ''locations'' \<and> c = kind \<and> p \<noteq> [] \<and> l \<noteq> [] \<and> i \<noteq> []
          then Some (p, l, i) else None
      | _ \<Rightarrow> None)"

definition ParseLocationPath :: "string \<Rightarrow> resource_error + LocationPath" where
  "ParseLocationPath input =
     (case locPathRE input of
        None \<Rightarrow> Inl (errInvalidPath ''location'' input)
      | Some (p, l) \<Rightarrow> Inr \<lparr>lp_Project = p, lp_Location = l\<rparr>)"

definition ParseTopicPath :: "string \<Rightarrow> resource_error + TopicPath" where
  "ParseTopicPath input =
     (case pathRE ''topics'' input of
        None \<Rightarrow> Inl (errInvalidPath ''topic'' input)
      | Some (p, l, i) \<Rightarrow> Inr \<lparr>tp_Project = p, tp_Location = l, tp_TopicID = i\<rparr>)"

definition ParseSubscriptionPath :: "string \<Rightarrow> resource_error + SubscriptionPath" where
  "ParseSubscriptionPath input =
     (case pathRE ''subscriptions'' input of
        None \<Rightarrow> Inl (errInvalidPath ''subscription'' input)
      | Some (p, l, i) \<Rightarrow> Inr \<lparr>sp_Project = p, sp_Location = l, sp_SubscriptionID = i\<rparr>)"

definition ParseReservationPath :: "string \<Rightarrow> resource_error + ReservationPath" where
  "ParseReservationPath input =
     (case pathRE ''reservations'' input of
        None \<Rightarrow> Inl (errInvalidPath ''reservation'' input)
      | Some (p, l, i) \<Rightarrow> Inr \<lparr>rp_Project = p, rp_Region = l, rp_ReservationID = i\<rparr>)"

definition topicPartition_String :: "string \<Rightarrow> int \<Rightarrow> string" where
  "topicPartition_String path part = path @ ''/partitions/'' @ show_int part"

definition subscriptionPartition_String :: "string \<Rightarrow> int \<Rightarrow> string" where
  "subscriptionPartition_String path part = path @ ''/partitions/'' @ show_int part"

definition MessageMetadata_String :: "MessageMetadata \<Rightarrow> string" where
  "MessageMetadata_String m = show_int (Partition m) @ '':'' @ show_int (mm_Offset m)"

definition ParseMessageMetadata :: "string \<Rightarrow> resource_error + MessageMetadata" where
  "ParseMessageMetadata input =
     (case go_Split CHR '':'' input of
        [a, b] \<Rightarrow>
          (case (ParseInt a, ParseInt b) of
             (Some part, Some offset) \<Rightarrow> Inr \<lparr>Partition = part, mm_Offset = offset\<rparr>
           | _ \<Rightarrow> Inl (errInvalidMetadata input))
      | _ \<Rightarrow> Inl (errInvalidMetadata input))"

section \<open>Round trips\<close>

definition segment :: "string \<Rightarrow> bool" where
  "segment p \<longleftrightarrow> p \<noteq> [] \<and> CHR ''/'' \<notin> set p"

text \<open>Splitting at slashes as an equation on strings: one segment more, or the last one.\<close>

lemma split_Cons_iff:
  "go_Split c s = p # q # ps \<longleftrightarrow> (\<exists>s'. s = p @ c # s' \<and> c \<notin> set p \<and> go_Split c s' = q # ps)"
proof
  assume sp: "go_Split c s = p # q # ps"
  then have "c \<notin> set p" using go_Split_parts [of p c s] by simp
  moreover have "s = p @ c # go_Join c (q # ps)" using go_Join_Split [of c s] unfolding sp by simp
  ultimately show "\<exists>s'. s = p @ c # s' \<and> c \<notin> set p \<and> go_Split c s' = q # ps"
    using sp by (intro exI [of _ "go_Join c (q # ps)"]) auto
qed auto

lemma split_single_iff: "go_Split c s = [p] \<longleftrightarrow> s = p \<and> c \<notin> set p"
proof
  assume sp: "go_Split c s = [p]"
  then have "c \<notin> set p" using go_Split_parts [of p c s] by simp
  with go_Join_Split [of c s] sp show "s = p \<and> c \<notin> set p" by simp
qed auto

lemma locPathRE_iff:
  "locPathRE s = Some (p, l) \<longleftrightarrow> s = ''projects/'' @ p @ ''/locations/'' @ l \<and> segment p \<and> segment l"
proof -
  have "locPathRE s = Some (p, l) \<longleftrightarrow>
      go_Split CHR ''/'' s = [''projects'', p, ''locations'', l] \<and> p \<noteq> [] \<and> l \<noteq> []"
    by (auto simp: locPathRE_def split: list.splits if_splits)
  then show ?thesis by (auto simp: split_Cons_iff split_single_iff segment_def)
qed

lemma pathRE_iff:
  assumes "CHR ''/'' \<notin> set kind"
  shows "pathRE kind s = Some (p, l, i) \<longleftrightarrow>
     s = ''projects/'' @ p @ ''/locations/'' @ l @ CHR ''/'' # kind @ CHR ''/'' # i \<and> segment p \<and> segment l \<and> segment i"
proof -
  have "pathRE kind s = Some (p, l, i) \<longleftrightarrow>
      go_Split CHR ''/'' s = [''projects'', p, ''locations'', l, kind, i] \<and> p \<noteq> [] \<and> l \<noteq> [] \<and> i \<noteq> []"
    by (auto simp: pathRE_def split: list.splits if_splits)
  then show ?thesis using assms by (auto simp: split_Cons_iff split_single_iff segment_def)
qed

text \<open>C24: Parsing a resource path succeeds exactly on the printed form of a path whose segments are
  non-empty and contain no slash, and returns that path.\<close>

theorem resource_paths_roundtrip:
  "(ParseLocationPath s = Inr l \<longleftrightarrow>
      s = LocationPath_String l \<and> segment (lp_Project l) \<and> segment (lp_Location l))
 \<and> (ParseTopicPath s = Inr t \<longleftrightarrow>
      s = TopicPath_String t \<and> segment (tp_Project t) \<and> segment (tp_Location t) \<and> segment (tp_TopicID t))
 \<and> (ParseSubscriptionPath s = Inr u \<longleftrightarrow>
      s = SubscriptionPath_String u \<and> segment (sp_Project u) \<and> segment (sp_Location u) \<and> segment (sp_SubscriptionID u))
 \<and> (ParseReservationPath s = Inr r \<longleftrightarrow>
      s = ReservationPath_String r \<and> segment (rp_Project r) \<and> segment (rp_Region r) \<and> segment (rp_ReservationID r))"
proof (intro conjI)
  have "ParseLocationPath s = Inr l \<longleftrightarrow> locPathRE s = Some (lp_Project l, lp_Location l)"
    by (cases l) (auto simp: ParseLocationPath_def split: option.splits)
  then show "ParseLocationPath s = Inr l \<longleftrightarrow>
      s = LocationPath_String l \<and> segment (lp_Project l) \<and> segment (lp_Location l)"
    by (simp add: locPathRE_iff LocationPath_String_def)
  have "ParseTopicPath s = Inr t \<longleftrightarrow> pathRE ''topics'' s = Some (tp_Project t, tp_Location t, tp_TopicID t)"
    by (cases t) (auto simp: ParseTopicPath_def split: option.splits)
  then show "ParseTopicPath s = Inr t \<longleftrightarrow>
      s = TopicPath_String t \<and> segment (tp_Project t) \<and> segment (tp_Location t) \<and> segment (tp_TopicID t)"
    by (simp add: pathRE_iff TopicPath_String_def)
  have "ParseSubscriptionPath s = Inr u \<longleftrightarrow>
      pathRE ''subscriptions'' s = Some (sp_Project u, sp_Location u, sp_SubscriptionID u)"
    by (cases u) (auto simp: ParseSubscriptionPath_def split: option.splits)
  then show "ParseSubscriptionPath s = Inr u \<longleftrightarrow>
      s = SubscriptionPath_String u \<and> segment (sp_Project u) \<and> segment (sp_Location u) \<and> segment (sp_SubscriptionID u)"
    by (simp add: pathRE_iff SubscriptionPath_String_def)
  have "ParseReservationPath s = Inr r \<longleftrightarrow>
      pathRE ''reservations'' s = Some (rp_Project r, rp_Region r, rp_ReservationID r)"
    by (cases r) (auto simp: ParseReservationPath_def split: option.splits)
  then show "ParseReservationPath s = Inr r \<longleftrightarrow>
      s = ReservationPath_String r \<and> segment (rp_Project r) \<and> segment (rp_Region r) \<and> segment (rp_ReservationID r)"
    by (simp add: pathRE_iff ReservationPath_String_def)
qed

text \<open>The message ID given to users is a faithful encoding: parsing the printed metadata of a
  message returns the partition and offset, for every value of the two integers.\<close>

theorem message_metadata_roundtrip:
  assumes "is_int64 (Partition m)" "is_int64 (mm_Offset m)"
  shows "ParseMessageMetadata (MessageMetadata_String m) = Inr m"
proof -
  have "CHR '':'' \<notin> set (show_int i)" for i using show_int_chars by blast
  then have "go_Split CHR '':'' (MessageMetadata_String m) = [show_int (Partition m), show_int (mm_Offset m)]"
    by (simp add: MessageMetadata_String_def)
  then show ?thesis by (simp add: ParseMessageMetadata_def ParseInt_show assms)
qed

theorem message_metadata_roundtrip_witness:
  "ParseMessageMetadata (MessageMetadata_String \<lparr>Partition = 3, mm_Offset = -9223372036854775808\<rparr>)
     = Inr \<lparr>Partition = 3, mm_Offset = -9223372036854775808\<rparr>"
  by (rule message_metadata_roundtrip) (simp_all add: int64_defs)

lemma LocationToRegion_valid: "LocationToRegion l = Inr r \<Longrightarrow> ValidateRegion r = None"
proof -
  assume l: "LocationToRegion l = Inr r"
  show ?thesis
  proof (cases "length (go_Split CHR ''-'' l) = 3")
    case True
    then obtain a b c where p: "go_Split CHR ''-'' l = [a, b, c]" by (auto simp: length_Suc_conv numeral_3_eq_3)
    then have r: "r = a @ CHR ''-'' # b" using l by (simp add: LocationToRegion_def Let_def numeral_2_eq_2)
    have "CHR ''-'' \<notin> set a" "CHR ''-'' \<notin> set b"
      using go_Split_parts [of a "CHR ''-''" l] go_Split_parts [of b "CHR ''-''" l] p by auto
    then show ?thesis by (simp add: r ValidateRegion_def)
  next
    case False
    then show ?thesis using l by (auto simp: LocationToRegion_def ValidateRegion_def Let_def split: if_splits)
  qed
qed

end
