(* ===== verification/Wire_Routing.thy ===== *)
theory Wire_Routing
  imports Wire_Publisher Wire_Resources
begin

text \<open>
  The publisher over all partitions of a topic: the watcher that polls the partition count
  (\<^verbatim>\<open>partition_count.go\<close>) and \<^verbatim>\<open>routingPublisher\<close> of \<^verbatim>\<open>publisher.go\<close>, a composite service whose
  children are the watcher and one publisher per partition.  The admin client is a parameter:
  the result of each \<^verbatim>\<open>GetTopicPartitions\<close> call is an argument.
\<close>

section \<open>The partition count watcher\<close>

record partitionCountWatcher =
  pw_pollPeriod :: int
  pw_partitionCount :: int
  pw_pollUpdate :: periodicTask
  pw_service :: abstractService

abbreviation pw_status :: "partitionCountWatcher \<Rightarrow> serviceStatus" where
  "pw_status p \<equiv> as_status (pw_service p)"

definition newPartitionCountWatcher :: "PublishSettings \<Rightarrow> partitionCountWatcher" where
  "newPartitionCountWatcher settings =
     \<lparr>pw_pollPeriod = ConfigPollPeriod settings, pw_partitionCount = 0,
      pw_pollUpdate = newPeriodicTask (ConfigPollPeriod settings), pw_service = new_abstractService\<rparr>"

definition pw_updateStatus ::
  "serviceStatus \<Rightarrow> wire_error option \<Rightarrow> partitionCountWatcher \<Rightarrow> partitionCountWatcher \<times> bool" where
  "pw_updateStatus target err p =
     (case unsafeUpdateStatus target err (pw_service p) of (as, ok) \<Rightarrow> (p\<lparr>pw_service := as\<rparr>, ok))"

text \<open>\<^verbatim>\<open>Start\<close> also starts the goroutine of the first update.\<close>

definition watcher_Start :: "partitionCountWatcher \<Rightarrow> partitionCountWatcher" where
  "watcher_Start p = fst (pw_updateStatus serviceStarting None p)"

definition watcher_unsafeInitiateShutdown :: "wire_error option \<Rightarrow> partitionCountWatcher \<Rightarrow> partitionCountWatcher" where
  "watcher_unsafeInitiateShutdown err p =
     (case pw_updateStatus serviceTerminated err p of
        (p1, updated) \<Rightarrow> if updated then p1\<lparr>pw_pollUpdate := periodicTask_Stop (pw_pollUpdate p1)\<rparr> else p1)"

definition watcher_Stop :: "partitionCountWatcher \<Rightarrow> partitionCountWatcher" where
  "watcher_Stop p = watcher_unsafeInitiateShutdown None p"

definition onStartupComplete :: "partitionCountWatcher \<Rightarrow> partitionCountWatcher" where
  "onStartupComplete p =
     (case pw_updateStatus serviceActive None p of
        (p1, updated) \<Rightarrow> if updated then p1\<lparr>pw_pollUpdate := periodicTask_Start (pw_pollUpdate p1)\<rparr> else p1)"

text \<open>The closure of \<^verbatim>\<open>updatePartitionCount\<close> once the call has returned with \<open>resp\<close> and the request
  timer \<open>rt\<close> has been stopped: the new count, or the error.\<close>

definition fetchPartitionCount ::
  "requestTimer \<Rightarrow> wire_error + int \<Rightarrow> partitionCountWatcher \<Rightarrow> partitionCountWatcher \<times> (wire_error + int)" where
  "fetchPartitionCount rt resp p =
     (if pw_status p \<ge> serviceTerminating then (p, Inr (pw_partitionCount p))
      else case resp of
             Inl e \<Rightarrow>
               if pw_partitionCount p > 0 then (p, Inr (pw_partitionCount p))
               else let err = errPartitionUpdate (case ResolveError (Some e) rt of Some e' \<Rightarrow> e' | None \<Rightarrow> e)
                    in (watcher_unsafeInitiateShutdown (Some err) p, Inl err)
           | Inr n \<Rightarrow>
               if n \<le> 0 then (watcher_unsafeInitiateShutdown (Some (errInvalidPartitionCount n)) p,
                              Inl (errInvalidPartitionCount n))
               else (p\<lparr>pw_partitionCount := n\<rparr>, Inr n))"

text \<open>One call of \<^verbatim>\<open>updatePartitionCount\<close> with nothing in between: the new state and the count passed
  to the receiver, if any.\<close>

definition updatePartitionCount ::
  "requestTimer \<Rightarrow> wire_error + int \<Rightarrow> partitionCountWatcher \<Rightarrow> partitionCountWatcher \<times> int option" where
  "updatePartitionCount rt resp p =
     (let prev = pw_partitionCount p
      in case fetchPartitionCount rt resp p of
           (p1, Inl err) \<Rightarrow> (p1, None)
         | (p1, Inr n) \<Rightarrow>
             if prev \<noteq> n then (if prev = 0 then onStartupComplete p1 else p1, Some n) else (p1, None))"

fun watcher_polls ::
  "requestTimer \<Rightarrow> (wire_error + int) list \<Rightarrow> partitionCountWatcher \<Rightarrow> partitionCountWatcher \<times> int list" where
  "watcher_polls rt [] p = (p, [])"
| "watcher_polls rt (resp # resps) p =
     (case updatePartitionCount rt resp p of (p1, out) \<Rightarrow>
        case watcher_polls rt resps p1 of (p2, outs) \<Rightarrow>
          (p2, (case out of Some n \<Rightarrow> [n] | None \<Rightarrow> []) @ outs))"

text \<open>The counts that successful calls returned before the first invalid one.\<close>

fun good_counts :: "(wire_error + int) list \<Rightarrow> int list" where
  "good_counts [] = []"
| "good_counts (Inl e # resps) = good_counts resps"
| "good_counts (Inr n # resps) = (if n \<le> 0 then [] else n # good_counts resps)"

section \<open>The routing publisher\<close>

text \<open>Its children: the watcher and the publishers.  Services are identified by numbers: the
  routing publisher itself is 0, its watcher 1 and the publisher of partition \<open>i\<close> is \<open>i + 2\<close>.\<close>

datatype 'b rpChild = RpWatcher partitionCountWatcher | RpPublisher "'b singlePartitionPublisher"

definition watcher_ops :: "partitionCountWatcher service_ops" where
  "watcher_ops =
     \<lparr>svc_Start = watcher_Start,
      svc_Stop = watcher_Stop,
      svc_AddStatusChangeReceiver = (\<lambda>h f p. p\<lparr>pw_service := AddStatusChangeReceiver h f (pw_service p)\<rparr>),
      svc_RemoveStatusChangeReceiver = (\<lambda>h p. p\<lparr>pw_service := RemoveStatusChangeReceiver h (pw_service p)\<rparr>),
      svc_Status = pw_status\<rparr>"

definition rp_ops :: "'b rpChild service_ops" where
  "rp_ops =
     \<lparr>svc_Start = (\<lambda>c. case c of RpWatcher w \<Rightarrow> RpWatcher (svc_Start watcher_ops w)
                                 | RpPublisher p \<Rightarrow> RpPublisher (svc_Start publisher_ops p)),
      svc_Stop = (\<lambda>c. case c of RpWatcher w \<Rightarrow> RpWatcher (svc_Stop watcher_ops w)
                                | RpPublisher p \<Rightarrow> RpPublisher (svc_Stop publisher_ops p)),
      svc_AddStatusChangeReceiver =
        (\<lambda>h f c. case c of RpWatcher w \<Rightarrow> RpWatcher (svc_AddStatusChangeReceiver watcher_ops h f w)
                         | RpPublisher p \<Rightarrow> RpPublisher (svc_AddStatusChangeReceiver publisher_ops h f p)),
      svc_RemoveStatusChangeReceiver =
        (\<lambda>h c. case c of RpWatcher w \<Rightarrow> RpWatcher (svc_RemoveStatusChangeReceiver watcher_ops h w)
                       | RpPublisher p \<Rightarrow> RpPublisher (svc_RemoveStatusChangeReceiver publisher_ops h p)),
      svc_Status = (\<lambda>c. case c of RpWatcher w \<Rightarrow> svc_Status watcher_ops w
                                  | RpPublisher p \<Rightarrow> svc_Status publisher_ops p)\<rparr>"

record 'b singlePartitionPublisherFactory =
  pf_settings :: PublishSettings
  pf_topicPath :: string
  pf_newBundler :: 'b

definition publisherFactory_New :: "'b singlePartitionPublisherFactory \<Rightarrow> int \<Rightarrow> 'b singlePartitionPublisher" where
  "publisherFactory_New f part =
     newSinglePartitionPublisher (pf_settings f) (topicPartition_String (pf_topicPath f) part) part (pf_newBundler f)"

record 'b routingPublisher =
  rp_pubFactory :: "'b singlePartitionPublisherFactory"
  rp_composite :: "'b rpChild compositeService"
  rp_msgRouter :: "compositeMsgRouter option"
  rp_publishers :: "handle list"

abbreviation rp_status :: "'b routingPublisher \<Rightarrow> serviceStatus" where
  "rp_status rp \<equiv> cs_status (rp_composite rp)"

definition newRoutingPublisher :: "'b singlePartitionPublisherFactory \<Rightarrow> 'b routingPublisher" where
  "newRoutingPublisher f =
     \<lparr>rp_pubFactory = f,
      rp_composite = fst (unsafeAddServices rp_ops [(1, RpWatcher (newPartitionCountWatcher (pf_settings f)))]
                            (compositeService_init 0)),
      rp_msgRouter = None, rp_publishers = []\<rparr>"

text \<open>The loop of \<^verbatim>\<open>onPartitionCountChanged\<close>: partitions \<open>i, i + 1, \<dots>\<close>, \<open>k\<close> of them.\<close>

fun add_publishers :: "nat \<Rightarrow> nat \<Rightarrow> 'b routingPublisher \<Rightarrow> 'b routingPublisher" where
  "add_publishers i 0 rp = rp"
| "add_publishers i (Suc k) rp =
     add_publishers (Suc i) k
       (rp\<lparr>rp_publishers := rp_publishers rp @ [i + 2],
           rp_composite := fst (unsafeAddServices rp_ops
              [(i + 2, RpPublisher (publisherFactory_New (rp_pubFactory rp) (int i)))] (rp_composite rp))\<rparr>)"

text \<open>\<open>rnd\<close> is the random number the router factory draws for the start of the round robin.\<close>

definition onPartitionCountChanged :: "int \<Rightarrow> int \<Rightarrow> 'b routingPublisher \<Rightarrow> 'b routingPublisher" where
  "onPartitionCountChanged rnd partitionCount rp =
     (if rp_status rp \<ge> serviceTerminating then rp
      else if partitionCount = int (length (rp_publishers rp)) then rp
      else if partitionCount < int (length (rp_publishers rp)) then rp
      else (add_publishers (length (rp_publishers rp)) (nat partitionCount - length (rp_publishers rp)) rp)
             \<lparr>rp_msgRouter := Some (messageRouterFactory_New rnd partitionCount)\<rparr>)"

definition routeToPublisher ::
  "(bytes \<Rightarrow> bytes) \<Rightarrow> PubSubMessage \<Rightarrow> 'b routingPublisher \<Rightarrow> 'b routingPublisher \<times> (wire_error + handle)" where
  "routeToPublisher sha256 msg rp =
     (case unsafeCheckServiceStatus (cs_abstract (rp_composite rp)) of
        Some err \<Rightarrow> (rp, Inl err)
      | None \<Rightarrow>
          (case rp_msgRouter rp of
             None \<Rightarrow>
               (rp\<lparr>rp_composite := compositeService_unsafeInitiateShutdown rp_ops serviceTerminating
                       (Some ErrServiceUninitialized) (rp_composite rp)\<rparr>,
                Inl ErrServiceUninitialized)
           | Some router \<Rightarrow>
               (case compositeMsgRouter_Route sha256 (pm_key msg) router of
                  (router', part) \<Rightarrow>
                    let rp1 = rp\<lparr>rp_msgRouter := Some router'\<rparr>
                    in if part \<ge> int (length (rp_publishers rp1))
                       then (rp1\<lparr>rp_composite := compositeService_unsafeInitiateShutdown rp_ops serviceTerminating
                                   (Some (errPublisherNotFound part)) (rp_composite rp1)\<rparr>,
                             Inl (errPublisherNotFound part))
                       else (rp1, Inr (rp_publishers rp1 ! nat part)))))"

text \<open>\<^verbatim>\<open>Publish\<close>: the error is reported to the callback, or the message is passed to the publisher
  found.  The result is the new state and the call of the callback, if one is made here.\<close>

definition routingPublisher_Publish ::
  "(messageHolder \<Rightarrow> int \<Rightarrow> 'b \<Rightarrow> 'b \<times> wire_error option) \<Rightarrow> (PubSubMessage \<Rightarrow> int) \<Rightarrow> (bytes \<Rightarrow> bytes) \<Rightarrow>
   PubSubMessage \<Rightarrow> nat \<Rightarrow> 'b routingPublisher \<Rightarrow> 'b routingPublisher \<times> publishResult option" where
  "routingPublisher_Publish add sz sha256 msg onResult rp =
     (case routeToPublisher sha256 msg rp of
        (rp1, Inl err) \<Rightarrow> (rp1, Some (onResult, None, Some err))
      | (rp1, Inr h) \<Rightarrow>
          (rp1\<lparr>rp_composite := update_child h
                 (\<lambda>c. case c of RpPublisher p \<Rightarrow> RpPublisher (publisher_Publish add sz msg onResult p)
                              | RpWatcher w \<Rightarrow> RpWatcher w) (rp_composite rp1)\<rparr>, None))"


section \<open>What the watcher reports\<close>

lemma pw_updateStatus_fields [simp]:
  "pw_partitionCount (fst (pw_updateStatus t e p)) = pw_partitionCount p"
  "pw_status (fst (pw_updateStatus t e p)) = max (pw_status p) t"
  "snd (pw_updateStatus t e p) \<longleftrightarrow> pw_status p < t"
  using unsafeUpdateStatus_status [of t e "pw_service p"] unsafeUpdateStatus_ret [of t e "pw_service p"]
  by (simp_all add: pw_updateStatus_def case_prod_beta)

lemma watcher_shutdown_fields [simp]:
  "pw_partitionCount (watcher_unsafeInitiateShutdown e p) = pw_partitionCount p"
  "pw_status (watcher_unsafeInitiateShutdown e p) = serviceTerminated"
  by (simp_all add: watcher_unsafeInitiateShutdown_def case_prod_beta max_def)

lemma onStartupComplete_fields [simp]:
  "pw_partitionCount (onStartupComplete p) = pw_partitionCount p"
  "pw_status (onStartupComplete p) = max (pw_status p) serviceActive"
  by (simp_all add: onStartupComplete_def case_prod_beta)

lemma polls_terminated: "pw_status p \<ge> serviceTerminating \<Longrightarrow> watcher_polls rt resps p = (p, [])"
  by (induction resps) (simp_all add: updatePartitionCount_def fetchPartitionCount_def)

lemma polls_active:
  assumes "pw_status p < serviceTerminating" "0 < pw_partitionCount p"
  shows "pw_partitionCount p # snd (watcher_polls rt resps p) = remdups_adj (pw_partitionCount p # good_counts resps)"
  using assms
proof (induction resps arbitrary: p)
  case (Cons resp resps)
  show ?case
  proof (cases resp)
    case (Inl e)
    then have "updatePartitionCount rt resp p = (p, None)"
      using Cons.prems by (simp add: updatePartitionCount_def fetchPartitionCount_def not_le [symmetric])
    with Cons Inl show ?thesis by (simp add: case_prod_beta)
  next
    case (Inr n)
    show ?thesis
    proof (cases "n \<le> 0")
      case True
      then show ?thesis using Cons.prems Inr
        by (simp add: updatePartitionCount_def fetchPartitionCount_def not_le [symmetric] polls_terminated)
    next
      case False
      have "updatePartitionCount rt resp p = (p\<lparr>pw_partitionCount := n\<rparr>, if pw_partitionCount p \<noteq> n then Some n else None)"
        using Cons.prems Inr False
        by (simp add: updatePartitionCount_def fetchPartitionCount_def not_le [symmetric])
      with Cons.IH [of "p\<lparr>pw_partitionCount := n\<rparr>"] Cons.prems Inr False show ?thesis
        by (auto simp: case_prod_beta)
    qed
  qed
qed simp

text \<open>The partition count watcher reports each change of the partition count once: the counts it
  passes to its receiver are the successfully polled ones with consecutive duplicates removed,
  up to the first invalid count; polls that fail after the first are ignored, and a failure of
  the first one terminates the watcher, which then reports nothing.\<close>

theorem watcher_reports_changes:
  "snd (watcher_polls rt resps (watcher_Start (newPartitionCountWatcher settings))) =
     (case resps of Inl e # _ \<Rightarrow> [] | _ \<Rightarrow> remdups_adj (good_counts resps))"
proof -
  define p where "p = watcher_Start (newPartitionCountWatcher settings)"
  have p: "pw_status p = serviceStarting" "pw_partitionCount p = 0"
    by (simp_all add: p_def watcher_Start_def newPartitionCountWatcher_def new_abstractService_def max_def)
  show ?thesis
  proof (cases resps)
    case (Cons resp rest)
    show ?thesis
    proof (cases resp)
      case (Inl e)
      have "pw_status (fst (updatePartitionCount rt resp p)) = serviceTerminated"
        "snd (updatePartitionCount rt resp p) = None"
        using p Inl by (auto simp: updatePartitionCount_def fetchPartitionCount_def Let_def)
      then show ?thesis using Cons Inl by (simp add: p_def [symmetric] case_prod_beta polls_terminated)
    next
      case (Inr n)
      show ?thesis
      proof (cases "n \<le> 0")
        case True
        have "pw_status (fst (updatePartitionCount rt resp p)) = serviceTerminated"
          "snd (updatePartitionCount rt resp p) = None"
          using p Inr True by (auto simp: updatePartitionCount_def fetchPartitionCount_def)
        then show ?thesis using Cons Inr True by (simp add: p_def [symmetric] case_prod_beta polls_terminated)
      next
        case False
        define p1 where "p1 = onStartupComplete (p\<lparr>pw_partitionCount := n\<rparr>)"
        have "updatePartitionCount rt resp p = (p1, Some n)"
          using p Inr False by (simp add: updatePartitionCount_def fetchPartitionCount_def p1_def)
        moreover have "n # snd (watcher_polls rt rest p1) = remdups_adj (n # good_counts rest)"
          using polls_active [of p1 rt rest] p False by (simp add: p1_def max_def)
        ultimately show ?thesis using Cons Inr False by (simp add: p_def [symmetric] case_prod_beta)
      qed
    qed
  qed simp
qed

interpretation watcher_service: service_contract watcher_ops
  by unfold_locales
    (auto simp: watcher_ops_def watcher_Start_def watcher_Stop_def AddStatusChangeReceiver_def
      RemoveStatusChangeReceiver_def le_max_iff_disj less_max_iff_disj)

interpretation rp_children: service_contract rp_ops
proof
  fix c :: "'b rpChild" and h f
  show "serviceTerminating \<le> svc_Status rp_ops (svc_Stop rp_ops c)"
    using watcher_service.stop_terminating publisher_service.stop_terminating
    by (cases c) (simp_all add: rp_ops_def)
  show "serviceUninitialized < svc_Status rp_ops (svc_Start rp_ops c)"
    using watcher_service.start_started publisher_service.start_started
    by (cases c) (simp_all add: rp_ops_def)
  show "svc_Status rp_ops c \<le> svc_Status rp_ops (svc_Start rp_ops c)"
    using watcher_service.start_mono publisher_service.start_mono
    by (cases c) (simp_all add: rp_ops_def)
  show "svc_Status rp_ops c \<le> svc_Status rp_ops (svc_Stop rp_ops c)"
    using watcher_service.stop_mono publisher_service.stop_mono
    by (cases c) (simp_all add: rp_ops_def)
  show "svc_Status rp_ops (svc_AddStatusChangeReceiver rp_ops h f c) = svc_Status rp_ops c"
    using watcher_service.add_status publisher_service.add_status
    by (cases c) (simp_all add: rp_ops_def)
  show "svc_Status rp_ops (svc_RemoveStatusChangeReceiver rp_ops h c) = svc_Status rp_ops c"
    using watcher_service.remove_status publisher_service.remove_status
    by (cases c) (simp_all add: rp_ops_def)
qed

section \<open>Routes are in range\<close>

definition rp_inv :: "'b routingPublisher \<Rightarrow> bool" where
  "rp_inv rp \<longleftrightarrow>
     rp_publishers rp = map (\<lambda>i. i + 2) [0..<length (rp_publishers rp)]
   \<and> (case rp_msgRouter rp of
        None \<Rightarrow> rp_publishers rp = []
      | Some r \<Rightarrow> composite_inv r \<and> composite_count r = int (length (rp_publishers rp)))"

lemma add_publishers_fields [simp]:
  "rp_publishers (add_publishers i k rp) = rp_publishers rp @ map (\<lambda>i. i + 2) [i..<i + k]"
  "rp_msgRouter (add_publishers i k rp) = rp_msgRouter rp"
  by (induction i k rp rule: add_publishers.induct) (simp_all add: upt_conv_Cons del: upt_Suc)

lemma rp_inv_count:
  assumes "rp_inv rp" "0 \<le> rnd" "rnd < n"
  shows "rp_inv (onPartitionCountChanged rnd n rp)"
proof (cases "rp_status rp \<ge> serviceTerminating \<or> n \<le> int (length (rp_publishers rp))")
  case True
  then have "onPartitionCountChanged rnd n rp = rp" by (auto simp: onPartitionCountChanged_def)
  with assms(1) show ?thesis by simp
next
  case False
  let ?k = "length (rp_publishers rp)"
  have len: "?k + (nat n - ?k) = nat n" using False by auto
  have "rp_publishers rp = map (\<lambda>i. i + 2) [0..<?k]" using assms(1) by (simp add: rp_inv_def)
  then have "rp_publishers rp @ map (\<lambda>i. i + 2) [?k..<nat n] = map (\<lambda>i. i + 2) [0..<nat n]"
    using False by (metis map_append upt_add_eq_append le_add1 len plus_nat.add_0)
  moreover have "onPartitionCountChanged rnd n rp =
      (add_publishers ?k (nat n - ?k) rp)\<lparr>rp_msgRouter := Some (messageRouterFactory_New rnd n)\<rparr>"
    using False by (auto simp: onPartitionCountChanged_def)
  ultimately show ?thesis
    using factory_inv [OF assms(2,3)] assms(2,3) len by (simp add: rp_inv_def)
qed

lemma rp_inv_route:
  assumes "rp_inv rp"
  shows "rp_inv (fst (routeToPublisher sha256 msg rp))"
proof (cases "rp_msgRouter rp")
  case (Some r)
  then have r: "composite_inv r" "composite_count r = int (length (rp_publishers rp))"
    using assms by (simp_all add: rp_inv_def)
  show ?thesis
    using assms Some composite.route_inv [OF r(1), of sha256 "pm_key msg"]
      composite.route_count [of sha256 "pm_key msg" r] r(2)
    by (auto simp: routeToPublisher_def rp_inv_def Let_def split: option.split prod.split)
qed (use assms in \<open>auto simp: routeToPublisher_def rp_inv_def split: option.split\<close>)

lemma rp_inv_nth:
  assumes "rp_inv rp" "i < length (rp_publishers rp)"
  shows "rp_publishers rp ! i = i + 2"
proof -
  have "rp_publishers rp = map (\<lambda>i. i + 2) [0..<length (rp_publishers rp)]"
    using assms(1) by (simp add: rp_inv_def)
  then have "rp_publishers rp ! i = map (\<lambda>i. i + 2) [0..<length (rp_publishers rp)] ! i" by simp
  with assms(2) show ?thesis by simp
qed

lemma route_in_range:
  assumes "rp_inv rp" "rp_msgRouter rp = Some r" "unsafeCheckServiceStatus (cs_abstract (rp_composite rp)) = None"
  shows "\<exists>i < length (rp_publishers rp). snd (routeToPublisher sha256 msg rp) = Inr (i + 2)"
proof -
  have r: "composite_inv r" "composite_count r = int (length (rp_publishers rp))"
    using assms(1,2) by (simp_all add: rp_inv_def)
  obtain r' p where p: "compositeMsgRouter_Route sha256 (pm_key msg) r = (r', p)" by fastforce
  have range: "0 \<le> p" "p < int (length (rp_publishers rp))"
    using composite.route_range [OF r(1), of sha256 "pm_key msg"] r(2) p by auto
  then have i: "nat p < length (rp_publishers rp)" by linarith
  have "rp_publishers rp ! nat p = nat p + 2"
    using assms(1) i by (rule rp_inv_nth)
  then show ?thesis using i range assms(2,3) p by (auto simp: routeToPublisher_def Let_def)
qed

text \<open>The routing publisher and the goroutine of its watcher.  A poll (the first one is started by \<^verbatim>\<open>Start\<close>, the others by the periodic task,
  one after the other) fetches the count, passes a changed count to the receiver \<^verbatim>\<open>onPartitionCountChanged\<close>, and after the first poll completes the startup
  of the watcher; other goroutines may run in between.\<close>

datatype watcherPoll = NoPoll | Fetched (fetched_prev: int) (fetched_count: int) | Received int

record 'b routingSystem =
  sys_rp :: "'b routingPublisher"
  sys_poll :: watcherPoll

text \<open>What happens: the client starts and stops the publisher and publishes; \<open>RpFetch\<close>, \<open>RpReceive\<close> and \<open>RpStarted\<close> are the parts of a poll
  (\<open>rnd\<close>, below the count, is the random number that the router factory draws); \<open>RpStatusChange\<close>: some child reports some status; \<open>RpPublisherMoves\<close>: the
  publisher of a partition has moved to some state.\<close>

datatype 'b routingEvent =
    RpStart
  | RpStop
  | RpFetch requestTimer "wire_error + int"
  | RpReceive int
  | RpStarted
  | RpStatusChange handle serviceStatus "wire_error option"
  | RpPublisherMoves nat "'b singlePartitionPublisher"
  | RpRoute PubSubMessage

definition rp_watcher :: "'b routingPublisher \<Rightarrow> partitionCountWatcher option" where
  "rp_watcher rp = (case map_of (dependencies (rp_composite rp)) 1 of Some (RpWatcher w) \<Rightarrow> Some w | _ \<Rightarrow> None)"

definition set_child :: "handle \<Rightarrow> 'b rpChild \<Rightarrow> 'b routingPublisher \<Rightarrow> 'b routingPublisher" where
  "set_child h c rp = rp\<lparr>rp_composite := update_child h (\<lambda>_. c) (rp_composite rp)\<rparr>"

fun routing_step :: "(bytes \<Rightarrow> bytes) \<Rightarrow> 'b routingEvent \<Rightarrow> 'b routingSystem \<Rightarrow> 'b routingSystem" where
  "routing_step sha256 RpStart sys =
     sys\<lparr>sys_rp := (sys_rp sys)\<lparr>rp_composite := compositeService_Start rp_ops (rp_composite (sys_rp sys))\<rparr>\<rparr>"
| "routing_step sha256 RpStop sys =
     sys\<lparr>sys_rp := (sys_rp sys)\<lparr>rp_composite := compositeService_Stop rp_ops (rp_composite (sys_rp sys))\<rparr>\<rparr>"
| "routing_step sha256 (RpFetch rt resp) sys =
     (case rp_watcher (sys_rp sys) of
        None \<Rightarrow> sys
      | Some w \<Rightarrow>
          if sys_poll sys = NoPoll \<and> pw_status w > serviceUninitialized
          then case fetchPartitionCount rt resp w of
                 (w1, r) \<Rightarrow> \<lparr>sys_rp = set_child 1 (RpWatcher w1) (sys_rp sys),
                             sys_poll = (case r of Inl err \<Rightarrow> NoPoll
                                         | Inr n \<Rightarrow> if pw_partitionCount w \<noteq> n then Fetched (pw_partitionCount w) n else NoPoll)\<rparr>
          else sys)"
| "routing_step sha256 (RpReceive rnd) sys =
     (case sys_poll sys of
        Fetched prev n \<Rightarrow>
          if 0 \<le> rnd \<and> rnd < n
          then \<lparr>sys_rp = onPartitionCountChanged rnd n (sys_rp sys), sys_poll = Received prev\<rparr> else sys
      | _ \<Rightarrow> sys)"
| "routing_step sha256 RpStarted sys =
     (case (sys_poll sys, rp_watcher (sys_rp sys)) of
        (Received prev, Some w) \<Rightarrow>
          \<lparr>sys_rp = (if prev = 0 then set_child 1 (RpWatcher (onStartupComplete w)) (sys_rp sys) else sys_rp sys),
           sys_poll = NoPoll\<rparr>
      | _ \<Rightarrow> sys)"
| "routing_step sha256 (RpStatusChange h s e) sys =
     sys\<lparr>sys_rp := (sys_rp sys)\<lparr>rp_composite := onServiceStatusChange rp_ops h s e (rp_composite (sys_rp sys))\<rparr>\<rparr>"
| "routing_step sha256 (RpPublisherMoves i p) sys = sys\<lparr>sys_rp := set_child (i + 2) (RpPublisher p) (sys_rp sys)\<rparr>"
| "routing_step sha256 (RpRoute msg) sys = sys\<lparr>sys_rp := fst (routeToPublisher sha256 msg (sys_rp sys))\<rparr>"

text \<open>Until the first count is received, the watcher, the only child, is not active, so neither is the routing publisher.\<close>

definition not_started :: "'b routingPublisher \<Rightarrow> bool" where
  "not_started rp \<longleftrightarrow>
     rp_status rp < serviceActive \<and> removed (rp_composite rp) = []
   \<and> (\<exists>w. dependencies (rp_composite rp) = [(1, RpWatcher w)]
          \<and> pw_status w \<in> {serviceUninitialized, serviceStarting, serviceTerminated})"

definition routing_inv :: "'b routingSystem \<Rightarrow> bool" where
  "routing_inv sys \<longleftrightarrow>
     rp_inv (sys_rp sys)
   \<and> (rp_msgRouter (sys_rp sys) = None \<longrightarrow>
        serviceTerminating \<le> rp_status (sys_rp sys) \<or> not_started (sys_rp sys) \<and> \<not> (\<exists>prev. sys_poll sys = Received prev))
   \<and> (\<forall>prev n. sys_poll sys = Fetched prev n \<longrightarrow> 0 < n)"

lemma rp_inv_composite [simp]: "rp_inv (rp\<lparr>rp_composite := c\<rparr>) = rp_inv rp" "rp_inv (set_child h x rp) = rp_inv rp"
  by (simp_all add: rp_inv_def set_child_def split: option.split)

lemma rp_composite_fields [simp]:
  "rp_msgRouter (set_child h x rp) = rp_msgRouter rp" "rp_status (set_child h x rp) = rp_status rp"
  "rp_publishers (set_child h x rp) = rp_publishers rp"
  by (simp_all add: set_child_def update_child_def)

lemma status_change_mono: "cs_status cs \<le> cs_status (onServiceStatusChange ops h s e cs)"
  by (rule onServiceStatusChange_cases [of cs ops h s e]) (auto simp: le_max_iff_disj)

lemma below_active: "(s::serviceStatus) < serviceActive \<longleftrightarrow> s = serviceUninitialized \<or> s = serviceStarting"
  by (cases s) (simp_all add: status_order)

lemma not_started_status_change:
  assumes "not_started rp"
  shows "serviceTerminating \<le> cs_status (onServiceStatusChange rp_ops h s e (rp_composite rp))
       \<or> not_started (rp\<lparr>rp_composite := onServiceStatusChange rp_ops h s e (rp_composite rp)\<rparr>)"
proof -
  obtain w where w: "dependencies (rp_composite rp) = [(1, RpWatcher w)]" "removed (rp_composite rp) = []"
    "pw_status w \<in> {serviceUninitialized, serviceStarting, serviceTerminated}" "rp_status rp < serviceActive"
    using assms by (auto simp: not_started_def)
  have f: "forget_removed rp_ops h s (rp_composite rp) = rp_composite rp" using w(2) by (simp add: forget_removed_def)
  have st: "svc_Status rp_ops (RpWatcher w) = pw_status w" by (simp add: rp_ops_def watcher_ops_def)
  show ?thesis
    using w unfolding onServiceStatusChange_def f
    by (auto simp: Let_def not_started_def st map_values_def le_max_iff_disj)
qed

lemma not_started_start:
  assumes "not_started rp"
  shows "not_started (rp\<lparr>rp_composite := compositeService_Start rp_ops (rp_composite rp)\<rparr>)"
  using assms
  by (auto simp: not_started_def compositeService_Start_def case_prod_beta map_values_def rp_ops_def watcher_ops_def watcher_Start_def
      max_def below_active)

lemma fetch_status:
  "pw_status (fst (fetchPartitionCount rt resp w)) \<in> {pw_status w, serviceTerminated}"
  by (auto simp: fetchPartitionCount_def Let_def split: sum.split)

lemma fetch_positive:
  assumes "fetchPartitionCount rt resp w = (w1, Inr n)" "n \<noteq> pw_partitionCount w"
  shows "0 < n"
  using assms by (auto simp: fetchPartitionCount_def Let_def split: sum.splits if_splits)

lemma routing_inv_fetch:
  assumes "routing_inv sys"
  shows "routing_inv (routing_step sha256 (RpFetch rt resp) sys)"
proof (cases "rp_watcher (sys_rp sys)")
  case (Some w)
  obtain w1 r where f: "fetchPartitionCount rt resp w = (w1, r)" by fastforce
  have "not_started (set_child 1 (RpWatcher w1) (sys_rp sys))" if "not_started (sys_rp sys)"
    using that Some fetch_status [of rt resp w] f
    by (auto simp: not_started_def set_child_def update_child_def rp_watcher_def)
  moreover have "0 < n" if "r = Inr n" "pw_partitionCount w \<noteq> n" for n
    using that f fetch_positive [of rt resp w w1 n] by simp
  ultimately show ?thesis
    using assms Some by (auto simp: routing_inv_def f split: sum.split)
qed (use assms in simp)

lemma routing_inv_receive:
  assumes "routing_inv sys"
  shows "routing_inv (routing_step sha256 (RpReceive rnd) sys)"
proof (cases "\<exists>prev n. sys_poll sys = Fetched prev n \<and> 0 \<le> rnd \<and> rnd < n")
  case True
  then obtain prev n where p: "sys_poll sys = Fetched prev n" "0 \<le> rnd" "rnd < n" by blast
  have inv: "rp_inv (onPartitionCountChanged rnd n (sys_rp sys))"
    using assms p by (auto simp: routing_inv_def intro: rp_inv_count)
  have "serviceTerminating \<le> rp_status (sys_rp sys)" if "rp_msgRouter (onPartitionCountChanged rnd n (sys_rp sys)) = None"
    using that assms p by (auto simp: onPartitionCountChanged_def routing_inv_def rp_inv_def split: if_splits option.splits)
  moreover have "onPartitionCountChanged rnd n (sys_rp sys) = sys_rp sys" if "serviceTerminating \<le> rp_status (sys_rp sys)"
    using that by (simp add: onPartitionCountChanged_def)
  ultimately show ?thesis using inv p by (auto simp: routing_inv_def)
qed (use assms in \<open>auto split: watcherPoll.split\<close>)

lemma routing_inv_route:
  assumes "routing_inv sys"
  shows "routing_inv (routing_step sha256 (RpRoute msg) sys)"
proof (cases "rp_msgRouter (sys_rp sys)")
  case None
  then have "fst (routeToPublisher sha256 msg (sys_rp sys)) = sys_rp sys"
    using assms by (auto simp: routing_inv_def not_started_def routeToPublisher_def unsafeCheckServiceStatus_def below_active
        split: option.splits)
  then show ?thesis using assms by simp
next
  case (Some r)
  have "rp_msgRouter (fst (routeToPublisher sha256 msg (sys_rp sys))) \<noteq> None"
    using Some by (auto simp: routeToPublisher_def Let_def split: option.split prod.split)
  then show ?thesis using assms rp_inv_route [of "sys_rp sys" sha256 msg] by (auto simp: routing_inv_def)
qed

lemma routing_inv_step:
  assumes "routing_inv sys"
  shows "routing_inv (routing_step sha256 e sys)"
proof (cases e)
  case RpStart
  then show ?thesis using assms not_started_start [of "sys_rp sys"] by (auto simp: routing_inv_def le_max_iff_disj)
next
  case RpStop
  then show ?thesis using assms by (auto simp: routing_inv_def compositeService_Stop_def le_max_iff_disj)
next
  case RpStarted
  then show ?thesis using assms by (auto simp: routing_inv_def split: watcherPoll.split option.split)
next
  case (RpStatusChange h s err)
  then show ?thesis
    using assms not_started_status_change [of "sys_rp sys" h s err] order_trans [OF _ status_change_mono [of "rp_composite (sys_rp sys)" rp_ops h s err]]
    by (auto simp: routing_inv_def)
next
  case (RpPublisherMoves i p)
  have "not_started (set_child (i + 2) (RpPublisher p) (sys_rp sys))" if "not_started (sys_rp sys)"
    using that by (auto simp: not_started_def set_child_def update_child_def)
  then show ?thesis using assms RpPublisherMoves by (auto simp: routing_inv_def)
qed (use assms in \<open>simp_all only: routing_inv_fetch routing_inv_receive routing_inv_route\<close>)

definition newRoutingSystem :: "'b singlePartitionPublisherFactory \<Rightarrow> 'b routingSystem" where
  "newRoutingSystem f = \<lparr>sys_rp = newRoutingPublisher f, sys_poll = NoPoll\<rparr>"

lemma routing_inv_new: "routing_inv (newRoutingSystem f)"
  by (simp add: routing_inv_def newRoutingSystem_def newRoutingPublisher_def rp_inv_def not_started_def unsafeAddServices_def
      compositeService_init_def new_abstractService_def rp_ops_def watcher_ops_def newPartitionCountWatcher_def AddStatusChangeReceiver_def
      Let_def status_order)

lemma routing_inv_run: "routing_inv sys \<Longrightarrow> routing_inv (fold (routing_step sha256) es sys)"
  by (induction es arbitrary: sys) (simp_all add: routing_inv_step del: routing_step.simps)

text \<open>C25: An active routing publisher routes every message to one of its publishers: over any interleaving of the client's calls, the polls of the watcher,
  status changes and moves of the children, neither of the two error branches marked \<^emph>\<open>should not occur\<close> in the source is taken.  In particular it
  is not active before a partition count has been received, and the number of partitions that the router knows is the number of publishers.\<close>

theorem routing_publisher_in_range:
  assumes "rp = sys_rp (fold (routing_step sha256) es (newRoutingSystem f))"
    and "unsafeCheckServiceStatus (cs_abstract (rp_composite rp)) = None"
  shows "\<exists>i < length (rp_publishers rp). snd (routeToPublisher sha256 msg rp) = Inr (i + 2)
       \<and> rp_publishers rp ! i = i + 2"
proof -
  have inv: "routing_inv (fold (routing_step sha256) es (newRoutingSystem f))"
    by (rule routing_inv_run [OF routing_inv_new])
  then have rp: "rp_inv rp" by (simp add: routing_inv_def assms(1))
  obtain r where "rp_msgRouter rp = Some r"
    using inv assms by (cases "rp_msgRouter rp") (auto simp: routing_inv_def unsafeCheckServiceStatus_def not_started_def below_active split: if_splits)
  from route_in_range [OF rp this assms(2), of sha256 msg]
  obtain i where "i < length (rp_publishers rp)" "snd (routeToPublisher sha256 msg rp) = Inr (i + 2)" by blast
  moreover have "rp_publishers rp ! i = i + 2" using rp calculation(1) by (rule rp_inv_nth)
  ultimately show ?thesis by blast
qed


text \<open>A routing publisher over two partitions whose children have all become active.\<close>

definition example_factory :: "messageHolder list singlePartitionPublisherFactory" where
  "example_factory = \<lparr>pf_settings = DefaultPublishSettings, pf_topicPath = ''t'', pf_newBundler = []\<rparr>"

definition example_routing :: "messageHolder list routingEvent list" where
  "example_routing =
     [RpStart, RpFetch (newRequestTimer errStreamInitTimeout) (Inr 2), RpReceive 0, RpStarted,
      RpPublisherMoves 0 (fst (pp_updateStatus serviceActive None (publisherFactory_New example_factory 0))),
      RpPublisherMoves 1 (fst (pp_updateStatus serviceActive None (publisherFactory_New example_factory 1))),
      RpStatusChange 3 serviceActive None]"

lemmas routing_example_simps = example_routing_def newRoutingSystem_def newRoutingPublisher_def unsafeAddServices_def compositeService_init_def
  new_abstractService_def rp_ops_def watcher_ops_def publisher_ops_def newPartitionCountWatcher_def
  publisherFactory_New_def newSinglePartitionPublisher_def AddStatusChangeReceiver_def compositeService_Start_def
  unsafeUpdateStatus_def Let_def status_order map_values_def onPartitionCountChanged_def
  onServiceStatusChange_def forget_removed_def compositeService_unsafeUpdateStatus_def unsafeCheckServiceStatus_def
  rp_watcher_def watcher_Start_def pw_updateStatus_def fetchPartitionCount_def set_child_def update_child_def onStartupComplete_def

lemma example_routing_active:
  "let rp = sys_rp (fold (routing_step (\<lambda>k. k)) example_routing (newRoutingSystem example_factory))
   in unsafeCheckServiceStatus (cs_abstract (rp_composite rp)) = None \<and> length (rp_publishers rp) = 2"
  by (simp add: routing_example_simps numeral_2_eq_2)

theorem routing_publisher_in_range_witness:
  "\<exists>i < 2. snd (routeToPublisher (\<lambda>k. k) example_msg
      (sys_rp (fold (routing_step (\<lambda>k. k)) example_routing (newRoutingSystem example_factory)))) = Inr (i + 2)"
  using routing_publisher_in_range [OF refl, of "\<lambda>k. k" example_routing example_factory example_msg] example_routing_active
  by (auto simp: Let_def)

end
