(* ===== verification/Wire_Acks.thy ===== *)
theory Wire_Acks
  imports Wire_Errors
begin

text \<open>
  Message acknowledgements of the Pub/Sub Lite subscriber
  (\<^verbatim>\<open>pubsublite/internal/wire/acks.go\<close>).  An \<open>ackConsumer\<close> is shared between the user,
  who calls \<^verbatim>\<open>Ack\<close>, and the \<open>ackTracker\<close>, which reads the flag later; so the
  consumers live in a store indexed by address and the tracker holds addresses.  The
  methods run under their mutex and are modelled as atomic functions on
  (store, tracker).  The abstract machine at the end keeps the whole delivery log; the
  tracker, which forgets acknowledged messages, is proved to simulate it.
\<close>

section \<open>Ack consumers\<close>

type_synonym addr = nat

record 'f ackConsumer =
  ac_Offset :: int
  ac_MsgBytes :: int
  ac_acked :: bool
  ac_onAck :: "'f option"

type_synonym 'f ackHeap = "addr \<Rightarrow> 'f ackConsumer"

definition newAckConsumer :: "int \<Rightarrow> int \<Rightarrow> 'f option \<Rightarrow> 'f ackConsumer" where
  "newAckConsumer offset msgBytes onAck =
     \<lparr>ac_Offset = offset, ac_MsgBytes = msgBytes, ac_acked = False, ac_onAck = onAck\<rparr>"

text \<open>\<^verbatim>\<open>Ack\<close> returns, beside the new store, the callback it invokes on the consumer
  (none when the consumer was acked before or its callback was cleared).\<close>

definition ackConsumer_Ack :: "addr \<Rightarrow> 'f ackHeap \<Rightarrow> 'f ackHeap \<times> 'f option" where
  "ackConsumer_Ack a h =
     (if ac_acked (h a) then (h, None)
      else (h(a := (h a)\<lparr>ac_acked := True\<rparr>), ac_onAck (h a)))"

definition IsAcked :: "addr \<Rightarrow> 'f ackHeap \<Rightarrow> bool" where
  "IsAcked a h = ac_acked (h a)"

definition ackConsumer_Clear :: "addr \<Rightarrow> 'f ackHeap \<Rightarrow> 'f ackHeap" where
  "ackConsumer_Clear a h = h(a := (h a)\<lparr>ac_onAck := None\<rparr>)"

section \<open>The ack tracker\<close>

definition nilCursorOffset :: int where
  "nilCursorOffset = -1"

record ackTracker =
  ackedPrefixOffset :: int
  outstandingAcks :: "addr list"
  enablePush :: bool

type_synonym 'f ackState = "'f ackHeap \<times> ackTracker"

definition newAckTracker :: ackTracker where
  "newAckTracker =
     \<lparr>ackedPrefixOffset = nilCursorOffset, outstandingAcks = [], enablePush = True\<rparr>"

definition ackTracker_Push :: "addr \<Rightarrow> 'f ackState \<Rightarrow> 'f ackState \<times> wire_error option" where
  "ackTracker_Push ack s =
     (case s of (h, at) \<Rightarrow>
        if \<not> enablePush at then ((ackConsumer_Clear ack h, at), None)
        else if ac_Offset (h ack) \<le> ackedPrefixOffset at then ((h, at), Some errOutOfOrderMessages)
        else if outstandingAcks at \<noteq> []
                \<and> ac_Offset (h ack) \<le> ac_Offset (h (last (outstandingAcks at)))
             then ((h, at), Some errOutOfOrderMessages)
        else ((h, at\<lparr>outstandingAcks := outstandingAcks at @ [ack]\<rparr>), None))"

text \<open>The loop of \<^verbatim>\<open>unsafeProcessAcks\<close> pops acknowledged consumers off the front of the
  list, so it recurses on the list.\<close>

fun processAcks_loop :: "'f ackHeap \<Rightarrow> int \<Rightarrow> addr list \<Rightarrow> 'f ackHeap \<times> int \<times> addr list" where
  "processAcks_loop h prefix [] = (h, prefix, [])"
| "processAcks_loop h prefix (ack # rest) =
     (if \<not> IsAcked ack h then (h, prefix, ack # rest)
      else processAcks_loop (ackConsumer_Clear ack h) (ac_Offset (h ack)) rest)"

definition unsafeProcessAcks :: "'f ackState \<Rightarrow> 'f ackState" where
  "unsafeProcessAcks s =
     (case s of (h, at) \<Rightarrow>
        case processAcks_loop h (ackedPrefixOffset at) (outstandingAcks at) of
          (h', prefix, rest) \<Rightarrow>
            (h', at\<lparr>ackedPrefixOffset := prefix, outstandingAcks := rest\<rparr>))"

definition unsafeClearAcks :: "'f ackState \<Rightarrow> 'f ackState" where
  "unsafeClearAcks s =
     (case s of (h, at) \<Rightarrow>
        (fold ackConsumer_Clear (outstandingAcks at) h, at\<lparr>outstandingAcks := []\<rparr>))"

definition ackTracker_CommitOffset :: "'f ackState \<Rightarrow> 'f ackState \<times> int" where
  "ackTracker_CommitOffset s =
     (let s' = unsafeProcessAcks s
      in if ackedPrefixOffset (snd s') = nilCursorOffset then (s', nilCursorOffset)
         else (s', wrap64 (ackedPrefixOffset (snd s') + 1)))"

definition ackTracker_Release :: "'f ackState \<Rightarrow> 'f ackState" where
  "ackTracker_Release s =
     (case s of (h, at) \<Rightarrow>
        unsafeClearAcks (unsafeProcessAcks (h, at\<lparr>enablePush := False\<rparr>)))"

definition ackTracker_Reset :: "'f ackState \<Rightarrow> 'f ackState" where
  "ackTracker_Reset s =
     (case unsafeClearAcks s of (h, at) \<Rightarrow>
        (h, at\<lparr>ackedPrefixOffset := nilCursorOffset, enablePush := True\<rparr>))"

definition ackTracker_Empty :: "'f ackState \<Rightarrow> bool" where
  "ackTracker_Empty s = (outstandingAcks (snd s) = [])"

section \<open>The abstract delivery log\<close>

text \<open>The specification forgets nothing: it keeps the addresses of all messages delivered
  since the last reset, in order, and whether deliveries are still accepted.  The commit
  offset is the offset after the longest acknowledged prefix.\<close>

record ackLog =
  al_log :: "addr list"
  al_open :: bool

definition acked_prefix :: "'f ackHeap \<Rightarrow> addr list \<Rightarrow> addr list" where
  "acked_prefix h log = takeWhile (\<lambda>a. ac_acked (h a)) log"

definition last_offset :: "'f ackHeap \<Rightarrow> addr list \<Rightarrow> int" where
  "last_offset h xs = (if xs = [] then nilCursorOffset else ac_Offset (h (last xs)))"

definition log_CommitOffset :: "'f ackHeap \<Rightarrow> ackLog \<Rightarrow> int" where
  "log_CommitOffset h l =
     (let xs = acked_prefix h (al_log l)
      in if xs = [] then nilCursorOffset else wrap64 (ac_Offset (h (last xs)) + 1))"

definition log_Push :: "addr \<Rightarrow> 'f ackHeap \<Rightarrow> ackLog \<Rightarrow> ackLog \<times> wire_error option" where
  "log_Push a h l =
     (if \<not> al_open l then (l, None)
      else if ac_Offset (h a) \<le> last_offset h (al_log l) then (l, Some errOutOfOrderMessages)
      else (l\<lparr>al_log := al_log l @ [a]\<rparr>, None))"

definition log_Release :: "'f ackHeap \<Rightarrow> ackLog \<Rightarrow> ackLog" where
  "log_Release h l = \<lparr>al_log = acked_prefix h (al_log l), al_open = False\<rparr>"

definition log_Reset :: ackLog where
  "log_Reset = \<lparr>al_log = [], al_open = True\<rparr>"

text \<open>The simulation relation: the tracker has dropped an acknowledged prefix \<open>done\<close> of
  the log and remembers only its last offset.\<close>

definition ack_refines :: "'f ackState \<Rightarrow> ackLog \<Rightarrow> bool" where
  "ack_refines s l \<longleftrightarrow>
     (case s of (h, at) \<Rightarrow>
        al_open l = enablePush at
      \<and> strict_sorted_by (\<lambda>a. ac_Offset (h a)) (al_log l)
      \<and> (\<forall>a\<in>set (al_log l). nilCursorOffset < ac_Offset (h a))
      \<and> (\<exists>done. al_log l = done @ outstandingAcks at
              \<and> (\<forall>a\<in>set done. ac_acked (h a))
              \<and> ackedPrefixOffset at = last_offset h done))"


text \<open>Runs: the calls the delivery goroutine, the user and the committer interleave, each
  atomic under its mutex, with what each call returns.\<close>

datatype ackEvent = EvPush addr | EvAck addr | EvCommitOffset | EvRelease | EvReset

datatype ackOut = OutError "wire_error option" | OutOffset int | OutUnit

fun ack_step :: "ackEvent \<Rightarrow> 'f ackState \<Rightarrow> 'f ackState \<times> ackOut" where
  "ack_step (EvPush a) s = (case ackTracker_Push a s of (s', e) \<Rightarrow> (s', OutError e))"
| "ack_step (EvAck a) s = ((fst (ackConsumer_Ack a (fst s)), snd s), OutUnit)"
| "ack_step EvCommitOffset s = (case ackTracker_CommitOffset s of (s', r) \<Rightarrow> (s', OutOffset r))"
| "ack_step EvRelease s = (ackTracker_Release s, OutUnit)"
| "ack_step EvReset s = (ackTracker_Reset s, OutUnit)"

fun ack_run :: "ackEvent list \<Rightarrow> 'f ackState \<Rightarrow> 'f ackState \<times> ackOut list" where
  "ack_run [] s = (s, [])"
| "ack_run (e # es) s =
     (case ack_step e s of (s', out) \<Rightarrow>
        case ack_run es s' of (s'', outs) \<Rightarrow> (s'', out # outs))"

fun log_step :: "ackEvent \<Rightarrow> 'f ackHeap \<times> ackLog \<Rightarrow> ('f ackHeap \<times> ackLog) \<times> ackOut" where
  "log_step (EvPush a) (h, l) = (case log_Push a h l of (l', e) \<Rightarrow> ((h, l'), OutError e))"
| "log_step (EvAck a) (h, l) = ((h(a := (h a)\<lparr>ac_acked := True\<rparr>), l), OutUnit)"
| "log_step EvCommitOffset (h, l) = ((h, l), OutOffset (log_CommitOffset h l))"
| "log_step EvRelease (h, l) = ((h, log_Release h l), OutUnit)"
| "log_step EvReset (h, l) = ((h, log_Reset), OutUnit)"

fun log_run :: "ackEvent list \<Rightarrow> 'f ackHeap \<times> ackLog \<Rightarrow> ('f ackHeap \<times> ackLog) \<times> ackOut list" where
  "log_run [] s = (s, [])"
| "log_run (e # es) s =
     (case log_step e s of (s', out) \<Rightarrow>
        case log_run es s' of (s'', outs) \<Rightarrow> (s'', out # outs))"

section \<open>The tracker simulates the log\<close>

text \<open>Two stores agree when they differ in callbacks only: what \<^verbatim>\<open>Clear\<close> changes.\<close>

definition same_acks :: "'f ackHeap \<Rightarrow> 'f ackHeap \<Rightarrow> bool" where
  "same_acks h h' \<longleftrightarrow> (\<forall>a. ac_acked (h' a) = ac_acked (h a) \<and> ac_Offset (h' a) = ac_Offset (h a)
                          \<and> ac_MsgBytes (h' a) = ac_MsgBytes (h a))"

lemma same_acks_refl [simp]: "same_acks h h"
  by (simp add: same_acks_def)

lemma same_acks_trans: "same_acks h1 h2 \<Longrightarrow> same_acks h2 h3 \<Longrightarrow> same_acks h1 h3"
  by (simp add: same_acks_def)

lemma same_acks_Clear [simp]: "same_acks h (ackConsumer_Clear a h)"
  by (simp add: same_acks_def ackConsumer_Clear_def)

lemma same_acks_fold_Clear [simp]: "same_acks h (fold ackConsumer_Clear as h)"
  by (induction as arbitrary: h) (auto intro: same_acks_trans [OF same_acks_Clear])

lemma same_acksD:
  assumes "same_acks h h'"
  shows "ac_acked (h' a) = ac_acked (h a)" "ac_Offset (h' a) = ac_Offset (h a)"
    "acked_prefix h' xs = acked_prefix h xs" "last_offset h' xs = last_offset h xs"
    "log_CommitOffset h' l = log_CommitOffset h l" "log_Push a h' l = log_Push a h l"
    "log_Release h' l = log_Release h l"
proof -
  show *: "ac_acked (h' a) = ac_acked (h a)" "ac_Offset (h' a) = ac_Offset (h a)" for a
    using assms by (auto simp: same_acks_def)
  show prefix: "acked_prefix h' xs = acked_prefix h xs" for xs
    by (simp add: acked_prefix_def *)
  show lst: "last_offset h' xs = last_offset h xs" for xs
    by (simp add: last_offset_def *)
  show "log_CommitOffset h' l = log_CommitOffset h l" "log_Push a h' l = log_Push a h l"
    "log_Release h' l = log_Release h l"
    by (simp_all add: log_CommitOffset_def log_Push_def log_Release_def Let_def * prefix lst)
qed

lemma ack_refines_same_acks: "same_acks h h' \<Longrightarrow> ack_refines (h, at) l \<Longrightarrow> ack_refines (h', at) l"
  by (simp add: ack_refines_def same_acksD [of h h'])

lemma processAcks_loop_same_acks:
  "processAcks_loop h p xs = (h', p', rest) \<Longrightarrow> same_acks h h'"
  by (induction h p xs arbitrary: h' p' rest rule: processAcks_loop.induct)
    (auto split: if_splits intro: same_acks_trans [OF same_acks_Clear])

lemma processAcks_loop_spec:
  "processAcks_loop h p xs = (h', p', rest) \<Longrightarrow>
     xs = acked_prefix h xs @ rest
   \<and> p' = (if acked_prefix h xs = [] then p else last_offset h (acked_prefix h xs))
   \<and> (rest = [] \<or> \<not> ac_acked (h (hd rest)))"
proof (induction h p xs arbitrary: h' p' rest rule: processAcks_loop.induct)
  case (1 h prefix)
  then show ?case by (simp add: acked_prefix_def)
next
  case (2 h prefix a xs)
  show ?case
  proof (cases "IsAcked a h")
    case False
    with "2.prems" show ?thesis by (auto simp: acked_prefix_def IsAcked_def)
  next
    case True
    then have "processAcks_loop (ackConsumer_Clear a h) (ac_Offset (h a)) xs = (h', p', rest)"
      using "2.prems" by simp
    with "2.IH" True have "xs = acked_prefix h xs @ rest
        \<and> p' = (if acked_prefix h xs = [] then ac_Offset (h a) else last_offset h (acked_prefix h xs))
        \<and> (rest = [] \<or> \<not> ac_acked (h (hd rest)))"
      by (auto simp: same_acksD [OF same_acks_Clear])
    with True show ?thesis by (auto simp: acked_prefix_def IsAcked_def last_offset_def)
  qed
qed

text \<open>After processing, what remains outstanding is exactly the log without its
  acknowledged prefix.\<close>

lemma unsafeProcessAcks_spec:
  assumes "ack_refines (h, at) l" and "unsafeProcessAcks (h, at) = (h', at')"
  shows "same_acks h h'" and "ack_refines (h', at') l"
    and "al_log l = acked_prefix h (al_log l) @ outstandingAcks at'"
    and "ackedPrefixOffset at' = last_offset h (acked_prefix h (al_log l))"
    and "enablePush at' = enablePush at"
proof -
  obtain p' rest where loop:
    "processAcks_loop h (ackedPrefixOffset at) (outstandingAcks at) = (h', p', rest)"
    and at': "at' = at\<lparr>ackedPrefixOffset := p', outstandingAcks := rest\<rparr>"
    using assms(2) by (auto simp: unsafeProcessAcks_def split: prod.splits)
  from assms(1) obtain dn where l: "al_log l = dn @ outstandingAcks at"
    and dn: "\<forall>a\<in>set dn. ac_acked (h a)" and pre: "ackedPrefixOffset at = last_offset h dn"
    by (auto simp: ack_refines_def)
  let ?new = "acked_prefix h (outstandingAcks at)"
  from processAcks_loop_spec [OF loop]
  have out: "outstandingAcks at = ?new @ rest"
    and p': "p' = (if ?new = [] then ackedPrefixOffset at else last_offset h ?new)"
    and rest: "rest = [] \<or> \<not> ac_acked (h (hd rest))" by auto
  have log_prefix: "acked_prefix h (al_log l) = dn @ ?new"
    using dn unfolding l by (simp add: acked_prefix_def)
  show same: "same_acks h h'" by (rule processAcks_loop_same_acks [OF loop])
  show split: "al_log l = acked_prefix h (al_log l) @ outstandingAcks at'"
    using out unfolding log_prefix at' by (simp add: l)
  show pre': "ackedPrefixOffset at' = last_offset h (acked_prefix h (al_log l))"
    using p' pre unfolding log_prefix at' by (simp add: last_offset_def)
  show en: "enablePush at' = enablePush at" by (simp add: at')
  have "\<forall>a\<in>set (acked_prefix h (al_log l)). ac_acked (h a)"
    by (auto simp: acked_prefix_def dest: set_takeWhileD)
  then show "ack_refines (h', at') l"
    using assms(1) split pre' en by (auto simp: ack_refines_def same_acksD [OF same])
qed


subsection \<open>Each operation\<close>

lemma ack_refines_new: "ack_refines (h, newAckTracker) log_Reset"
  by (simp add: ack_refines_def newAckTracker_def log_Reset_def last_offset_def)

lemma ack_refines_last_offset:
  assumes "ack_refines (h, at) l"
  shows "last_offset h (al_log l) =
    (if outstandingAcks at = [] then ackedPrefixOffset at
     else ac_Offset (h (last (outstandingAcks at))))"
  using assms by (auto simp: ack_refines_def last_offset_def)

lemma ack_refines_positive:
  "ack_refines (h, at) l \<Longrightarrow> a \<in> set (al_log l) \<Longrightarrow> nilCursorOffset < ac_Offset (h a)"
  by (simp add: ack_refines_def)

lemma ack_refines_sorted:
  "ack_refines (h, at) l \<Longrightarrow> strict_sorted_by (\<lambda>a. ac_Offset (h a)) (al_log l)"
  by (simp add: ack_refines_def)

lemma ack_refines_offset_le:
  assumes "ack_refines (h, at) l" and "a \<in> set (al_log l)"
  shows "ac_Offset (h a) \<le> last_offset h (al_log l)"
proof -
  have "al_log l \<noteq> []" using assms(2) by auto
  moreover have "ac_Offset (h a) \<le> last (map (\<lambda>a. ac_Offset (h a)) (al_log l))"
    using assms by (intro sorted_wrt_less_last) (auto simp: ack_refines_def)
  ultimately show ?thesis by (simp add: last_offset_def last_map)
qed

lemma ack_refines_nil_le: "ack_refines (h, at) l \<Longrightarrow> nilCursorOffset \<le> last_offset h (al_log l)"
  using last_in_set [of "al_log l"] unfolding ack_refines_def last_offset_def
  by (auto simp del: set_append intro: less_imp_le)

lemma ack_refines_prefix_le:
  assumes "ack_refines (h, at) l"
  shows "ackedPrefixOffset at \<le> last_offset h (al_log l)"
proof -
  obtain dn where l: "al_log l = dn @ outstandingAcks at"
    and pre: "ackedPrefixOffset at = last_offset h dn"
    and srt: "strict_sorted_by (\<lambda>a. ac_Offset (h a)) (al_log l)"
    and pos: "\<forall>a\<in>set (al_log l). nilCursorOffset < ac_Offset (h a)"
    using assms by (auto simp: ack_refines_def)
  show ?thesis
  proof (cases "outstandingAcks at = []")
    case True
    then show ?thesis by (simp add: l pre)
  next
    case False
    then have out: "last (outstandingAcks at) \<in> set (outstandingAcks at)" by simp
    have "nilCursorOffset < ac_Offset (h (last (outstandingAcks at)))" using pos out l by simp
    moreover have "dn \<noteq> [] \<Longrightarrow> ac_Offset (h (last dn)) < ac_Offset (h (last (outstandingAcks at)))"
      using srt out last_in_set [of dn] unfolding l by (simp add: sorted_wrt_append)
    ultimately show ?thesis using False by (auto simp: l pre last_offset_def intro: less_imp_le)
  qed
qed

lemma ack_refines_Push:
  assumes "ack_refines (h, at) l" and "ackTracker_Push a (h, at) = (s', e)"
  shows "e = snd (log_Push a h l) \<and> ack_refines s' (fst (log_Push a h l)) \<and> same_acks h (fst s')"
proof (cases "enablePush at")
  case False
  then have "s' = (ackConsumer_Clear a h, at)" "e = None" "log_Push a h l = (l, None)"
    using assms by (auto simp: ackTracker_Push_def log_Push_def ack_refines_def)
  then show ?thesis using ack_refines_same_acks [OF same_acks_Clear assms(1)] by simp
next
  case True
  have lst: "last_offset h (al_log l) = (if outstandingAcks at = [] then ackedPrefixOffset at
      else ac_Offset (h (last (outstandingAcks at))))"
    by (rule ack_refines_last_offset [OF assms(1)])
  have le: "ackedPrefixOffset at \<le> last_offset h (al_log l)"
    by (rule ack_refines_prefix_le [OF assms(1)])
  show ?thesis
  proof (cases "ac_Offset (h a) \<le> last_offset h (al_log l)")
    case bad: True
    with True assms lst le show ?thesis
      by (auto simp: ackTracker_Push_def log_Push_def ack_refines_def split: if_splits)
  next
    case False
    have ub: "\<forall>b\<in>set (al_log l). ac_Offset (h b) < ac_Offset (h a)"
      using ack_refines_offset_le [OF assms(1)] False by fastforce
    have "nilCursorOffset < ac_Offset (h a)"
      using False ack_refines_nil_le [OF assms(1)] by simp
    moreover have "e = None" "s' = (h, at\<lparr>outstandingAcks := outstandingAcks at @ [a]\<rparr>)"
      using assms(2) True False lst le by (auto simp: ackTracker_Push_def split: if_splits)
    moreover have "log_Push a h l = (l\<lparr>al_log := al_log l @ [a]\<rparr>, None)"
      using False True assms(1) by (simp add: log_Push_def ack_refines_def)
    ultimately show ?thesis using assms(1) ub by (auto simp: ack_refines_def)
  qed
qed

lemma Ack_simps [simp]:
  "ac_Offset (fst (ackConsumer_Ack a h) b) = ac_Offset (h b)"
  "ac_MsgBytes (fst (ackConsumer_Ack a h) b) = ac_MsgBytes (h b)"
  "ac_acked (fst (ackConsumer_Ack a h) b) \<longleftrightarrow> b = a \<or> ac_acked (h b)"
  by (auto simp: ackConsumer_Ack_def)

lemma ack_refines_Ack:
  "ack_refines (h, at) l \<Longrightarrow> ack_refines (fst (ackConsumer_Ack a h), at) l"
  by (auto simp: ack_refines_def last_offset_def)

lemma ack_refines_CommitOffset:
  assumes "ack_refines (h, at) l" and "ackTracker_CommitOffset (h, at) = (s', r)"
  shows "r = log_CommitOffset h l" and "ack_refines s' l" and "same_acks h (fst s')"
    and "ackTracker_Empty s' \<longleftrightarrow> (\<forall>a\<in>set (al_log l). ac_acked (h a))"
proof -
  obtain h' at' where p: "unsafeProcessAcks (h, at) = (h', at')" by fastforce
  note spec = unsafeProcessAcks_spec [OF assms(1) p]
  have s': "s' = (h', at')" using assms(2) p by (auto simp: ackTracker_CommitOffset_def Let_def split: if_splits)
  have "ac_Offset (h (last (acked_prefix h (al_log l)))) \<noteq> nilCursorOffset"
    if "acked_prefix h (al_log l) \<noteq> []"
  proof -
    have "last (acked_prefix h (al_log l)) \<in> set (al_log l)"
      using last_in_set [OF that] by (auto simp: acked_prefix_def dest: set_takeWhileD)
    from ack_refines_positive [OF assms(1) this] show ?thesis by simp
  qed
  then show "r = log_CommitOffset h l"
    using assms(2) spec(4) p
    by (auto simp: ackTracker_CommitOffset_def log_CommitOffset_def last_offset_def Let_def)
  show "ack_refines s' l" "same_acks h (fst s')" using spec s' by auto
  show "ackTracker_Empty s' \<longleftrightarrow> (\<forall>a\<in>set (al_log l). ac_acked (h a))"
  proof -
    define pre where "pre = acked_prefix h (al_log l)"
    have l: "al_log l = pre @ outstandingAcks at'" using spec(3) by (simp add: pre_def)
    have "(\<forall>a\<in>set (al_log l). ac_acked (h a)) \<longleftrightarrow> pre = al_log l"
      by (simp add: pre_def acked_prefix_def takeWhile_eq_all_conv)
    then show ?thesis by (simp add: l s' ackTracker_Empty_def)
  qed
qed

lemma ack_refines_Release:
  assumes "ack_refines (h, at) l"
  shows "ack_refines (ackTracker_Release (h, at)) (log_Release h l)
       \<and> same_acks h (fst (ackTracker_Release (h, at)))"
proof -
  obtain h' at' where p: "unsafeProcessAcks (h, at\<lparr>enablePush := False\<rparr>) = (h', at')" by fastforce
  have "ack_refines (h, at\<lparr>enablePush := False\<rparr>) (l\<lparr>al_open := False\<rparr>)"
    using assms by (simp add: ack_refines_def)
  note spec = unsafeProcessAcks_spec [OF this p]
  define pre where "pre = acked_prefix h (al_log l)"
  have rel: "ackTracker_Release (h, at) =
      (fold ackConsumer_Clear (outstandingAcks at') h', at'\<lparr>outstandingAcks := []\<rparr>)"
    by (simp add: ackTracker_Release_def unsafeClearAcks_def p)
  have same: "same_acks h (fold ackConsumer_Clear (outstandingAcks at') h')"
    using spec(1) same_acks_fold_Clear by (rule same_acks_trans)
  have "al_log l = pre @ outstandingAcks at'" using spec(3) by (simp add: pre_def)
  then have "strict_sorted_by (\<lambda>a. ac_Offset (h a)) pre"
    and "\<forall>a\<in>set pre. nilCursorOffset < ac_Offset (h a)"
    using assms by (auto simp: ack_refines_def sorted_wrt_append)
  moreover have "\<forall>a\<in>set pre. ac_acked (h a)"
    by (auto simp: pre_def acked_prefix_def dest: set_takeWhileD)
  ultimately show ?thesis
    using same spec(4,5)
    by (simp add: rel ack_refines_def log_Release_def same_acksD [OF same] pre_def [symmetric])
qed

lemma ack_refines_Reset:
  "ack_refines (ackTracker_Reset s) log_Reset \<and> same_acks (fst s) (fst (ackTracker_Reset s))"
  by (cases s) (simp add: ackTracker_Reset_def unsafeClearAcks_def ack_refines_def log_Reset_def
      last_offset_def)


subsection \<open>Whole runs\<close>

lemma ack_step_sim:
  assumes "same_acks h0 h" and "ack_refines (h, at) l"
    and "ack_step e (h, at) = (s', out)" and "log_step e (h0, l) = ((h0', l'), out')"
  shows "out = out' \<and> same_acks h0' (fst s') \<and> ack_refines s' l'"
proof (cases e)
  case (EvPush a)
  then obtain err where p: "ackTracker_Push a (h, at) = (s', err)" and "out = OutError err"
    using assms(3) by (auto split: prod.splits)
  with ack_refines_Push [OF assms(2) p] EvPush assms(1,4) show ?thesis
    by (auto simp: same_acksD [OF assms(1)] split: prod.splits intro: same_acks_trans)
next
  case (EvAck a)
  have "same_acks (h0(a := (h0 a)\<lparr>ac_acked := True\<rparr>)) (fst (ackConsumer_Ack a h))"
    using assms(1) unfolding same_acks_def by simp
  with EvAck assms(3,4) ack_refines_Ack [OF assms(2)] show ?thesis by auto
next
  case EvCommitOffset
  then obtain r where p: "ackTracker_CommitOffset (h, at) = (s', r)" and "out = OutOffset r"
    using assms(3) by (auto split: prod.splits)
  with ack_refines_CommitOffset [OF assms(2) p] EvCommitOffset assms(1,4) show ?thesis
    by (auto simp: same_acksD [OF assms(1)] intro: same_acks_trans)
next
  case EvRelease
  with ack_refines_Release [OF assms(2)] assms(1,3,4) show ?thesis
    by (auto simp: same_acksD [OF assms(1)] intro: same_acks_trans)
next
  case EvReset
  with ack_refines_Reset [of "(h, at)"] assms(1,3,4) show ?thesis
    by (auto intro: same_acks_trans)
qed

lemma ack_run_sim:
  assumes "same_acks h0 h" and "ack_refines (h, at) l"
    and "ack_run es (h, at) = (s', outs)" and "log_run es (h0, l) = ((h0', l'), outs')"
  shows "outs = outs' \<and> same_acks h0' (fst s') \<and> ack_refines s' l'"
  using assms
proof (induction es arbitrary: h0 h at l outs outs')
  case Nil
  then show ?case by auto
next
  case (Cons e es)
  obtain h1 at1 out1 where s: "ack_step e (h, at) = ((h1, at1), out1)" by (metis surj_pair)
  obtain h2 l2 out2 where t: "log_step e (h0, l) = ((h2, l2), out2)" by (metis surj_pair)
  from ack_step_sim [OF Cons.prems(1,2) s t]
  have o: "out1 = out2" and "same_acks h2 h1" and "ack_refines (h1, at1) l2" by auto
  moreover obtain os where "ack_run es (h1, at1) = (s', os)" and "outs = out1 # os"
    using Cons.prems(3) s by (auto split: prod.splits)
  moreover obtain os' where "log_run es (h2, l2) = ((h0', l'), os')" and "outs' = out2 # os'"
    using Cons.prems(4) t by (auto split: prod.splits)
  ultimately show ?case using Cons.IH by blast
qed

lemma log_commit_below_unacked:
  assumes "ack_refines (h, at) l" and "a \<in> set (al_log l)" and "\<not> ac_acked (h a)"
    and "is_int64 (ac_Offset (h a))"
  shows "log_CommitOffset h l \<le> ac_Offset (h a)"
proof (cases "acked_prefix h (al_log l) = []")
  case True
  then show ?thesis
    using ack_refines_positive [OF assms(1,2)] by (simp add: log_CommitOffset_def)
next
  case False
  let ?pre = "acked_prefix h (al_log l)"
  have split: "al_log l = ?pre @ dropWhile (\<lambda>a. ac_acked (h a)) (al_log l)"
    by (simp add: acked_prefix_def)
  have "a \<notin> set ?pre" using assms(3) by (auto simp: acked_prefix_def dest: set_takeWhileD)
  with assms(2) have "a \<in> set (dropWhile (\<lambda>a. ac_acked (h a)) (al_log l))"
    by (metis Un_iff set_append split)
  moreover have "sorted_wrt (<) (map (\<lambda>a. ac_Offset (h a)) (?pre @ dropWhile (\<lambda>a. ac_acked (h a)) (al_log l)))"
    using ack_refines_sorted [OF assms(1)] split by simp
  ultimately have "ac_Offset (h (last ?pre)) < ac_Offset (h a)"
    using last_in_set [OF False] by (auto simp: sorted_wrt_append)
  moreover have "nilCursorOffset < ac_Offset (h (last ?pre))"
    using last_in_set [OF False] ack_refines_positive [OF assms(1)]
    by (auto simp: acked_prefix_def dest: set_takeWhileD)
  ultimately have "ac_Offset (h (last ?pre)) + 1 \<le> ac_Offset (h a)"
    and "is_int64 (ac_Offset (h (last ?pre)) + 1)"
    using assms(4) by (auto simp: int64_defs nilCursorOffset_def)
  then show ?thesis using False by (simp add: log_CommitOffset_def Let_def)
qed


text \<open>C1: For every interleaving of message deliveries, user acknowledgements, commit polls,
  releases and resets, the ack tracker returns exactly what the complete delivery log
  prescribes: each commit offset is one past the longest acknowledged prefix of the
  messages delivered since the last reset (or \<open>nilCursorOffset\<close>), and a delivery is
  refused exactly when its offset does not exceed the last delivered one.\<close>

theorem ackTracker_refines_log:
  "snd (ack_run es (h, newAckTracker)) = snd (log_run es (h, log_Reset))"
proof -
  obtain s outs where c: "ack_run es (h, newAckTracker) = (s, outs)" by fastforce
  obtain h' l outs' where a: "log_run es (h, log_Reset) = ((h', l), outs')" by (metis surj_pair)
  from ack_run_sim [OF same_acks_refl ack_refines_new c a] c a show ?thesis by simp
qed



section \<open>The commit cursor tracker\<close>

text \<open>The tracker of the committer.  Its field \<^verbatim>\<open>acks\<close> is the ack tracker shared with the
  subscriber, so the operations that use it take the ack state as an argument.\<close>

record commitCursorTracker =
  lastConfirmedOffset :: int
  pendingOffsets :: "int list"

definition newCommitCursorTracker :: commitCursorTracker where
  "newCommitCursorTracker = \<lparr>lastConfirmedOffset = nilCursorOffset, pendingOffsets = []\<rparr>"

definition extractOffsetFromElem :: "int option \<Rightarrow> int" where
  "extractOffsetFromElem elem = (case elem of None \<Rightarrow> nilCursorOffset | Some offset \<Rightarrow> offset)"

text \<open>\<^verbatim>\<open>container/list\<close>: the front and the back element of a list, \<open>None\<close> for nil.\<close>

definition list_Front :: "'a list \<Rightarrow> 'a option" where
  "list_Front xs = (case xs of [] \<Rightarrow> None | x # _ \<Rightarrow> Some x)"

definition list_Back :: "'a list \<Rightarrow> 'a option" where
  "list_Back xs = (if xs = [] then None else Some (last xs))"

definition commitCursorTracker_Reset ::
  "'f ackState \<times> commitCursorTracker \<Rightarrow> 'f ackState \<times> commitCursorTracker" where
  "commitCursorTracker_Reset s =
     (ackTracker_Reset (fst s),
      (snd s)\<lparr>lastConfirmedOffset := nilCursorOffset, pendingOffsets := []\<rparr>)"

definition commitCursorTracker_NextOffset ::
  "'f ackState \<Rightarrow> commitCursorTracker \<Rightarrow> 'f ackState \<times> int" where
  "commitCursorTracker_NextOffset acks ct =
     (case ackTracker_CommitOffset acks of (acks', desiredCommitOffset) \<Rightarrow>
        if desiredCommitOffset \<le> lastConfirmedOffset ct then (acks', nilCursorOffset)
        else if desiredCommitOffset \<le> extractOffsetFromElem (list_Back (pendingOffsets ct))
             then (acks', nilCursorOffset)
        else (acks', desiredCommitOffset))"

definition AddPending :: "int \<Rightarrow> commitCursorTracker \<Rightarrow> commitCursorTracker" where
  "AddPending offset ct = ct\<lparr>pendingOffsets := pendingOffsets ct @ [offset]\<rparr>"

definition ClearPending :: "commitCursorTracker \<Rightarrow> commitCursorTracker" where
  "ClearPending ct = ct\<lparr>pendingOffsets := []\<rparr>"

text \<open>The loop of \<^verbatim>\<open>ConfirmOffsets\<close> pops the front \<open>n\<close> times; the guard before it makes
  sure there are \<open>n\<close> elements (removing a nil element would panic).\<close>

fun confirm_loop :: "nat \<Rightarrow> commitCursorTracker \<Rightarrow> commitCursorTracker" where
  "confirm_loop 0 ct = ct"
| "confirm_loop (Suc n) ct =
     confirm_loop n (ct\<lparr>lastConfirmedOffset := extractOffsetFromElem (list_Front (pendingOffsets ct)),
                        pendingOffsets := tl (pendingOffsets ct)\<rparr>)"

definition ConfirmOffsets :: "int \<Rightarrow> commitCursorTracker \<Rightarrow> commitCursorTracker \<times> wire_error option" where
  "ConfirmOffsets numConfirmed ct =
     (let numPending = int (length (pendingOffsets ct))
      in if numPending < numConfirmed then (ct, Some (errTooManyConfirmed numConfirmed numPending))
         else (confirm_loop (nat numConfirmed) ct, None))"

definition UpToDate :: "'f ackState \<Rightarrow> commitCursorTracker \<Rightarrow> 'f ackState \<times> bool" where
  "UpToDate acks ct =
     (case ackTracker_CommitOffset acks of (acks', offset) \<Rightarrow>
        (acks', offset \<le> lastConfirmedOffset ct \<and> ackTracker_Empty acks'))"

subsection \<open>Commits in flight are strictly increasing\<close>

definition cursor_inv :: "commitCursorTracker \<Rightarrow> bool" where
  "cursor_inv ct \<longleftrightarrow> sorted_wrt (<) (lastConfirmedOffset ct # pendingOffsets ct)
                   \<and> nilCursorOffset \<le> lastConfirmedOffset ct"

lemma cursor_inv_new [go_inv]: "cursor_inv newCommitCursorTracker"
  by (simp add: cursor_inv_def newCommitCursorTracker_def)

lemma cursor_inv_Reset [go_inv]: "cursor_inv (snd (commitCursorTracker_Reset s))"
  by (simp add: cursor_inv_def commitCursorTracker_Reset_def)

lemma cursor_inv_ClearPending [go_inv]: "cursor_inv ct \<Longrightarrow> cursor_inv (ClearPending ct)"
  by (simp add: cursor_inv_def ClearPending_def)

lemma NextOffset_greater:
  assumes "cursor_inv ct" and "commitCursorTracker_NextOffset acks ct = (acks', n)"
    and "n \<noteq> nilCursorOffset"
  shows "\<forall>p\<in>set (lastConfirmedOffset ct # pendingOffsets ct). p < n"
proof -
  from assms(2,3) have n: "lastConfirmedOffset ct < n"
    "extractOffsetFromElem (list_Back (pendingOffsets ct)) < n"
    by (auto simp: commitCursorTracker_NextOffset_def split: prod.splits if_splits)
  have "p \<le> last (pendingOffsets ct)" if "p \<in> set (pendingOffsets ct)" for p
    using that assms(1) by (intro sorted_wrt_less_last) (auto simp: cursor_inv_def)
  with n show ?thesis
    by (fastforce simp: extractOffsetFromElem_def list_Back_def split: if_splits)
qed

lemma cursor_inv_AddPending [go_inv]:
  "cursor_inv ct \<Longrightarrow> commitCursorTracker_NextOffset acks ct = (acks', n) \<Longrightarrow> n \<noteq> nilCursorOffset
   \<Longrightarrow> cursor_inv (AddPending n ct)"
  using NextOffset_greater [of ct acks acks' n] by (auto simp: cursor_inv_def AddPending_def)

lemma confirm_loop_eq:
  "n \<le> length (pendingOffsets ct) \<Longrightarrow>
   confirm_loop n ct =
     ct\<lparr>lastConfirmedOffset := (lastConfirmedOffset ct # pendingOffsets ct) ! n,
        pendingOffsets := drop n (pendingOffsets ct)\<rparr>"
proof (induction n arbitrary: ct)
  case 0
  then show ?case by simp
next
  case (Suc n)
  then obtain x xs where "pendingOffsets ct = x # xs" by (cases "pendingOffsets ct") auto
  with Suc show ?case by (simp add: extractOffsetFromElem_def list_Front_def)
qed

lemma cursor_inv_ConfirmOffsets [go_inv]:
  assumes "cursor_inv ct"
  shows "cursor_inv (fst (ConfirmOffsets k ct))"
proof (cases "int (length (pendingOffsets ct)) < k")
  case True
  with assms show ?thesis by (simp add: ConfirmOffsets_def)
next
  case False
  let ?xs = "lastConfirmedOffset ct # pendingOffsets ct"
  have n: "nat k < length ?xs" using False by simp
  have "sorted_wrt (<) (drop (nat k) ?xs)"
    using assms sorted_wrt_drop unfolding cursor_inv_def by blast
  moreover have "drop (nat k) ?xs = ?xs ! nat k # drop (nat k) (pendingOffsets ct)"
    using n by (metis Cons_nth_drop_Suc drop_Suc_Cons)
  moreover have "nilCursorOffset \<le> ?xs ! nat k"
    using assms nth_mem [OF n] by (fastforce simp: cursor_inv_def)
  ultimately show ?thesis
    using False by (simp add: ConfirmOffsets_def confirm_loop_eq cursor_inv_def)
qed

text \<open>The committer only ever sends a commit offset that is greater than every confirmed and
  every pending one, so commits in flight stay strictly increasing; confirming the first
  \<open>k\<close> of them makes the \<open>k\<close>-th the confirmed cursor and drops them from the queue, while a
  server that confirms more commits than are pending is reported as an error that leaves
  the tracker unchanged.\<close>

theorem commit_cursor_monotone:
  assumes "cursor_inv ct" and "commitCursorTracker_NextOffset acks ct = (acks', n)"
  shows "(n = nilCursorOffset \<or>
            (\<forall>p\<in>set (lastConfirmedOffset ct # pendingOffsets ct). p < n) \<and> cursor_inv (AddPending n ct))
       \<and> ConfirmOffsets k ct =
           (if int (length (pendingOffsets ct)) < k
            then (ct, Some (errTooManyConfirmed k (int (length (pendingOffsets ct)))))
            else (ct\<lparr>lastConfirmedOffset := (lastConfirmedOffset ct # pendingOffsets ct) ! nat k,
                     pendingOffsets := drop (nat k) (pendingOffsets ct)\<rparr>, None))
       \<and> cursor_inv (fst (ConfirmOffsets k ct))"
proof (intro conjI)
  show "n = nilCursorOffset \<or>
      (\<forall>p\<in>set (lastConfirmedOffset ct # pendingOffsets ct). p < n) \<and> cursor_inv (AddPending n ct)"
    using NextOffset_greater [OF assms] cursor_inv_AddPending [OF assms] by blast
  show "cursor_inv (fst (ConfirmOffsets k ct))" by (rule cursor_inv_ConfirmOffsets [OF assms(1)])
qed (simp add: ConfirmOffsets_def confirm_loop_eq)

theorem commit_cursor_monotone_witness:
  "cursor_inv (fst (ConfirmOffsets 2 \<lparr>lastConfirmedOffset = 3, pendingOffsets = [5, 8, 9]\<rparr>))"
  using commit_cursor_monotone [of "\<lparr>lastConfirmedOffset = 3, pendingOffsets = [5, 8, 9]\<rparr>"
      "((\<lambda>_. newAckConsumer 11 1 (None :: nat option)), newAckTracker)" _ "nilCursorOffset" 2]
  by (simp add: cursor_inv_def nilCursorOffset_def commitCursorTracker_NextOffset_def
      ackTracker_CommitOffset_def unsafeProcessAcks_def newAckTracker_def)

end
