(* ===== verification/Wire_Committer.thy ===== *)
theory Wire_Committer
  imports Wire_Acks Wire_Streams Wire_Service
begin

text \<open>
  \<^verbatim>\<open>committer.go\<close>: the service that sends the latest commit offset of the ack tracker to the
  streaming commit cursor stream, and closes that stream on shutdown once the final offset is
  confirmed.  The methods hold the committer's mutex and are functions on its record; the
  record contains the ack tracker (with the store of ack consumers), which the subscriber and
  the user change between the committer's own steps.
\<close>

section \<open>State and operations\<close>

text \<open>The requests on the stream are the committed offsets.  \<open>cm_broadcasts\<close> counts the calls of
  \<^verbatim>\<open>flushPending.Broadcast\<close>.\<close>

record 'f committer =
  cm_subscription :: string
  cm_stream :: "int retryableStream"
  cm_acks :: "'f ackState"
  cm_cursorTracker :: commitCursorTracker
  cm_pollCommits :: periodicTask
  cm_broadcasts :: nat
  cm_enableCommits :: bool
  cm_service :: abstractService

abbreviation cm_status :: "'f committer \<Rightarrow> serviceStatus" where
  "cm_status c \<equiv> as_status (cm_service c)"

definition commitCursorPeriod :: int where
  "commitCursorPeriod = 50000000"

definition newCommitter :: "string \<Rightarrow> int \<Rightarrow> 'f ackState \<Rightarrow> 'f committer" where
  "newCommitter subscription timeout acks =
     \<lparr>cm_subscription = subscription,
      cm_stream = newRetryableStream timeout (streamIdleTimeout timeout),
      cm_acks = acks,
      cm_cursorTracker = newCommitCursorTracker,
      cm_pollCommits = newPeriodicTask commitCursorPeriod,
      cm_broadcasts = 0, cm_enableCommits = False, cm_service = new_abstractService\<rparr>"

definition cm_updateStatus ::
  "serviceStatus \<Rightarrow> wire_error option \<Rightarrow> 'f committer \<Rightarrow> 'f committer \<times> bool" where
  "cm_updateStatus target err c =
     (case unsafeUpdateStatus target err (cm_service c) of (as, ok) \<Rightarrow> (c\<lparr>cm_service := as\<rparr>, ok))"

definition committer_Start :: "'f committer \<Rightarrow> 'f committer" where
  "committer_Start c =
     (case cm_updateStatus serviceStarting None c of (c1, updated) \<Rightarrow>
        if updated then c1\<lparr>cm_stream := retryableStream_Start (cm_stream c1),
                           cm_pollCommits := periodicTask_Start (cm_pollCommits c1)\<rparr>
        else c1)"

definition unsafeCommitOffsetToStream ::
  "(nat \<Rightarrow> nat \<Rightarrow> wire_error option) \<Rightarrow> 'f committer \<Rightarrow> 'f committer" where
  "unsafeCommitOffsetToStream SendMsg c =
     (if \<not> cm_enableCommits c then c
      else case commitCursorTracker_NextOffset (cm_acks c) (cm_cursorTracker c) of
             (acks, nextOffset) \<Rightarrow>
               let c1 = c\<lparr>cm_acks := acks\<rparr>
               in if nextOffset = nilCursorOffset then c1
                  else case retryableStream_Send SendMsg nextOffset (cm_stream c1) of
                         (st, sent) \<Rightarrow>
                           if sent then c1\<lparr>cm_stream := st,
                                           cm_cursorTracker := AddPending nextOffset (cm_cursorTracker c1)\<rparr>
                           else c1\<lparr>cm_stream := st\<rparr>)"

definition commitOffsetToStream ::
  "(nat \<Rightarrow> nat \<Rightarrow> wire_error option) \<Rightarrow> 'f committer \<Rightarrow> 'f committer" where
  "commitOffsetToStream SendMsg c = unsafeCommitOffsetToStream SendMsg c"

definition committer_unsafeOnTerminated :: "'f committer \<Rightarrow> 'f committer" where
  "committer_unsafeOnTerminated c =
     c\<lparr>cm_pollCommits := periodicTask_Stop (cm_pollCommits c),
       cm_stream := retryableStream_Stop (cm_stream c)\<rparr>"

definition flush_broadcast :: "'f committer \<Rightarrow> 'f committer" where
  "flush_broadcast c = c\<lparr>cm_broadcasts := Suc (cm_broadcasts c)\<rparr>"

definition committer_unsafeCheckDone :: "'f committer \<Rightarrow> 'f committer" where
  "committer_unsafeCheckDone c =
     (case UpToDate (cm_acks c) (cm_cursorTracker c) of (acks, upToDate) \<Rightarrow>
        let c1 = c\<lparr>cm_acks := acks\<rparr>
        in if \<not> upToDate then c1
           else let c2 = flush_broadcast c1
                in if cm_status c2 = serviceTerminating then committer_unsafeOnTerminated c2 else c2)"

definition committer_unsafeInitiateShutdown ::
  "(nat \<Rightarrow> nat \<Rightarrow> wire_error option) \<Rightarrow> serviceStatus \<Rightarrow> wire_error option \<Rightarrow> 'f committer \<Rightarrow> 'f committer" where
  "committer_unsafeInitiateShutdown SendMsg targetStatus err c =
     (case cm_updateStatus targetStatus (wrapError ''committer'' (cm_subscription c) err) c of
        (c1, updated) \<Rightarrow>
          if \<not> updated then committer_unsafeCheckDone c1
          else let c2 = flush_broadcast c1
               in if targetStatus = serviceTerminating
                  then committer_unsafeCheckDone (unsafeCommitOffsetToStream SendMsg c2)
                  else committer_unsafeOnTerminated (c2\<lparr>cm_acks := ackTracker_Release (cm_acks c2)\<rparr>))"

definition committer_Stop :: "(nat \<Rightarrow> nat \<Rightarrow> wire_error option) \<Rightarrow> 'f committer \<Rightarrow> 'f committer" where
  "committer_Stop SendMsg c = committer_unsafeInitiateShutdown SendMsg serviceTerminating None c"

definition committer_Terminate :: "(nat \<Rightarrow> nat \<Rightarrow> wire_error option) \<Rightarrow> 'f committer \<Rightarrow> 'f committer" where
  "committer_Terminate SendMsg c =
     committer_unsafeInitiateShutdown SendMsg serviceTerminating None
       (c\<lparr>cm_acks := ackTracker_Release (cm_acks c)\<rparr>)"

text \<open>\<^verbatim>\<open>BlockingReset\<close> releases the mutex in \<^verbatim>\<open>flushPending.Wait\<close>: it is its first statement
  followed by rounds of its loop, each ending in a wait (\<open>None\<close>) or in the result.\<close>

definition BlockingReset_begin :: "'f committer \<Rightarrow> 'f committer" where
  "BlockingReset_begin c = c\<lparr>cm_acks := ackTracker_Release (cm_acks c)\<rparr>"

definition BlockingReset_round ::
  "(nat \<Rightarrow> nat \<Rightarrow> wire_error option) \<Rightarrow> 'f committer \<Rightarrow> 'f committer \<times> wire_error option option" where
  "BlockingReset_round SendMsg c =
     (case UpToDate (cm_acks c) (cm_cursorTracker c) of (acks, upToDate) \<Rightarrow>
        let c1 = c\<lparr>cm_acks := acks\<rparr>
        in if \<not> upToDate \<and> cm_status c1 < serviceTerminating
           then (unsafeCommitOffsetToStream SendMsg c1, None)
           else if cm_status c1 \<ge> serviceTerminating then (c1, Some (Some ErrServiceStopped))
           else case commitCursorTracker_Reset (cm_acks c1, cm_cursorTracker c1) of
                  (acks', ct) \<Rightarrow> (c1\<lparr>cm_acks := acks', cm_cursorTracker := ct\<rparr>, Some None))"

text \<open>A response of the stream, as far as the committer looks at it.\<close>

datatype commitResponse = CommitInitial | CommitAcknowledged int | CommitOther

definition committer_validateInitialResponse :: "commitResponse \<Rightarrow> wire_error option" where
  "committer_validateInitialResponse response =
     (if response = CommitInitial then None else Some errInvalidInitialCommitResponse)"

definition committer_onStreamStatusChange ::
  "(nat \<Rightarrow> nat \<Rightarrow> wire_error option) \<Rightarrow> streamStatus \<Rightarrow> 'f committer \<Rightarrow> 'f committer" where
  "committer_onStreamStatusChange SendMsg status c =
     (case status of
        streamConnected \<Rightarrow>
          let c1 = fst (cm_updateStatus serviceActive None (c\<lparr>cm_enableCommits := True\<rparr>));
              c2 = unsafeCommitOffsetToStream SendMsg
                     (c1\<lparr>cm_cursorTracker := ClearPending (cm_cursorTracker c1)\<rparr>)
          in c2\<lparr>cm_pollCommits := periodicTask_Start (cm_pollCommits c2)\<rparr>
      | streamReconnecting \<Rightarrow>
          c\<lparr>cm_enableCommits := False, cm_pollCommits := periodicTask_Stop (cm_pollCommits c)\<rparr>
      | streamTerminated \<Rightarrow>
          committer_unsafeInitiateShutdown SendMsg serviceTerminated (rs_finalErr (cm_stream c)) c
      | _ \<Rightarrow> c)"

definition committer_processResponse ::
  "commitResponse \<Rightarrow> 'f committer \<Rightarrow> 'f committer \<times> wire_error option" where
  "committer_processResponse response c =
     (case response of
        CommitAcknowledged numAcked \<Rightarrow>
          if numAcked \<le> 0 then (c, Some (errInvalidCommitCount numAcked))
          else (case ConfirmOffsets numAcked (cm_cursorTracker c) of
                  (ct, Some err) \<Rightarrow> (c\<lparr>cm_cursorTracker := ct\<rparr>, Some err)
                | (ct, None) \<Rightarrow> (committer_unsafeCheckDone (c\<lparr>cm_cursorTracker := ct\<rparr>), None))
      | _ \<Rightarrow> (c, Some errInvalidCommitResponse))"

definition committer_onResponse ::
  "(nat \<Rightarrow> nat \<Rightarrow> wire_error option) \<Rightarrow> commitResponse \<Rightarrow> 'f committer \<Rightarrow> 'f committer" where
  "committer_onResponse SendMsg response c =
     (case committer_processResponse response c of
        (c1, None) \<Rightarrow> c1
      | (c1, Some err) \<Rightarrow> committer_unsafeInitiateShutdown SendMsg serviceTerminated (Some err) c1)"

section \<open>Runs\<close>

text \<open>What happens to a committer: calls of its own methods, calls of the ack tracker by the
  subscriber (\<open>CmPush\<close>) and the user (\<open>CmAck\<close>), and the life of its stream in the order the
  \<^verbatim>\<open>streamHandler\<close> interface fixes: a reconnection or a new connection changes the stream and is
  followed by its notification, in one step here (the code releases the mutex of the stream before it calls the handler, and other steps may
  come in between; the publisher is modelled with that gap); a termination changes the stream, its notification
  (\<open>CmTerminatedNotice\<close>) comes from a goroutine of its own.\<close>

datatype commitEvent =
    CmStart
  | CmStop
  | CmTerminate
  | CmResetBegin
  | CmResetRound
  | CmPoll
  | CmResponse commitResponse
  | CmReconnecting
  | CmConnected int nat
  | CmBroken wire_error
  | CmTerminatedNotice
  | CmPush addr
  | CmAck addr

fun committer_step ::
  "(nat \<Rightarrow> nat \<Rightarrow> wire_error option) \<Rightarrow> commitEvent \<Rightarrow> 'f committer \<Rightarrow> 'f committer" where
  "committer_step SendMsg CmStart c = committer_Start c"
| "committer_step SendMsg CmStop c = committer_Stop SendMsg c"
| "committer_step SendMsg CmTerminate c = committer_Terminate SendMsg c"
| "committer_step SendMsg CmResetBegin c = BlockingReset_begin c"
| "committer_step SendMsg CmResetRound c = fst (BlockingReset_round SendMsg c)"
| "committer_step SendMsg CmPoll c = commitOffsetToStream SendMsg c"
| "committer_step SendMsg (CmResponse r) c = committer_onResponse SendMsg r c"
| "committer_step SendMsg CmReconnecting c =
     (case canReconnect (cm_stream c) of
        (st, ok) \<Rightarrow> if ok then committer_onStreamStatusChange SendMsg streamReconnecting (c\<lparr>cm_stream := st\<rparr>)
                    else c)"
| "committer_step SendMsg (CmConnected now sid) c =
     (case connected now sid (cm_stream c) of
        (st, ok) \<Rightarrow> if ok then committer_onStreamStatusChange SendMsg streamConnected (c\<lparr>cm_stream := st\<rparr>)
                    else c\<lparr>cm_stream := st\<rparr>)"
| "committer_step SendMsg (CmBroken err) c = c\<lparr>cm_stream := unsafeTerminate (Some err) (cm_stream c)\<rparr>"
| "committer_step SendMsg CmTerminatedNotice c =
     (if rs_status (cm_stream c) = streamTerminated
      then committer_onStreamStatusChange SendMsg streamTerminated c else c)"
| "committer_step SendMsg (CmPush a) c = c\<lparr>cm_acks := fst (ackTracker_Push a (cm_acks c))\<rparr>"
| "committer_step SendMsg (CmAck a) c =
     c\<lparr>cm_acks := (fst (ackConsumer_Ack a (fst (cm_acks c))), snd (cm_acks c))\<rparr>"

definition committer_run ::
  "(nat \<Rightarrow> nat \<Rightarrow> wire_error option) \<Rightarrow> commitEvent list \<Rightarrow> 'f committer \<Rightarrow> 'f committer" where
  "committer_run SendMsg es c = fold (committer_step SendMsg) es c"


section \<open>The invariant\<close>

text \<open>The offset of the last message of the acknowledged prefix of the log.\<close>

definition acked_to :: "'f ackHeap \<Rightarrow> ackLog \<Rightarrow> int" where
  "acked_to h l = last_offset h (acked_prefix h (al_log l))"

text \<open>\<open>commit_inv\<close> relates the ack tracker, the commit cursor tracker and the requests sent on the
  current stream through the delivery log: the pending commits are the last requests sent, and
  none is beyond the acknowledged prefix.  Offsets are below \<^verbatim>\<open>math.MaxInt64\<close>, so that the offset
  after a message exists.\<close>

definition commit_inv :: "'f ackState \<Rightarrow> commitCursorTracker \<Rightarrow> int list \<Rightarrow> ackLog \<Rightarrow> bool" where
  "commit_inv acks ct sent l \<longleftrightarrow>
     ack_refines acks l \<and> cursor_inv ct
   \<and> (\<exists>answered. sent = answered @ pendingOffsets ct)
   \<and> (\<forall>p\<in>set (pendingOffsets ct). 0 < p \<and> p \<le> acked_to (fst acks) l + 1)
   \<and> (\<forall>a. ac_Offset (fst acks a) < maxInt64)"

definition cm_inv :: "'f committer \<Rightarrow> bool" where
  "cm_inv c \<longleftrightarrow> (\<exists>l. commit_inv (cm_acks c) (cm_cursorTracker c) (rs_sent (cm_stream c)) l)"

lemma last_offset_prefix_le:
  assumes "strict_sorted_by (\<lambda>a. ac_Offset (h a)) (xs @ ys)" "\<forall>a\<in>set (xs @ ys). nilCursorOffset < ac_Offset (h a)"
  shows "last_offset h xs \<le> last_offset h (xs @ ys)"
proof (cases "ys = []")
  case False
  then have y: "last ys \<in> set ys" by simp
  with assms have "nilCursorOffset \<le> ac_Offset (h (last ys))" by (auto intro: less_imp_le)
  moreover have "xs \<noteq> [] \<Longrightarrow> ac_Offset (h (last xs)) \<le> ac_Offset (h (last ys))"
    using assms(1) y last_in_set [of xs] by (auto simp: sorted_wrt_append intro: less_imp_le)
  ultimately show ?thesis using False by (auto simp: last_offset_def)
qed simp

lemma acked_to_mono:
  assumes "ack_refines (h, at) l" and "acked_prefix h (al_log l) = xs @ ys"
  shows "last_offset h xs \<le> acked_to h l"
proof -
  obtain zs where l: "al_log l = (xs @ ys) @ zs"
    using takeWhile_dropWhile_id [of "\<lambda>a. ac_acked (h a)" "al_log l"] assms(2)
    by (metis acked_prefix_def)
  have "strict_sorted_by (\<lambda>a. ac_Offset (h a)) (xs @ ys)"
    using ack_refines_sorted [OF assms(1)] unfolding l by (simp add: sorted_wrt_append)
  moreover have "\<forall>a\<in>set (xs @ ys). nilCursorOffset < ac_Offset (h a)"
    using ack_refines_positive [OF assms(1)] by (auto simp: l)
  ultimately show ?thesis
    unfolding acked_to_def assms(2) by (rule last_offset_prefix_le)
qed

lemma acked_to_same: "same_acks h h' \<Longrightarrow> acked_to h' l = acked_to h l"
  by (simp add: acked_to_def same_acksD)

lemma log_CommitOffset_acked_to:
  assumes "ack_refines (h, at) l" "\<forall>a. ac_Offset (h a) < maxInt64"
  shows "log_CommitOffset h l = (if acked_to h l = nilCursorOffset then nilCursorOffset else acked_to h l + 1)"
    and "nilCursorOffset \<le> acked_to h l"
proof -
  let ?p = "acked_prefix h (al_log l)"
  have pos: "nilCursorOffset < ac_Offset (h (last ?p))" if "?p \<noteq> []"
    using last_in_set [OF that] ack_refines_positive [OF assms(1)]
    by (auto simp: acked_prefix_def dest: set_takeWhileD)
  have "is_int64 (ac_Offset (h (last ?p)) + 1)" if "?p \<noteq> []"
  proof -
    have "ac_Offset (h (last ?p)) < maxInt64" using assms(2) by blast
    with pos [OF that] show ?thesis by (simp add: int64_defs nilCursorOffset_def)
  qed
  with pos show "log_CommitOffset h l = (if acked_to h l = nilCursorOffset then nilCursorOffset else acked_to h l + 1)"
    by (auto simp: log_CommitOffset_def acked_to_def last_offset_def Let_def)
  show "nilCursorOffset \<le> acked_to h l"
    using pos by (auto simp: acked_to_def last_offset_def intro: less_imp_le)
qed

lemma same_offsets: "same_acks h h' \<Longrightarrow> (\<forall>a. ac_Offset (h' a) < n) = (\<forall>a. ac_Offset (h a) < n)"
  by (simp add: same_acks_def)

lemma commit_inv_CommitOffset:
  assumes "commit_inv acks ct sent l" "ackTracker_CommitOffset acks = (acks', r)"
  shows "commit_inv acks' ct sent l" "r = log_CommitOffset (fst acks) l"
    and "ackTracker_Empty acks' \<longleftrightarrow> (\<forall>a\<in>set (al_log l). ac_acked (fst acks a))"
    and "same_acks (fst acks) (fst acks')"
proof -
  obtain h at where acks: "acks = (h, at)" by (cases acks)
  note spec = ack_refines_CommitOffset [OF _ assms(2) [unfolded acks], of l]
  have ref: "ack_refines (h, at) l" using assms(1) by (simp add: commit_inv_def acks)
  show "r = log_CommitOffset (fst acks) l" "same_acks (fst acks) (fst acks')"
    "ackTracker_Empty acks' \<longleftrightarrow> (\<forall>a\<in>set (al_log l). ac_acked (fst acks a))"
    using spec [OF ref] by (simp_all add: acks)
  then show "commit_inv acks' ct sent l"
    using assms(1) spec(2) [OF ref] same_offsets [of "fst acks" "fst acks'"]
      acked_to_same [of "fst acks" "fst acks'"] by (simp add: commit_inv_def)
qed

text \<open>What a commit request is: the offset after the acknowledged prefix, beyond everything
  confirmed and pending.\<close>

lemma commit_inv_Next:
  assumes inv: "commit_inv acks ct sent l"
    and nxt: "commitCursorTracker_NextOffset acks ct = (acks', n)"
  shows "commit_inv acks' ct sent l"
    and "n \<noteq> nilCursorOffset \<Longrightarrow> commit_inv acks' (AddPending n ct) (sent @ [n]) l"
    and "n \<noteq> nilCursorOffset \<Longrightarrow> n = log_CommitOffset (fst acks) l"
proof -
  obtain r where co: "ackTracker_CommitOffset acks = (acks', r)" and n: "n = r \<or> n = nilCursorOffset"
    using nxt by (auto simp: commitCursorTracker_NextOffset_def split: prod.splits if_splits)
  note spec = commit_inv_CommitOffset [OF inv co]
  show inv': "commit_inv acks' ct sent l" by (rule spec(1))
  show "n = log_CommitOffset (fst acks) l" if "n \<noteq> nilCursorOffset" using n that spec(2) by simp
  assume nn: "n \<noteq> nilCursorOffset"
  have "cursor_inv (AddPending n ct)"
    using inv by (intro cursor_inv_AddPending [OF _ nxt nn]) (simp add: commit_inv_def)
  moreover have "0 < n \<and> n = acked_to (fst acks') l + 1"
  proof -
    have ref: "ack_refines (fst acks, snd acks) l" "\<forall>a. ac_Offset (fst acks a) < maxInt64"
      using inv by (simp_all add: commit_inv_def)
    have "n = log_CommitOffset (fst acks) l" using n nn spec(2) by simp
    with nn log_CommitOffset_acked_to [OF ref] acked_to_same [OF spec(4), of l] show ?thesis
      by (auto simp: nilCursorOffset_def split: if_splits)
  qed
  ultimately show "commit_inv acks' (AddPending n ct) (sent @ [n]) l"
    using inv' by (auto simp: commit_inv_def AddPending_def)
qed


section \<open>Every operation keeps it\<close>

lemma takeWhile_extends: "(\<And>x. P x \<Longrightarrow> Q x) \<Longrightarrow> \<exists>ys. takeWhile Q xs = takeWhile P xs @ ys"
  by (induction xs) auto

lemma takeWhile_snoc_extends: "\<exists>ys. takeWhile P (xs @ [x]) = takeWhile P xs @ ys"
  by (induction xs) auto

lemma commit_inv_Ack:
  assumes "commit_inv (h, at) ct sent l"
  shows "commit_inv (fst (ackConsumer_Ack a h), at) ct sent l"
proof -
  let ?h' = "fst (ackConsumer_Ack a h)"
  have ref: "ack_refines (h, at) l" and ref': "ack_refines (?h', at) l"
    using assms ack_refines_Ack by (auto simp: commit_inv_def)
  have "\<exists>ys. acked_prefix ?h' (al_log l) = acked_prefix h (al_log l) @ ys"
    unfolding acked_prefix_def by (rule takeWhile_extends) simp
  then obtain ys where "acked_prefix ?h' (al_log l) = acked_prefix h (al_log l) @ ys" ..
  moreover have "last_offset ?h' xs = last_offset h xs" for xs by (simp add: last_offset_def)
  ultimately have "acked_to h l \<le> acked_to ?h' l"
    using acked_to_mono [OF ref'] by (simp add: acked_to_def)
  then show ?thesis using assms ref' by (fastforce simp: commit_inv_def)
qed

lemma commit_inv_Push:
  assumes "commit_inv acks ct sent l"
  shows "\<exists>l'. commit_inv (fst (ackTracker_Push a acks)) ct sent l'"
proof -
  obtain h at where acks: "acks = (h, at)" by (cases acks)
  obtain s' e where push: "ackTracker_Push a (h, at) = (s', e)" by fastforce
  have ref: "ack_refines (h, at) l" using assms by (simp add: commit_inv_def acks)
  define l' where "l' = fst (log_Push a h l)"
  have ref': "ack_refines s' l'" and same: "same_acks h (fst s')"
    using ack_refines_Push [OF ref push] by (simp_all add: l'_def)
  have "\<exists>ys. acked_prefix h (al_log l') = acked_prefix h (al_log l) @ ys"
    using takeWhile_snoc_extends by (auto simp: l'_def log_Push_def acked_prefix_def)
  then obtain ys where "acked_prefix h (al_log l') = acked_prefix h (al_log l) @ ys" ..
  moreover have "ack_refines (h, snd s') l'"
    using ref' same by (cases s') (simp add: ack_refines_def same_acksD)
  ultimately have "acked_to h l \<le> acked_to h l'"
    using acked_to_mono by (fastforce simp: acked_to_def)
  then show ?thesis
    using assms ref' same_offsets [OF same] acked_to_same [OF same, of l'] push
    by (intro exI [of _ l']) (fastforce simp: commit_inv_def acks)
qed

lemma commit_inv_Release:
  assumes "commit_inv acks ct sent l"
  shows "commit_inv (ackTracker_Release acks) ct sent (log_Release (fst acks) l)"
proof -
  obtain h at where acks: "acks = (h, at)" by (cases acks)
  have ref: "ack_refines (h, at) l" using assms by (simp add: commit_inv_def acks)
  note rel = ack_refines_Release [OF ref]
  have "acked_to h (log_Release h l) = acked_to h l"
    by (simp add: acked_to_def log_Release_def acked_prefix_def)
  then have "acked_to (fst (ackTracker_Release (h, at))) (log_Release h l) = acked_to h l"
    using acked_to_same [OF conjunct2 [OF rel]] by simp
  with rel assms same_offsets [of h "fst (ackTracker_Release (h, at))"] show ?thesis
    by (simp add: commit_inv_def acks)
qed

lemma commit_inv_Reset:
  assumes "commit_inv acks ct sent l" and "commitCursorTracker_Reset (acks, ct) = (acks', ct')"
  shows "commit_inv acks' ct' sent log_Reset"
  using assms ack_refines_Reset [of acks] same_offsets [of "fst acks" "fst acks'"]
  by (auto simp: commit_inv_def commitCursorTracker_Reset_def cursor_inv_def)

lemma commit_inv_Confirm:
  assumes "commit_inv acks ct sent l"
  shows "commit_inv acks (fst (ConfirmOffsets k ct)) sent l"
proof -
  have "\<exists>ys. pendingOffsets ct = ys @ pendingOffsets (fst (ConfirmOffsets k ct))"
    by (cases "int (length (pendingOffsets ct)) < k")
      (auto simp: ConfirmOffsets_def confirm_loop_eq intro!: exI [of _ "take (nat k) (pendingOffsets ct)"])
  then obtain ys where "pendingOffsets ct = ys @ pendingOffsets (fst (ConfirmOffsets k ct))" ..
  with assms cursor_inv_ConfirmOffsets [of ct k] show ?thesis by (auto simp: commit_inv_def)
qed

lemma commit_inv_Clear:
  "commit_inv acks ct sent l \<Longrightarrow> commit_inv acks (ClearPending ct) [] l"
  by (auto simp: commit_inv_def ClearPending_def cursor_inv_def)

lemma sent_fields [simp]:
  "rs_sent (unsafeTerminate e rs) = rs_sent rs"
  "rs_sent (retryableStream_Stop rs) = rs_sent rs"
  "rs_sent (retryableStream_Start rs) = rs_sent rs"
  "rs_sent (fst (canReconnect rs)) = rs_sent rs"
  by (simp_all add: unsafeTerminate_def retryableStream_Stop_def retryableStream_Start_def canReconnect_def)

lemma Send_sent:
  "retryableStream_Send SendMsg r rs = (rs', ok) \<Longrightarrow> rs_sent rs' = rs_sent rs @ (if ok then [r] else [])"
  by (auto simp: retryableStream_Send_def Let_def split: option.splits if_splits)

abbreviation cm_commit_inv :: "'f committer \<Rightarrow> ackLog \<Rightarrow> bool" where
  "cm_commit_inv c l \<equiv> commit_inv (cm_acks c) (cm_cursorTracker c) (rs_sent (cm_stream c)) l"

lemma commit_inv_commitOffset:
  assumes "cm_commit_inv c l"
  shows "cm_commit_inv (unsafeCommitOffsetToStream SendMsg c) l"
proof (cases "cm_enableCommits c")
  case True
  obtain acks n where nxt: "commitCursorTracker_NextOffset (cm_acks c) (cm_cursorTracker c) = (acks, n)"
    by fastforce
  obtain st sent where snd: "retryableStream_Send SendMsg n (cm_stream c) = (st, sent)" by fastforce
  note spec = commit_inv_Next [OF assms nxt]
  show ?thesis
    using True nxt snd spec Send_sent [OF snd]
    by (simp add: unsafeCommitOffsetToStream_def Let_def)
qed (use assms in \<open>simp add: unsafeCommitOffsetToStream_def\<close>)

lemma commit_inv_checkDone:
  assumes "cm_commit_inv c l"
  shows "cm_commit_inv (committer_unsafeCheckDone c) l"
proof -
  obtain acks r where co: "ackTracker_CommitOffset (cm_acks c) = (acks, r)" by fastforce
  show ?thesis
    using commit_inv_CommitOffset(1) [OF assms co]
    by (simp add: committer_unsafeCheckDone_def UpToDate_def co Let_def flush_broadcast_def
        committer_unsafeOnTerminated_def)
qed

lemma cm_updateStatus_fields [simp]:
  "cm_acks (fst (cm_updateStatus t e c)) = cm_acks c"
  "cm_cursorTracker (fst (cm_updateStatus t e c)) = cm_cursorTracker c"
  "cm_stream (fst (cm_updateStatus t e c)) = cm_stream c"
  "cm_enableCommits (fst (cm_updateStatus t e c)) = cm_enableCommits c"
  "cm_status (fst (cm_updateStatus t e c)) = max (cm_status c) t"
  "snd (cm_updateStatus t e c) \<longleftrightarrow> cm_status c < t"
  using unsafeUpdateStatus_status [of t e "cm_service c"] unsafeUpdateStatus_ret [of t e "cm_service c"]
  by (simp_all add: cm_updateStatus_def case_prod_beta)

lemma cm_inv_shutdown:
  assumes "cm_inv c"
  shows "cm_inv (committer_unsafeInitiateShutdown SendMsg t e c)"
proof -
  obtain l where inv: "cm_commit_inv c l" using assms by (auto simp: cm_inv_def)
  obtain c1 ok where u: "cm_updateStatus t (wrapError ''committer'' (cm_subscription c) e) c = (c1, ok)"
    by fastforce
  have f: "cm_acks c1 = cm_acks c" "cm_cursorTracker c1 = cm_cursorTracker c" "cm_stream c1 = cm_stream c"
    using cm_updateStatus_fields [of t "wrapError ''committer'' (cm_subscription c) e" c] u by simp_all
  let ?c2 = "flush_broadcast c1"
  have c1: "cm_commit_inv c1 l" and c2: "cm_commit_inv ?c2 l"
    using inv f by (simp_all add: flush_broadcast_def)
  have "cm_inv (committer_unsafeCheckDone c1)" using commit_inv_checkDone [OF c1] by (auto simp: cm_inv_def)
  moreover have "cm_inv (committer_unsafeCheckDone (unsafeCommitOffsetToStream SendMsg ?c2))"
    using commit_inv_checkDone [OF commit_inv_commitOffset [OF c2]] by (auto simp: cm_inv_def)
  moreover have "cm_inv (committer_unsafeOnTerminated (?c2\<lparr>cm_acks := ackTracker_Release (cm_acks ?c2)\<rparr>))"
    using commit_inv_Release [OF c2] by (auto simp: cm_inv_def committer_unsafeOnTerminated_def)
  ultimately show ?thesis by (simp add: committer_unsafeInitiateShutdown_def u Let_def)
qed


lemma cm_inv_commitOffset: "cm_inv c \<Longrightarrow> cm_inv (unsafeCommitOffsetToStream SendMsg c)"
  unfolding cm_inv_def using commit_inv_commitOffset by blast

lemma cm_inv_checkDone: "cm_inv c \<Longrightarrow> cm_inv (committer_unsafeCheckDone c)"
  unfolding cm_inv_def using commit_inv_checkDone by blast

lemma cm_inv_release: "cm_inv c \<Longrightarrow> cm_inv (c\<lparr>cm_acks := ackTracker_Release (cm_acks c)\<rparr>)"
  unfolding cm_inv_def using commit_inv_Release by fastforce

lemma cm_inv_round:
  assumes "cm_inv c"
  shows "cm_inv (fst (BlockingReset_round SendMsg c))"
proof -
  obtain l where inv: "cm_commit_inv c l" using assms by (auto simp: cm_inv_def)
  obtain acks r where co: "ackTracker_CommitOffset (cm_acks c) = (acks, r)" by fastforce
  have 1: "cm_commit_inv (c\<lparr>cm_acks := acks\<rparr>) l" using commit_inv_CommitOffset(1) [OF inv co] by simp
  have 2: "cm_inv (unsafeCommitOffsetToStream SendMsg (c\<lparr>cm_acks := acks\<rparr>))"
    using 1 by (intro cm_inv_commitOffset) (auto simp: cm_inv_def)
  obtain acks' ct where rs: "commitCursorTracker_Reset (acks, cm_cursorTracker c) = (acks', ct)" by fastforce
  have "commit_inv acks' ct (rs_sent (cm_stream c)) log_Reset"
    using commit_inv_Reset [OF _ rs] 1 by simp
  with 1 2 rs show ?thesis
    by (auto simp: BlockingReset_round_def UpToDate_def co Let_def cm_inv_def)
qed

lemma cm_inv_reconnecting:
  "cm_inv c \<Longrightarrow> cm_inv (committer_onStreamStatusChange SendMsg streamReconnecting c)"
  by (simp add: committer_onStreamStatusChange_def cm_inv_def)

lemma cm_inv_terminated:
  "cm_inv c \<Longrightarrow> cm_inv (committer_onStreamStatusChange SendMsg streamTerminated c)"
  by (simp add: committer_onStreamStatusChange_def cm_inv_shutdown)

lemma cm_inv_response:
  assumes "cm_inv c"
  shows "cm_inv (committer_onResponse SendMsg r c)"
proof -
  have conf: "cm_inv (c\<lparr>cm_cursorTracker := fst (ConfirmOffsets k (cm_cursorTracker c))\<rparr>)" for k
    using assms commit_inv_Confirm by (fastforce simp: cm_inv_def)
  have "cm_inv (fst (committer_processResponse r c))"
  proof (cases r)
    case (CommitAcknowledged k)
    then show ?thesis using assms conf [of k] cm_inv_checkDone [OF conf [of k]]
      by (auto simp: committer_processResponse_def split: prod.split option.split)
  qed (simp_all add: committer_processResponse_def assms)
  then show ?thesis
    by (auto simp: committer_onResponse_def cm_inv_shutdown split: prod.split option.split)
qed

lemma cm_inv_step:
  assumes "cm_inv c"
  shows "cm_inv (committer_step SendMsg e c)"
proof (cases e)
  case CmStart
  then show ?thesis using assms
    by (simp add: committer_Start_def cm_inv_def case_prod_beta)
next
  case CmReconnecting
  moreover have "cm_inv (c\<lparr>cm_stream := fst (canReconnect (cm_stream c))\<rparr>)"
    using assms by (simp add: cm_inv_def)
  ultimately show ?thesis using assms by (simp add: case_prod_beta cm_inv_reconnecting)
next
  case (CmConnected now sid)
  show ?thesis
  proof (cases "rs_status (cm_stream c) = streamTerminated")
    case True
    then show ?thesis using CmConnected assms by (simp add: connected_def cm_inv_def)
  next
    case False
    obtain st where st: "connected now sid (cm_stream c) = (st, True)" and sent: "rs_sent st = []"
      using False by (simp add: connected_def)
    obtain l where "cm_commit_inv c l" using assms by (auto simp: cm_inv_def)
    from commit_inv_Clear [OF this]
    have "cm_inv (unsafeCommitOffsetToStream SendMsg
      ((fst (cm_updateStatus serviceActive None (c\<lparr>cm_stream := st, cm_enableCommits := True\<rparr>)))
        \<lparr>cm_cursorTracker := ClearPending (cm_cursorTracker c)\<rparr>))"
      by (intro cm_inv_commitOffset) (auto simp: cm_inv_def sent)
    then show ?thesis
      by (simp add: CmConnected st committer_onStreamStatusChange_def Let_def cm_inv_def)
  qed
next
  case (CmPush a)
  then show ?thesis using assms commit_inv_Push by (fastforce simp: cm_inv_def)
next
  case (CmAck a)
  then show ?thesis using assms commit_inv_Ack [of "fst (cm_acks c)" "snd (cm_acks c)"]
    by (fastforce simp: cm_inv_def)
next
  case (CmBroken err)
  then show ?thesis using assms by (simp add: cm_inv_def)
qed (use assms in \<open>simp_all add: committer_Stop_def committer_Terminate_def BlockingReset_begin_def
        commitOffsetToStream_def cm_inv_shutdown cm_inv_release cm_inv_round cm_inv_commitOffset
        cm_inv_response cm_inv_terminated\<close>)

lemma cm_inv_run: "cm_inv c \<Longrightarrow> cm_inv (committer_run SendMsg es c)"
  unfolding committer_run_def by (induction es arbitrary: c) (simp_all add: cm_inv_step)

lemma cm_inv_new:
  "\<forall>a. ac_Offset (h a) < maxInt64 \<Longrightarrow> cm_inv (newCommitter sub timeout (h, newAckTracker))"
  by (auto simp: cm_inv_def newCommitter_def commit_inv_def ack_refines_new newCommitCursorTracker_def
      cursor_inv_def newRetryableStream_def intro!: exI [of _ log_Reset])


section \<open>Commits are safe\<close>

lemma acked_to_less_unacked:
  assumes "ack_refines (h, at) l" and "a \<in> set (outstandingAcks at)" and "\<not> ac_acked (h a)"
  shows "acked_to h l < ac_Offset (h a)"
proof -
  let ?pre = "acked_prefix h (al_log l)" and ?rest = "dropWhile (\<lambda>a. ac_acked (h a)) (al_log l)"
  have l: "al_log l = ?pre @ ?rest" by (simp add: acked_prefix_def)
  have a: "a \<in> set (al_log l)" using assms(1,2) by (auto simp: ack_refines_def)
  have "a \<notin> set ?pre" using assms(3) by (auto simp: acked_prefix_def dest: set_takeWhileD)
  with a have r: "a \<in> set ?rest" by (metis Un_iff l set_append)
  show ?thesis
  proof (cases "?pre = []")
    case True
    then show ?thesis using ack_refines_positive [OF assms(1) a] by (simp add: acked_to_def last_offset_def)
  next
    case False
    have "strict_sorted_by (\<lambda>a. ac_Offset (h a)) (?pre @ ?rest)"
      using ack_refines_sorted [OF assms(1)] l by simp
    then show ?thesis using False r last_in_set [OF False]
      by (auto simp: acked_to_def last_offset_def sorted_wrt_append)
  qed
qed

definition unacked :: "'f committer \<Rightarrow> addr set" where
  "unacked c = {a \<in> set (outstandingAcks (snd (cm_acks c))). \<not> ac_acked (fst (cm_acks c) a)}"

lemma cm_inv_pending:
  assumes "cm_inv c" "p \<in> set (pendingOffsets (cm_cursorTracker c))" "a \<in> unacked c"
  shows "p \<le> ac_Offset (fst (cm_acks c) a)"
proof -
  obtain l where "cm_commit_inv c l" using assms(1) by (auto simp: cm_inv_def)
  then have "ack_refines (fst (cm_acks c), snd (cm_acks c)) l" "p \<le> acked_to (fst (cm_acks c)) l + 1"
    using assms(2) by (auto simp: commit_inv_def)
  with acked_to_less_unacked [of "fst (cm_acks c)" "snd (cm_acks c)" l a] assms(3) show ?thesis
    by (simp add: unacked_def)
qed

text \<open>C9: Over any run of the committer, interleaved with deliveries, acknowledgements, resets,
  reconnections and responses, commits are safe: the commits in flight are exactly the last
  requests sent on the current stream, in strictly increasing order above the confirmed
  offset, and none lies beyond the offset of an outstanding message the user has not
  acknowledged.\<close>

theorem committer_commits_safe:
  assumes "\<forall>a. ac_Offset (h a) < maxInt64"
    and "c = committer_run SendMsg es (newCommitter sub timeout (h, newAckTracker))"
  shows "(\<exists>answered. rs_sent (cm_stream c) = answered @ pendingOffsets (cm_cursorTracker c))
       \<and> sorted_wrt (<) (lastConfirmedOffset (cm_cursorTracker c) # pendingOffsets (cm_cursorTracker c))
       \<and> (\<forall>p\<in>set (pendingOffsets (cm_cursorTracker c)). \<forall>a\<in>unacked c. p \<le> ac_Offset (fst (cm_acks c) a))"
proof -
  have inv: "cm_inv c" using cm_inv_run [OF cm_inv_new [OF assms(1)]] assms(2) by simp
  then show ?thesis
    using cm_inv_pending [OF inv] unfolding cm_inv_def commit_inv_def cursor_inv_def by blast
qed

text \<open>A run: two messages at offsets 10 and 20 are delivered and the first acknowledged; once
  connected, the committer sends a commit of 11.\<close>

definition example_events :: "commitEvent list" where
  "example_events = [CmStart, CmPush 1, CmPush 2, CmAck 1, CmReconnecting, CmConnected 0 0]"

definition example_store :: "nat ackHeap" where
  "example_store = (\<lambda>a. newAckConsumer (if a \<le> 2 then int a * 10 else 0) 5 None)"

definition example_committer :: "nat committer" where
  "example_committer = committer_run (\<lambda>_ _. None) example_events
     (newCommitter ''s/0'' 60 (example_store, newAckTracker))"

lemmas committer_example_simps = committer_run_def example_events_def example_store_def newCommitter_def committer_Start_def cm_updateStatus_def
  unsafeUpdateStatus_def new_abstractService_def status_order Let_def newRetryableStream_def
  retryableStream_Start_def go_def ackTracker_Push_def newAckConsumer_def newAckTracker_def nilCursorOffset_def
  ackConsumer_Ack_def canReconnect_def unsafeClearStream_def committer_onStreamStatusChange_def connected_def
  unsafeCommitOffsetToStream_def commitCursorTracker_NextOffset_def ackTracker_CommitOffset_def
  unsafeProcessAcks_def IsAcked_def ackConsumer_Clear_def ClearPending_def newCommitCursorTracker_def
  extractOffsetFromElem_def list_Back_def retryableStream_Send_def AddPending_def wrap64_def int64_defs

lemma example_committer_fields:
  "rs_sent (cm_stream example_committer) = [11]" "pendingOffsets (cm_cursorTracker example_committer) = [11]"
  "lastConfirmedOffset (cm_cursorTracker example_committer) = -1"
  "outstandingAcks (snd (cm_acks example_committer)) = [2]"
  "ac_Offset (fst (cm_acks example_committer) 2) = 20"
  "\<not> ac_acked (fst (cm_acks example_committer) 2)"
  "cm_status example_committer = serviceActive"
  "rs_status (cm_stream example_committer) = streamConnected"
  by (simp_all add: example_committer_def committer_example_simps)


theorem committer_commits_safe_witness:
  "pendingOffsets (cm_cursorTracker example_committer) = [11] \<and> 2 \<in> unacked example_committer
 \<and> 11 \<le> ac_Offset (fst (cm_acks example_committer) 2)"
proof -
  have "\<forall>a. ac_Offset (example_store a) < maxInt64"
    by (simp add: example_store_def newAckConsumer_def int64_defs)
  moreover have "2 \<in> unacked example_committer"
    by (simp add: unacked_def example_committer_fields)
  ultimately show ?thesis
    using committer_commits_safe [OF _ example_committer_def] by (auto simp: example_committer_fields(2))
qed

section \<open>Shutdown and reset are clean\<close>

text \<open>The stream was closed by the committer itself, without an error.\<close>

definition closed :: "'req retryableStream \<Rightarrow> bool" where
  "closed rs \<longleftrightarrow> rs_status rs = streamTerminated \<and> rs_finalErr rs = None"

text \<open>Nothing is left to do: no message waits for its acknowledgement, no commit for its
  confirmation, and the server has confirmed the offset after the acknowledged messages.\<close>

definition settled :: "'f committer \<Rightarrow> bool" where
  "settled c \<longleftrightarrow> outstandingAcks (snd (cm_acks c)) = [] \<and> pendingOffsets (cm_cursorTracker c) = []
     \<and> snd (ackTracker_CommitOffset (cm_acks c)) \<le> lastConfirmedOffset (cm_cursorTracker c)"

lemma UpToDate_settled:
  assumes "commit_inv acks ct sent l" and "UpToDate acks ct = (acks', True)"
  shows "outstandingAcks (snd acks') = []" and "pendingOffsets ct = []"
    and "snd (ackTracker_CommitOffset acks') \<le> lastConfirmedOffset ct"
    and "commit_inv acks' ct sent l"
proof -
  obtain r where co: "ackTracker_CommitOffset acks = (acks', r)" and r: "r \<le> lastConfirmedOffset ct"
    and empty: "ackTracker_Empty acks'"
    using assms(2) by (auto simp: UpToDate_def split: prod.splits)
  note spec = commit_inv_CommitOffset [OF assms(1) co]
  show "outstandingAcks (snd acks') = []" using empty by (simp add: ackTracker_Empty_def)
  show inv': "commit_inv acks' ct sent l" by (rule spec(1))
  obtain acks'' r' where co': "ackTracker_CommitOffset acks' = (acks'', r')" by fastforce
  have "r' = r" using commit_inv_CommitOffset(2) [OF inv' co'] spec(2,4) by (simp add: same_acksD)
  with r co' show "snd (ackTracker_CommitOffset acks') \<le> lastConfirmedOffset ct" by simp
  have ref: "ack_refines (fst acks, snd acks) l" "\<forall>a. ac_Offset (fst acks a) < maxInt64"
    using assms(1) by (simp_all add: commit_inv_def)
  have "False" if "p \<in> set (pendingOffsets ct)" for p
  proof -
    have p: "0 < p" "p \<le> acked_to (fst acks) l + 1" "lastConfirmedOffset ct < p"
      using assms(1) that by (auto simp: commit_inv_def cursor_inv_def)
    with r spec(2) log_CommitOffset_acked_to [OF ref] show False
      by (simp add: nilCursorOffset_def split: if_splits)
  qed
  then show "pendingOffsets ct = []" by (cases "pendingOffsets ct") auto
qed

lemma terminate_closed [simp]: "closed (unsafeTerminate (Some e) rs) \<longleftrightarrow> closed rs"
  by (simp add: closed_def unsafeTerminate_def)

lemma Send_closed [simp]: "closed (fst (retryableStream_Send SendMsg r rs)) = closed rs"
proof -
  have "closed (rs\<lparr>rs_sends := n\<rparr>) = closed rs" "closed (rs\<lparr>rs_sends := n, rs_sent := x\<rparr>) = closed rs"
    "closed (go g (rs\<lparr>rs_sends := n\<rparr>)) = closed rs" for n x g
    by (simp_all add: closed_def)
  then show ?thesis
    by (simp add: retryableStream_Send_def Let_def split: option.splits)
qed

lemma commitOffset_closed: "closed (cm_stream (unsafeCommitOffsetToStream SendMsg c)) = closed (cm_stream c)"
  by (simp add: unsafeCommitOffsetToStream_def Let_def case_prod_beta)

lemma commitOffset_status [simp]: "cm_service (unsafeCommitOffsetToStream SendMsg c) = cm_service c"
  by (simp add: unsafeCommitOffsetToStream_def Let_def split: prod.split)

lemma checkDone_status [simp]: "cm_service (committer_unsafeCheckDone c) = cm_service c"
  by (simp add: committer_unsafeCheckDone_def Let_def flush_broadcast_def committer_unsafeOnTerminated_def
      split: prod.split)

lemma checkDone_settled:
  assumes "cm_inv c" "\<not> closed (cm_stream c)" "closed (cm_stream (committer_unsafeCheckDone c))"
  shows "settled (committer_unsafeCheckDone c)"
proof -
  obtain acks up where u: "UpToDate (cm_acks c) (cm_cursorTracker c) = (acks, up)" by fastforce
  have up: up using assms(2,3) by (auto simp: committer_unsafeCheckDone_def u Let_def split: if_splits)
  obtain l where "cm_commit_inv c l" using assms(1) by (auto simp: cm_inv_def)
  from UpToDate_settled [OF this] u up show ?thesis
    by (simp add: committer_unsafeCheckDone_def Let_def flush_broadcast_def
        committer_unsafeOnTerminated_def settled_def)
qed

lemma shutdown_status [simp]:
  "cm_status (committer_unsafeInitiateShutdown SendMsg t e c) = max (cm_status c) t"
proof -
  have "as_status (fst (unsafeUpdateStatus t x (cm_service c))) = max (cm_status c) t" for x by simp
  then show ?thesis
    by (auto simp: committer_unsafeInitiateShutdown_def cm_updateStatus_def Let_def flush_broadcast_def
        committer_unsafeOnTerminated_def case_prod_beta)
qed

lemma shutdown_settled:
  assumes "cm_inv c" "\<not> closed (cm_stream c)"
    and "closed (cm_stream (committer_unsafeInitiateShutdown SendMsg t e c))"
    and "cm_status (committer_unsafeInitiateShutdown SendMsg t e c) = serviceTerminating"
  shows "settled (committer_unsafeInitiateShutdown SendMsg t e c)"
proof -
  obtain c1 ok where u: "cm_updateStatus t (wrapError ''committer'' (cm_subscription c) e) c = (c1, ok)"
    by fastforce
  have f: "cm_acks c1 = cm_acks c" "cm_cursorTracker c1 = cm_cursorTracker c" "cm_stream c1 = cm_stream c"
    "ok \<longleftrightarrow> cm_status c < t"
    using cm_updateStatus_fields [of t "wrapError ''committer'' (cm_subscription c) e" c] u by simp_all
  have inv: "cm_inv c1" "cm_inv (flush_broadcast c1)"
    using assms(1) f by (simp_all add: cm_inv_def flush_broadcast_def)
  have t: "ok \<longrightarrow> t = serviceTerminating" using assms(4) f(4) by (auto simp: max_def split: if_splits)
  define c2 where "c2 = unsafeCommitOffsetToStream SendMsg (flush_broadcast c1)"
  have eq: "committer_unsafeInitiateShutdown SendMsg t e c =
      (if ok then committer_unsafeCheckDone c2 else committer_unsafeCheckDone c1)"
    using t by (simp add: committer_unsafeInitiateShutdown_def u Let_def c2_def)
  have "cm_inv c2" "\<not> closed (cm_stream c2)" "\<not> closed (cm_stream c1)"
    using cm_inv_commitOffset [OF inv(2)] assms(2) f by (simp_all add: c2_def commitOffset_closed flush_broadcast_def)
  then show ?thesis using checkDone_settled inv(1) assms(3) unfolding eq by (simp split: if_splits)
qed


lemma response_settled:
  assumes "cm_inv c" "\<not> closed (cm_stream c)" "closed (cm_stream (committer_onResponse SendMsg r c))"
    and "cm_status (committer_onResponse SendMsg r c) = serviceTerminating"
  shows "settled (committer_onResponse SendMsg r c)"
proof -
  obtain c1 e where p: "committer_processResponse r c = (c1, e)" by fastforce
  have e: "e = None"
    using assms(4) by (cases e) (auto simp: committer_onResponse_def p max_def split: if_splits)
  then obtain k ct where r: "r = CommitAcknowledged k" "ConfirmOffsets k (cm_cursorTracker c) = (ct, None)"
    and c1: "c1 = committer_unsafeCheckDone (c\<lparr>cm_cursorTracker := ct\<rparr>)"
    using p by (auto simp: committer_processResponse_def split: commitResponse.splits if_splits prod.splits option.splits)
  have "cm_inv (c\<lparr>cm_cursorTracker := ct\<rparr>)"
    using assms(1) commit_inv_Confirm [of "cm_acks c" "cm_cursorTracker c" "rs_sent (cm_stream c)" _ k] r(2)
    by (auto simp: cm_inv_def)
  with checkDone_settled [OF this] assms(2,3) show ?thesis
    by (simp add: committer_onResponse_def p e c1)
qed

text \<open>C21: A graceful shutdown loses no commit: whenever a step of a committer closes its stream
  without an error while the committer is terminating, every delivered message still tracked
  has been acknowledged, no commit is in flight, and the server has confirmed the offset after
  the acknowledged messages.\<close>

theorem committer_graceful_close:
  assumes "\<forall>a. ac_Offset (h a) < maxInt64"
    and "c = committer_run SendMsg es (newCommitter sub timeout (h, newAckTracker))"
    and "c' = committer_step SendMsg e c"
    and "\<not> closed (cm_stream c)" "closed (cm_stream c')" "cm_status c' = serviceTerminating"
  shows "settled c'"
proof -
  have inv: "cm_inv c" using cm_inv_run [OF cm_inv_new [OF assms(1)]] assms(2) by simp
  show ?thesis
  proof (cases e)
    case CmStop
    then show ?thesis using shutdown_settled [OF inv assms(4)] assms(3,5,6) by (simp add: committer_Stop_def)
  next
    case CmTerminate
    then show ?thesis using shutdown_settled [OF cm_inv_release [OF inv]] assms(3-6)
      by (simp add: committer_Terminate_def)
  next
    case (CmResponse r)
    then show ?thesis using response_settled [OF inv assms(4)] assms(3,5,6) by simp
  next
    case CmTerminatedNotice
    have "serviceTerminated \<le> cm_status c'" if "rs_status (cm_stream c) = streamTerminated"
      using that CmTerminatedNotice assms(3) by (simp add: committer_onStreamStatusChange_def max_def)
    then show ?thesis using assms(3-6) CmTerminatedNotice by (auto split: if_splits)
  next
    case (CmConnected now sid)
    have "\<not> closed (fst (connected now sid (cm_stream c)))"
      using assms(4) by (auto simp: connected_def closed_def)
    then show ?thesis using CmConnected assms(3-5)
      by (auto simp: case_prod_beta committer_onStreamStatusChange_def Let_def commitOffset_closed
          split: if_splits)
  next
    case CmReconnecting
    then show ?thesis using assms(3-5)
      by (auto simp: canReconnect_def committer_onStreamStatusChange_def closed_def split: if_splits)
  next
    case CmStart
    then show ?thesis using assms(3-5)
      by (auto simp: committer_Start_def case_prod_beta closed_def retryableStream_Start_def split: if_splits)
  next
    case CmResetRound
    then show ?thesis using assms(3-5)
      by (auto simp: BlockingReset_round_def Let_def case_prod_beta commitOffset_closed split: if_splits)
  qed (use assms(3-5) in \<open>auto simp: BlockingReset_begin_def commitOffsetToStream_def commitOffset_closed\<close>)
qed


text \<open>In the example the user acknowledges the second message, the committer is stopped, commits
  21 and, when the server confirms both commits, closes its stream.\<close>

lemma example_close_fields:
  "let es = example_events @ [CmAck 2, CmStop];
       c = committer_run (\<lambda>_ _. None) es (newCommitter ''s/0'' 60 (example_store, newAckTracker));
       c' = committer_step (\<lambda>_ _. None) (CmResponse (CommitAcknowledged 2)) c
   in \<not> closed (cm_stream c) \<and> closed (cm_stream c') \<and> cm_status c' = serviceTerminating"
  by (simp add: committer_example_simps committer_Stop_def committer_unsafeInitiateShutdown_def wrapError_def
      flush_broadcast_def committer_unsafeCheckDone_def UpToDate_def ackTracker_Empty_def closed_def
      committer_onResponse_def committer_processResponse_def ConfirmOffsets_def numeral_2_eq_2 list_Front_def
      committer_unsafeOnTerminated_def retryableStream_Stop_def unsafeTerminate_def)


lemma example_store_small: "\<forall>a. ac_Offset (example_store a) < maxInt64"
  by (simp add: example_store_def newAckConsumer_def int64_defs)

theorem committer_graceful_close_witness:
  "settled (committer_step (\<lambda>_ _. None) (CmResponse (CommitAcknowledged 2))
     (committer_run (\<lambda>_ _. None) (example_events @ [CmAck 2, CmStop])
       (newCommitter ''s/0'' 60 (example_store, newAckTracker))))"
  using example_close_fields
  by (intro committer_graceful_close [OF example_store_small refl refl]) (simp_all add: Let_def)

text \<open>A reset of the committer is clean: when \<^verbatim>\<open>BlockingReset\<close> returns without an error, no
  commit was in flight and no message outstanding, so no later response of the server can
  concern a commit from before the reset, and both trackers are as new.\<close>

theorem BlockingReset_clean:
  assumes "\<forall>a. ac_Offset (h a) < maxInt64"
    and "c = committer_run SendMsg es (newCommitter sub timeout (h, newAckTracker))"
    and "BlockingReset_round SendMsg c = (c', Some None)"
  shows "pendingOffsets (cm_cursorTracker c) = [] \<and> cm_cursorTracker c' = newCommitCursorTracker
       \<and> snd (cm_acks c') = newAckTracker \<and> cm_status c < serviceTerminating"
proof -
  have "cm_inv c" using cm_inv_run [OF cm_inv_new [OF assms(1)]] assms(2) by simp
  then obtain l where inv: "cm_commit_inv c l" by (auto simp: cm_inv_def)
  obtain acks up where u: "UpToDate (cm_acks c) (cm_cursorTracker c) = (acks, up)" by fastforce
  have up: up and st: "cm_status c < serviceTerminating"
    using assms(3) by (auto simp: BlockingReset_round_def u Let_def split: if_splits prod.splits)
  from UpToDate_settled [OF inv] u up have "pendingOffsets (cm_cursorTracker c) = []" by simp
  moreover have "cm_cursorTracker c' = newCommitCursorTracker \<and> snd (cm_acks c') = newAckTracker"
    using assms(3) up st
    by (auto simp: BlockingReset_round_def u Let_def commitCursorTracker_Reset_def newCommitCursorTracker_def
        ackTracker_Reset_def unsafeClearAcks_def newAckTracker_def split: prod.splits if_splits)
  ultimately show ?thesis using st by simp
qed

theorem BlockingReset_clean_witness:
  "pendingOffsets (cm_cursorTracker (newCommitter ''s/0'' 60 (example_store, newAckTracker))) = []
   \<and> cm_status (newCommitter ''s/0'' 60 (example_store, newAckTracker)) < serviceTerminating"
proof -
  define c where "c = committer_run (\<lambda>_ _. None) [] (newCommitter ''s/0'' 60 (example_store, newAckTracker))"
  have "snd (BlockingReset_round (\<lambda>_ _. None) c) = Some None"
    by (simp add: c_def BlockingReset_round_def UpToDate_def ackTracker_Empty_def commitCursorTracker_Reset_def
        committer_example_simps)
  then obtain c' where "BlockingReset_round (\<lambda>_ _. None) c = (c', Some None)" by (metis prod.collapse)
  from BlockingReset_clean [OF example_store_small c_def this] show ?thesis
    by (simp add: c_def committer_run_def)
qed

section \<open>The committer is a service\<close>

definition committer_ops :: "(nat \<Rightarrow> nat \<Rightarrow> wire_error option) \<Rightarrow> 'f committer service_ops" where
  "committer_ops SendMsg =
     \<lparr>svc_Start = committer_Start,
      svc_Stop = committer_Stop SendMsg,
      svc_AddStatusChangeReceiver = (\<lambda>h f c. c\<lparr>cm_service := AddStatusChangeReceiver h f (cm_service c)\<rparr>),
      svc_RemoveStatusChangeReceiver = (\<lambda>h c. c\<lparr>cm_service := RemoveStatusChangeReceiver h (cm_service c)\<rparr>),
      svc_Status = cm_status\<rparr>"

lemma committer_Start_status [simp]: "cm_status (committer_Start c) = max (cm_status c) serviceStarting"
  by (simp add: committer_Start_def case_prod_beta)

interpretation committer_service: service_contract "committer_ops SendMsg"
  by unfold_locales
    (auto simp: committer_ops_def committer_Stop_def AddStatusChangeReceiver_def
      RemoveStatusChangeReceiver_def le_max_iff_disj less_max_iff_disj)

end
