(* ===== verification/Wire_Flow.thy ===== *)
theory Wire_Flow
  imports Wire_Errors
begin

text \<open>
  Flow control of the Pub/Sub Lite subscriber
  (\<^verbatim>\<open>pubsublite/internal/wire/flow_control.go\<close>): token counters with saturating
  addition on 64-bit integers, the batcher that decides which tokens to send to the
  server, and the tracker of the next expected message offset.  The lemmas show that no
  counter ever wraps around, that the tokens the server holds are always the client's
  tokens less the pending ones, and that an accepted response carries strictly increasing
  offsets.
\<close>

section \<open>Token counters\<close>

record SequencedMessage =
  sm_offset :: int
  sm_sizeBytes :: int

record flowControlTokens =
  Bytes :: int
  Messages :: int

text \<open>\<^verbatim>\<open>tokenCounter\<close> has the same two fields as \<^verbatim>\<open>flowControlTokens\<close>.\<close>

type_synonym tokenCounter = flowControlTokens

record FlowControlRequest =
  AllowedBytes :: int
  AllowedMessages :: int

definition saturatedAdd :: "int \<Rightarrow> int \<Rightarrow> int" where
  "saturatedAdd acc delta =
     (let remainder = wrap64 (maxInt64 - acc)
      in if delta \<ge> remainder then maxInt64 else wrap64 (acc + delta))"

definition tokenCounter_Add :: "flowControlTokens \<Rightarrow> tokenCounter \<Rightarrow> tokenCounter" where
  "tokenCounter_Add delta tc =
     tc\<lparr>Bytes := saturatedAdd (Bytes tc) (Bytes delta),
        Messages := saturatedAdd (Messages tc) (Messages delta)\<rparr>"

definition tokenCounter_Sub :: "flowControlTokens \<Rightarrow> tokenCounter \<Rightarrow> tokenCounter \<times> wire_error option" where
  "tokenCounter_Sub delta tc =
     (if Bytes delta > Bytes tc then (tc, Some errTokenCounterBytesNegative)
      else if Messages delta > Messages tc then (tc, Some errTokenCounterMessagesNegative)
      else (tc\<lparr>Bytes := wrap64 (Bytes tc - Bytes delta),
               Messages := wrap64 (Messages tc - Messages delta)\<rparr>, None))"

definition tokenCounter_Reset :: "tokenCounter \<Rightarrow> tokenCounter" where
  "tokenCounter_Reset tc = tc\<lparr>Bytes := 0, Messages := 0\<rparr>"

definition ToFlowControlRequest :: "tokenCounter \<Rightarrow> FlowControlRequest option" where
  "ToFlowControlRequest tc =
     (if Bytes tc \<le> 0 \<and> Messages tc \<le> 0 then None
      else Some \<lparr>AllowedBytes = Bytes tc, AllowedMessages = Messages tc\<rparr>)"

section \<open>The flow control batcher\<close>

record flowControlBatcher =
  clientTokens :: tokenCounter
  pendingTokens :: tokenCounter

text \<open>\<^verbatim>\<open>float64(pending)/float64(client) >= 0.5\<close>.  The largest double below one half is
  \<open>1/2 - 2^-54\<close>, so the rounded quotient is at least one half exactly when the quotient is
  at least the midpoint \<open>1/2 - 2^-55\<close> (the tie goes to the even significand of one half).\<close>

definition exceedsExpediteRatio :: "int \<Rightarrow> int \<Rightarrow> bool" where
  "exceedsExpediteRatio pending client \<longleftrightarrow>
     client > 0
   \<and> 36028797018963968 * float64_of_int64 pending \<ge> 18014398509481983 * float64_of_int64 client"

definition flowControlBatcher_Reset :: "flowControlTokens \<Rightarrow> flowControlBatcher \<Rightarrow> flowControlBatcher" where
  "flowControlBatcher_Reset tokens fc =
     fc\<lparr>clientTokens := tokenCounter_Add tokens (tokenCounter_Reset (clientTokens fc)),
        pendingTokens := tokenCounter_Reset (pendingTokens fc)\<rparr>"

definition OnClientFlow :: "flowControlTokens \<Rightarrow> flowControlBatcher \<Rightarrow> flowControlBatcher" where
  "OnClientFlow tokens fc =
     fc\<lparr>clientTokens := tokenCounter_Add tokens (clientTokens fc),
        pendingTokens := tokenCounter_Add tokens (pendingTokens fc)\<rparr>"

definition total_bytes :: "SequencedMessage list \<Rightarrow> int" where
  "total_bytes msgs = fold (\<lambda>msg totalBytes. wrap64 (totalBytes + sm_sizeBytes msg)) msgs 0"

definition flowControlBatcher_OnMessages ::
  "SequencedMessage list \<Rightarrow> flowControlBatcher \<Rightarrow> flowControlBatcher \<times> wire_error option" where
  "flowControlBatcher_OnMessages msgs fc =
     (case tokenCounter_Sub \<lparr>Bytes = total_bytes msgs, Messages = int (length msgs)\<rparr> (clientTokens fc) of
        (tc, err) \<Rightarrow> (fc\<lparr>clientTokens := tc\<rparr>, err))"

definition flowControlBatcher_RequestForRestart ::
  "flowControlBatcher \<Rightarrow> flowControlBatcher \<times> FlowControlRequest option" where
  "flowControlBatcher_RequestForRestart fc =
     (fc\<lparr>pendingTokens := tokenCounter_Reset (pendingTokens fc)\<rparr>,
      ToFlowControlRequest (clientTokens fc))"

definition ReleasePendingRequest ::
  "flowControlBatcher \<Rightarrow> flowControlBatcher \<times> FlowControlRequest option" where
  "ReleasePendingRequest fc =
     (fc\<lparr>pendingTokens := tokenCounter_Reset (pendingTokens fc)\<rparr>,
      ToFlowControlRequest (pendingTokens fc))"

definition ShouldExpediteBatchRequest :: "flowControlBatcher \<Rightarrow> bool" where
  "ShouldExpediteBatchRequest fc =
     (if exceedsExpediteRatio (Bytes (pendingTokens fc)) (Bytes (clientTokens fc)) then True
      else if exceedsExpediteRatio (Messages (pendingTokens fc)) (Messages (clientTokens fc)) then True
      else False)"

section \<open>The offset tracker\<close>

record subscriberOffsetTracker =
  minNextOffset :: int

datatype SeekRequest = COMMITTED_CURSOR | SeekCursor int

definition subscriberOffsetTracker_Reset :: "subscriberOffsetTracker \<Rightarrow> subscriberOffsetTracker" where
  "subscriberOffsetTracker_Reset ot = ot\<lparr>minNextOffset := 0\<rparr>"

definition subscriberOffsetTracker_RequestForRestart :: "subscriberOffsetTracker \<Rightarrow> SeekRequest" where
  "subscriberOffsetTracker_RequestForRestart ot =
     (if minNextOffset ot \<le> 0 then COMMITTED_CURSOR else SeekCursor (minNextOffset ot))"

text \<open>The loop over the messages: \<open>i\<close> is the index of the next one, \<open>nextOffset\<close> the least
  offset it may have, \<open>start\<close> the tracker's offset for the error message.\<close>

fun onMessages_loop :: "int \<Rightarrow> nat \<Rightarrow> int \<Rightarrow> SequencedMessage list \<Rightarrow> wire_error + int" where
  "onMessages_loop start i nextOffset [] = Inr nextOffset"
| "onMessages_loop start i nextOffset (msg # msgs) =
     (let offset = sm_offset msg
      in if offset < nextOffset then
           (if i = 0 then Inl (errStartOffset offset start) else Inl errOutOfOrderMessages)
         else onMessages_loop start (Suc i) (wrap64 (offset + 1)) msgs)"

definition subscriberOffsetTracker_OnMessages ::
  "SequencedMessage list \<Rightarrow> subscriberOffsetTracker \<Rightarrow> subscriberOffsetTracker \<times> wire_error option" where
  "subscriberOffsetTracker_OnMessages msgs ot =
     (case onMessages_loop (minNextOffset ot) 0 (minNextOffset ot) msgs of
        Inl err \<Rightarrow> (ot, Some err)
      | Inr nextOffset \<Rightarrow> (ot\<lparr>minNextOffset := nextOffset\<rparr>, None))"


section \<open>No counter wraps around\<close>

lemma saturatedAdd_eq_min:
  "is_int64 s \<Longrightarrow> 0 \<le> s \<Longrightarrow> is_int64 d \<Longrightarrow> saturatedAdd s d = min maxInt64 (s + d)"
  by (auto simp: saturatedAdd_def Let_def int64_defs wrap64_def)

lemma saturatedAdd_exact [simp]:
  "0 \<le> s \<Longrightarrow> 0 \<le> d \<Longrightarrow> s + d \<le> maxInt64 \<Longrightarrow> saturatedAdd s d = s + d"
  by (subst saturatedAdd_eq_min) (auto simp: int64_defs)

text \<open>C17: Token counters never overflow: adding any 64-bit amount to a non-negative counter gives
  the exact sum capped at \<open>math.MaxInt64\<close>, and a subtraction the counter accepts gives the
  exact difference, which is not negative; a refused subtraction leaves it unchanged.\<close>

theorem tokenCounter_no_overflow:
  assumes "is_int64 (Bytes tc)" "0 \<le> Bytes tc" "is_int64 (Messages tc)" "0 \<le> Messages tc"
    and "is_int64 (Bytes d)" "is_int64 (Messages d)"
  shows "tokenCounter_Add d tc = tc\<lparr>Bytes := min maxInt64 (Bytes tc + Bytes d),
                                     Messages := min maxInt64 (Messages tc + Messages d)\<rparr>
       \<and> (0 \<le> Bytes d \<and> 0 \<le> Messages d \<longrightarrow>
            tokenCounter_Sub d tc =
              (if Bytes d > Bytes tc then (tc, Some errTokenCounterBytesNegative)
               else if Messages d > Messages tc then (tc, Some errTokenCounterMessagesNegative)
               else (tc\<lparr>Bytes := Bytes tc - Bytes d, Messages := Messages tc - Messages d\<rparr>, None)))"
  using assms by (auto simp: tokenCounter_Add_def tokenCounter_Sub_def saturatedAdd_eq_min int64_defs wrap64_def)

theorem tokenCounter_no_overflow_witness:
  "tokenCounter_Add \<lparr>Bytes = 7, Messages = 1\<rparr> \<lparr>Bytes = 9223372036854775805, Messages = 2\<rparr>
     = \<lparr>Bytes = 9223372036854775807, Messages = 3\<rparr>
 \<and> tokenCounter_Sub \<lparr>Bytes = 7, Messages = 1\<rparr> \<lparr>Bytes = 9223372036854775805, Messages = 2\<rparr>
     = (\<lparr>Bytes = 9223372036854775798, Messages = 1\<rparr>, None)"
  using tokenCounter_no_overflow [of "\<lparr>Bytes = 9223372036854775805, Messages = 2\<rparr>" "\<lparr>Bytes = 7, Messages = 1\<rparr>"]
  by (simp add: int64_defs)

section \<open>Conservation of tokens\<close>

text \<open>Between a reset and the end of a stream, the batcher sees acknowledged messages
  (client flow), responses, batched requests and restarts.  The ghost \<open>credit\<close> is what the
  server may still send: the requests it has received on the current stream less the
  messages it has delivered.\<close>

datatype flowEvent =
    FlowClient flowControlTokens
  | FlowMessages "SequencedMessage list"
  | FlowRelease
  | FlowRestart

type_synonym flowState = "flowControlBatcher \<times> int \<times> int"

definition req_bytes :: "FlowControlRequest option \<Rightarrow> int" where
  "req_bytes r = (case r of None \<Rightarrow> 0 | Some q \<Rightarrow> AllowedBytes q)"

definition req_msgs :: "FlowControlRequest option \<Rightarrow> int" where
  "req_msgs r = (case r of None \<Rightarrow> 0 | Some q \<Rightarrow> AllowedMessages q)"

fun flow_step :: "flowEvent \<Rightarrow> flowState \<Rightarrow> wire_error + flowState" where
  "flow_step (FlowClient t) (fc, cb, cm) = Inr (OnClientFlow t fc, cb, cm)"
| "flow_step (FlowMessages ms) (fc, cb, cm) =
     (case flowControlBatcher_OnMessages ms fc of
        (fc', None) \<Rightarrow> Inr (fc', cb - total_bytes ms, cm - int (length ms))
      | (fc', Some err) \<Rightarrow> Inl err)"
| "flow_step FlowRelease (fc, cb, cm) =
     (case ReleasePendingRequest fc of (fc', r) \<Rightarrow> Inr (fc', cb + req_bytes r, cm + req_msgs r))"
| "flow_step FlowRestart (fc, cb, cm) =
     (case flowControlBatcher_RequestForRestart fc of (fc', r) \<Rightarrow> Inr (fc', req_bytes r, req_msgs r))"

fun flow_run :: "flowEvent list \<Rightarrow> flowState \<Rightarrow> wire_error + flowState" where
  "flow_run [] s = Inr s"
| "flow_run (e # es) s = (case flow_step e s of Inl err \<Rightarrow> Inl err | Inr s' \<Rightarrow> flow_run es s')"

fun ev_ok :: "flowEvent \<Rightarrow> bool" where
  "ev_ok (FlowClient t) = (0 \<le> Bytes t \<and> 0 \<le> Messages t)"
| "ev_ok (FlowMessages ms) = (\<forall>m\<in>set ms. 0 \<le> sm_sizeBytes m)"
| "ev_ok _ = True"

fun ev_bytes :: "flowEvent \<Rightarrow> int" where
  "ev_bytes (FlowClient t) = Bytes t"
| "ev_bytes _ = 0"

fun ev_msgs :: "flowEvent \<Rightarrow> int" where
  "ev_msgs (FlowClient t) = Messages t"
| "ev_msgs _ = 0"

fun ev_size :: "flowEvent \<Rightarrow> int" where
  "ev_size (FlowMessages ms) = sum_list (map sm_sizeBytes ms)"
| "ev_size _ = 0"

fun ev_count :: "flowEvent \<Rightarrow> int" where
  "ev_count (FlowMessages ms) = int (length ms)"
| "ev_count _ = 0"

definition flow_inv :: "int \<Rightarrow> int \<Rightarrow> flowState \<Rightarrow> bool" where
  "flow_inv limb limm s \<longleftrightarrow>
     (case s of (fc, cb, cm) \<Rightarrow>
        0 \<le> Bytes (pendingTokens fc) \<and> Bytes (pendingTokens fc) \<le> limb
      \<and> 0 \<le> Messages (pendingTokens fc) \<and> Messages (pendingTokens fc) \<le> limm
      \<and> 0 \<le> Bytes (clientTokens fc) \<and> Bytes (clientTokens fc) \<le> limb
      \<and> 0 \<le> Messages (clientTokens fc) \<and> Messages (clientTokens fc) \<le> limm
      \<and> cb = Bytes (clientTokens fc) - Bytes (pendingTokens fc)
      \<and> cm = Messages (clientTokens fc) - Messages (pendingTokens fc))"

lemma total_bytes_fold:
  "\<lbrakk>\<forall>m\<in>set ms. 0 \<le> sm_sizeBytes m; 0 \<le> t; t + sum_list (map sm_sizeBytes ms) \<le> maxInt64\<rbrakk>
   \<Longrightarrow> fold (\<lambda>msg totalBytes. wrap64 (totalBytes + sm_sizeBytes msg)) ms t
       = t + sum_list (map sm_sizeBytes ms)"
proof (induction ms arbitrary: t)
  case (Cons m ms)
  have "0 \<le> sum_list (map sm_sizeBytes ms)" using Cons.prems(1) by (intro sum_list_nonneg) auto
  then have "wrap64 (t + sm_sizeBytes m) = t + sm_sizeBytes m"
    using Cons.prems by (intro wrap64_id) (auto simp: int64_defs)
  with Cons show ?case by simp
qed simp

lemma total_bytes_exact:
  "\<forall>m\<in>set ms. 0 \<le> sm_sizeBytes m \<Longrightarrow> sum_list (map sm_sizeBytes ms) \<le> maxInt64
   \<Longrightarrow> total_bytes ms = sum_list (map sm_sizeBytes ms)"
  using total_bytes_fold [of ms 0] by (simp add: total_bytes_def)

lemma flow_step_inv:
  assumes "flow_inv limb limm s" and "ev_ok e" and "ev_size e \<le> maxInt64"
    and "limb + ev_bytes e \<le> maxInt64" and "limm + ev_msgs e \<le> maxInt64"
    and "flow_step e s = Inr s'"
  shows "flow_inv (limb + ev_bytes e) (limm + ev_msgs e) s'
       \<and> Bytes (clientTokens (fst s')) = Bytes (clientTokens (fst s)) + ev_bytes e - ev_size e
       \<and> Messages (clientTokens (fst s')) = Messages (clientTokens (fst s)) + ev_msgs e - ev_count e"
proof -
  obtain fc cb cm where s: "s = (fc, cb, cm)" by (cases s)
  show ?thesis
  proof (cases e)
    case (FlowClient t)
    with assms s show ?thesis
      by (auto simp: flow_inv_def OnClientFlow_def tokenCounter_Add_def)
  next
    case (FlowMessages ms)
    have sz: "total_bytes ms = sum_list (map sm_sizeBytes ms)" "0 \<le> sum_list (map sm_sizeBytes ms)"
      using assms(2,3) FlowMessages by (auto intro: total_bytes_exact intro!: sum_list_nonneg)
    have "is_int64 (Bytes (clientTokens fc) - sum_list (map sm_sizeBytes ms))"
      "is_int64 (Messages (clientTokens fc) - int (length ms))"
      if "sum_list (map sm_sizeBytes ms) \<le> Bytes (clientTokens fc)"
        "int (length ms) \<le> Messages (clientTokens fc)"
      using assms(1,4,5) sz that FlowMessages s by (auto simp: flow_inv_def int64_defs)
    with assms s FlowMessages sz show ?thesis
      by (auto simp: flow_inv_def flowControlBatcher_OnMessages_def tokenCounter_Sub_def split: if_splits)
  next
    case FlowRelease
    with assms s show ?thesis
      by (auto simp: flow_inv_def ReleasePendingRequest_def ToFlowControlRequest_def
          tokenCounter_Reset_def req_bytes_def req_msgs_def)
  next
    case FlowRestart
    with assms s show ?thesis
      by (auto simp: flow_inv_def flowControlBatcher_RequestForRestart_def ToFlowControlRequest_def
          tokenCounter_Reset_def req_bytes_def req_msgs_def)
  qed
qed

lemma ev_nonneg: "ev_ok e \<Longrightarrow> 0 \<le> ev_bytes e \<and> 0 \<le> ev_msgs e"
  by (cases e) auto

lemma ev_sum_nonneg:
  assumes "\<forall>e\<in>set es. ev_ok e"
  shows "0 \<le> sum_list (map ev_bytes es)" "0 \<le> sum_list (map ev_msgs es)"
  using assms ev_nonneg by (auto intro!: sum_list_nonneg)

lemma flow_run_inv:
  assumes "flow_inv limb limm s" and "\<forall>e\<in>set es. ev_ok e \<and> ev_size e \<le> maxInt64"
    and "limb + sum_list (map ev_bytes es) \<le> maxInt64"
    and "limm + sum_list (map ev_msgs es) \<le> maxInt64"
    and "flow_run es s = Inr s'"
  shows "flow_inv (limb + sum_list (map ev_bytes es)) (limm + sum_list (map ev_msgs es)) s'
       \<and> Bytes (clientTokens (fst s')) = Bytes (clientTokens (fst s))
            + sum_list (map ev_bytes es) - sum_list (map ev_size es)
       \<and> Messages (clientTokens (fst s')) = Messages (clientTokens (fst s))
            + sum_list (map ev_msgs es) - sum_list (map ev_count es)"
  using assms
proof (induction es arbitrary: s limb limm)
  case Nil
  then show ?case by simp
next
  case (Cons e es)
  obtain t where t: "flow_step e s = Inr t" and run: "flow_run es t = Inr s'"
    using Cons.prems(5) by (auto split: sum.splits)
  have "\<forall>e\<in>set es. ev_ok e" using Cons.prems(2) by simp
  note nn = ev_sum_nonneg [OF this]
  have st: "flow_inv (limb + ev_bytes e) (limm + ev_msgs e) t
       \<and> Bytes (clientTokens (fst t)) = Bytes (clientTokens (fst s)) + ev_bytes e - ev_size e
       \<and> Messages (clientTokens (fst t)) = Messages (clientTokens (fst s)) + ev_msgs e - ev_count e"
    using Cons.prems(2-4) nn by (intro flow_step_inv [OF Cons.prems(1) _ _ _ _ t]) auto
  have "flow_inv (limb + ev_bytes e + sum_list (map ev_bytes es))
          (limm + ev_msgs e + sum_list (map ev_msgs es)) s'
       \<and> Bytes (clientTokens (fst s')) = Bytes (clientTokens (fst t))
            + sum_list (map ev_bytes es) - sum_list (map ev_size es)
       \<and> Messages (clientTokens (fst s')) = Messages (clientTokens (fst t))
            + sum_list (map ev_msgs es) - sum_list (map ev_count es)"
    using Cons.prems st run by (intro Cons.IH) (auto simp: add.assoc)
  with st show ?case by (simp add: algebra_simps)
qed


lemma flow_inv_restart:
  assumes "0 \<le> Bytes t" "Bytes t \<le> maxInt64" "0 \<le> Messages t" "Messages t \<le> maxInt64"
    and "flow_step FlowRestart (flowControlBatcher_Reset t fc, cb, cm) = Inr s"
  shows "flow_inv (Bytes t) (Messages t) s \<and> Bytes (clientTokens (fst s)) = Bytes t
       \<and> Messages (clientTokens (fst s)) = Messages t"
  using assms
  by (auto simp: flow_inv_def flowControlBatcher_RequestForRestart_def ToFlowControlRequest_def
      flowControlBatcher_Reset_def tokenCounter_Reset_def tokenCounter_Add_def req_bytes_def req_msgs_def)

text \<open>C18: Flow control conserves tokens: after a reset to the user's limits and a (re)connection, any
  sequence of acknowledgements, responses, batched requests and reconnections that raises no
  error leaves the client with its limit plus what was acknowledged less what was received,
  and the server with exactly the client's tokens less those still pending, as long as the
  totals fit 64 bits.\<close>

theorem flow_tokens_conserved:
  assumes "0 \<le> Bytes t" and "0 \<le> Messages t"
    and "\<forall>e\<in>set es. ev_ok e \<and> ev_size e \<le> maxInt64"
    and "Bytes t + sum_list (map ev_bytes es) \<le> maxInt64"
    and "Messages t + sum_list (map ev_msgs es) \<le> maxInt64"
    and "flow_run (FlowRestart # es) (flowControlBatcher_Reset t fc, cb0, cm0) = Inr (fc', cb, cm)"
  shows "Bytes (clientTokens fc') = Bytes t + sum_list (map ev_bytes es) - sum_list (map ev_size es)
       \<and> Messages (clientTokens fc') = Messages t + sum_list (map ev_msgs es) - sum_list (map ev_count es)
       \<and> cb = Bytes (clientTokens fc') - Bytes (pendingTokens fc')
       \<and> cm = Messages (clientTokens fc') - Messages (pendingTokens fc')
       \<and> 0 \<le> Bytes (clientTokens fc') \<and> 0 \<le> Messages (clientTokens fc')"
proof -
  have "\<forall>e\<in>set es. ev_ok e" using assms(3) by simp
  note nn = ev_sum_nonneg [OF this]
  obtain s where s: "flow_step FlowRestart (flowControlBatcher_Reset t fc, cb0, cm0) = Inr s"
    and run: "flow_run es s = Inr (fc', cb, cm)" using assms(6) by (auto split: sum.splits)
  have "flow_inv (Bytes t) (Messages t) s \<and> Bytes (clientTokens (fst s)) = Bytes t
       \<and> Messages (clientTokens (fst s)) = Messages t"
    using assms(1,2,4,5) nn by (intro flow_inv_restart [OF _ _ _ _ s]) auto
  moreover from this have "flow_inv (Bytes t) (Messages t) s" by simp
  ultimately show ?thesis
    using flow_run_inv [OF _ assms(3-5) run] by (auto simp: flow_inv_def)
qed

theorem flow_tokens_conserved_witness:
  "Bytes (clientTokens (fst (projr (flow_run
     [FlowRestart, FlowMessages [\<lparr>sm_offset = 0, sm_sizeBytes = 40\<rparr>], FlowClient \<lparr>Bytes = 40, Messages = 1\<rparr>]
     (flowControlBatcher_Reset \<lparr>Bytes = 100, Messages = 10\<rparr>
        \<lparr>clientTokens = \<lparr>Bytes = 0, Messages = 0\<rparr>, pendingTokens = \<lparr>Bytes = 0, Messages = 0\<rparr>\<rparr>, 0, 0)))))
   = 100"
proof -
  let ?fc = "\<lparr>clientTokens = \<lparr>Bytes = 0, Messages = 0\<rparr>, pendingTokens = \<lparr>Bytes = 0, Messages = 0\<rparr>\<rparr>"
  let ?es = "[FlowMessages [\<lparr>sm_offset = 0, sm_sizeBytes = 40\<rparr>], FlowClient \<lparr>Bytes = 40, Messages = 1\<rparr>]"
  let ?fc' = "\<lparr>clientTokens = \<lparr>Bytes = 100, Messages = 10\<rparr>, pendingTokens = \<lparr>Bytes = 40, Messages = 1\<rparr>\<rparr>"
  have run: "flow_run (FlowRestart # ?es)
      (flowControlBatcher_Reset \<lparr>Bytes = 100, Messages = 10\<rparr> ?fc, 0, 0) = Inr (?fc', 60, 9)"
    by (simp add: flowControlBatcher_RequestForRestart_def ToFlowControlRequest_def OnClientFlow_def
        flowControlBatcher_Reset_def tokenCounter_Reset_def tokenCounter_Add_def req_bytes_def req_msgs_def
        flowControlBatcher_OnMessages_def tokenCounter_Sub_def total_bytes_def saturatedAdd_def
        maxInt64_def wrap64_def)
  have "Bytes (clientTokens ?fc') = 100"
    using flow_tokens_conserved [OF _ _ _ _ _ run] by (simp add: maxInt64_def)
  then show ?thesis unfolding run by simp
qed

section \<open>Expediting a batch\<close>

text \<open>Below \<open>2^53\<close> tokens the floating-point test that expedites a batched flow control
  request is exact: a request is expedited if and only if some counter is positive and the
  pending tokens are at least half of the client's tokens.\<close>

theorem exceedsExpediteRatio_exact:
  assumes "\<bar>pending\<bar> < 9007199254740992" and "\<bar>client\<bar> < 9007199254740992"
  shows "exceedsExpediteRatio pending client \<longleftrightarrow> client > 0 \<and> 2 * pending \<ge> client"
  using assms unfolding exceedsExpediteRatio_def
  by (auto simp: float64_of_int64_small)

theorem exceedsExpediteRatio_exact_witness:
  "exceedsExpediteRatio 50 100 \<and> \<not> exceedsExpediteRatio 49 100"
  using exceedsExpediteRatio_exact [of 50 100] exceedsExpediteRatio_exact [of 49 100] by simp

section \<open>Accepted responses are in order\<close>

definition offsets_follow :: "int \<Rightarrow> SequencedMessage list \<Rightarrow> bool" where
  "offsets_follow n msgs \<longleftrightarrow> strict_sorted_by sm_offset msgs \<and> (\<forall>m\<in>set msgs. n \<le> sm_offset m)"

definition next_after :: "int \<Rightarrow> SequencedMessage list \<Rightarrow> int" where
  "next_after n msgs = (if msgs = [] then n else sm_offset (last msgs) + 1)"

lemma offsets_follow_Nil [simp]: "offsets_follow n []"
  by (simp add: offsets_follow_def)

lemma offsets_follow_Cons:
  "offsets_follow n (m # msgs) \<longleftrightarrow> n \<le> sm_offset m \<and> offsets_follow (sm_offset m + 1) msgs"
  by (auto simp: offsets_follow_def add1_zle_eq)

lemma onMessages_loop_iff:
  assumes "\<forall>m\<in>set msgs. is_int64 (sm_offset m) \<and> sm_offset m < maxInt64"
  shows "onMessages_loop start i n msgs =
    (if offsets_follow n msgs then Inr (next_after n msgs)
     else if i = 0 \<and> sm_offset (hd msgs) < n then Inl (errStartOffset (sm_offset (hd msgs)) start)
     else Inl errOutOfOrderMessages)"
  using assms
proof (induction start i n msgs rule: onMessages_loop.induct)
  case (1 start i n)
  then show ?case by (simp add: offsets_follow_def next_after_def)
next
  case (2 start i n m msgs)
  have "wrap64 (sm_offset m + 1) = sm_offset m + 1"
    using "2.prems" by (intro wrap64_id) (auto simp: int64_defs)
  with 2 show ?case by (auto simp: offsets_follow_Cons next_after_def Let_def not_less)
qed

text \<open>The offset tracker accepts a response exactly when its offsets are strictly increasing
  and start at or after the expected one, and then expects the offset after the last
  message; otherwise it reports the kind of disorder and keeps its state.\<close>

theorem offsetTracker_OnMessages_iff:
  assumes "\<forall>m\<in>set msgs. is_int64 (sm_offset m) \<and> sm_offset m < maxInt64"
  shows "subscriberOffsetTracker_OnMessages msgs ot =
    (if offsets_follow (minNextOffset ot) msgs
     then (ot\<lparr>minNextOffset := next_after (minNextOffset ot) msgs\<rparr>, None)
     else (ot, Some (if sm_offset (hd msgs) < minNextOffset ot
                     then errStartOffset (sm_offset (hd msgs)) (minNextOffset ot)
                     else errOutOfOrderMessages)))"
  by (simp add: subscriberOffsetTracker_OnMessages_def onMessages_loop_iff [OF assms])

theorem offsetTracker_OnMessages_iff_witness:
  "subscriberOffsetTracker_OnMessages
     [\<lparr>sm_offset = 4, sm_sizeBytes = 1\<rparr>, \<lparr>sm_offset = 9, sm_sizeBytes = 1\<rparr>] \<lparr>minNextOffset = 3\<rparr>
   = (\<lparr>minNextOffset = 10\<rparr>, None)
 \<and> subscriberOffsetTracker_OnMessages [\<lparr>sm_offset = 2, sm_sizeBytes = 1\<rparr>] \<lparr>minNextOffset = 3\<rparr>
   = (\<lparr>minNextOffset = 3\<rparr>, Some (errStartOffset 2 3))"
  using offsetTracker_OnMessages_iff
      [of "[\<lparr>sm_offset = 4, sm_sizeBytes = 1\<rparr>, \<lparr>sm_offset = 9, sm_sizeBytes = 1\<rparr>]" "\<lparr>minNextOffset = 3\<rparr>"]
    offsetTracker_OnMessages_iff [of "[\<lparr>sm_offset = 2, sm_sizeBytes = 1\<rparr>]" "\<lparr>minNextOffset = 3\<rparr>"]
  by (simp add: int64_defs offsets_follow_def next_after_def)

end
