(* ===== verification/Wire_Subscriber.thy ===== *)
theory Wire_Subscriber
  imports Wire_Committer Wire_Flow Wire_Settings
begin

text \<open>
  \<^verbatim>\<open>subscriber.go\<close>, the part for one partition: the queue that delivers messages to the user
  (\<^verbatim>\<open>messageDeliveryQueue\<close>), the service around the subscribe stream (\<^verbatim>\<open>subscribeStream\<close>), and both
  together with the committer.  Ack consumers are allocated in the store of the ack tracker,
  which the record of the committer holds; user callbacks run as events of their own.
\<close>

section \<open>The message delivery queue\<close>

text \<open>A received message: its position, its ack consumer and its partition.\<close>

record ReceivedMessage =
  rm_msg :: SequencedMessage
  rm_ack :: addr
  rm_partition :: int

text \<open>A delivery goroutine that has not ended: whether its stop channel is closed, and what its
  message channel holds.  The field \<open>mq_stopC\<close> says whether the queue's stop channel is set; it
  is then the one of the goroutine that is not stopped.\<close>

record deliverer =
  dl_stopped :: bool
  dl_messagesC :: "ReceivedMessage list"

record messageDeliveryQueue =
  mq_bufferSize :: int
  mq_stopC :: bool
  mq_active :: "deliverer list"

definition newMessageDeliveryQueue :: "int \<Rightarrow> messageDeliveryQueue" where
  "newMessageDeliveryQueue bufferSize = \<lparr>mq_bufferSize = bufferSize, mq_stopC = False, mq_active = []\<rparr>"

definition messageDeliveryQueue_Start :: "messageDeliveryQueue \<Rightarrow> messageDeliveryQueue" where
  "messageDeliveryQueue_Start mq =
     (if mq_stopC mq then mq
      else mq\<lparr>mq_stopC := True, mq_active := mq_active mq @ [\<lparr>dl_stopped = False, dl_messagesC = []\<rparr>]\<rparr>)"

definition messageDeliveryQueue_Stop :: "messageDeliveryQueue \<Rightarrow> messageDeliveryQueue" where
  "messageDeliveryQueue_Stop mq =
     (if \<not> mq_stopC mq then mq
      else mq\<lparr>mq_stopC := False, mq_active := map (\<lambda>d. d\<lparr>dl_stopped := True\<rparr>) (mq_active mq)\<rparr>)"

text \<open>\<^verbatim>\<open>Wait\<close> returns when no delivery goroutine is left.\<close>

definition Wait_returns :: "messageDeliveryQueue \<Rightarrow> bool" where
  "Wait_returns mq \<longleftrightarrow> mq_active mq = []"

text \<open>The channel has no bound here: in the code \<^verbatim>\<open>Add\<close> blocks while the buffer is full, which flow control is to prevent.\<close>

definition messageDeliveryQueue_Add :: "ReceivedMessage \<Rightarrow> messageDeliveryQueue \<Rightarrow> messageDeliveryQueue" where
  "messageDeliveryQueue_Add msg mq =
     (if mq_stopC mq
      then mq\<lparr>mq_active := map (\<lambda>d. if dl_stopped d then d else d\<lparr>dl_messagesC := dl_messagesC d @ [msg]\<rparr>) (mq_active mq)\<rparr>
      else mq)"

text \<open>A round of \<^verbatim>\<open>deliverMessages\<close> of the \<open>i\<close>-th goroutine: it takes the next message, or ends
  because its stop channel is closed.  A goroutine that has passed the first \<^verbatim>\<open>select\<close> may take
  one more message after the close, so a stopped one may still take messages.\<close>

definition deliver_next :: "nat \<Rightarrow> messageDeliveryQueue \<Rightarrow> messageDeliveryQueue \<times> ReceivedMessage option" where
  "deliver_next i mq =
     (if i < length (mq_active mq)
      then case dl_messagesC (mq_active mq ! i) of
             [] \<Rightarrow> (mq, None)
           | msg # rest \<Rightarrow> (mq\<lparr>mq_active := (mq_active mq)[i := (mq_active mq ! i)\<lparr>dl_messagesC := rest\<rparr>]\<rparr>, Some msg)
      else (mq, None))"

definition deliver_end :: "nat \<Rightarrow> messageDeliveryQueue \<Rightarrow> messageDeliveryQueue" where
  "deliver_end i mq =
     (if i < length (mq_active mq) \<and> dl_stopped (mq_active mq ! i)
      then mq\<lparr>mq_active := take i (mq_active mq) @ drop (Suc i) (mq_active mq)\<rparr> else mq)"

section \<open>The subscribe stream\<close>

record subscribeStream =
  ss_settings :: ReceiveSettings
  ss_subscription :: string
  ss_partition :: int
  ss_messageQueue :: messageDeliveryQueue
  ss_stream :: "FlowControlRequest retryableStream"
  ss_offsetTracker :: subscriberOffsetTracker
  ss_flowControl :: flowControlBatcher
  ss_pollFlowControl :: periodicTask
  ss_enableBatchFlowControl :: bool
  ss_service :: abstractService

abbreviation ss_status :: "subscribeStream \<Rightarrow> serviceStatus" where
  "ss_status s \<equiv> as_status (ss_service s)"

definition batchFlowControlPeriod :: int where
  "batchFlowControlPeriod = 100000000"

definition newSubscribeStream :: "ReceiveSettings \<Rightarrow> string \<Rightarrow> int \<Rightarrow> subscribeStream" where
  "newSubscribeStream settings subscription part =
     \<lparr>ss_settings = settings, ss_subscription = subscription, ss_partition = part,
      ss_messageQueue = newMessageDeliveryQueue (MaxOutstandingMessages settings),
      ss_stream = newRetryableStream (rs_Timeout settings) (streamIdleTimeout (rs_Timeout settings)),
      ss_offsetTracker = \<lparr>minNextOffset = 0\<rparr>,
      ss_flowControl = \<lparr>clientTokens = \<lparr>Bytes = 0, Messages = 0\<rparr>, pendingTokens = \<lparr>Bytes = 0, Messages = 0\<rparr>\<rparr>,
      ss_pollFlowControl = newPeriodicTask batchFlowControlPeriod,
      ss_enableBatchFlowControl = False, ss_service = new_abstractService\<rparr>"

definition ss_updateStatus ::
  "serviceStatus \<Rightarrow> wire_error option \<Rightarrow> subscribeStream \<Rightarrow> subscribeStream \<times> bool" where
  "ss_updateStatus target err s =
     (case unsafeUpdateStatus target err (ss_service s) of (as, ok) \<Rightarrow> (s\<lparr>ss_service := as\<rparr>, ok))"

definition settings_tokens :: "ReceiveSettings \<Rightarrow> flowControlTokens" where
  "settings_tokens settings =
     \<lparr>Bytes = MaxOutstandingBytes settings, Messages = MaxOutstandingMessages settings\<rparr>"

definition subscribeStream_Start :: "subscribeStream \<Rightarrow> subscribeStream" where
  "subscribeStream_Start s =
     (case ss_updateStatus serviceStarting None s of (s1, updated) \<Rightarrow>
        if updated
        then s1\<lparr>ss_stream := retryableStream_Start (ss_stream s1),
                ss_pollFlowControl := periodicTask_Start (ss_pollFlowControl s1),
                ss_messageQueue := messageDeliveryQueue_Start (ss_messageQueue s1),
                ss_flowControl := flowControlBatcher_Reset (settings_tokens (ss_settings s1)) (ss_flowControl s1)\<rparr>
        else s1)"

definition subscribeStream_unsafeInitiateShutdown ::
  "serviceStatus \<Rightarrow> wire_error option \<Rightarrow> subscribeStream \<Rightarrow> subscribeStream" where
  "subscribeStream_unsafeInitiateShutdown targetStatus err s =
     (case ss_updateStatus targetStatus (wrapError ''subscriber'' (ss_subscription s) err) s of
        (s1, updated) \<Rightarrow>
          if \<not> updated then s1
          else s1\<lparr>ss_messageQueue := messageDeliveryQueue_Stop (ss_messageQueue s1),
                  ss_pollFlowControl := periodicTask_Stop (ss_pollFlowControl s1),
                  ss_stream := retryableStream_Stop (ss_stream s1)\<rparr>)"

definition subscribeStream_Stop :: "subscribeStream \<Rightarrow> subscribeStream" where
  "subscribeStream_Stop s = subscribeStream_unsafeInitiateShutdown serviceTerminating None s"

text \<open>The initial location of the initial request.\<close>

definition subscribeStream_initialRequest :: "subscribeStream \<Rightarrow> SeekRequest" where
  "subscribeStream_initialRequest s = subscriberOffsetTracker_RequestForRestart (ss_offsetTracker s)"

definition unsafeSendFlowControl ::
  "(nat \<Rightarrow> nat \<Rightarrow> wire_error option) \<Rightarrow> FlowControlRequest option \<Rightarrow> subscribeStream \<Rightarrow> subscribeStream" where
  "unsafeSendFlowControl SendMsg req s =
     (case req of None \<Rightarrow> s
      | Some r \<Rightarrow> s\<lparr>ss_stream := fst (retryableStream_Send SendMsg r (ss_stream s))\<rparr>)"

definition unsafeAllowFlow ::
  "(nat \<Rightarrow> nat \<Rightarrow> wire_error option) \<Rightarrow> flowControlTokens \<Rightarrow> subscribeStream \<Rightarrow> subscribeStream" where
  "unsafeAllowFlow SendMsg allow s =
     (let s1 = s\<lparr>ss_flowControl := OnClientFlow allow (ss_flowControl s)\<rparr>
      in if ShouldExpediteBatchRequest (ss_flowControl s1) \<and> ss_enableBatchFlowControl s1
         then case ReleasePendingRequest (ss_flowControl s1) of
                (fc, req) \<Rightarrow> unsafeSendFlowControl SendMsg req (s1\<lparr>ss_flowControl := fc\<rparr>)
         else s1)"

definition sendBatchFlowControl ::
  "(nat \<Rightarrow> nat \<Rightarrow> wire_error option) \<Rightarrow> subscribeStream \<Rightarrow> subscribeStream" where
  "sendBatchFlowControl SendMsg s =
     (if ss_enableBatchFlowControl s
      then case ReleasePendingRequest (ss_flowControl s) of
             (fc, req) \<Rightarrow> unsafeSendFlowControl SendMsg req (s\<lparr>ss_flowControl := fc\<rparr>)
      else s)"

definition subscribeStream_onAck ::
  "(nat \<Rightarrow> nat \<Rightarrow> wire_error option) \<Rightarrow> 'f ackConsumer \<Rightarrow> subscribeStream \<Rightarrow> subscribeStream" where
  "subscribeStream_onAck SendMsg ac s =
     (if ss_status s = serviceActive
      then unsafeAllowFlow SendMsg \<lparr>Bytes = ac_MsgBytes ac, Messages = 1\<rparr> s else s)"

text \<open>The \<^verbatim>\<open>streamResetState\<close> case of \<^verbatim>\<open>onStreamStatusChange\<close> releases the mutex while it waits: it is
  \<open>onReset_begin\<close>, then \<^verbatim>\<open>Wait\<close> and \<^verbatim>\<open>handleReset\<close>, then \<open>onReset_end\<close> with the error returned.\<close>

definition onReset_begin :: "subscribeStream \<Rightarrow> subscribeStream" where
  "onReset_begin s = s\<lparr>ss_messageQueue := messageDeliveryQueue_Stop (ss_messageQueue s)\<rparr>"

definition onReset_end :: "wire_error option \<Rightarrow> subscribeStream \<Rightarrow> subscribeStream" where
  "onReset_end err s =
     (if err \<noteq> None then subscribeStream_unsafeInitiateShutdown serviceTerminating None s
      else s\<lparr>ss_messageQueue := messageDeliveryQueue_Start (ss_messageQueue s),
             ss_offsetTracker := subscriberOffsetTracker_Reset (ss_offsetTracker s),
             ss_flowControl := flowControlBatcher_Reset (settings_tokens (ss_settings s)) (ss_flowControl s)\<rparr>)"

text \<open>The other cases.\<close>

definition subscribeStream_onStreamStatusChange ::
  "(nat \<Rightarrow> nat \<Rightarrow> wire_error option) \<Rightarrow> streamStatus \<Rightarrow> subscribeStream \<Rightarrow> subscribeStream" where
  "subscribeStream_onStreamStatusChange SendMsg status s =
     (case status of
        streamConnected \<Rightarrow>
          let s1 = fst (ss_updateStatus serviceActive None s);
              s2 = (case flowControlBatcher_RequestForRestart (ss_flowControl s1) of
                      (fc, req) \<Rightarrow> unsafeSendFlowControl SendMsg req (s1\<lparr>ss_flowControl := fc\<rparr>))
          in s2\<lparr>ss_enableBatchFlowControl := True, ss_pollFlowControl := periodicTask_Start (ss_pollFlowControl s2)\<rparr>
      | streamReconnecting \<Rightarrow>
          s\<lparr>ss_enableBatchFlowControl := False, ss_pollFlowControl := periodicTask_Stop (ss_pollFlowControl s)\<rparr>
      | streamTerminated \<Rightarrow> subscribeStream_unsafeInitiateShutdown serviceTerminated (rs_finalErr (ss_stream s)) s
      | streamResetState \<Rightarrow> onReset_begin s
      | _ \<Rightarrow> s)"

datatype subscribeResponse = SubInitial | SubMessages "SequencedMessage list" | SubOther

definition subscribeStream_validateInitialResponse :: "subscribeResponse \<Rightarrow> wire_error option" where
  "subscribeStream_validateInitialResponse response =
     (if response = SubInitial then None else Some errInvalidInitialSubscribeResponse)"

text \<open>The loop of \<^verbatim>\<open>unsafeOnMessageResponse\<close>: a consumer per message is allocated from address \<open>next\<close>
  on, and the message queued.\<close>

fun enqueue_loop ::
  "SequencedMessage list \<Rightarrow> addr \<Rightarrow> unit ackHeap \<Rightarrow> subscribeStream \<Rightarrow> addr \<times> unit ackHeap \<times> subscribeStream" where
  "enqueue_loop [] next h s = (next, h, s)"
| "enqueue_loop (msg # msgs) next h s =
     enqueue_loop msgs (Suc next)
       (h(next := newAckConsumer (sm_offset msg) (sm_sizeBytes msg) (Some ())))
       (s\<lparr>ss_messageQueue := messageDeliveryQueue_Add
            \<lparr>rm_msg = msg, rm_ack = next, rm_partition = ss_partition s\<rparr> (ss_messageQueue s)\<rparr>)"

definition unsafeOnMessageResponse ::
  "SequencedMessage list \<Rightarrow> addr \<Rightarrow> unit ackHeap \<Rightarrow> subscribeStream
   \<Rightarrow> (addr \<times> unit ackHeap \<times> subscribeStream) \<times> wire_error option" where
  "unsafeOnMessageResponse msgs next h s =
     (if msgs = [] then ((next, h, s), Some errServerNoMessages)
      else case subscriberOffsetTracker_OnMessages msgs (ss_offsetTracker s) of
             (ot, Some err) \<Rightarrow> ((next, h, s\<lparr>ss_offsetTracker := ot\<rparr>), Some err)
           | (ot, None) \<Rightarrow>
               (case flowControlBatcher_OnMessages msgs (ss_flowControl s) of
                  (fc, Some err) \<Rightarrow> ((next, h, s\<lparr>ss_offsetTracker := ot, ss_flowControl := fc\<rparr>), Some err)
                | (fc, None) \<Rightarrow>
                    (enqueue_loop msgs next h (s\<lparr>ss_offsetTracker := ot, ss_flowControl := fc\<rparr>), None)))"

definition subscribeStream_onResponse ::
  "subscribeResponse \<Rightarrow> addr \<Rightarrow> unit ackHeap \<Rightarrow> subscribeStream \<Rightarrow> addr \<times> unit ackHeap \<times> subscribeStream" where
  "subscribeStream_onResponse response next h s =
     (if ss_status s \<ge> serviceTerminating then (next, h, s)
      else case (case response of
                   SubMessages msgs \<Rightarrow> unsafeOnMessageResponse msgs next h s
                 | _ \<Rightarrow> ((next, h, s), Some errInvalidSubscribeResponse)) of
             (r, None) \<Rightarrow> r
           | ((next', h', s'), Some err) \<Rightarrow>
               (next', h', subscribeStream_unsafeInitiateShutdown serviceTerminated (Some err) s'))"


section \<open>One partition: subscriber and committer\<close>

text \<open>The state of a partition's subscriber: the subscribe stream, the committer with the ack tracker
  both share, the next free address of the consumer store, how far a reset has come, and two
  logs: the messages passed to the user and the errors that \<^verbatim>\<open>Push\<close> returned (which the delivery
  goroutine ignores).\<close>

datatype resetPhase = NoReset | WaitingForDelivery | FlushingCommits

record partitionState =
  ps_sub :: subscribeStream
  ps_com :: "unit committer"
  ps_next :: addr
  ps_reset :: resetPhase
  ps_delivered :: "ReceivedMessage list"
  ps_pushErrors :: "wire_error list"

definition newPartitionState :: "ReceiveSettings \<Rightarrow> string \<Rightarrow> int \<Rightarrow> unit ackHeap \<Rightarrow> partitionState" where
  "newPartitionState settings subscription part h =
     \<lparr>ps_sub = newSubscribeStream settings subscription part,
      ps_com = newCommitter subscription (rs_Timeout settings) (h, newAckTracker),
      ps_next = 0, ps_reset = NoReset, ps_delivered = [], ps_pushErrors = []\<rparr>"

text \<open>\<open>SeDeliver i\<close>: a delivery goroutine takes a message, pushes its consumer and calls the receiver.
  \<open>SeAck a\<close>: the user acknowledges a message it has received.  \<open>SeReset\<close>, \<open>SeResetFlush\<close> and
  \<open>SeResetRound\<close> are the phases of a reset; while one is under way the stream's goroutine is in
  the handler, so no response is handled; nor is one before \<^verbatim>\<open>Start\<close>.  The stream events of the two streams come as for
  the committer; \<open>SeCommitter\<close> stands for every step of the committer alone.\<close>

datatype subscribeEvent =
    SeStart
  | SeStop
  | SeResponse subscribeResponse
  | SeReconnecting
  | SeConnected int nat
  | SeBroken wire_error
  | SeTerminatedNotice
  | SeFlowPoll
  | SeDeliver nat
  | SeDeliverEnd nat
  | SeAck addr
  | SeReset
  | SeResetFlush
  | SeResetRound
  | SeCommitter commitEvent

fun committer_own :: "commitEvent \<Rightarrow> bool" where
  "committer_own (CmPush _) = False"
| "committer_own (CmAck _) = False"
| "committer_own CmResetBegin = False"
| "committer_own CmResetRound = False"
| "committer_own _ = True"

fun subscription_step ::
  "(nat \<Rightarrow> nat \<Rightarrow> wire_error option) \<Rightarrow> (nat \<Rightarrow> nat \<Rightarrow> wire_error option) \<Rightarrow> subscribeEvent \<Rightarrow> partitionState \<Rightarrow> partitionState" where
  "subscription_step subNet comNet SeStart ps = ps\<lparr>ps_sub := subscribeStream_Start (ps_sub ps)\<rparr>"
| "subscription_step subNet comNet SeStop ps = ps\<lparr>ps_sub := subscribeStream_Stop (ps_sub ps)\<rparr>"
| "subscription_step subNet comNet (SeResponse r) ps =
     (if ps_reset ps = NoReset \<and> ss_status (ps_sub ps) \<noteq> serviceUninitialized
      then case subscribeStream_onResponse r (ps_next ps) (fst (cm_acks (ps_com ps))) (ps_sub ps) of
             (next, h, s) \<Rightarrow> ps\<lparr>ps_sub := s, ps_next := next,
                                ps_com := (ps_com ps)\<lparr>cm_acks := (h, snd (cm_acks (ps_com ps)))\<rparr>\<rparr>
      else ps)"
| "subscription_step subNet comNet SeReconnecting ps =
     (case canReconnect (ss_stream (ps_sub ps)) of (st, ok) \<Rightarrow>
        if ok then ps\<lparr>ps_sub := subscribeStream_onStreamStatusChange subNet streamReconnecting
                                  ((ps_sub ps)\<lparr>ss_stream := st\<rparr>)\<rparr> else ps)"
| "subscription_step subNet comNet (SeConnected now sid) ps =
     (case connected now sid (ss_stream (ps_sub ps)) of (st, ok) \<Rightarrow>
        if ok then ps\<lparr>ps_sub := subscribeStream_onStreamStatusChange subNet streamConnected
                                  ((ps_sub ps)\<lparr>ss_stream := st\<rparr>)\<rparr>
        else ps\<lparr>ps_sub := (ps_sub ps)\<lparr>ss_stream := st\<rparr>\<rparr>)"
| "subscription_step subNet comNet (SeBroken err) ps =
     ps\<lparr>ps_sub := (ps_sub ps)\<lparr>ss_stream := unsafeTerminate (Some err) (ss_stream (ps_sub ps))\<rparr>\<rparr>"
| "subscription_step subNet comNet SeTerminatedNotice ps =
     (if rs_status (ss_stream (ps_sub ps)) = streamTerminated
      then ps\<lparr>ps_sub := subscribeStream_onStreamStatusChange subNet streamTerminated (ps_sub ps)\<rparr> else ps)"
| "subscription_step subNet comNet SeFlowPoll ps = ps\<lparr>ps_sub := sendBatchFlowControl subNet (ps_sub ps)\<rparr>"
| "subscription_step subNet comNet (SeDeliver i) ps =
     (case deliver_next i (ss_messageQueue (ps_sub ps)) of
        (mq, None) \<Rightarrow> ps
      | (mq, Some msg) \<Rightarrow>
          (case ackTracker_Push (rm_ack msg) (cm_acks (ps_com ps)) of
             (acks, err) \<Rightarrow>
               ps\<lparr>ps_sub := (ps_sub ps)\<lparr>ss_messageQueue := mq\<rparr>,
                  ps_com := (ps_com ps)\<lparr>cm_acks := acks\<rparr>,
                  ps_pushErrors := ps_pushErrors ps @ (case err of Some e \<Rightarrow> [e] | None \<Rightarrow> []),
                  ps_delivered := ps_delivered ps @ [msg]\<rparr>))"
| "subscription_step subNet comNet (SeDeliverEnd i) ps =
     ps\<lparr>ps_sub := (ps_sub ps)\<lparr>ss_messageQueue := deliver_end i (ss_messageQueue (ps_sub ps))\<rparr>\<rparr>"
| "subscription_step subNet comNet (SeAck a) ps =
     (if a \<in> set (map rm_ack (ps_delivered ps))
      then case ackConsumer_Ack a (fst (cm_acks (ps_com ps))) of
             (h, onAck) \<Rightarrow>
               ps\<lparr>ps_com := (ps_com ps)\<lparr>cm_acks := (h, snd (cm_acks (ps_com ps)))\<rparr>,
                  ps_sub := (case onAck of None \<Rightarrow> ps_sub ps
                             | Some _ \<Rightarrow> subscribeStream_onAck subNet (h a) (ps_sub ps))\<rparr>
      else ps)"
| "subscription_step subNet comNet SeReset ps =
     (if ps_reset ps = NoReset \<and> ss_status (ps_sub ps) \<noteq> serviceUninitialized
      then ps\<lparr>ps_sub := onReset_begin (ps_sub ps), ps_reset := WaitingForDelivery\<rparr> else ps)"
| "subscription_step subNet comNet SeResetFlush ps =
     (if ps_reset ps = WaitingForDelivery \<and> Wait_returns (ss_messageQueue (ps_sub ps))
      then ps\<lparr>ps_com := BlockingReset_begin (ps_com ps), ps_reset := FlushingCommits\<rparr> else ps)"
| "subscription_step subNet comNet SeResetRound ps =
     (if ps_reset ps = FlushingCommits
      then case BlockingReset_round comNet (ps_com ps) of
             (c, None) \<Rightarrow> ps\<lparr>ps_com := c\<rparr>
           | (c, Some err) \<Rightarrow> ps\<lparr>ps_com := c, ps_sub := onReset_end err (ps_sub ps), ps_reset := NoReset\<rparr>
      else ps)"
| "subscription_step subNet comNet (SeCommitter e) ps =
     (if committer_own e then ps\<lparr>ps_com := committer_step comNet e (ps_com ps)\<rparr> else ps)"

definition subscription_run ::
  "(nat \<Rightarrow> nat \<Rightarrow> wire_error option) \<Rightarrow> (nat \<Rightarrow> nat \<Rightarrow> wire_error option) \<Rightarrow> subscribeEvent list \<Rightarrow> partitionState \<Rightarrow> partitionState" where
  "subscription_run subNet comNet es ps = fold (subscription_step subNet comNet) es ps"

section \<open>What the committer does to the ack tracker\<close>

text \<open>The committer only ever advances and shrinks the tracker, and clears callbacks.\<close>

definition acks_le :: "'f ackState \<Rightarrow> 'f ackState \<Rightarrow> bool" where
  "acks_le acks acks' \<longleftrightarrow>
     same_acks (fst acks) (fst acks')
   \<and> set (outstandingAcks (snd acks')) \<subseteq> set (outstandingAcks (snd acks))
   \<and> (ackedPrefixOffset (snd acks') = ackedPrefixOffset (snd acks)
      \<or> ackedPrefixOffset (snd acks') \<in> (\<lambda>a. ac_Offset (fst acks a)) ` set (outstandingAcks (snd acks)))
   \<and> (enablePush (snd acks') \<longrightarrow> enablePush (snd acks))
   \<and> (\<forall>a. ac_onAck (fst acks' a) = ac_onAck (fst acks a) \<or> ac_onAck (fst acks' a) = None)"

lemma acks_le_refl [simp]: "acks_le acks acks"
  by (simp add: acks_le_def)

lemma acks_le_trans:
  assumes "acks_le a b" "acks_le b c"
  shows "acks_le a c"
proof -
  have same: "same_acks (fst a) (fst b)" and out: "set (outstandingAcks (snd b)) \<subseteq> set (outstandingAcks (snd a))"
    using assms(1) by (simp_all add: acks_le_def)
  have "(\<lambda>x. ac_Offset (fst b x)) ` set (outstandingAcks (snd b)) \<subseteq> (\<lambda>x. ac_Offset (fst a x)) ` set (outstandingAcks (snd a))"
    using out same by (auto simp: same_acks_def)
  then have "ackedPrefixOffset (snd c) = ackedPrefixOffset (snd a)
      \<or> ackedPrefixOffset (snd c) \<in> (\<lambda>x. ac_Offset (fst a x)) ` set (outstandingAcks (snd a))"
    using assms(1,2) unfolding acks_le_def by (elim conjE disjE) (simp_all add: subsetD)
  moreover have "ac_onAck (fst c x) = ac_onAck (fst a x) \<or> ac_onAck (fst c x) = None" for x
  proof -
    have "ac_onAck (fst b x) = ac_onAck (fst a x) \<or> ac_onAck (fst b x) = None"
      "ac_onAck (fst c x) = ac_onAck (fst b x) \<or> ac_onAck (fst c x) = None"
      using assms by (simp_all add: acks_le_def)
    then show ?thesis by auto
  qed
  moreover have "same_acks (fst a) (fst c)"
    using assms same_acks_trans by (auto simp: acks_le_def)
  ultimately show ?thesis using assms out by (auto simp: acks_le_def)
qed

lemma Clear_onAck: "ac_onAck (ackConsumer_Clear a h b) = ac_onAck (h b) \<or> ac_onAck (ackConsumer_Clear a h b) = None"
  by (simp add: ackConsumer_Clear_def)

lemma fold_Clear_onAck:
  "ac_onAck (fold ackConsumer_Clear as h b) = ac_onAck (h b) \<or> ac_onAck (fold ackConsumer_Clear as h b) = None"
proof (induction as arbitrary: h)
  case (Cons a as)
  from Cons [of "ackConsumer_Clear a h"] Clear_onAck [of a h b] show ?case by auto
qed simp

lemma processAcks_loop_le:
  "processAcks_loop h p xs = (h', p', rest) \<Longrightarrow>
     set rest \<subseteq> set xs \<and> (p' = p \<or> p' \<in> (\<lambda>a. ac_Offset (h a)) ` set xs)
   \<and> (\<forall>b. ac_onAck (h' b) = ac_onAck (h b) \<or> ac_onAck (h' b) = None)"
proof (induction h p xs arbitrary: h' p' rest rule: processAcks_loop.induct)
  case (2 h p a xs)
  show ?case
  proof (cases "IsAcked a h")
    case True
    from 2 True have "set rest \<subseteq> set xs" "p' = ac_Offset (h a) \<or> p' \<in> (\<lambda>b. ac_Offset (ackConsumer_Clear a h b)) ` set xs"
      "\<forall>b. ac_onAck (h' b) = ac_onAck (ackConsumer_Clear a h b) \<or> ac_onAck (h' b) = None" by auto
    moreover have "ac_Offset (ackConsumer_Clear a h b) = ac_Offset (h b)" for b
      by (simp add: ackConsumer_Clear_def)
    moreover have "ac_onAck (h' b) = ac_onAck (h b) \<or> ac_onAck (h' b) = None" for b
      using calculation(3) Clear_onAck [of a h b] by metis
    ultimately show ?thesis by auto
  qed (use 2 in auto)
qed auto

lemma acks_le_process: "acks_le acks (unsafeProcessAcks acks)"
proof -
  obtain h at where acks: "acks = (h, at)" by (cases acks)
  obtain h' p' rest where l: "processAcks_loop h (ackedPrefixOffset at) (outstandingAcks at) = (h', p', rest)"
    by (metis prod_cases3)
  show ?thesis
    using processAcks_loop_le [OF l] processAcks_loop_same_acks [OF l]
    by (simp add: acks unsafeProcessAcks_def l acks_le_def)
qed

lemma acks_le_CommitOffset: "acks_le acks (fst (ackTracker_CommitOffset acks))"
  using acks_le_process [of acks] by (simp add: ackTracker_CommitOffset_def Let_def)

lemma acks_le_clear: "acks_le acks (unsafeClearAcks acks)"
  by (cases acks) (simp add: unsafeClearAcks_def acks_le_def fold_Clear_onAck)

lemma acks_le_Release: "acks_le acks (ackTracker_Release acks)"
proof -
  obtain h at where acks: "acks = (h, at)" by (cases acks)
  have "acks_le acks (h, at\<lparr>enablePush := False\<rparr>)" by (simp add: acks acks_le_def)
  then show ?thesis
    unfolding acks ackTracker_Release_def
    using acks_le_trans [OF _ acks_le_trans [OF acks_le_process acks_le_clear]] by (simp add: acks)
qed

lemma acks_le_Next: "acks_le acks (fst (commitCursorTracker_NextOffset acks ct))"
  using acks_le_CommitOffset [of acks] by (simp add: commitCursorTracker_NextOffset_def case_prod_beta)

lemma acks_le_commitOffset: "acks_le (cm_acks c) (cm_acks (unsafeCommitOffsetToStream net c))"
  using acks_le_Next [of "cm_acks c" "cm_cursorTracker c"]
  by (simp add: unsafeCommitOffsetToStream_def Let_def case_prod_beta)

lemma acks_le_checkDone: "acks_le (cm_acks c) (cm_acks (committer_unsafeCheckDone c))"
  using acks_le_CommitOffset [of "cm_acks c"]
  by (simp add: committer_unsafeCheckDone_def UpToDate_def Let_def case_prod_beta flush_broadcast_def
      committer_unsafeOnTerminated_def)


lemma acks_le_shutdown: "acks_le (cm_acks c) (cm_acks (committer_unsafeInitiateShutdown net t e c))"
proof -
  obtain c1 ok where u: "cm_updateStatus t (wrapError ''committer'' (cm_subscription c) e) c = (c1, ok)" by fastforce
  have eq: "cm_acks c1 = cm_acks c"
    using cm_updateStatus_fields(1) [of t "wrapError ''committer'' (cm_subscription c) e" c] u by simp
  let ?c2 = "flush_broadcast c1"
  have 1: "acks_le (cm_acks c) (cm_acks (committer_unsafeCheckDone c1))"
    using acks_le_checkDone [of c1] eq by simp
  have 2: "acks_le (cm_acks c) (cm_acks (committer_unsafeCheckDone (unsafeCommitOffsetToStream net ?c2)))"
    using acks_le_trans [OF acks_le_commitOffset [of ?c2 net] acks_le_checkDone] eq by (simp add: flush_broadcast_def)
  have 3: "acks_le (cm_acks c) (cm_acks (committer_unsafeOnTerminated (?c2\<lparr>cm_acks := ackTracker_Release (cm_acks ?c2)\<rparr>)))"
    using acks_le_Release [of "cm_acks c"] eq by (simp add: flush_broadcast_def committer_unsafeOnTerminated_def)
  show ?thesis using 1 2 3 by (simp add: committer_unsafeInitiateShutdown_def u Let_def)
qed

lemma acks_le_response: "acks_le (cm_acks c) (cm_acks (committer_onResponse net r c))"
proof -
  obtain c1 e where p: "committer_processResponse r c = (c1, e)" by fastforce
  have "acks_le (cm_acks c) (cm_acks c1)"
    using p acks_le_checkDone [of "c\<lparr>cm_cursorTracker := ct\<rparr>" for ct]
    by (auto simp: committer_processResponse_def
        split: commitResponse.splits if_splits prod.splits option.splits)
  then show ?thesis
    by (auto simp: committer_onResponse_def p intro: acks_le_trans [OF _ acks_le_shutdown] split: option.split)
qed

lemma acks_le_connected: "acks_le (cm_acks c) (cm_acks (committer_onStreamStatusChange net streamConnected c))"
proof -
  define c1 where "c1 = (fst (cm_updateStatus serviceActive None (c\<lparr>cm_enableCommits := True\<rparr>)))
      \<lparr>cm_cursorTracker := ClearPending (cm_cursorTracker c)\<rparr>"
  have "cm_acks c1 = cm_acks c" by (simp add: c1_def)
  with acks_le_commitOffset [of c1 net] show ?thesis
    by (simp add: committer_onStreamStatusChange_def Let_def c1_def)
qed

lemma acks_le_step:
  assumes "committer_own e"
  shows "acks_le (cm_acks c) (cm_acks (committer_step net e c))"
proof (cases e)
  case CmTerminate
  then show ?thesis
    using acks_le_trans [OF acks_le_Release [of "cm_acks c"]]
      acks_le_shutdown [of "c\<lparr>cm_acks := ackTracker_Release (cm_acks c)\<rparr>" net]
    by (simp add: committer_Terminate_def)
next
  case (CmConnected now sid)
  then show ?thesis
    using acks_le_connected [of "c\<lparr>cm_stream := st\<rparr>" net for st] by (auto split: prod.split)
next
  case CmReconnecting
  then show ?thesis by (auto simp: committer_onStreamStatusChange_def split: prod.split)
next
  case CmStart
  then show ?thesis by (simp add: committer_Start_def case_prod_beta)
qed (use assms in \<open>simp_all add: committer_Stop_def commitOffsetToStream_def acks_le_shutdown acks_le_commitOffset
        acks_le_response committer_onStreamStatusChange_def\<close>)

section \<open>Every delivered message is tracked\<close>

text \<open>\<open>below acks n\<close>: everything the tracker knows of has an offset below \<open>n\<close>.\<close>

definition below :: "'f ackState \<Rightarrow> int \<Rightarrow> bool" where
  "below acks n \<longleftrightarrow> ackedPrefixOffset (snd acks) < n
     \<and> (\<forall>a\<in>set (outstandingAcks (snd acks)). ac_Offset (fst acks a) < n)"

lemma below_le: "acks_le acks acks' \<Longrightarrow> below acks n \<Longrightarrow> below acks' n"
  by (auto simp: acks_le_def below_def same_acks_def)

lemma below_mono: "below acks n \<Longrightarrow> n \<le> m \<Longrightarrow> below acks m"
  by (auto simp: below_def)

text \<open>The messages of a channel from the point of view of the tracker: consumers with the messages'
  offsets, strictly increasing, above what is tracked and below the next offset expected.\<close>

definition chan_ok :: "'f ackState \<Rightarrow> addr \<Rightarrow> int \<Rightarrow> ReceivedMessage list \<Rightarrow> bool" where
  "chan_ok acks next minNext msgs \<longleftrightarrow>
     sorted_wrt (<) (map (\<lambda>m. ac_Offset (fst acks (rm_ack m))) msgs)
   \<and> (\<forall>m\<in>set msgs. rm_ack m < next \<and> ac_Offset (fst acks (rm_ack m)) < minNext
        \<and> (enablePush (snd acks) \<longrightarrow> below acks (ac_Offset (fst acks (rm_ack m)))))"

definition queue_ok :: "messageDeliveryQueue \<Rightarrow> bool" where
  "queue_ok mq \<longleftrightarrow> length (mq_active mq) \<le> 1 \<and> (mq_stopC mq \<longleftrightarrow> (\<exists>d\<in>set (mq_active mq). \<not> dl_stopped d))"

definition deliv_inv :: "'f ackState \<Rightarrow> messageDeliveryQueue \<Rightarrow> addr \<Rightarrow> int \<Rightarrow> bool" where
  "deliv_inv acks mq next minNext \<longleftrightarrow>
     queue_ok mq \<and> 0 \<le> minNext
   \<and> (\<forall>a\<in>set (outstandingAcks (snd acks)). a < next)
   \<and> (enablePush (snd acks) \<longrightarrow> below acks minNext)
   \<and> (\<forall>d\<in>set (mq_active mq). chan_ok acks next minNext (dl_messagesC d))"

definition sub_inv :: "partitionState \<Rightarrow> bool" where
  "sub_inv ps \<longleftrightarrow>
     (let mq = ss_messageQueue (ps_sub ps)
      in deliv_inv (cm_acks (ps_com ps)) mq (ps_next ps) (minNextOffset (ss_offsetTracker (ps_sub ps)))
       \<and> (ps_reset ps \<noteq> NoReset \<longrightarrow> \<not> mq_stopC mq)
       \<and> (ps_reset ps = FlushingCommits \<longrightarrow> mq_active mq = [])
       \<and> (ss_status (ps_sub ps) = serviceUninitialized \<longrightarrow> mq_active mq = [] \<and> ps_reset ps = NoReset)
       \<and> ps_pushErrors ps = [])"

lemma chan_ok_le: "acks_le acks acks' \<Longrightarrow> chan_ok acks next minNext msgs \<Longrightarrow> chan_ok acks' next minNext msgs"
proof -
  assume le: "acks_le acks acks'" and ok: "chan_ok acks next minNext msgs"
  have "ac_Offset (fst acks' a) = ac_Offset (fst acks a)" for a using le by (simp add: acks_le_def same_acks_def)
  then show ?thesis using ok le below_le [OF le] by (auto simp: chan_ok_def acks_le_def)
qed

lemma sub_inv_le:
  assumes "sub_inv ps" "acks_le (cm_acks (ps_com ps)) (cm_acks c)"
  shows "sub_inv (ps\<lparr>ps_com := c\<rparr>)"
  using assms below_le [OF assms(2)] chan_ok_le [OF assms(2)]
  by (auto simp: sub_inv_def deliv_inv_def Let_def acks_le_def)

subsection \<open>Operations that leave the queue alone\<close>

lemma ss_updateStatus_fields [simp]:
  "ss_messageQueue (fst (ss_updateStatus t e s)) = ss_messageQueue s"
  "ss_offsetTracker (fst (ss_updateStatus t e s)) = ss_offsetTracker s"
  "ss_flowControl (fst (ss_updateStatus t e s)) = ss_flowControl s"
  "ss_partition (fst (ss_updateStatus t e s)) = ss_partition s"
  "ss_status (fst (ss_updateStatus t e s)) = max (ss_status s) t"
  "snd (ss_updateStatus t e s) \<longleftrightarrow> ss_status s < t"
  using unsafeUpdateStatus_status [of t e "ss_service s"] unsafeUpdateStatus_ret [of t e "ss_service s"]
  by (simp_all add: ss_updateStatus_def case_prod_beta)

lemma uninitialized_least [simp]:
  "serviceUninitialized \<le> t" "max s t = serviceUninitialized \<longleftrightarrow> s = serviceUninitialized \<and> t = serviceUninitialized"
  "\<not> s < serviceUninitialized"
  by (cases s; cases t; simp add: status_order max_def)+

text \<open>What an operation other than a response, a start or a reset does to the queue: nothing, or
  \<^verbatim>\<open>Stop\<close> when it shuts the service down.\<close>

definition frame :: "subscribeStream \<Rightarrow> subscribeStream \<Rightarrow> bool" where
  "frame s s' \<longleftrightarrow> (ss_messageQueue s' = ss_messageQueue s
       \<or> ss_messageQueue s' = messageDeliveryQueue_Stop (ss_messageQueue s) \<and> serviceTerminating \<le> ss_status s')
     \<and> ss_offsetTracker s' = ss_offsetTracker s \<and> ss_status s \<le> ss_status s'"

lemma frame_refl [simp]: "frame s s"
  by (simp add: frame_def)

lemma frame_stream [simp]: "frame s (s'\<lparr>ss_stream := st\<rparr>) \<longleftrightarrow> frame s s'" "frame (s\<lparr>ss_stream := st\<rparr>) s' \<longleftrightarrow> frame s s'"
  by (simp_all add: frame_def)

lemma frame_flow [simp]: "frame s (s'\<lparr>ss_flowControl := fc\<rparr>) \<longleftrightarrow> frame s s'"
  by (simp add: frame_def)

lemma frame_send [simp]: "frame s (unsafeSendFlowControl net req s') \<longleftrightarrow> frame s s'"
  by (simp add: unsafeSendFlowControl_def split: option.split)

lemma frame_shutdown: "serviceTerminating \<le> t \<Longrightarrow> frame s (subscribeStream_unsafeInitiateShutdown t e s)"
proof -
  assume t: "serviceTerminating \<le> t"
  obtain s1 ok where u: "ss_updateStatus t (wrapError ''subscriber'' (ss_subscription s) e) s = (s1, ok)" by fastforce
  then show ?thesis
    using t ss_updateStatus_fields [of t "wrapError ''subscriber'' (ss_subscription s) e" s]
    by (auto simp: subscribeStream_unsafeInitiateShutdown_def frame_def le_max_iff_disj)
qed

lemma frame_change:
  "status \<noteq> streamResetState \<Longrightarrow> frame s (subscribeStream_onStreamStatusChange net status s)"
proof (cases status)
  case streamConnected
  then show ?thesis
    by (simp add: subscribeStream_onStreamStatusChange_def Let_def case_prod_beta unsafeSendFlowControl_def frame_def
        split: option.split)
qed (simp_all add: subscribeStream_onStreamStatusChange_def frame_shutdown,
     simp_all add: frame_def status_order)

lemma frame_poll: "frame s (sendBatchFlowControl net s)"
  by (simp add: sendBatchFlowControl_def case_prod_beta)

lemma frame_onAck: "frame s (subscribeStream_onAck net ac s)"
  by (simp add: subscribeStream_onAck_def unsafeAllowFlow_def Let_def case_prod_beta)

lemma Stop_deliverers [simp]:
  "(\<forall>d\<in>set (mq_active (messageDeliveryQueue_Stop mq)). chan_ok acks n m (dl_messagesC d))
     \<longleftrightarrow> (\<forall>d\<in>set (mq_active mq). chan_ok acks n m (dl_messagesC d))"
  "length (mq_active (messageDeliveryQueue_Stop mq)) = length (mq_active mq)"
  "\<not> mq_stopC (messageDeliveryQueue_Stop mq)"
  "mq_active (messageDeliveryQueue_Stop mq) = [] \<longleftrightarrow> mq_active mq = []"
  by (auto simp: messageDeliveryQueue_Stop_def)

lemma queue_ok_Stop: "queue_ok mq \<Longrightarrow> queue_ok (messageDeliveryQueue_Stop mq)"
  by (auto simp: queue_ok_def messageDeliveryQueue_Stop_def)

lemma sub_inv_frame:
  assumes "sub_inv ps" "frame (ps_sub ps) s"
  shows "sub_inv (ps\<lparr>ps_sub := s\<rparr>)"
  using assms queue_ok_Stop [of "ss_messageQueue (ps_sub ps)"]
  unfolding sub_inv_def deliv_inv_def frame_def Let_def
  by (elim conjE disjE) (simp_all split del: if_split, auto simp: status_order, (cases "ss_status (ps_sub ps)"; simp)+)

subsection \<open>Start, responses and deliveries\<close>

lemma sub_inv_Start: "sub_inv ps \<Longrightarrow> sub_inv (ps\<lparr>ps_sub := subscribeStream_Start (ps_sub ps)\<rparr>)"
proof -
  assume inv: "sub_inv ps"
  obtain s1 ok where u: "ss_updateStatus serviceStarting None (ps_sub ps) = (s1, ok)" by fastforce
  have f: "ss_messageQueue s1 = ss_messageQueue (ps_sub ps)" "ss_offsetTracker s1 = ss_offsetTracker (ps_sub ps)"
    "ss_status s1 \<noteq> serviceUninitialized" "ss_status (ps_sub ps) \<le> ss_status s1" "ok \<longleftrightarrow> ss_status (ps_sub ps) = serviceUninitialized"
    using ss_updateStatus_fields [of serviceStarting None "ps_sub ps"] u
    by (cases "ss_status (ps_sub ps)"; simp add: status_order)+
  show ?thesis
  proof (cases ok)
    case True
    then have "mq_active (ss_messageQueue s1) = []" "ps_reset ps = NoReset" "\<not> mq_stopC (ss_messageQueue s1)"
      using inv f by (auto simp: sub_inv_def deliv_inv_def Let_def queue_ok_def)
    then show ?thesis
      using inv f True by (simp add: subscribeStream_Start_def u sub_inv_def deliv_inv_def Let_def messageDeliveryQueue_Start_def
          queue_ok_def chan_ok_def)
  next
    case False
    have "frame (ps_sub ps) s1" using f False by (simp add: frame_def)
    with False sub_inv_frame [OF inv] show ?thesis by (simp add: subscribeStream_Start_def u)
  qed
qed

lemma below_cong:
  "\<forall>a\<in>set (outstandingAcks (snd acks)). fst acks' a = fst acks a \<Longrightarrow> snd acks' = snd acks \<Longrightarrow> below acks' n = below acks n"
  by (simp add: below_def)

lemma mq_active_Add:
  "d \<in> set (mq_active (messageDeliveryQueue_Add msg mq)) \<Longrightarrow>
     \<exists>d0\<in>set (mq_active mq). dl_stopped d = dl_stopped d0 \<and> dl_messagesC d \<in> {dl_messagesC d0, dl_messagesC d0 @ [msg]}"
  by (auto simp: messageDeliveryQueue_Add_def split: if_splits)

lemma queue_ok_Add: "queue_ok mq \<Longrightarrow> queue_ok (messageDeliveryQueue_Add msg mq)"
  by (simp add: queue_ok_def messageDeliveryQueue_Add_def if_distrib [of dl_stopped] del: if_image_distrib)

lemma newAckConsumer_Offset [simp]: "ac_Offset (newAckConsumer off b f) = off"
  by (simp add: newAckConsumer_def)

text \<open>Queueing one more message, whose consumer is new and whose offset is at least the next expected.\<close>

lemma deliv_inv_Add:
  assumes "deliv_inv (h, at) mq next n" "n \<le> sm_offset m"
  shows "deliv_inv (h(next := newAckConsumer (sm_offset m) b f), at)
           (messageDeliveryQueue_Add \<lparr>rm_msg = m, rm_ack = next, rm_partition = p\<rparr> mq) (Suc next) (sm_offset m + 1)"
proof -
  let ?h = "h(next := newAckConsumer (sm_offset m) b f)"
  have old: "ac_Offset (?h a) = ac_Offset (h a)" if "a < next" for a using that by simp
  have out: "\<forall>a\<in>set (outstandingAcks at). a < next" using assms by (simp add: deliv_inv_def)
  have bel: "below (?h, at) k = below (h, at) k" for k using out by (intro below_cong) auto
  have bel1: "enablePush at \<Longrightarrow> below (h, at) (sm_offset m)"
    using assms by (auto simp: deliv_inv_def intro: below_mono)
  have keep: "chan_ok (?h, at) (Suc next) (sm_offset m + 1) c" if "chan_ok (h, at) next n c" for c
  proof -
    have "map (\<lambda>x. ac_Offset (?h (rm_ack x))) c = map (\<lambda>x. ac_Offset (h (rm_ack x))) c"
      using that by (auto simp: chan_ok_def)
    then have "sorted_wrt (<) (map (\<lambda>x. ac_Offset (?h (rm_ack x))) c)"
      using that by (simp only: chan_ok_def fst_conv)
    then show ?thesis using that assms(2) by (auto simp: chan_ok_def bel)
  qed
  have snoc: "chan_ok (?h, at) (Suc next) (sm_offset m + 1) (c @ [\<lparr>rm_msg = m, rm_ack = next, rm_partition = p\<rparr>])"
    if "chan_ok (h, at) next n c" for c
    using keep [OF that] that assms(2) bel1
    by (auto simp: chan_ok_def bel sorted_wrt_append)
  show ?thesis
    using assms keep snoc bel1 below_mono [of "(h, at)" "sm_offset m" "sm_offset m + 1"] queue_ok_Add [of mq]
    by (auto simp: deliv_inv_def bel less_Suc_eq dest!: mq_active_Add)
qed

lemma enqueue_loop_inv:
  assumes "deliv_inv (h, at) (ss_messageQueue s) nx n" "offsets_follow n msgs"
  shows "case enqueue_loop msgs nx h s of (nx', h', s') \<Rightarrow>
           deliv_inv (h', at) (ss_messageQueue s') nx' (next_after n msgs)
         \<and> s' = s\<lparr>ss_messageQueue := ss_messageQueue s'\<rparr>
         \<and> mq_stopC (ss_messageQueue s') = mq_stopC (ss_messageQueue s)
         \<and> length (mq_active (ss_messageQueue s')) = length (mq_active (ss_messageQueue s))"
  using assms
proof (induction msgs nx h s arbitrary: n rule: enqueue_loop.induct)
  case (2 m msgs nx h s)
  let ?msg = "\<lparr>rm_msg = m, rm_ack = nx, rm_partition = ss_partition s\<rparr>"
  have "n \<le> sm_offset m" "offsets_follow (sm_offset m + 1) msgs"
    using "2.prems"(2) by (simp_all add: offsets_follow_Cons)
  note ih = "2.IH" [OF _ this(2)]
  have "next_after (sm_offset m + 1) msgs = next_after n (m # msgs)" by (simp add: next_after_def)
  moreover have "mq_stopC (messageDeliveryQueue_Add ?msg mq) = mq_stopC mq"
    "length (mq_active (messageDeliveryQueue_Add ?msg mq)) = length (mq_active mq)" for mq
    by (simp_all add: messageDeliveryQueue_Add_def)
  moreover let ?s = "s\<lparr>ss_messageQueue := messageDeliveryQueue_Add ?msg (ss_messageQueue s)\<rparr>"
  have "deliv_inv (h(nx := newAckConsumer (sm_offset m) (sm_sizeBytes m) (Some ())), at) (ss_messageQueue ?s)
          (Suc nx) (sm_offset m + 1)"
    using deliv_inv_Add [OF "2.prems"(1) \<open>n \<le> sm_offset m\<close>] by simp
  note ih [OF this]
  ultimately show ?case by (simp split: prod.splits del: fun_upd_apply)
qed (simp add: next_after_def)

text \<open>The messages of a response have offsets that fit an \<^verbatim>\<open>int64\<close> with room for the next one.\<close>

fun response_ok :: "subscribeResponse \<Rightarrow> bool" where
  "response_ok (SubMessages msgs) = (\<forall>m\<in>set msgs. is_int64 (sm_offset m) \<and> sm_offset m < maxInt64)"
| "response_ok _ = True"

fun event_ok :: "subscribeEvent \<Rightarrow> bool" where
  "event_ok (SeResponse r) = response_ok r"
| "event_ok _ = True"

text \<open>What \<^verbatim>\<open>unsafeOnMessageResponse\<close> leaves behind, accepted or not.\<close>

definition sub_frame :: "subscribeStream \<Rightarrow> subscribeStream \<Rightarrow> bool" where
  "sub_frame s s' \<longleftrightarrow> ss_service s' = ss_service s
     \<and> mq_stopC (ss_messageQueue s') = mq_stopC (ss_messageQueue s)
     \<and> length (mq_active (ss_messageQueue s')) = length (mq_active (ss_messageQueue s))"

lemma deliv_inv_mono:
  assumes "deliv_inv acks mq nx n" "n \<le> n'"
  shows "deliv_inv acks mq nx n'"
  using assms below_mono [of acks n n'] by (fastforce simp: deliv_inv_def chan_ok_def)

lemma next_after_mono: "offsets_follow n msgs \<Longrightarrow> n \<le> next_after n msgs"
  by (cases msgs rule: rev_cases) (auto simp: offsets_follow_def next_after_def)

lemma message_response_inv:
  assumes "deliv_inv (h, at) (ss_messageQueue s) nx (minNextOffset (ss_offsetTracker s))"
    and "\<forall>m\<in>set msgs. is_int64 (sm_offset m) \<and> sm_offset m < maxInt64"
    and "unsafeOnMessageResponse msgs nx h s = ((nx', h', s'), err)"
  shows "deliv_inv (h', at) (ss_messageQueue s') nx' (minNextOffset (ss_offsetTracker s')) \<and> sub_frame s s'"
proof -
  let ?n = "minNextOffset (ss_offsetTracker s)"
  let ?ot = "(ss_offsetTracker s)\<lparr>minNextOffset := next_after ?n msgs\<rparr>"
  let ?fc = "fst (flowControlBatcher_OnMessages msgs (ss_flowControl s))"
  note loop = onMessages_loop_iff [OF assms(2), of ?n 0 ?n]
  consider (unchanged) "nx' = nx" "h' = h" "s' = s"
    | (flow) "offsets_follow ?n msgs" "nx' = nx" "h' = h" "s' = s\<lparr>ss_offsetTracker := ?ot, ss_flowControl := ?fc\<rparr>"
    | (enqueued) "offsets_follow ?n msgs" "(nx', h', s') = enqueue_loop msgs nx h (s\<lparr>ss_offsetTracker := ?ot, ss_flowControl := ?fc\<rparr>)"
    using assms(3) by (auto simp: unsafeOnMessageResponse_def subscriberOffsetTracker_OnMessages_def loop
        split: if_splits prod.splits option.splits)
  then show ?thesis
  proof cases
    case flow
    then show ?thesis using assms(1) deliv_inv_mono [OF _ next_after_mono] by (simp add: sub_frame_def)
  next
    case enqueued
    from enqueue_loop_inv [of h at "s\<lparr>ss_offsetTracker := ?ot, ss_flowControl := ?fc\<rparr>" nx ?n msgs] assms(1) enqueued
    have r: "deliv_inv (h', at) (ss_messageQueue s') nx' (next_after ?n msgs)"
      "s' = s\<lparr>ss_offsetTracker := ?ot, ss_flowControl := ?fc, ss_messageQueue := ss_messageQueue s'\<rparr>"
      "mq_stopC (ss_messageQueue s') = mq_stopC (ss_messageQueue s)"
      "length (mq_active (ss_messageQueue s')) = length (mq_active (ss_messageQueue s))"
      by (auto split: prod.splits)
    have "ss_offsetTracker s' = ?ot" "ss_service s' = ss_service s"
      by (subst r(2), simp)+
    with r show ?thesis by (simp add: sub_frame_def)
  qed (use assms(1) in \<open>simp add: sub_frame_def\<close>)
qed

lemma sub_inv_response:
  assumes "sub_inv ps" "response_ok r"
  shows "sub_inv (subscription_step subNet comNet (SeResponse r) ps)"
proof -
  obtain h at where acks: "cm_acks (ps_com ps) = (h, at)" by (cases "cm_acks (ps_com ps)")
  have lift: "sub_inv (ps\<lparr>ps_sub := s', ps_next := nx', ps_com := (ps_com ps)\<lparr>cm_acks := (h', at)\<rparr>\<rparr>)"
    if "deliv_inv (h', at) (ss_messageQueue s') nx' (minNextOffset (ss_offsetTracker s'))" "sub_frame (ps_sub ps) s'"
    for s' nx' h'
    using that assms(1) by (auto simp: sub_inv_def sub_frame_def Let_def)
  have inv: "deliv_inv (h, at) (ss_messageQueue (ps_sub ps)) (ps_next ps) (minNextOffset (ss_offsetTracker (ps_sub ps)))"
    using assms(1) by (simp add: sub_inv_def Let_def acks)
  have fail: "sub_inv (ps\<lparr>ps_sub := subscribeStream_unsafeInitiateShutdown t e s', ps_next := nx',
                 ps_com := (ps_com ps)\<lparr>cm_acks := (h', at)\<rparr>\<rparr>)"
    if "deliv_inv (h', at) (ss_messageQueue s') nx' (minNextOffset (ss_offsetTracker s'))" "sub_frame (ps_sub ps) s'"
    and "serviceTerminating \<le> t"
    for s' nx' h' t e
    using sub_inv_frame [OF lift [OF that(1,2)] , of "subscribeStream_unsafeInitiateShutdown t e s'"] frame_shutdown [OF that(3)]
    by (cases ps) simp
  have same: "sub_frame (ps_sub ps) (ps_sub ps)" by (simp add: sub_frame_def)
  show ?thesis
    using assms lift fail lift [OF inv same] fail [OF inv same] message_response_inv [OF inv]
    by (cases r) (auto simp: subscribeStream_onResponse_def acks split: prod.splits option.splits)
qed

text \<open>The delivery goroutine takes the head of its channel: the tracker accepts its consumer.\<close>

lemma chan_ok_Push:
  assumes "chan_ok acks nx n (m # rest)" "below acks n \<or> \<not> enablePush (snd acks)"
    and "ackTracker_Push (rm_ack m) acks = (acks', err)"
  shows "err = None" "chan_ok acks' nx n rest" "enablePush (snd acks') \<longrightarrow> below acks' n"
    "set (outstandingAcks (snd acks')) \<subseteq> insert (rm_ack m) (set (outstandingAcks (snd acks)))"
proof -
  obtain h at where acks: "acks = (h, at)" by (cases acks)
  have *: "err = None \<and> chan_ok acks' nx n rest \<and> (enablePush (snd acks') \<longrightarrow> below acks' n)
    \<and> set (outstandingAcks (snd acks')) \<subseteq> insert (rm_ack m) (set (outstandingAcks (snd acks)))"
  proof (cases "enablePush at")
    case False
    then have "acks' = (ackConsumer_Clear (rm_ack m) h, at)" "err = None"
      using assms(3) by (auto simp: acks ackTracker_Push_def)
    moreover have "ac_Offset (ackConsumer_Clear (rm_ack m) h a) = ac_Offset (h a)" for a
      by (simp add: ackConsumer_Clear_def)
    ultimately show ?thesis using assms(1) False by (auto simp: acks chan_ok_def)
  next
    case True
    then have bel: "below (h, at) (ac_Offset (h (rm_ack m)))" and lt: "ac_Offset (h (rm_ack m)) < n"
      using assms(1) by (auto simp: acks chan_ok_def)
    then have "outstandingAcks at = [] \<or> ac_Offset (h (last (outstandingAcks at))) < ac_Offset (h (rm_ack m))"
      "ackedPrefixOffset at < ac_Offset (h (rm_ack m))"
      by (cases "outstandingAcks at" rule: rev_cases; simp add: below_def)+
    then have "acks' = (h, at\<lparr>outstandingAcks := outstandingAcks at @ [rm_ack m]\<rparr>)" "err = None"
      using assms(3) True by (auto simp: acks ackTracker_Push_def split: if_splits)
    then show ?thesis using assms(1,2) lt by (auto simp: acks chan_ok_def below_def)
  qed
  from * show "err = None" "chan_ok acks' nx n rest" "enablePush (snd acks') \<longrightarrow> below acks' n"
    "set (outstandingAcks (snd acks')) \<subseteq> insert (rm_ack m) (set (outstandingAcks (snd acks)))" by blast+
qed

lemma queue_ok_single:
  assumes "queue_ok mq" "i < length (mq_active mq)"
  obtains d where "mq_active mq = [d]" "i = 0"
  using assms by (cases "mq_active mq") (auto simp: queue_ok_def)

lemma sub_inv_deliver:
  assumes "sub_inv ps"
  shows "sub_inv (subscription_step subNet comNet (SeDeliver i) ps)"
proof (cases "\<exists>mq msg. deliver_next i (ss_messageQueue (ps_sub ps)) = (mq, Some msg)")
  case True
  let ?mq = "ss_messageQueue (ps_sub ps)"
  from True obtain mq msg where d: "deliver_next i ?mq = (mq, Some msg)" by blast
  then have "i < length (mq_active ?mq)" by (auto simp: deliver_next_def split: if_splits)
  moreover have q: "queue_ok ?mq" using assms by (simp add: sub_inv_def deliv_inv_def Let_def)
  ultimately obtain dl where dl: "mq_active ?mq = [dl]" "i = 0" by (auto elim: queue_ok_single)
  with d obtain rest where rest: "dl_messagesC dl = msg # rest" "mq = ?mq\<lparr>mq_active := [dl\<lparr>dl_messagesC := rest\<rparr>]\<rparr>"
    by (auto simp: deliver_next_def split: list.splits)
  obtain acks err where p: "ackTracker_Push (rm_ack msg) (cm_acks (ps_com ps)) = (acks, err)" by fastforce
  let ?n = "minNextOffset (ss_offsetTracker (ps_sub ps))"
  have c: "chan_ok (cm_acks (ps_com ps)) (ps_next ps) ?n (msg # rest)"
    and b: "below (cm_acks (ps_com ps)) ?n \<or> \<not> enablePush (snd (cm_acks (ps_com ps)))"
    using assms by (auto simp: sub_inv_def deliv_inv_def Let_def dl rest)
  have lt: "rm_ack msg < ps_next ps" using c by (simp add: chan_ok_def)
  show ?thesis
    using assms chan_ok_Push [OF c b p] q lt dl rest d p
    by (auto simp: sub_inv_def deliv_inv_def Let_def queue_ok_def)
next
  case False
  then have "snd (deliver_next i (ss_messageQueue (ps_sub ps))) = None"
    by (metis not_None_eq prod.collapse)
  then show ?thesis using assms by (simp add: case_prod_beta split: option.split)
qed

lemma sub_inv_deliverEnd:
  assumes "sub_inv ps"
  shows "sub_inv (subscription_step subNet comNet (SeDeliverEnd i) ps)"
proof (cases "i < length (mq_active (ss_messageQueue (ps_sub ps))) \<and> dl_stopped (mq_active (ss_messageQueue (ps_sub ps)) ! i)")
  case True
  have "queue_ok (ss_messageQueue (ps_sub ps))" using assms by (simp add: sub_inv_def deliv_inv_def Let_def)
  then obtain dl where "mq_active (ss_messageQueue (ps_sub ps)) = [dl]" "i = 0"
    using True by (auto elim: queue_ok_single)
  with assms True show ?thesis by (auto simp: deliver_end_def sub_inv_def deliv_inv_def Let_def queue_ok_def)
qed (use assms in \<open>auto simp: deliver_end_def\<close>)

subsection \<open>Acknowledgements and resets\<close>

lemma acks_same_offsets:
  assumes "deliv_inv (h, at) mq nx n" "\<forall>a. ac_Offset (h' a) = ac_Offset (h a)"
  shows "deliv_inv (h', at) mq nx n"
  using assms by (simp add: deliv_inv_def chan_ok_def below_def)

lemma sub_inv_ack:
  assumes "sub_inv ps"
  shows "sub_inv (subscription_step subNet comNet (SeAck a) ps)"
proof -
  obtain h at where acks: "cm_acks (ps_com ps) = (h, at)" by (cases "cm_acks (ps_com ps)")
  obtain h' f where a: "ackConsumer_Ack a h = (h', f)" by fastforce
  then have "\<forall>b. ac_Offset (h' b) = ac_Offset (h b)" by (auto simp: ackConsumer_Ack_def split: if_splits)
  then have inv: "sub_inv (ps\<lparr>ps_com := (ps_com ps)\<lparr>cm_acks := (h', at)\<rparr>\<rparr>)"
    using assms acks_same_offsets [of h at _ _ _ h'] by (simp add: sub_inv_def Let_def acks)
  then show ?thesis
    using assms sub_inv_frame [OF inv] frame_onAck by (auto simp: acks a split: option.split)
qed

lemma sub_inv_resetRound:
  assumes "sub_inv ps"
  shows "sub_inv (subscription_step subNet comNet SeResetRound ps)"
proof (cases "ps_reset ps = FlushingCommits")
  case True
  let ?c = "ps_com ps"
  obtain acks b where u: "UpToDate (cm_acks ?c) (cm_cursorTracker ?c) = (acks, b)" by fastforce
  then have le: "acks_le (cm_acks ?c) acks"
    using acks_le_CommitOffset [of "cm_acks ?c"] by (simp add: UpToDate_def Let_def case_prod_beta)
  let ?c1 = "?c\<lparr>cm_acks := acks\<rparr>"
  have idle: "mq_active (ss_messageQueue (ps_sub ps)) = []" "\<not> mq_stopC (ss_messageQueue (ps_sub ps))"
    "ss_status (ps_sub ps) \<noteq> serviceUninitialized"
    using assms True by (auto simp: sub_inv_def Let_def)
  consider (wait) "BlockingReset_round comNet ?c = (unsafeCommitOffsetToStream comNet ?c1, None)"
    | (stopped) "BlockingReset_round comNet ?c = (?c1, Some (Some ErrServiceStopped))"
    | (clean) ct where "BlockingReset_round comNet ?c = (?c1\<lparr>cm_acks := ackTracker_Reset acks, cm_cursorTracker := ct\<rparr>, Some None)"
    by (cases "\<not> b \<and> cm_status ?c < serviceTerminating"; cases "serviceTerminating \<le> cm_status ?c")
       (simp_all add: BlockingReset_round_def u Let_def commitCursorTracker_Reset_def case_prod_beta)
  then show ?thesis
  proof cases
    case wait
    have "acks_le (cm_acks ?c) (cm_acks (unsafeCommitOffsetToStream comNet ?c1))"
      using acks_le_trans [OF le] acks_le_commitOffset [of ?c1 comNet] by simp
    then show ?thesis using sub_inv_le [OF assms] by (simp add: True wait)
  next
    case stopped
    have "sub_inv (ps\<lparr>ps_com := ?c1\<rparr>)" using le by (intro sub_inv_le [OF assms]) simp
    from sub_inv_frame [OF this, of "subscribeStream_unsafeInitiateShutdown serviceTerminating None (ps_sub ps)"]
    have "sub_inv (ps\<lparr>ps_com := ?c1, ps_sub := subscribeStream_unsafeInitiateShutdown serviceTerminating None (ps_sub ps)\<rparr>)"
      using frame_shutdown by simp
    then show ?thesis using idle by (auto simp: True stopped onReset_end_def sub_inv_def Let_def)
  next
    case clean
    have "below (ackTracker_Reset acks) 0" "outstandingAcks (snd (ackTracker_Reset acks)) = []"
      by (cases acks; simp add: ackTracker_Reset_def unsafeClearAcks_def below_def nilCursorOffset_def)+
    then show ?thesis
      using assms idle by (simp add: True clean onReset_end_def sub_inv_def deliv_inv_def Let_def queue_ok_def chan_ok_def
          messageDeliveryQueue_Start_def subscriberOffsetTracker_Reset_def)
  qed
qed (use assms in simp)

lemma sub_inv_step:
  assumes "sub_inv ps" "event_ok e"
  shows "sub_inv (subscription_step subNet comNet e ps)"
proof (cases e)
  case SeReset
  then show ?thesis
    using assms queue_ok_Stop [of "ss_messageQueue (ps_sub ps)"]
    by (simp add: sub_inv_def deliv_inv_def Let_def onReset_begin_def)
next
  case SeResetFlush
  then show ?thesis
    using assms sub_inv_le [OF assms(1), of "BlockingReset_begin (ps_com ps)"] acks_le_Release [of "cm_acks (ps_com ps)"]
    by (auto simp: sub_inv_def Let_def BlockingReset_begin_def Wait_returns_def)
next
  case SeReconnecting
  then show ?thesis
    using assms sub_inv_frame [OF assms(1)] frame_change [of _ "(ps_sub ps)\<lparr>ss_stream := st\<rparr>" for st]
    by (auto split: prod.split)
next
  case (SeConnected now sid)
  then show ?thesis
    using assms sub_inv_frame [OF assms(1)] frame_change [of _ "(ps_sub ps)\<lparr>ss_stream := st\<rparr>" for st]
    by (auto split: prod.split)
qed (use assms in \<open>simp_all add: sub_inv_Start sub_inv_response sub_inv_deliver sub_inv_deliverEnd sub_inv_ack
       sub_inv_resetRound sub_inv_frame frame_change frame_poll subscribeStream_Stop_def frame_shutdown
       sub_inv_le acks_le_step del: subscription_step.simps(3,9,10,11,14)\<close>)

lemma sub_inv_new: "sub_inv (newPartitionState settings subscription part h)"
  by (simp add: sub_inv_def deliv_inv_def newPartitionState_def newSubscribeStream_def newMessageDeliveryQueue_def newCommitter_def
      newAckTracker_def new_abstractService_def queue_ok_def below_def nilCursorOffset_def)

lemma sub_inv_run:
  "\<forall>e\<in>set es. event_ok e \<Longrightarrow> sub_inv ps \<Longrightarrow> sub_inv (subscription_run subNet comNet es ps)"
  unfolding subscription_run_def by (induction es arbitrary: ps) (simp_all add: sub_inv_step)

text \<open>C5: Every message handed to the user is tracked: whatever the interleaving of responses, deliveries,
  acknowledgements, commits, reconnections and resets, the error of \<^verbatim>\<open>acks.Push\<close> that the delivery
  goroutine ignores never occurs, at most one delivery goroutine exists, and while deliveries are
  accepted a reconnecting subscriber asks for an offset above everything it tracks.\<close>

theorem subscriber_tracks_deliveries:
  assumes "\<forall>e\<in>set es. event_ok e"
    and ps_def: "ps = subscription_run subNet comNet es (newPartitionState settings subscription part h)"
  shows "ps_pushErrors ps = []
       \<and> length (mq_active (ss_messageQueue (ps_sub ps))) \<le> 1
       \<and> (enablePush (snd (cm_acks (ps_com ps))) \<longrightarrow>
           (\<forall>a\<in>set (outstandingAcks (snd (cm_acks (ps_com ps)))).
              ac_Offset (fst (cm_acks (ps_com ps)) a) < minNextOffset (ss_offsetTracker (ps_sub ps))))"
proof -
  have "sub_inv ps" unfolding ps_def by (rule sub_inv_run [OF assms(1) sub_inv_new])
  then show ?thesis by (auto simp: sub_inv_def deliv_inv_def queue_ok_def below_def Let_def)
qed

definition example_events :: "subscribeEvent list" where
  "example_events =
     [SeStart, SeResponse (SubMessages [\<lparr>sm_offset = 5, sm_sizeBytes = 10\<rparr>, \<lparr>sm_offset = 8, sm_sizeBytes = 10\<rparr>]),
      SeDeliver 0, SeDeliver 0]"

theorem subscriber_tracks_deliveries_witness:
  "ps_pushErrors (subscription_run (\<lambda>_ _. None) (\<lambda>_ _. None) example_events
     (newPartitionState DefaultReceiveSettings ''sub'' 0 (\<lambda>_. newAckConsumer 0 0 None))) = []
 \<and> map (sm_offset \<circ> rm_msg) (ps_delivered (subscription_run (\<lambda>_ _. None) (\<lambda>_ _. None) example_events
     (newPartitionState DefaultReceiveSettings ''sub'' 0 (\<lambda>_. newAckConsumer 0 0 None)))) = [5, 8]"
proof -
  have ok: "\<forall>e\<in>set example_events. event_ok e" by (simp add: example_events_def int64_defs)
  have "map (sm_offset \<circ> rm_msg) (ps_delivered (subscription_run (\<lambda>_ _. None) (\<lambda>_ _. None) example_events
     (newPartitionState DefaultReceiveSettings ''sub'' 0 (\<lambda>_. newAckConsumer 0 0 None)))) = [5, 8]"
    by code_simp
  with subscriber_tracks_deliveries [OF ok refl] show ?thesis by simp
qed

end
