(* ===== verification/Wire_Assigner.thy ===== *)
theory Wire_Assigner
  imports Wire_Subscriber Wire_Resources
begin

text \<open>
  \<^verbatim>\<open>assigner.go\<close>: sets of partitions and the service around the partition assignment stream.  A set
  of partitions is a map with empty values: a list without repetitions, in the order in which
  \<^verbatim>\<open>range\<close> happens to visit it.
\<close>

section \<open>Partition sets\<close>

type_synonym PartitionSet = "int list"

definition NewPartitionSet :: "int list \<Rightarrow> PartitionSet" where
  "NewPartitionSet partitions = fold (\<lambda>p ps. if p \<in> set ps then ps else ps @ [p]) partitions []"

text \<open>The wire representation has 64-bit partition numbers, as \<^verbatim>\<open>int\<close> has.\<close>

definition newPartitionSet :: "int list \<Rightarrow> PartitionSet" where
  "newPartitionSet assignmentpb = NewPartitionSet (map wrap64 assignmentpb)"

definition PartitionSet_Ints :: "PartitionSet \<Rightarrow> int list" where
  "PartitionSet_Ints ps = ps"

definition SortedInts :: "PartitionSet \<Rightarrow> int list" where
  "SortedInts ps = sort (PartitionSet_Ints ps)"

definition PartitionSet_Contains :: "int \<Rightarrow> PartitionSet \<Rightarrow> bool" where
  "PartitionSet_Contains part ps \<longleftrightarrow> part \<in> set ps"

lemma NewPartitionSet_fold:
  "distinct ps \<Longrightarrow> set (fold (\<lambda>p ps. if p \<in> set ps then ps else ps @ [p]) xs ps) = set ps \<union> set xs
     \<and> distinct (fold (\<lambda>p ps. if p \<in> set ps then ps else ps @ [p]) xs ps)"
  by (induction xs arbitrary: ps) auto

lemma NewPartitionSet_set [simp]: "set (NewPartitionSet ps) = set ps" "distinct (NewPartitionSet ps)"
  using NewPartitionSet_fold [of "[]" ps] by (simp_all add: NewPartitionSet_def)

section \<open>The assigner\<close>

text \<open>The requests sent after the initial one are acknowledgements, all alike.\<close>

record assigner =
  an_subscription :: string
  an_initialReq :: "string \<times> bytes"
  an_stream :: "unit retryableStream"
  an_service :: abstractService

abbreviation an_status :: "assigner \<Rightarrow> serviceStatus" where
  "an_status a \<equiv> as_status (an_service a)"

text \<open>\<open>genUUID\<close> is the result of the UUID generator; the stream's idle timeout is ten minutes.\<close>

definition newAssigner :: "wire_error + bytes \<Rightarrow> ReceiveSettings \<Rightarrow> string \<Rightarrow> wire_error + assigner" where
  "newAssigner genUUID settings subscriptionPath =
     (case genUUID of
        Inl err \<Rightarrow> Inl (errGenerateUUID err)
      | Inr clientID \<Rightarrow>
          Inr \<lparr>an_subscription = subscriptionPath, an_initialReq = (subscriptionPath, clientID),
               an_stream = newRetryableStream (rs_Timeout settings) 600000000000,
               an_service = new_abstractService\<rparr>)"

definition an_updateStatus :: "serviceStatus \<Rightarrow> wire_error option \<Rightarrow> assigner \<Rightarrow> assigner \<times> bool" where
  "an_updateStatus target err a =
     (case unsafeUpdateStatus target err (an_service a) of (as, ok) \<Rightarrow> (a\<lparr>an_service := as\<rparr>, ok))"

definition assigner_Start :: "assigner \<Rightarrow> assigner" where
  "assigner_Start a =
     (case an_updateStatus serviceStarting None a of (a1, updated) \<Rightarrow>
        if updated then a1\<lparr>an_stream := retryableStream_Start (an_stream a1)\<rparr> else a1)"

definition assigner_unsafeInitiateShutdown :: "serviceStatus \<Rightarrow> wire_error option \<Rightarrow> assigner \<Rightarrow> assigner" where
  "assigner_unsafeInitiateShutdown targetStatus err a =
     (case an_updateStatus targetStatus (wrapError ''assigner'' (an_subscription a) err) a of
        (a1, updated) \<Rightarrow>
          if \<not> updated then a1 else a1\<lparr>an_stream := retryableStream_Stop (an_stream a1)\<rparr>)"

definition assigner_Stop :: "assigner \<Rightarrow> assigner" where
  "assigner_Stop a = assigner_unsafeInitiateShutdown serviceTerminating None a"

definition assigner_initialRequest :: "assigner \<Rightarrow> (string \<times> bytes) \<times> bool" where
  "assigner_initialRequest a = (an_initialReq a, False)"

definition assigner_validateInitialResponse :: "'r \<Rightarrow> wire_error option" where
  "assigner_validateInitialResponse response = Some errUnexpectedInitialResponse"

definition assigner_onStreamStatusChange :: "streamStatus \<Rightarrow> assigner \<Rightarrow> assigner" where
  "assigner_onStreamStatusChange status a =
     (case status of
        streamConnected \<Rightarrow> fst (an_updateStatus serviceActive None a)
      | streamTerminated \<Rightarrow> assigner_unsafeInitiateShutdown serviceTerminated (rs_finalErr (an_stream a)) a
      | _ \<Rightarrow> a)"

text \<open>\<^verbatim>\<open>onResponse\<close> after the receiver has returned \<open>err\<close> (the mutex is taken only then).\<close>

definition assigner_onResponse ::
  "(nat \<Rightarrow> nat \<Rightarrow> wire_error option) \<Rightarrow> wire_error option \<Rightarrow> assigner \<Rightarrow> assigner" where
  "assigner_onResponse SendMsg err a =
     (if an_status a \<ge> serviceTerminating then a
      else if err \<noteq> None then assigner_unsafeInitiateShutdown serviceTerminated err a
      else a\<lparr>an_stream := fst (retryableStream_Send SendMsg () (an_stream a))\<rparr>)"

lemma an_updateStatus_fields [simp]:
  "an_status (fst (an_updateStatus t e a)) = max (an_status a) t"
  "an_stream (fst (an_updateStatus t e a)) = an_stream a"
  "snd (an_updateStatus t e a) \<longleftrightarrow> an_status a < t"
  using unsafeUpdateStatus_status [of t e "an_service a"] unsafeUpdateStatus_ret [of t e "an_service a"]
  by (simp_all add: an_updateStatus_def case_prod_beta)

section \<open>Both are services\<close>

definition assigner_ops :: "assigner service_ops" where
  "assigner_ops =
     \<lparr>svc_Start = assigner_Start,
      svc_Stop = assigner_Stop,
      svc_AddStatusChangeReceiver = (\<lambda>h f a. a\<lparr>an_service := AddStatusChangeReceiver h f (an_service a)\<rparr>),
      svc_RemoveStatusChangeReceiver = (\<lambda>h a. a\<lparr>an_service := RemoveStatusChangeReceiver h (an_service a)\<rparr>),
      svc_Status = an_status\<rparr>"

lemma started_above [simp]: "\<not> t < serviceStarting \<Longrightarrow> serviceUninitialized < t"
  by (cases t) (simp_all add: status_order)

interpretation assigner_service: service_contract assigner_ops
  by unfold_locales
    (auto simp: assigner_ops_def assigner_Start_def assigner_Stop_def assigner_unsafeInitiateShutdown_def case_prod_beta
      AddStatusChangeReceiver_def RemoveStatusChangeReceiver_def le_max_iff_disj less_max_iff_disj)

definition subscribeStream_ops :: "subscribeStream service_ops" where
  "subscribeStream_ops =
     \<lparr>svc_Start = subscribeStream_Start,
      svc_Stop = subscribeStream_Stop,
      svc_AddStatusChangeReceiver = (\<lambda>h f s. s\<lparr>ss_service := AddStatusChangeReceiver h f (ss_service s)\<rparr>),
      svc_RemoveStatusChangeReceiver = (\<lambda>h s. s\<lparr>ss_service := RemoveStatusChangeReceiver h (ss_service s)\<rparr>),
      svc_Status = ss_status\<rparr>"

interpretation subscribeStream_service: service_contract subscribeStream_ops
  by unfold_locales
    (auto simp: subscribeStream_ops_def subscribeStream_Start_def subscribeStream_Stop_def
      subscribeStream_unsafeInitiateShutdown_def case_prod_beta
      AddStatusChangeReceiver_def RemoveStatusChangeReceiver_def le_max_iff_disj less_max_iff_disj)

text \<open>An assignment is acknowledged on the stream exactly when the receiver returned without an error and the
  assigner is not terminating; an error terminates it for good.\<close>

lemma assigner_acks:
  "rs_stream (an_stream a) = Some sid \<Longrightarrow> SendMsg sid (rs_sends (an_stream a)) = None \<Longrightarrow>
     rs_sent (an_stream (assigner_onResponse SendMsg err a)) =
       rs_sent (an_stream a) @ (if an_status a < serviceTerminating \<and> err = None then [()] else [])
   \<and> (err \<noteq> None \<and> an_status a < serviceTerminating \<longrightarrow>
        an_status (assigner_onResponse SendMsg err a) = serviceTerminated)"
  by (auto simp: assigner_onResponse_def assigner_unsafeInitiateShutdown_def retryableStream_Send_def Let_def
      retryableStream_Stop_def unsafeTerminate_def case_prod_beta not_le [symmetric] max_def split: option.splits)

end
