(* ===== verification/Wire_Subscribers.thy ===== *)
theory Wire_Subscribers
  imports Wire_Assigner
begin

text \<open>
  \<^verbatim>\<open>subscriber.go\<close>, the part over several partitions: \<^verbatim>\<open>singlePartitionSubscriber\<close> (a composite of the
  subscribe stream and the committer), \<^verbatim>\<open>multiPartitionSubscriber\<close> and \<^verbatim>\<open>assigningSubscriber\<close>
  (composites of those), the API clients they close (\<^verbatim>\<open>service.go\<close>), and \<^verbatim>\<open>NewSubscriber\<close>.
\<close>

section \<open>API clients\<close>

text \<open>Closing: \<open>Close c\<close> is the error of closing client \<open>c\<close>; the result is the clients closed and the
  first error.\<close>

fun apiClients_Close_loop ::
  "('k \<Rightarrow> wire_error option) \<Rightarrow> 'k list \<Rightarrow> wire_error option \<Rightarrow> 'k list \<times> wire_error option" where
  "apiClients_Close_loop Close [] retErr = ([], retErr)"
| "apiClients_Close_loop Close (c # cs) retErr =
     (case apiClients_Close_loop Close cs (if retErr = None then Close c else retErr) of
        (shut, err) \<Rightarrow> (c # shut, err))"

definition apiClients_Close :: "('k \<Rightarrow> wire_error option) \<Rightarrow> 'k list \<Rightarrow> 'k list \<times> wire_error option" where
  "apiClients_Close Close cs = apiClients_Close_loop Close cs None"

text \<open>The two waits of \<^verbatim>\<open>apiClientService\<close>: \<open>None\<close> while the call blocks, otherwise the error returned and
  the clients closed.\<close>

definition apiClientService_WaitStopped ::
  "('k \<Rightarrow> wire_error option) \<Rightarrow> 'k list \<Rightarrow> 'c compositeService \<Rightarrow> (wire_error option \<times> 'k list) option" where
  "apiClientService_WaitStopped Close clients cs =
     (if waitTerminated cs = 0 then None else Some (as_err (cs_abstract cs), fst (apiClients_Close Close clients)))"

definition apiClientService_WaitStarted ::
  "('k \<Rightarrow> wire_error option) \<Rightarrow> 'k list \<Rightarrow> 'c compositeService \<Rightarrow> (wire_error option \<times> 'k list) option" where
  "apiClientService_WaitStarted Close clients cs =
     (if waitStarted cs = 0 then None
      else let err = as_err (cs_abstract cs)
           in if err \<noteq> None
              then (case apiClientService_WaitStopped Close clients cs of
                      None \<Rightarrow> None | Some (_, shut) \<Rightarrow> Some (err, shut))
              else Some (err, []))"

section \<open>A subscriber of one partition\<close>

text \<open>Its children: the subscribe stream under handle 1 and the committer under handle 2.\<close>

datatype spsChild = SpsSubscriber subscribeStream | SpsCommitter "unit committer"

type_synonym singlePartitionSubscriber = "spsChild compositeService"

type_synonym sends = "nat \<Rightarrow> nat \<Rightarrow> wire_error option"

definition sps_ops :: "sends \<Rightarrow> spsChild service_ops" where
  "sps_ops net =
     \<lparr>svc_Start = (\<lambda>c. case c of SpsSubscriber s \<Rightarrow> SpsSubscriber (svc_Start subscribeStream_ops s)
                                 | SpsCommitter m \<Rightarrow> SpsCommitter (svc_Start (committer_ops net) m)),
      svc_Stop = (\<lambda>c. case c of SpsSubscriber s \<Rightarrow> SpsSubscriber (svc_Stop subscribeStream_ops s)
                                | SpsCommitter m \<Rightarrow> SpsCommitter (svc_Stop (committer_ops net) m)),
      svc_AddStatusChangeReceiver =
        (\<lambda>h f c. case c of SpsSubscriber s \<Rightarrow> SpsSubscriber (svc_AddStatusChangeReceiver subscribeStream_ops h f s)
                         | SpsCommitter m \<Rightarrow> SpsCommitter (svc_AddStatusChangeReceiver (committer_ops net) h f m)),
      svc_RemoveStatusChangeReceiver =
        (\<lambda>h c. case c of SpsSubscriber s \<Rightarrow> SpsSubscriber (svc_RemoveStatusChangeReceiver subscribeStream_ops h s)
                       | SpsCommitter m \<Rightarrow> SpsCommitter (svc_RemoveStatusChangeReceiver (committer_ops net) h m)),
      svc_Status = (\<lambda>c. case c of SpsSubscriber s \<Rightarrow> svc_Status subscribeStream_ops s
                                  | SpsCommitter m \<Rightarrow> svc_Status (committer_ops net) m)\<rparr>"

text \<open>\<^verbatim>\<open>Terminate\<close>: the subscribe stream is stopped, then the committer terminated.\<close>

definition sps_Terminate :: "sends \<Rightarrow> singlePartitionSubscriber \<Rightarrow> singlePartitionSubscriber" where
  "sps_Terminate net s =
     update_child 2 (\<lambda>c. case c of SpsCommitter m \<Rightarrow> SpsCommitter (committer_Terminate net m) | _ \<Rightarrow> c)
       (update_child 1 (\<lambda>c. case c of SpsSubscriber s \<Rightarrow> SpsSubscriber (subscribeStream_Stop s) | _ \<Rightarrow> c) s)"

record singlePartitionSubscriberFactory =
  sf_settings :: ReceiveSettings
  sf_subscriptionPath :: string

text \<open>\<open>handle\<close> identifies the new composite.  Its ack tracker, shared by both children, is kept with the
  committer.\<close>

definition subscriberFactory_New ::
  "sends \<Rightarrow> singlePartitionSubscriberFactory \<Rightarrow> handle \<Rightarrow> int \<Rightarrow> singlePartitionSubscriber" where
  "subscriberFactory_New net f handle part =
     (let subscription = subscriptionPartition_String (sf_subscriptionPath f) part;
          acks = (\<lambda>_. newAckConsumer 0 0 None, newAckTracker);
          commit = newCommitter subscription (rs_Timeout (sf_settings f)) acks;
          sub = newSubscribeStream (sf_settings f) subscription part
      in fst (unsafeAddServices (sps_ops net) [(1, SpsSubscriber sub), (2, SpsCommitter commit)]
                (compositeService_init handle)))"

section \<open>A fixed set of partitions\<close>

text \<open>\<open>net p\<close> is the outcome of sends on the commit streams of partition \<open>p\<close>.\<close>

record multiPartitionSubscriber =
  ms_subscribers :: "(int \<times> handle) list"
  ms_composite :: "(int \<times> singlePartitionSubscriber) compositeService"

text \<open>The operations of a subscriber that is tagged with its partition.\<close>

definition part_ops :: "(int \<Rightarrow> sends) \<Rightarrow> (int \<times> singlePartitionSubscriber) service_ops" where
  "part_ops net =
     \<lparr>svc_Start = (\<lambda>(p, s). (p, svc_Start (composite_ops (sps_ops (net p))) s)),
      svc_Stop = (\<lambda>(p, s). (p, svc_Stop (composite_ops (sps_ops (net p))) s)),
      svc_AddStatusChangeReceiver = (\<lambda>h f (p, s). (p, svc_AddStatusChangeReceiver (composite_ops (sps_ops (net p))) h f s)),
      svc_RemoveStatusChangeReceiver = (\<lambda>h (p, s). (p, svc_RemoveStatusChangeReceiver (composite_ops (sps_ops (net p))) h s)),
      svc_Status = (\<lambda>(p, s). svc_Status (composite_ops (sps_ops (net p))) s)\<rparr>"

text \<open>The loop over \<^verbatim>\<open>settings.Partitions\<close>; the composite itself is 0 and new subscribers are numbered
  from 1 on.\<close>

fun add_fixed_partitions ::
  "(int \<Rightarrow> sends) \<Rightarrow> singlePartitionSubscriberFactory \<Rightarrow> int list \<Rightarrow> handle \<Rightarrow> multiPartitionSubscriber \<Rightarrow> multiPartitionSubscriber" where
  "add_fixed_partitions net f [] handle ms = ms"
| "add_fixed_partitions net f (p # ps) handle ms =
     add_fixed_partitions net f ps (Suc handle)
       \<lparr>ms_subscribers = AList.update p handle (ms_subscribers ms),
        ms_composite = fst (unsafeAddServices (part_ops net) [(handle, (p, subscriberFactory_New (net p) f handle p))]
                              (ms_composite ms))\<rparr>"

definition newMultiPartitionSubscriber ::
  "(int \<Rightarrow> sends) \<Rightarrow> singlePartitionSubscriberFactory \<Rightarrow> multiPartitionSubscriber" where
  "newMultiPartitionSubscriber net f =
     add_fixed_partitions net f (Partitions (sf_settings f)) 1
       \<lparr>ms_subscribers = [], ms_composite = compositeService_init 0\<rparr>"

definition terminate_part :: "(int \<Rightarrow> sends) \<Rightarrow> int \<times> singlePartitionSubscriber \<Rightarrow> int \<times> singlePartitionSubscriber" where
  "terminate_part net = (\<lambda>(p, s). (p, sps_Terminate (net p) s))"

definition multi_Terminate :: "(int \<Rightarrow> sends) \<Rightarrow> multiPartitionSubscriber \<Rightarrow> multiPartitionSubscriber" where
  "multi_Terminate net ms =
     ms\<lparr>ms_composite := fold (\<lambda>(p, h). update_child h (terminate_part net)) (ms_subscribers ms) (ms_composite ms)\<rparr>"

definition multi_PartitionActive :: "int \<Rightarrow> multiPartitionSubscriber \<Rightarrow> bool" where
  "multi_PartitionActive part ms \<longleftrightarrow> map_of (ms_subscribers ms) part \<noteq> None"

section \<open>Assigned partitions\<close>

datatype asubChild = AsAssigner assigner | AsPartition int singlePartitionSubscriber

definition asub_ops :: "(int \<Rightarrow> sends) \<Rightarrow> asubChild service_ops" where
  "asub_ops net =
     \<lparr>svc_Start = (\<lambda>c. case c of AsAssigner a \<Rightarrow> AsAssigner (svc_Start assigner_ops a)
                                 | AsPartition p s \<Rightarrow> AsPartition p (svc_Start (composite_ops (sps_ops (net p))) s)),
      svc_Stop = (\<lambda>c. case c of AsAssigner a \<Rightarrow> AsAssigner (svc_Stop assigner_ops a)
                                | AsPartition p s \<Rightarrow> AsPartition p (svc_Stop (composite_ops (sps_ops (net p))) s)),
      svc_AddStatusChangeReceiver =
        (\<lambda>h f c. case c of AsAssigner a \<Rightarrow> AsAssigner (svc_AddStatusChangeReceiver assigner_ops h f a)
                         | AsPartition p s \<Rightarrow> AsPartition p (svc_AddStatusChangeReceiver (composite_ops (sps_ops (net p))) h f s)),
      svc_RemoveStatusChangeReceiver =
        (\<lambda>h c. case c of AsAssigner a \<Rightarrow> AsAssigner (svc_RemoveStatusChangeReceiver assigner_ops h a)
                       | AsPartition p s \<Rightarrow> AsPartition p (svc_RemoveStatusChangeReceiver (composite_ops (sps_ops (net p))) h s)),
      svc_Status = (\<lambda>c. case c of AsAssigner a \<Rightarrow> svc_Status assigner_ops a
                                  | AsPartition p s \<Rightarrow> svc_Status (composite_ops (sps_ops (net p))) s)\<rparr>"

text \<open>The composite itself is 0, the assigner 1; \<open>asub_next\<close> is the number of the next subscriber
  created.\<close>

record assigningSubscriber =
  asub_factory :: singlePartitionSubscriberFactory
  asub_subscribers :: "(int \<times> handle) list"
  asub_composite :: "asubChild compositeService"
  asub_next :: handle

definition newAssigningSubscriber ::
  "(int \<Rightarrow> sends) \<Rightarrow> wire_error + bytes \<Rightarrow> singlePartitionSubscriberFactory \<Rightarrow> wire_error + assigningSubscriber" where
  "newAssigningSubscriber net genUUID f =
     (case newAssigner genUUID (sf_settings f) (sf_subscriptionPath f) of
        Inl err \<Rightarrow> Inl err
      | Inr a \<Rightarrow>
          Inr \<lparr>asub_factory = f, asub_subscribers = [],
               asub_composite = fst (unsafeAddServices (asub_ops net) [(1, AsAssigner a)] (compositeService_init 0)),
               asub_next = 2\<rparr>)"

text \<open>The two loops of \<^verbatim>\<open>doHandleAssignment\<close>.\<close>

fun add_partitions ::
  "(int \<Rightarrow> sends) \<Rightarrow> int list \<Rightarrow> assigningSubscriber \<Rightarrow> assigningSubscriber \<times> wire_error option" where
  "add_partitions net [] s = (s, None)"
| "add_partitions net (p # ps) s =
     (if map_of (asub_subscribers s) p \<noteq> None then add_partitions net ps s
      else let h = asub_next s; subscriber = subscriberFactory_New (net p) (asub_factory s) h p;
               s1 = s\<lparr>asub_next := Suc h\<rparr>
           in case unsafeAddServices (asub_ops net) [(h, AsPartition p subscriber)] (asub_composite s1) of
                (cs, Some err) \<Rightarrow> (s1\<lparr>asub_composite := cs\<rparr>, Some err)
              | (cs, None) \<Rightarrow>
                  add_partitions net ps
                    (s1\<lparr>asub_composite := cs, asub_subscribers := AList.update p h (asub_subscribers s1)\<rparr>))"

definition asub_terminate_child :: "(int \<Rightarrow> sends) \<Rightarrow> asubChild \<Rightarrow> asubChild" where
  "asub_terminate_child net c =
     (case c of AsPartition p s \<Rightarrow> AsPartition p (sps_Terminate (net p) s) | AsAssigner a \<Rightarrow> AsAssigner a)"

fun remove_partitions ::
  "(int \<Rightarrow> sends) \<Rightarrow> PartitionSet \<Rightarrow> (int \<times> handle) list \<Rightarrow> handle list \<Rightarrow> assigningSubscriber
   \<Rightarrow> assigningSubscriber \<times> handle list" where
  "remove_partitions net nextPartitions [] removedSubs s = (s, removedSubs)"
| "remove_partitions net nextPartitions ((p, h) # rest) removedSubs s =
     (if \<not> PartitionSet_Contains p nextPartitions
      then remove_partitions net nextPartitions rest (removedSubs @ [h])
             (s\<lparr>asub_composite := unsafeRemoveService (asub_ops net) h
                  (update_child h (asub_terminate_child net) (asub_composite s)),
                asub_subscribers := AList.delete p (asub_subscribers s)\<rparr>)
      else remove_partitions net nextPartitions rest removedSubs s)"

definition doHandleAssignment ::
  "(int \<Rightarrow> sends) \<Rightarrow> PartitionSet \<Rightarrow> assigningSubscriber
   \<Rightarrow> assigningSubscriber \<times> (wire_error + PartitionSet \<times> handle list)" where
  "doHandleAssignment net nextPartitions s =
     (let previousPartitions = map fst (asub_subscribers s)
      in case add_partitions net (PartitionSet_Ints nextPartitions) s of
           (s1, Some err) \<Rightarrow> (s1, Inl err)
         | (s1, None) \<Rightarrow>
             (case remove_partitions net nextPartitions (asub_subscribers s1) [] s1 of
                (s2, removedSubs) \<Rightarrow> (s2, Inr (NewPartitionSet previousPartitions, removedSubs))))"

text \<open>The state of the subscriber with handle \<open>h\<close>: a dependency, or removed and terminating, or
  terminated and forgotten.\<close>

definition asub_child :: "handle \<Rightarrow> assigningSubscriber \<Rightarrow> asubChild option" where
  "asub_child h s =
     map_of (dependencies (asub_composite s) @ removed (asub_composite s) @ released (asub_composite s)) h"

definition child_stopped :: "handle \<Rightarrow> assigningSubscriber \<Rightarrow> bool" where
  "child_stopped h s = (case asub_child h s of Some (AsPartition p c) \<Rightarrow> waitTerminated c > 0 | _ \<Rightarrow> False)"

text \<open>\<^verbatim>\<open>handleAssignment\<close> after \<^verbatim>\<open>doHandleAssignment\<close> has returned \<open>r\<close>, with \<open>s\<close> the state at the time: \<open>None\<close> while it
  still waits for removed subscribers, otherwise the error it returns to the assigner.  The user's
  handler is a parameter.\<close>

definition handleAssignment_returns ::
  "(PartitionSet \<Rightarrow> PartitionSet \<Rightarrow> wire_error option) \<Rightarrow> PartitionSet \<Rightarrow> wire_error + PartitionSet \<times> handle list
   \<Rightarrow> assigningSubscriber \<Rightarrow> wire_error option option" where
  "handleAssignment_returns reassignmentHandler nextPartitions r s =
     (case r of
        Inl err \<Rightarrow> Some (Some err)
      | Inr (previousPartitions, removedSubs) \<Rightarrow>
          (case reassignmentHandler previousPartitions nextPartitions of
             Some err \<Rightarrow> Some (Some err)
           | None \<Rightarrow> if \<forall>h\<in>set removedSubs. child_stopped h s then Some None else None))"

definition asub_Terminate :: "(int \<Rightarrow> sends) \<Rightarrow> assigningSubscriber \<Rightarrow> assigningSubscriber" where
  "asub_Terminate net s =
     s\<lparr>asub_composite := fold (\<lambda>(p, h). update_child h (asub_terminate_child net)) (asub_subscribers s) (asub_composite s)\<rparr>"

definition asub_PartitionActive :: "int \<Rightarrow> assigningSubscriber \<Rightarrow> bool" where
  "asub_PartitionActive part s \<longleftrightarrow> map_of (asub_subscribers s) part \<noteq> None"

section \<open>Creating a subscriber\<close>

datatype Subscriber = MultiPartition multiPartitionSubscriber | Assigning assigningSubscriber

datatype newSubscriberError = RegionError resource_error | WireError wire_error

text \<open>The outcomes of creating the three clients (a client is a number) and of the UUID generator.\<close>

record clientFactory =
  cf_subscriber :: "wire_error + nat"
  cf_cursor :: "wire_error + nat"
  cf_assignment :: "wire_error + nat"
  cf_uuid :: "wire_error + bytes"

text \<open>The clients still open when \<^verbatim>\<open>NewSubscriber\<close> returns, and its result.  A subscriber that is returned
  closes them when it stops.\<close>

definition NewSubscriber ::
  "(int \<Rightarrow> sends) \<Rightarrow> clientFactory \<Rightarrow> ReceiveSettings \<Rightarrow> string \<Rightarrow> string \<Rightarrow> nat list \<times> (newSubscriberError + Subscriber)" where
  "NewSubscriber net cf settings region subscriptionPath =
     (case ValidateRegion region of Some err \<Rightarrow> ([], Inl (RegionError err)) | None \<Rightarrow>
      case validateReceiveSettings settings of Some err \<Rightarrow> ([], Inl (WireError err)) | None \<Rightarrow>
      case cf_subscriber cf of Inl err \<Rightarrow> ([], Inl (WireError err)) | Inr subClient \<Rightarrow>
      case cf_cursor cf of
        Inl err \<Rightarrow> (filter (\<lambda>c. c \<notin> set (fst (apiClients_Close (\<lambda>_. None) [subClient]))) [subClient], Inl (WireError err))
      | Inr cursorClient \<Rightarrow>
          let allClients = [subClient, cursorClient];
              subFactory = \<lparr>sf_settings = settings, sf_subscriptionPath = subscriptionPath\<rparr>
          in if length (Partitions settings) > 0
             then (allClients, Inr (MultiPartition (newMultiPartitionSubscriber net subFactory)))
             else (case cf_assignment cf of
                     Inl err \<Rightarrow> (filter (\<lambda>c. c \<notin> set (fst (apiClients_Close (\<lambda>_. None) allClients))) allClients,
                                 Inl (WireError err))
                   | Inr partitionClient \<Rightarrow>
                       (allClients @ [partitionClient],
                        map_sum WireError Assigning (newAssigningSubscriber net (cf_uuid cf) subFactory))))"

section \<open>The contracts of the composites\<close>

interpretation sps_children: service_contract "sps_ops net"
proof
  fix c :: spsChild and h f
  show "serviceTerminating \<le> svc_Status (sps_ops net) (svc_Stop (sps_ops net) c)"
    using subscribeStream_service.stop_terminating committer_service.stop_terminating
    by (cases c) (simp_all add: sps_ops_def)
  show "serviceUninitialized < svc_Status (sps_ops net) (svc_Start (sps_ops net) c)"
    using subscribeStream_service.start_started committer_service.start_started
    by (cases c) (simp_all add: sps_ops_def)
  show "svc_Status (sps_ops net) c \<le> svc_Status (sps_ops net) (svc_Start (sps_ops net) c)"
    using subscribeStream_service.start_mono committer_service.start_mono
    by (cases c) (simp_all add: sps_ops_def)
  show "svc_Status (sps_ops net) c \<le> svc_Status (sps_ops net) (svc_Stop (sps_ops net) c)"
    using subscribeStream_service.stop_mono committer_service.stop_mono
    by (cases c) (simp_all add: sps_ops_def)
  show "svc_Status (sps_ops net) (svc_AddStatusChangeReceiver (sps_ops net) h f c) = svc_Status (sps_ops net) c"
    using subscribeStream_service.add_status committer_service.add_status
    by (cases c) (simp_all add: sps_ops_def)
  show "svc_Status (sps_ops net) (svc_RemoveStatusChangeReceiver (sps_ops net) h c) = svc_Status (sps_ops net) c"
    using subscribeStream_service.remove_status committer_service.remove_status
    by (cases c) (simp_all add: sps_ops_def)
qed

interpretation sps_service: service_contract "composite_ops (sps_ops net)"
  by (rule sps_children.composite_contract)

interpretation part_service: service_contract "part_ops net"
  by unfold_locales
    (auto simp: part_ops_def sps_service.stop_terminating sps_service.start_started sps_service.start_mono
      sps_service.stop_mono sps_service.add_status sps_service.remove_status)

lemmas asub_children_laws =
  assigner_service.stop_terminating assigner_service.start_started assigner_service.start_mono
  assigner_service.stop_mono assigner_service.add_status assigner_service.remove_status
  sps_service.stop_terminating sps_service.start_started sps_service.start_mono
  sps_service.stop_mono sps_service.add_status sps_service.remove_status

interpretation asub_service: service_contract "asub_ops net"
  by unfold_locales (auto simp: asub_ops_def asub_children_laws split: asubChild.split)

section \<open>Handling an assignment\<close>

text \<open>A partition's subscriber as it is made, and as \<^verbatim>\<open>Terminate\<close> leaves it: its subscribe stream is stopped
  and its ack tracker accepts nothing and waits for no acknowledgement.\<close>

definition sps_ok :: "singlePartitionSubscriber \<Rightarrow> bool" where
  "sps_ok c \<longleftrightarrow> (\<exists>s m. dependencies c = [(1, SpsSubscriber s), (2, SpsCommitter m)])"

definition sps_quiet :: "singlePartitionSubscriber \<Rightarrow> bool" where
  "sps_quiet c \<longleftrightarrow>
     (\<exists>s m. dependencies c = [(1, SpsSubscriber s), (2, SpsCommitter m)] \<and> serviceTerminating \<le> ss_status s
          \<and> \<not> enablePush (snd (cm_acks m)) \<and> outstandingAcks (snd (cm_acks m)) = [])"

lemma acks_le_quiet:
  "acks_le acks acks' \<Longrightarrow> \<not> enablePush (snd acks) \<and> outstandingAcks (snd acks) = [] \<Longrightarrow>
     \<not> enablePush (snd acks') \<and> outstandingAcks (snd acks') = []"
  by (auto simp: acks_le_def)

lemma Release_quiet:
  "\<not> enablePush (snd (ackTracker_Release acks)) \<and> outstandingAcks (snd (ackTracker_Release acks)) = []"
proof -
  obtain h at where "acks = (h, at)" by (cases acks)
  then show ?thesis
    by (simp add: ackTracker_Release_def unsafeClearAcks_def unsafeProcessAcks_def split: prod.split)
qed

lemma Stop_status [simp]: "ss_status (subscribeStream_Stop s) = max (ss_status s) serviceTerminating"
  by (simp add: subscribeStream_Stop_def subscribeStream_unsafeInitiateShutdown_def case_prod_beta)

lemma Terminate_quiet: "sps_ok c \<Longrightarrow> sps_quiet (sps_Terminate net c)"
proof -
  assume "sps_ok c"
  then obtain s m where "dependencies c = [(1, SpsSubscriber s), (2, SpsCommitter m)]" by (auto simp: sps_ok_def)
  moreover have "\<not> enablePush (snd (cm_acks (committer_Terminate net m)))
      \<and> outstandingAcks (snd (cm_acks (committer_Terminate net m))) = []"
    using acks_le_quiet [OF acks_le_shutdown [of "m\<lparr>cm_acks := ackTracker_Release (cm_acks m)\<rparr>" net serviceTerminating None]]
      Release_quiet [of "cm_acks m"] by (simp add: committer_Terminate_def)
  ultimately show ?thesis by (simp add: sps_quiet_def sps_Terminate_def update_child_def)
qed

lemma Stop_quiet:
  assumes "sps_quiet c"
  shows "sps_quiet (compositeService_Stop (sps_ops net) c)"
proof -
  obtain s m where c: "dependencies c = [(1, SpsSubscriber s), (2, SpsCommitter m)]" "serviceTerminating \<le> ss_status s"
    "\<not> enablePush (snd (cm_acks m)) \<and> outstandingAcks (snd (cm_acks m)) = []" using assms by (auto simp: sps_quiet_def)
  have q: "\<not> enablePush (snd (cm_acks (committer_Stop net m))) \<and> outstandingAcks (snd (cm_acks (committer_Stop net m))) = []"
    using acks_le_quiet [OF acks_le_shutdown c(3)] by (simp add: committer_Stop_def)
  have "\<not> ss_status s < serviceTerminating" using c(2) by (simp add: not_less)
  then show ?thesis
    using c q by (simp add: sps_quiet_def compositeService_Stop_def compositeService_unsafeInitiateShutdown_def case_prod_beta
        map_values_def stop_unless_terminating_def sps_ops_def subscribeStream_ops_def committer_ops_def)
qed

lemma quiet_ok: "sps_quiet c \<Longrightarrow> sps_ok c"
  by (auto simp: sps_quiet_def sps_ok_def)

lemma sps_ok_Start: "sps_ok c \<Longrightarrow> sps_ok (compositeService_Start (sps_ops net) c)"
  by (auto simp: sps_ok_def compositeService_Start_def map_values_def sps_ops_def case_prod_beta)

lemma sps_ok_abstract [simp]: "sps_ok (c\<lparr>cs_abstract := a\<rparr>) \<longleftrightarrow> sps_ok c"
  by (simp add: sps_ok_def)

lemma sps_ok_New: "sps_ok (subscriberFactory_New net f h p) \<and> cs_status (subscriberFactory_New net f h p) = serviceUninitialized"
  by (simp add: subscriberFactory_New_def Let_def sps_ok_def unsafeAddServices_def compositeService_init_def
      new_abstractService_def sps_ops_def subscribeStream_ops_def committer_ops_def newSubscribeStream_def newCommitter_def
      status_order)

lemma alist_update_fresh: "k \<notin> fst ` set al \<Longrightarrow> AList.update k v al = al @ [(k, v)]"
  by (induction al) auto

text \<open>The subscribers map and the dependencies of the composite agree.\<close>

definition asub_inv :: "assigningSubscriber \<Rightarrow> bool" where
  "asub_inv s \<longleftrightarrow>
     distinct (map fst (asub_subscribers s)) \<and> distinct (map snd (asub_subscribers s))
   \<and> distinct (map fst (dependencies (asub_composite s)))
   \<and> (\<forall>p h. (p, h) \<in> set (asub_subscribers s) \<longrightarrow>
        (\<exists>c. map_of (dependencies (asub_composite s)) h = Some (AsPartition p c) \<and> sps_ok c))
   \<and> (\<forall>h p c. map_of (dependencies (asub_composite s)) h = Some (AsPartition p c) \<longrightarrow> (p, h) \<in> set (asub_subscribers s))
   \<and> (\<forall>h\<in>fst ` set (dependencies (asub_composite s)). h < asub_next s)"

lemma asub_inv_new:
  "newAssigningSubscriber net genUUID f = Inr s \<Longrightarrow> asub_inv s"
  by (auto simp: newAssigningSubscriber_def newAssigner_def asub_inv_def unsafeAddServices_def compositeService_init_def
      new_abstractService_def asub_ops_def assigner_ops_def status_order split: sum.splits if_splits)

text \<open>Adding the subscriber of one partition to a composite that is not stopping.\<close>

lemma add_partition_child:
  assumes "cs_status cs < serviceTerminating" "h \<notin> fst ` set (dependencies cs)"
  shows "\<exists>c. sps_ok c \<and> unsafeAddServices (asub_ops net) [(h, AsPartition p (subscriberFactory_New (net p) f h p))] cs
           = (cs\<lparr>dependencies := dependencies cs @ [(h, AsPartition p c)]\<rparr>, None)"
proof -
  let ?c = "subscriberFactory_New (net p) f h p"
  let ?c1 = "?c\<lparr>cs_abstract := AddStatusChangeReceiver (cs_handle cs) (cs_handle cs) (cs_abstract ?c)\<rparr>"
  let ?c2 = "if cs_status cs > serviceUninitialized then compositeService_Start (sps_ops (net p)) ?c1 else ?c1"
  have "sps_ok ?c2" using sps_ok_New [of "net p" f h p] sps_ok_Start by simp
  moreover have "unsafeAddServices (asub_ops net) [(h, AsPartition p ?c)] cs
      = (cs\<lparr>dependencies := dependencies cs @ [(h, AsPartition p ?c2)]\<rparr>, None)"
    using assms sps_ok_New [of "net p" f h p]
    by (simp add: unsafeAddServices_def asub_ops_def composite_ops_def Let_def not_le alist_update_fresh)
  ultimately show ?thesis by blast
qed

lemma add_partitions_ok:
  assumes "asub_inv s" "cs_status (asub_composite s) < serviceTerminating"
  shows "\<exists>s' new. add_partitions net ps s = (s', None) \<and> asub_inv s' \<and> asub_subscribers s' = asub_subscribers s @ new
           \<and> fst ` set new = set ps - fst ` set (asub_subscribers s)
           \<and> cs_abstract (asub_composite s') = cs_abstract (asub_composite s)"
  using assms
proof (induction ps arbitrary: s)
  case (Cons p ps)
  show ?case
  proof (cases "map_of (asub_subscribers s) p = None")
    case False
    then have "p \<in> fst ` set (asub_subscribers s)" by (simp add: map_of_eq_None_iff)
    with Cons.IH [OF Cons.prems] False show ?thesis by auto
  next
    case True
    let ?cs = "asub_composite s" let ?h = "asub_next s"
    have fresh: "?h \<notin> fst ` set (dependencies ?cs)" using Cons.prems(1) by (auto simp: asub_inv_def)
    obtain c where c: "sps_ok c" "unsafeAddServices (asub_ops net)
        [(?h, AsPartition p (subscriberFactory_New (net p) (asub_factory s) ?h p))] ?cs
        = (?cs\<lparr>dependencies := dependencies ?cs @ [(?h, AsPartition p c)]\<rparr>, None)"
      using add_partition_child [OF Cons.prems(2) fresh] by blast
    have p: "p \<notin> fst ` set (asub_subscribers s)" using True by (simp add: map_of_eq_None_iff)
    have hs: "?h \<notin> snd ` set (asub_subscribers s)"
    proof
      assume "?h \<in> snd ` set (asub_subscribers s)"
      then obtain q where "(q, ?h) \<in> set (asub_subscribers s)" by auto
      then obtain c where "map_of (dependencies ?cs) ?h = Some c" using Cons.prems(1) unfolding asub_inv_def by blast
      then show False using fresh by (force dest: map_of_SomeD)
    qed
    let ?s = "s\<lparr>asub_next := Suc ?h, asub_composite := ?cs\<lparr>dependencies := dependencies ?cs @ [(?h, AsPartition p c)]\<rparr>,
        asub_subscribers := asub_subscribers s @ [(p, ?h)]\<rparr>"
    have "map_of (dependencies ?cs) ?h = None" using fresh by (simp add: map_of_eq_None_iff)
    then have m: "map_of (dependencies ?cs @ [(?h, AsPartition p c)]) = (map_of (dependencies ?cs))(?h \<mapsto> AsPartition p c)"
      by (auto simp: map_add_def fun_eq_iff split: option.split)
    have old: "(\<exists>c. map_of (dependencies ?cs) k = Some (AsPartition q c) \<and> sps_ok c) \<and> k \<noteq> ?h"
      if "(q, k) \<in> set (asub_subscribers s)" for q k
      using that Cons.prems(1) hs unfolding asub_inv_def by force
    have inv: "asub_inv ?s"
      unfolding asub_inv_def
      using Cons.prems(1) fresh p hs c(1) old
      by (intro conjI allI impI) (auto simp: asub_inv_def m less_Suc_eq simp del: map_of_append map_of_eq_Some_iff
            dest: old [THEN conjunct2] split: if_splits)
    from Cons.IH [OF inv] Cons.prems(2) obtain s' new where
      "add_partitions net ps ?s = (s', None)" "asub_inv s'" "asub_subscribers s' = asub_subscribers s @ (p, ?h) # new"
      "fst ` set new = set ps - insert p (fst ` set (asub_subscribers s))"
      "cs_abstract (asub_composite s') = cs_abstract (asub_composite s)" by auto
    then show ?thesis
      using True p c(2) by (auto simp: Let_def alist_update_fresh)
  qed
qed simp

lemma add_partitions_stopped:
  assumes "serviceTerminating \<le> cs_status (asub_composite s)"
  shows "add_partitions net ps s =
    (if set ps \<subseteq> fst ` set (asub_subscribers s) then (s, None)
     else (s\<lparr>asub_next := Suc (asub_next s)\<rparr>, Some ErrServiceStopped))"
  using assms
  by (induction ps) (auto simp: Let_def unsafeAddServices_def map_of_eq_None_iff)

text \<open>Removing the subscriber of one partition.\<close>

lemma removed_update_child: "removed (update_child h f cs) = removed cs"
  by (simp add: update_child_def)

lemma remove_partition_inv:
  assumes "asub_inv s" "(p, h) \<in> set (asub_subscribers s)"
    and s': "s' = s\<lparr>asub_composite := unsafeRemoveService (asub_ops net) h
                 (update_child h (asub_terminate_child net) (asub_composite s)),
               asub_subscribers := AList.delete p (asub_subscribers s)\<rparr>"
  shows "asub_inv s'"
    and "\<exists>c. map_of (removed (asub_composite s')) h = Some (AsPartition p c) \<and> sps_quiet c"
    and "h' \<noteq> h \<Longrightarrow> map_of (removed (asub_composite s')) h' = map_of (removed (asub_composite s)) h'"
    and "cs_abstract (asub_composite s') = cs_abstract (asub_composite s)"
proof -
  let ?cs = "asub_composite s" and ?deps = "dependencies (asub_composite s)"
  have fwd: "\<exists>c. map_of ?deps k = Some (AsPartition q c) \<and> sps_ok c" if "(q, k) \<in> set (asub_subscribers s)" for q k
    using assms(1) that unfolding asub_inv_def by blast
  have bwd: "(q, k) \<in> set (asub_subscribers s)" if "map_of ?deps k = Some (AsPartition q c)" for q k c
    using assms(1) that unfolding asub_inv_def by blast
  obtain c where c: "map_of ?deps h = Some (AsPartition p c)" "sps_ok c"
    using fwd [OF assms(2)] by blast
  let ?c = "stop_unless_terminating (asub_ops net) (AsPartition p (sps_Terminate (net p) c))"
  have upd: "map_of (dependencies (update_child h (asub_terminate_child net) ?cs)) =
      (map_of ?deps)(h := Some (AsPartition p (sps_Terminate (net p) c)))"
  proof
    fix k
    have "map_of (map (\<lambda>(k, c). (k, if k = h then asub_terminate_child net c else c)) ds) k =
        map_option (\<lambda>c. if k = h then asub_terminate_child net c else c) (map_of ds k)" for ds
      by (induction ds) auto
    then show "map_of (dependencies (update_child h (asub_terminate_child net) ?cs)) k =
      ((map_of ?deps)(h := Some (AsPartition p (sps_Terminate (net p) c)))) k"
      using c(1) by (simp add: update_child_def asub_terminate_child_def option.map_ident)
  qed
  have keys: "map fst (dependencies (update_child h f ?cs)) = map fst ?deps" for f
    by (simp add: update_child_def case_prod_beta comp_def)
  have rem: "asub_composite s' = (update_child h (asub_terminate_child net) ?cs)
      \<lparr>dependencies := AList.delete h (dependencies (update_child h (asub_terminate_child net) ?cs)),
       removed := AList.update h ?c (removed ?cs)\<rparr>"
    using removed_update_child [of h "asub_terminate_child net" ?cs] by (simp add: s' unsafeRemoveService_def upd)
  have "\<exists>d. ?c = AsPartition p d \<and> sps_quiet d"
    using Terminate_quiet [OF c(2), of "net p"] Stop_quiet
    by (auto simp: stop_unless_terminating_def asub_ops_def composite_ops_def)
  then show "\<exists>c. map_of (removed (asub_composite s')) h = Some (AsPartition p c) \<and> sps_quiet c"
    by (simp add: rem update_conv')
  show "h' \<noteq> h \<Longrightarrow> map_of (removed (asub_composite s')) h' = map_of (removed (asub_composite s)) h'"
    by (simp add: rem update_conv')
  show "cs_abstract (asub_composite s') = cs_abstract (asub_composite s)"
    by (simp add: rem update_child_def)
  have deps: "map_of (dependencies (asub_composite s')) = (map_of ?deps)(h := None)"
    by (simp add: rem delete_conv' upd)
  have dist: "distinct (map fst (dependencies (asub_composite s')))"
    using assms(1) distinct_delete [of "dependencies (update_child h (asub_terminate_child net) ?cs)" h]
    by (simp add: rem asub_inv_def keys)
  have sub: "fst ` set (dependencies (asub_composite s')) \<subseteq> fst ` set ?deps"
    using deps by (auto simp: dom_map_of_conv_image_fst [symmetric] split: if_splits)
  have subs: "asub_subscribers s' = AList.delete p (asub_subscribers s)" by (simp add: s')
  have uniq: "(q, h) \<in> set (asub_subscribers s) \<Longrightarrow> q = p" for q
    using fwd [of q h] c(1) by simp
  have next': "asub_next s' = asub_next s" by (simp add: s')
  have "\<exists>c. map_of (dependencies (asub_composite s')) k = Some (AsPartition q c) \<and> sps_ok c"
    if "(q, k) \<in> set (asub_subscribers s')" for q k
    using that fwd [of q k] uniq [of q] by (auto simp: subs deps AList.delete_eq)
  moreover have "(q, k) \<in> set (asub_subscribers s')"
    if "map_of (dependencies (asub_composite s')) k = Some (AsPartition q c)" for q k c
  proof -
    have kh: "k \<noteq> h" "(q, k) \<in> set (asub_subscribers s)" using that bwd [of k q c] by (auto simp: deps split: if_splits)
    moreover have "q \<noteq> p"
      using kh assms(2) eq_key_imp_eq_value [of "asub_subscribers s" p k h] assms(1) by (auto simp: asub_inv_def)
    ultimately show ?thesis by (simp add: subs AList.delete_eq)
  qed
  moreover have "distinct (map fst (asub_subscribers s'))" "distinct (map snd (asub_subscribers s'))"
    using assms(1) by (auto simp: subs asub_inv_def AList.delete_eq distinct_map_filter)
  moreover have "\<forall>k\<in>fst ` set ?deps. k < asub_next s" using assms(1) unfolding asub_inv_def by (elim conjE)
  then have "k < asub_next s'" if "k \<in> fst ` set (dependencies (asub_composite s'))" for k
    using that sub next' by (metis subsetD)
  ultimately show "asub_inv s'" using dist unfolding asub_inv_def by (intro conjI) auto
qed

lemma remove_partitions_inv:
  assumes "asub_inv s" "distinct (map fst rest)" "set rest \<subseteq> set (asub_subscribers s)"
    and "remove_partitions net ps rest acc s = (s', hs)"
  shows "asub_inv s' \<and> hs = acc @ map snd (filter (\<lambda>(p, h). p \<notin> set ps) rest)
       \<and> asub_subscribers s' = filter (\<lambda>(p, h). p \<in> set ps \<or> p \<notin> fst ` set rest) (asub_subscribers s)
       \<and> (\<forall>(p, h)\<in>set rest. p \<notin> set ps \<longrightarrow>
            (\<exists>c. map_of (removed (asub_composite s')) h = Some (AsPartition p c) \<and> sps_quiet c))
       \<and> (\<forall>h. h \<notin> snd ` set rest \<longrightarrow> map_of (removed (asub_composite s')) h = map_of (removed (asub_composite s)) h)"
  using assms
proof (induction net ps rest acc s rule: remove_partitions.induct)
  case (2 net ps p h rest acc s)
  have p: "p \<notin> fst ` set rest" "distinct (map fst rest)" "(p, h) \<in> set (asub_subscribers s)"
    "set rest \<subseteq> set (asub_subscribers s)" using "2.prems"(2,3) by auto
  have h: "h \<notin> snd ` set rest"
  proof
    assume "h \<in> snd ` set rest"
    then obtain q where q: "(q, h) \<in> set rest" by auto
    have "distinct (map snd (asub_subscribers s))" using "2.prems"(1) by (simp add: asub_inv_def)
    then have "inj_on snd (set (asub_subscribers s))" by (simp add: distinct_map)
    from inj_onD [OF this, of "(q, h)" "(p, h)"] have "(q, h) = (p, h)" using q p(3,4) by auto
    with q p(1) show False by force
  qed
  show ?case
  proof (cases "p \<in> set ps")
    case True
    then have "remove_partitions net ps rest acc s = (s', hs)"
      using "2.prems"(4) by (simp add: PartitionSet_Contains_def)
    from "2.IH"(2) [OF _ "2.prems"(1) p(2,4) this] True show ?thesis
      by (auto simp: PartitionSet_Contains_def intro: filter_cong)
  next
    case False
    define s1 where "s1 = s\<lparr>asub_composite := unsafeRemoveService (asub_ops net) h
                 (update_child h (asub_terminate_child net) (asub_composite s)),
               asub_subscribers := AList.delete p (asub_subscribers s)\<rparr>"
    have subs: "asub_subscribers s1 = filter (\<lambda>(q, h). q \<noteq> p) (asub_subscribers s)"
      by (auto simp: s1_def AList.delete_eq intro: filter_cong)
    note step = remove_partition_inv [OF "2.prems"(1) p(3) s1_def]
    have "set rest \<subseteq> set (asub_subscribers s1)" using p(1,4) by (force simp: subs)
    moreover have "remove_partitions net ps rest (acc @ [h]) s1 = (s', hs)"
      using "2.prems"(4) False by (simp add: PartitionSet_Contains_def s1_def)
    ultimately have ih: "asub_inv s' \<and> hs = (acc @ [h]) @ map snd (filter (\<lambda>(p, h). p \<notin> set ps) rest)
       \<and> asub_subscribers s' = filter (\<lambda>(p, h). p \<in> set ps \<or> p \<notin> fst ` set rest) (asub_subscribers s1)
       \<and> (\<forall>(p, h)\<in>set rest. p \<notin> set ps \<longrightarrow>
            (\<exists>c. map_of (removed (asub_composite s')) h = Some (AsPartition p c) \<and> sps_quiet c))
       \<and> (\<forall>h. h \<notin> snd ` set rest \<longrightarrow> map_of (removed (asub_composite s')) h = map_of (removed (asub_composite s1)) h)"
      using "2.IH"(1) False step(1) p(2) by (simp add: PartitionSet_Contains_def s1_def)
    have "filter (\<lambda>(p, h). p \<in> set ps \<or> p \<notin> fst ` set rest) (asub_subscribers s1) =
        filter (\<lambda>(q, h). q \<in> set ps \<or> q \<notin> fst ` set ((p, h) # rest)) (asub_subscribers s)"
      using False by (auto simp: subs intro: filter_cong)
    then show ?thesis using ih step(2,3) h False by (auto simp: PartitionSet_Contains_def)
  qed
qed simp

lemma doHandleAssignment_ok:
  assumes "asub_inv s" "doHandleAssignment net parts s = (s', Inr (previous, hs))"
  obtains new where "asub_inv s'" "set previous = fst ` set (asub_subscribers s)"
    "asub_subscribers s' = filter (\<lambda>(p, h). p \<in> set parts) (asub_subscribers s @ new)"
    "fst ` set new = set parts - fst ` set (asub_subscribers s)"
    "\<forall>(p, h)\<in>set (asub_subscribers s). p \<notin> set parts \<longrightarrow> h \<in> set hs \<and>
       (\<exists>c. map_of (removed (asub_composite s')) h = Some (AsPartition p c) \<and> sps_quiet c)"
proof -
  obtain s1 where add: "add_partitions net parts s = (s1, None)"
    and rem: "remove_partitions net parts (asub_subscribers s1) [] s1 = (s', hs)"
    and prev: "previous = NewPartitionSet (map fst (asub_subscribers s))"
    using assms(2) by (auto simp: doHandleAssignment_def PartitionSet_Ints_def Let_def split: prod.splits option.splits)
  have "\<exists>new. asub_inv s1 \<and> asub_subscribers s1 = asub_subscribers s @ new
      \<and> fst ` set new = set parts - fst ` set (asub_subscribers s)"
  proof (cases "cs_status (asub_composite s) < serviceTerminating")
    case True
    from add_partitions_ok [OF assms(1) this, of net parts] add show ?thesis by auto
  next
    case False
    then have "serviceTerminating \<le> cs_status (asub_composite s)" by simp
    from add_partitions_stopped [OF this, of net parts] add assms(1) show ?thesis by (auto split: if_splits)
  qed
  then obtain new where new: "asub_inv s1" "asub_subscribers s1 = asub_subscribers s @ new"
    "fst ` set new = set parts - fst ` set (asub_subscribers s)" by blast
  have "distinct (map fst (asub_subscribers s1))" using new(1) by (simp add: asub_inv_def)
  note r = remove_partitions_inv [OF new(1) this subset_refl rem]
  have "asub_subscribers s' = filter (\<lambda>(p, h). p \<in> set parts) (asub_subscribers s1)"
    using r by (auto intro!: filter_cong) (metis fst_conv image_eqI)
  then have "asub_subscribers s' = filter (\<lambda>(p, h). p \<in> set parts) (asub_subscribers s @ new)" by (simp add: new(2))
  moreover have "h \<in> set hs \<and> (\<exists>c. map_of (removed (asub_composite s')) h = Some (AsPartition p c) \<and> sps_quiet c)"
    if "(p, h) \<in> set (asub_subscribers s)" "p \<notin> set parts" for p h
  proof -
    have "(p, h) \<in> set (asub_subscribers s1)" using that by (simp add: new(2))
    with that r show ?thesis by force
  qed
  moreover have "set previous = fst ` set (asub_subscribers s)" by (simp add: prev)
  ultimately show thesis using r new(3) by (intro that [of new]) blast+
qed

lemma doHandleAssignment_refused:
  assumes "asub_inv s" "doHandleAssignment net parts s = (s', Inl err)"
  shows "err = ErrServiceStopped \<and> s' = s\<lparr>asub_next := Suc (asub_next s)\<rparr>"
proof -
  from assms(2) have add: "add_partitions net parts s = (s', Some err)"
    by (auto simp: doHandleAssignment_def PartitionSet_Ints_def Let_def split: prod.splits option.splits)
  have "\<not> cs_status (asub_composite s) < serviceTerminating"
    using add_partitions_ok [OF assms(1), of net parts] add by auto
  then have "serviceTerminating \<le> cs_status (asub_composite s)" by simp
  from add_partitions_stopped [OF this, of net parts] add show ?thesis by (auto split: if_splits)
qed

section \<open>Runs of an assigning subscriber\<close>

text \<open>\<open>AeMove h c\<close>: the subscriber with handle \<open>h\<close> has moved to state \<open>c\<close> on its own; \<open>AeAssigner a\<close>: so has the
  assigner.\<close>

datatype assignmentEvent =
    AeAssign PartitionSet
  | AeStart
  | AeStop
  | AeTerminate
  | AeStatusChange handle serviceStatus "wire_error option"
  | AeMove handle singlePartitionSubscriber
  | AeAssigner assigner

definition set_partition :: "singlePartitionSubscriber \<Rightarrow> asubChild \<Rightarrow> asubChild" where
  "set_partition c ch = (case ch of AsPartition p _ \<Rightarrow> AsPartition p c | AsAssigner a \<Rightarrow> AsAssigner a)"

definition set_assigner :: "assigner \<Rightarrow> asubChild \<Rightarrow> asubChild" where
  "set_assigner a ch = (case ch of AsPartition p c \<Rightarrow> AsPartition p c | AsAssigner _ \<Rightarrow> AsAssigner a)"

fun asub_step :: "(int \<Rightarrow> sends) \<Rightarrow> assignmentEvent \<Rightarrow> assigningSubscriber \<Rightarrow> assigningSubscriber" where
  "asub_step net (AeAssign parts) s = fst (doHandleAssignment net parts s)"
| "asub_step net AeStart s = s\<lparr>asub_composite := compositeService_Start (asub_ops net) (asub_composite s)\<rparr>"
| "asub_step net AeStop s = s\<lparr>asub_composite := compositeService_Stop (asub_ops net) (asub_composite s)\<rparr>"
| "asub_step net AeTerminate s = asub_Terminate net s"
| "asub_step net (AeStatusChange h st err) s =
     s\<lparr>asub_composite := onServiceStatusChange (asub_ops net) h st err (asub_composite s)\<rparr>"
| "asub_step net (AeMove h c) s = s\<lparr>asub_composite := update_child h (set_partition c) (asub_composite s)\<rparr>"
| "asub_step net (AeAssigner a) s = s\<lparr>asub_composite := update_child 1 (set_assigner a) (asub_composite s)\<rparr>"

fun asub_event_ok :: "assignmentEvent \<Rightarrow> bool" where
  "asub_event_ok (AeMove h c) = sps_ok c"
| "asub_event_ok _ = True"

text \<open>An operation that changes each child in place.\<close>

definition keeps_child :: "(asubChild \<Rightarrow> asubChild) \<Rightarrow> bool" where
  "keeps_child f \<longleftrightarrow> (\<forall>p c. sps_ok c \<longrightarrow> (\<exists>c'. f (AsPartition p c) = AsPartition p c' \<and> sps_ok c'))
                   \<and> (\<forall>a. \<exists>a'. f (AsAssigner a) = AsAssigner a')"

lemma asub_inv_map:
  assumes "asub_inv s" "dependencies cs = map (\<lambda>(k, c). (k, F k c)) (dependencies (asub_composite s))"
    and "\<And>k. keeps_child (F k)"
  shows "asub_inv (s\<lparr>asub_composite := cs\<rparr>)"
proof -
  let ?deps = "dependencies (asub_composite s)"
  have "map_of (map (\<lambda>(k, c). (k, F k c)) ds) k = map_option (F k) (map_of ds k)" for k ds
    by (induction ds) auto
  then have m: "map_of (dependencies cs) k = map_option (F k) (map_of ?deps k)" for k
    unfolding assms(2) .
  have keys: "map fst (dependencies cs) = map fst ?deps" by (simp add: assms(2) case_prod_beta comp_def)
  have fwd: "\<exists>c. map_of ?deps k = Some (AsPartition q c) \<and> sps_ok c" if "(q, k) \<in> set (asub_subscribers s)" for q k
    using assms(1) that unfolding asub_inv_def by blast
  have "\<exists>c. map_of (dependencies cs) k = Some (AsPartition q c) \<and> sps_ok c" if "(q, k) \<in> set (asub_subscribers s)" for q k
    using fwd [OF that] assms(3) [of k] by (auto simp: m keeps_child_def)
  moreover have "(q, k) \<in> set (asub_subscribers s)" if pq: "map_of (dependencies cs) k = Some (AsPartition q c)" for q k c
  proof -
    obtain ch where ch: "map_of ?deps k = Some ch" "F k ch = AsPartition q c" using pq by (auto simp: m)
    show ?thesis
    proof (cases ch)
      case (AsAssigner a)
      then show ?thesis using ch assms(3) [of k] by (auto simp: keeps_child_def) (metis asubChild.distinct(1))
    next
      case (AsPartition p d)
      then have "(p, k) \<in> set (asub_subscribers s)" using ch(1) assms(1) unfolding asub_inv_def by blast
      moreover obtain d' where "F k (AsPartition p d) = AsPartition p d'"
        using fwd [OF calculation] ch(1) AsPartition assms(3) [of k] by (auto simp: keeps_child_def) blast
      ultimately show ?thesis using ch(2) AsPartition by simp
    qed
  qed
  moreover have "fst ` set (dependencies cs) = fst ` set ?deps" using keys by (metis list.set_map)
  moreover have "distinct (map fst (dependencies cs))" using assms(1) unfolding keys asub_inv_def by blast
  ultimately show ?thesis using assms(1) unfolding asub_inv_def by simp
qed

lemma sps_ok_Stop: "sps_ok c \<Longrightarrow> sps_ok (compositeService_Stop (sps_ops net) c)"
  by (auto simp: sps_ok_def compositeService_Stop_def compositeService_unsafeInitiateShutdown_def map_values_def sps_ops_def
      stop_unless_terminating_def case_prod_beta)

lemma keeps_child_ops [simp]:
  "keeps_child (svc_Start (asub_ops net))" "keeps_child (stop_unless_terminating (asub_ops net))"
  "keeps_child (asub_terminate_child net)" "sps_ok c \<Longrightarrow> keeps_child (set_partition c)" "keeps_child (set_assigner a)"
  "keeps_child (\<lambda>c. c)"
  by (auto simp: keeps_child_def asub_ops_def composite_ops_def stop_unless_terminating_def asub_terminate_child_def
      set_partition_def set_assigner_def sps_ok_Start sps_ok_Stop quiet_ok [OF Terminate_quiet])

lemma asub_inv_update_child:
  "asub_inv s \<Longrightarrow> keeps_child f \<Longrightarrow> asub_inv (s\<lparr>asub_composite := update_child h f (asub_composite s)\<rparr>)"
  by (rule asub_inv_map [where F = "\<lambda>k. if k = h then f else (\<lambda>c. c)"])
     (auto simp: update_child_def cong: if_cong intro!: map_cong)

lemma asub_inv_Terminate: "asub_inv s \<Longrightarrow> asub_inv (asub_Terminate net s)"
proof -
  have "asub_inv s \<Longrightarrow> asub_inv (s\<lparr>asub_composite :=
      fold (\<lambda>(p, h). update_child h (asub_terminate_child net)) xs (asub_composite s)\<rparr>)" for xs
  proof (induction xs arbitrary: s)
    case (Cons x xs)
    from Cons.IH [OF asub_inv_update_child [OF Cons.prems, of "asub_terminate_child net" "snd x"]]
    show ?case by (simp add: case_prod_beta)
  qed simp
  then show "asub_inv s \<Longrightarrow> asub_inv (asub_Terminate net s)" by (simp add: asub_Terminate_def)
qed

lemma status_change_dependencies:
  "dependencies (onServiceStatusChange ops h st e cs) = dependencies cs
   \<or> dependencies (onServiceStatusChange ops h st e cs) = map_values (stop_unless_terminating ops) (dependencies cs)"
  by (simp add: onServiceStatusChange_def Let_def)

lemma asub_inv_step:
  assumes "asub_inv s" "asub_event_ok e"
  shows "asub_inv (asub_step net e s)"
proof (cases e)
  case (AeAssign parts)
  obtain s' r where d: "doHandleAssignment net parts s = (s', r)" by fastforce
  show ?thesis
  proof (cases r)
    case (Inl err)
    then have "s' = s\<lparr>asub_next := Suc (asub_next s)\<rparr>" using doHandleAssignment_refused [OF assms(1)] d by simp
    moreover have "asub_inv (s\<lparr>asub_next := Suc (asub_next s)\<rparr>)" using assms(1) by (auto simp: asub_inv_def less_Suc_eq)
    ultimately show ?thesis using d AeAssign by simp
  next
    case (Inr x)
    obtain previous hs where "x = (previous, hs)" by (cases x)
    with Inr d have "doHandleAssignment net parts s = (s', Inr (previous, hs))" by simp
    from doHandleAssignment_ok [OF assms(1) this] have "asub_inv s'" by blast
    then show ?thesis using AeAssign d by simp
  qed
next
  case AeStart
  have "asub_inv (s\<lparr>asub_composite := cs\<rparr>)"
    if "dependencies cs = map_values (svc_Start (asub_ops net)) (dependencies (asub_composite s))" for cs
    by (rule asub_inv_map [OF assms(1), where F = "\<lambda>k. svc_Start (asub_ops net)"]) (simp_all add: that map_values_def)
  then show ?thesis using AeStart assms(1) by (simp add: compositeService_Start_def case_prod_beta)
next
  case AeStop
  have "asub_inv (s\<lparr>asub_composite := cs\<rparr>)"
    if "dependencies cs = map_values (stop_unless_terminating (asub_ops net)) (dependencies (asub_composite s))" for cs
    by (rule asub_inv_map [OF assms(1), where F = "\<lambda>k. stop_unless_terminating (asub_ops net)"])
       (simp_all add: that map_values_def)
  moreover have "asub_inv (s\<lparr>asub_composite := cs\<rparr>)" if "dependencies cs = dependencies (asub_composite s)" for cs
    using assms(1) that by (simp add: asub_inv_def del: map_of_eq_Some_iff)
  ultimately show ?thesis
    using AeStop by (simp add: compositeService_Stop_def compositeService_unsafeInitiateShutdown_def case_prod_beta)
next
  case (AeStatusChange h st err)
  have "asub_inv (s\<lparr>asub_composite := cs\<rparr>)"
    if "dependencies cs = map_values (stop_unless_terminating (asub_ops net)) (dependencies (asub_composite s))" for cs
    by (rule asub_inv_map [OF assms(1), where F = "\<lambda>k. stop_unless_terminating (asub_ops net)"])
       (simp_all add: that map_values_def)
  moreover have "asub_inv (s\<lparr>asub_composite := cs\<rparr>)" if "dependencies cs = dependencies (asub_composite s)" for cs
    using assms(1) that by (simp add: asub_inv_def del: map_of_eq_Some_iff)
  ultimately show ?thesis
    using AeStatusChange status_change_dependencies [of "asub_ops net" h st err "asub_composite s"] by auto
qed (use assms in \<open>simp_all add: asub_inv_update_child asub_inv_Terminate\<close>)

lemma asub_inv_run:
  "\<forall>e\<in>set es. asub_event_ok e \<Longrightarrow> asub_inv s \<Longrightarrow> asub_inv (fold (asub_step net) es s)"
  by (induction es arbitrary: s) (simp_all add: asub_inv_step)

text \<open>C26: An assignment is applied exactly: in every state an assigning subscriber can reach, when
  \<^verbatim>\<open>doHandleAssignment\<close> succeeds the active partitions are those assigned, the partitions
  reported as previous are those active before, a partition that stays keeps its subscriber, and a
  partition taken away has a subscriber whose stream is stopped and whose ack tracker ignores
  further acknowledgements, and for which \<^verbatim>\<open>handleAssignment\<close> waits before the assignment is
  acknowledged.\<close>

theorem assignment_applied:
  assumes "newAssigningSubscriber net genUUID f = Inr s0" "\<forall>e\<in>set es. asub_event_ok e"
    and s_def: "s = fold (asub_step net) es s0"
    and "doHandleAssignment net parts s = (s', Inr (previous, hs))"
  shows "(asub_PartitionActive p s' \<longleftrightarrow> p \<in> set parts)
       \<and> (p \<in> set previous \<longleftrightarrow> asub_PartitionActive p s)
       \<and> (asub_PartitionActive p s \<and> p \<in> set parts \<longrightarrow> map_of (asub_subscribers s') p = map_of (asub_subscribers s) p)
       \<and> (map_of (asub_subscribers s) p = Some h \<and> p \<notin> set parts \<longrightarrow>
           h \<in> set hs \<and> (\<exists>c. map_of (removed (asub_composite s')) h = Some (AsPartition p c) \<and> sps_quiet c))"
proof -
  have inv: "asub_inv s"
    unfolding s_def by (rule asub_inv_run [OF assms(2) asub_inv_new [OF assms(1)]])
  obtain new where r: "asub_inv s'" "set previous = fst ` set (asub_subscribers s)"
    "asub_subscribers s' = filter (\<lambda>(p, h). p \<in> set parts) (asub_subscribers s @ new)"
    "fst ` set new = set parts - fst ` set (asub_subscribers s)"
    "\<forall>(p, h)\<in>set (asub_subscribers s). p \<notin> set parts \<longrightarrow> h \<in> set hs \<and>
       (\<exists>c. map_of (removed (asub_composite s')) h = Some (AsPartition p c) \<and> sps_quiet c)"
    using doHandleAssignment_ok [OF inv assms(4)] by blast
  have "fst ` set (asub_subscribers s') = set parts"
    using r(4) by (force simp: r(3))
  then have "asub_PartitionActive p s' \<longleftrightarrow> p \<in> set parts"
    by (auto simp: asub_PartitionActive_def map_of_eq_None_iff)
  moreover have "p \<in> set previous \<longleftrightarrow> asub_PartitionActive p s"
    using r(2) by (simp add: asub_PartitionActive_def map_of_eq_None_iff)
  moreover have filt: "q \<in> set parts \<Longrightarrow> map_of (filter (\<lambda>(p, h). p \<in> set parts) xs) q = map_of xs q"
    for q :: int and xs :: "(int \<times> nat) list" by (induction xs) auto
  have "map_of (asub_subscribers s') p = map_of (asub_subscribers s) p" if "asub_PartitionActive p s" "p \<in> set parts"
    using that unfolding r(3) asub_PartitionActive_def
    by (auto simp: filt map_add_def map_of_eq_None_iff r(4) split: option.split)
  moreover have "h \<in> set hs \<and> (\<exists>c. map_of (removed (asub_composite s')) h = Some (AsPartition p c) \<and> sps_quiet c)"
    if "map_of (asub_subscribers s) p = Some h" "p \<notin> set parts"
    using that r(5) by (auto dest: map_of_SomeD)
  ultimately show ?thesis by blast
qed

definition example_subscriber :: assigningSubscriber where
  "example_subscriber =
     (case newAssigningSubscriber (\<lambda>_ _ _. None) (Inr []) \<lparr>sf_settings = DefaultReceiveSettings, sf_subscriptionPath = ''s''\<rparr> of
        Inr s \<Rightarrow> s | Inl _ \<Rightarrow> undefined)"

lemma example_subscriber:
  "newAssigningSubscriber (\<lambda>_ _ _. None) (Inr []) \<lparr>sf_settings = DefaultReceiveSettings, sf_subscriptionPath = ''s''\<rparr>
     = Inr example_subscriber"
  by (simp add: example_subscriber_def newAssigningSubscriber_def newAssigner_def)

lemma example_reassigned:
  "\<not> isl (snd (doHandleAssignment (\<lambda>_ _ _. None) [1, 2] (fold (asub_step (\<lambda>_ _ _. None)) [AeAssign [0, 1]] example_subscriber)))
   \<and> asub_PartitionActive 0 (fold (asub_step (\<lambda>_ _ _. None)) [AeAssign [0, 1]] example_subscriber)"
  by code_simp

theorem assignment_applied_witness:
  "\<exists>s s' previous hs. doHandleAssignment (\<lambda>_ _ _. None) [1, 2] s = (s', Inr (previous, hs))
     \<and> asub_PartitionActive 0 s \<and> \<not> asub_PartitionActive 0 s' \<and> asub_PartitionActive 2 s'"
proof -
  let ?s = "fold (asub_step (\<lambda>_ _ _. None)) [AeAssign [0, 1]] example_subscriber"
  have "\<not> isl (snd (doHandleAssignment (\<lambda>_ _ _. None) [1, 2] ?s))" by (rule example_reassigned [THEN conjunct1])
  then obtain s' previous hs where d: "doHandleAssignment (\<lambda>_ _ _. None) [1, 2] ?s = (s', Inr (previous, hs))"
    by (metis isl_def old.sum.exhaust prod.collapse sum.collapse(2))
  from assignment_applied [OF example_subscriber _ refl d, of 0 0] assignment_applied [OF example_subscriber _ refl d, of 2 0]
  show ?thesis using d example_reassigned [THEN conjunct2] by (intro exI [of _ ?s] exI [of _ s'] exI [of _ previous] exI [of _ hs]) simp
qed

section \<open>Failures\<close>

text \<open>When the assigner or the subscriber of a partition fails, everything is shut down: a notification
  that a child is terminating leaves every child of the assigning subscriber, and the
  assigning subscriber itself, terminating or terminated.\<close>

theorem assigning_subscriber_fails_together:
  assumes "map_of (dependencies (asub_composite s)) h \<noteq> None" "serviceTerminating \<le> status"
    and "cs' = onServiceStatusChange (asub_ops net) h status err (asub_composite s)"
  shows "serviceTerminating \<le> cs_status cs'
       \<and> (\<forall>k a. (k, AsAssigner a) \<in> set (dependencies cs') \<longrightarrow> serviceTerminating \<le> an_status a)
       \<and> (\<forall>k p c. (k, AsPartition p c) \<in> set (dependencies cs') \<longrightarrow> serviceTerminating \<le> cs_status c)"
proof -
  note all = asub_service.dependency_failure_stops_all [OF assms(1,2), where net = net and e = err]
  have "serviceTerminating \<le> an_status a" if "(k, AsAssigner a) \<in> set (dependencies cs')" for k a
    using all that by (fastforce simp: assms(3) asub_ops_def assigner_ops_def)
  moreover have "serviceTerminating \<le> cs_status c" if "(k, AsPartition p c) \<in> set (dependencies cs')" for k p c
    using all that by (fastforce simp: assms(3) asub_ops_def composite_ops_def)
  ultimately show ?thesis using all by (auto simp: assms(3))
qed

theorem assigning_subscriber_fails_together_witness:
  "serviceTerminating \<le> cs_status (onServiceStatusChange (asub_ops (\<lambda>_ _ _. None)) 1 serviceTerminated None
      (asub_composite example_subscriber))"
proof -
  have "map_of (dependencies (asub_composite example_subscriber)) 1 \<noteq> None"
    by (simp add: example_subscriber_def newAssigningSubscriber_def newAssigner_def unsafeAddServices_def
        compositeService_init_def new_abstractService_def asub_ops_def assigner_ops_def status_order)
  from assigning_subscriber_fails_together [OF this _ refl, of serviceTerminated "\<lambda>_ _ _. None" None]
  show ?thesis by (simp add: status_order)
qed

lemma Close_all: "fst (apiClients_Close_loop Close cs e) = cs"
  by (induction Close cs e rule: apiClients_Close_loop.induct) (simp_all add: case_prod_beta)

text \<open>C27: When \<^verbatim>\<open>NewSubscriber\<close> fails, it has closed the clients it has opened, with exactly one exception: when the arguments are valid, all
  three clients can be created and the client UUID cannot be generated, that error is returned and all three clients stay open.\<close>

theorem NewSubscriber_open_clients:
  assumes "NewSubscriber net cf settings region path = (clients, Inl err)"
  shows "case (cf_subscriber cf, cf_cursor cf, cf_assignment cf, cf_uuid cf) of
      (Inr subClient, Inr cursorClient, Inr partitionClient, Inl e) \<Rightarrow>
        if ValidateRegion region = None \<and> validateReceiveSettings settings = None
        then clients = [subClient, cursorClient, partitionClient] \<and> err = WireError (errGenerateUUID e)
        else clients = []
    | _ \<Rightarrow> clients = []"
  using assms
  by (auto simp: NewSubscriber_def apiClients_Close_def Close_all newAssigningSubscriber_def newAssigner_def Let_def
      split: option.splits sum.splits if_splits)

theorem NewSubscriber_open_clients_witness:
  "NewSubscriber (\<lambda>_ _ _. None) \<lparr>cf_subscriber = Inr 1, cf_cursor = Inr 2, cf_assignment = Inl EOF, cf_uuid = Inr []\<rparr>
      DefaultReceiveSettings ''us-central1'' ''s'' = ([], Inl (WireError EOF))
 \<and> NewSubscriber (\<lambda>_ _ _. None) \<lparr>cf_subscriber = Inr 1, cf_cursor = Inr 2, cf_assignment = Inr 3, cf_uuid = Inl EOF\<rparr>
      DefaultReceiveSettings ''us-central1'' ''s'' = ([1, 2, 3], Inl (WireError (errGenerateUUID EOF)))"
proof -
  have v: "ValidateRegion ''us-central1'' = None" "validateReceiveSettings DefaultReceiveSettings = None"
    "length (Partitions DefaultReceiveSettings) = 0" by code_simp+
  let ?cf = "\<lparr>cf_subscriber = Inr 1, cf_cursor = Inr 2, cf_assignment = Inl EOF, cf_uuid = Inr []\<rparr>"
  obtain cs where cs: "NewSubscriber (\<lambda>_ _ _. None) ?cf DefaultReceiveSettings ''us-central1'' ''s'' = (cs, Inl (WireError EOF))"
    using v by (simp add: NewSubscriber_def Let_def)
  from NewSubscriber_open_clients [OF this] have "cs = []" by simp
  with cs v show ?thesis by (simp add: NewSubscriber_def newAssigningSubscriber_def newAssigner_def Let_def)
qed

end
