(* ===== verification/Btree.thy ===== *)
theory Btree
  imports Go_Prelude
begin

text \<open>
  The B-tree of \<^verbatim>\<open>internal/btree/btree.go\<close>, on which Firestore's snapshots are built: slices of items and
  children, nodes, insertion with preemptive splits, removal with stealing and merging, access by
  key and by position, and cursors.  Nodes are values: a node that the code modifies in place is a
  node that the model returns, and \<^verbatim>\<open>mutableFor\<close> keeps its test of the owner.  An index out of range
  is a panic; operations that index with a computed position return an \<open>option\<close>, in which \<open>None\<close>
  stands for a panic or for a call that does not return.
\<close>

section \<open>Slices\<close>

type_synonym ('k, 'v) item = "'k \<times> 'v"

text \<open>\<^verbatim>\<open>insertAt\<close> is called with an index of at most the length.\<close>

definition items_insertAt :: "nat \<Rightarrow> 'a \<Rightarrow> 'a list \<Rightarrow> 'a list" where
  "items_insertAt index m s = take index s @ m # drop index s"

definition items_removeAt :: "nat \<Rightarrow> 'a list \<Rightarrow> ('a list \<times> 'a) option" where
  "items_removeAt index s =
     (if index < length s then Some (take index s @ drop (Suc index) s, s ! index) else None)"

definition items_pop :: "'a list \<Rightarrow> ('a list \<times> 'a) option" where
  "items_pop s = (if s = [] then None else Some (take (length s - 1) s, s ! (length s - 1)))"

definition items_truncate :: "nat \<Rightarrow> 'a list \<Rightarrow> 'a list" where
  "items_truncate index s = take index s"

definition items_find :: "('k \<Rightarrow> 'k \<Rightarrow> bool) \<Rightarrow> 'k \<Rightarrow> ('k, 'v) item list \<Rightarrow> nat \<times> bool" where
  "items_find lt k s =
     (let i = go_search (length s) (\<lambda>i. lt k (fst (s ! i)))
      in if i > 0 \<and> \<not> lt (fst (s ! (i - 1))) k then (i - 1, True) else (i, False))"

text \<open>The same operations on slices of children.\<close>

definition children_insertAt :: "nat \<Rightarrow> 'n \<Rightarrow> 'n list \<Rightarrow> 'n list" where
  "children_insertAt index n s = take index s @ n # drop index s"

definition children_removeAt :: "nat \<Rightarrow> 'n list \<Rightarrow> ('n list \<times> 'n) option" where
  "children_removeAt index s =
     (if index < length s then Some (take index s @ drop (Suc index) s, s ! index) else None)"

definition children_pop :: "'n list \<Rightarrow> ('n list \<times> 'n) option" where
  "children_pop s = (if s = [] then None else Some (take (length s - 1) s, s ! (length s - 1)))"

definition children_truncate :: "nat \<Rightarrow> 'n list \<Rightarrow> 'n list" where
  "children_truncate index s = take index s"

section \<open>Nodes\<close>

text \<open>\<open>n_cow\<close> is the copy-on-write context that owns the node.\<close>

datatype ('k, 'v) node =
  Node (n_items: "('k, 'v) item list") (n_children: "('k, 'v) node list") (n_size: int) (n_cow: nat)

definition computeSize :: "('k, 'v) node \<Rightarrow> int" where
  "computeSize n = fold (\<lambda>c sz. sz + n_size c) (n_children n) (int (length (n_items n)))"

definition mutableFor :: "nat \<Rightarrow> ('k, 'v) node \<Rightarrow> ('k, 'v) node" where
  "mutableFor cow n = (if n_cow n = cow then n else Node (n_items n) (n_children n) (n_size n) cow)"

text \<open>The child with index \<open>i\<close>, made writable for the owner of \<open>n\<close>; \<open>set_child\<close> is the parent once the child has
  been changed.\<close>

definition mutableChild :: "nat \<Rightarrow> ('k, 'v) node \<Rightarrow> ('k, 'v) node option" where
  "mutableChild i n = (if i < length (n_children n) then Some (mutableFor (n_cow n) (n_children n ! i)) else None)"

definition set_child :: "nat \<Rightarrow> ('k, 'v) node \<Rightarrow> ('k, 'v) node \<Rightarrow> ('k, 'v) node" where
  "set_child i c n = Node (n_items n) ((n_children n)[i := c]) (n_size n) (n_cow n)"

definition add_size :: "int \<Rightarrow> ('k, 'v) node \<Rightarrow> ('k, 'v) node" where
  "add_size d n = Node (n_items n) (n_children n) (n_size n + d) (n_cow n)"

text \<open>\<^verbatim>\<open>split\<close>: what is left of the node, the item, and the new node.\<close>

definition node_split :: "nat \<Rightarrow> ('k, 'v) node \<Rightarrow> (('k, 'v) node \<times> ('k, 'v) item \<times> ('k, 'v) node) option" where
  "node_split i n =
     (if i < length (n_items n)
      then let it = n_items n ! i;
               nextItems = drop (Suc i) (n_items n);
               firstItems = items_truncate i (n_items n);
               nextChildren = (if n_children n \<noteq> [] then drop (Suc i) (n_children n) else []);
               firstChildren = (if n_children n \<noteq> [] then children_truncate (Suc i) (n_children n) else n_children n);
               first = Node firstItems firstChildren (n_size n) (n_cow n);
               next = Node nextItems nextChildren 0 (n_cow n)
           in Some (Node firstItems firstChildren (computeSize first) (n_cow n), it,
                    Node nextItems nextChildren (computeSize next) (n_cow n))
      else None)"

definition maybeSplitChild :: "nat \<Rightarrow> nat \<Rightarrow> ('k, 'v) node \<Rightarrow> (('k, 'v) node \<times> bool) option" where
  "maybeSplitChild i maxItems n =
     (if i < length (n_children n)
      then if length (n_items (n_children n ! i)) < maxItems then Some (n, False)
           else case node_split (maxItems div 2) (mutableFor (n_cow n) (n_children n ! i)) of
                  None \<Rightarrow> None
                | Some (first, it, second) \<Rightarrow>
                    Some (Node (items_insertAt i it (n_items n))
                            (children_insertAt (Suc i) second ((n_children n)[i := first])) (n_size n) (n_cow n), True)
      else None)"

text \<open>The loop of \<^verbatim>\<open>partialSize\<close>: \<open>j\<close> counts the children visited.\<close>

fun partialSize_loop :: "nat \<Rightarrow> nat \<Rightarrow> ('k, 'v) node list \<Rightarrow> int \<Rightarrow> int" where
  "partialSize_loop i j [] sz = sz"
| "partialSize_loop i j (c # cs) sz = (if j = i then sz else partialSize_loop i (Suc j) cs (sz + n_size c + 1))"

definition partialSize :: "nat \<Rightarrow> ('k, 'v) node \<Rightarrow> int" where
  "partialSize i n = partialSize_loop i 0 (n_children n) 0"

definition itemIndex :: "nat \<Rightarrow> ('k, 'v) node \<Rightarrow> int" where
  "itemIndex i n = (if n_children n = [] then int i else partialSize (Suc i) n - 1)"

text \<open>\<^verbatim>\<open>insert\<close> up to its recursive call: either the result (the new node, the value replaced, whether one was,
  and the index), or the node after a split and the index of the child to insert into.\<close>

type_synonym ('k, 'v) insertResult = "('k, 'v) node \<times> 'v option \<times> bool \<times> int"

definition insert_step ::
  "('k, 'v) item \<Rightarrow> nat \<Rightarrow> ('k \<Rightarrow> 'k \<Rightarrow> bool) \<Rightarrow> bool \<Rightarrow> ('k, 'v) node
   \<Rightarrow> (('k, 'v) insertResult + ('k, 'v) node \<times> nat) option" where
  "insert_step m maxItems lt computeIndex n =
     (case items_find lt (fst m) (n_items n) of (i, found) \<Rightarrow>
        if found
        then Some (Inl (Node ((n_items n)[i := m]) (n_children n) (n_size n) (n_cow n), Some (snd (n_items n ! i)), True,
                        if computeIndex then itemIndex i n else 0))
        else if n_children n = []
        then Some (Inl (Node (items_insertAt i m (n_items n)) [] (n_size n + 1) (n_cow n), None, False, int i))
        else case maybeSplitChild i maxItems n of
               None \<Rightarrow> None
             | Some (n1, False) \<Rightarrow> Some (Inr (n1, i))
             | Some (n1, True) \<Rightarrow>
                 let inTree = n_items n1 ! i
                 in if lt (fst m) (fst inTree) then Some (Inr (n1, i))
                    else if lt (fst inTree) (fst m) then Some (Inr (n1, Suc i))
                    else Some (Inl (Node ((n_items n1)[i := m]) (n_children n1) (n_size n1) (n_cow n1), Some (snd inTree), True,
                                    if computeIndex then itemIndex i n1 else 0)))"

partial_function (option) node_insert ::
  "('k, 'v) item \<Rightarrow> nat \<Rightarrow> ('k \<Rightarrow> 'k \<Rightarrow> bool) \<Rightarrow> bool \<Rightarrow> ('k, 'v) node \<Rightarrow> ('k, 'v) insertResult option" where
  "node_insert m maxItems lt computeIndex n =
     Option.bind (insert_step m maxItems lt computeIndex n) (\<lambda>r. case r of
        Inl result \<Rightarrow> Some result
      | Inr (n1, i) \<Rightarrow>
          Option.bind (mutableChild i n1) (\<lambda>c.
          Option.bind (node_insert m maxItems lt computeIndex c) (\<lambda>(c', old, present, idx).
            let n2 = set_child i c' n1;
                n3 = (if \<not> present then add_size 1 n2 else n2)
            in Some (n3, old, present, if computeIndex then idx + partialSize i n3 else idx))))"

declare node_insert.simps [code]

text \<open>\<^verbatim>\<open>get\<close>: the item (\<open>None\<close> for the zero value), whether it was found, and the index.\<close>

lemma nth_size_less [termination_simp]: "i < length cs \<Longrightarrow> size (cs ! i) < Suc (a + size_list size cs)"
proof -
  have "c \<in> set cs \<Longrightarrow> size c \<le> size_list size cs" for c by (induction cs) auto
  then show "i < length cs \<Longrightarrow> size (cs ! i) < Suc (a + size_list size cs)" by (meson le_imp_less_Suc nth_mem trans_le_add2)
qed

fun node_get ::
  "'k \<Rightarrow> bool \<Rightarrow> ('k \<Rightarrow> 'k \<Rightarrow> bool) \<Rightarrow> ('k, 'v) node \<Rightarrow> (('k, 'v) item option \<times> bool \<times> int) option" where
  "node_get k computeIndex lt (Node its cs sz cow) =
     (case items_find lt k its of (i, found) \<Rightarrow>
        if found then Some (Some (its ! i), True, itemIndex i (Node its cs sz cow))
        else if cs \<noteq> []
        then if i < length cs
             then case node_get k computeIndex lt (cs ! i) of
                    None \<Rightarrow> None
                  | Some (m, found', idx) \<Rightarrow>
                      Some (m, found', if computeIndex \<and> found' then idx + partialSize i (Node its cs sz cow) else idx)
             else None
        else Some (None, False, -1))"

text \<open>\<^verbatim>\<open>at\<close>; the loop over the children drops the items it has passed.\<close>

fun node_at :: "int \<Rightarrow> ('k, 'v) node \<Rightarrow> ('k, 'v) item option"
  and at_loop :: "int \<Rightarrow> ('k, 'v) node list \<Rightarrow> ('k, 'v) item list \<Rightarrow> ('k, 'v) item option" where
  "node_at i (Node its cs sz cow) =
     (if cs = [] then (if 0 \<le> i \<and> i < int (length its) then Some (its ! nat i) else None)
      else at_loop i cs its)"
| "at_loop i [] its = None"
| "at_loop i (c # cs) its =
     (if i < n_size c then node_at i c
      else if i - n_size c = 0 then (case its of [] \<Rightarrow> None | m # _ \<Rightarrow> Some m)
      else at_loop (i - n_size c - 1) cs (tl its))"

section \<open>Removal\<close>

datatype toRemove = removeItem | removeMin | removeMax

text \<open>\<^verbatim>\<open>growChildAndRemove\<close> before its call of \<^verbatim>\<open>remove\<close>: steal from the left sibling, from the right one, or merge.
  The three cases first.\<close>

definition steal_left :: "nat \<Rightarrow> ('k, 'v) node \<Rightarrow> ('k, 'v) node option" where
  "steal_left i n =
     Option.bind (mutableChild i n) (\<lambda>child.
     Option.bind (mutableChild (i - 1) (set_child i child n)) (\<lambda>stealFrom.
     Option.bind (items_pop (n_items stealFrom)) (\<lambda>(sItems, stolenItem).
       let sSize = n_size stealFrom - 1;
           cItems = items_insertAt 0 (n_items n ! (i - 1)) (n_items child);
           cSize = n_size child + 1;
           nItems = (n_items n)[i - 1 := stolenItem]
       in case children_pop (n_children stealFrom) of
            None \<Rightarrow>
              Some (Node nItems ((n_children n)[i := Node cItems (n_children child) cSize (n_cow child),
                                                i - 1 := Node sItems (n_children stealFrom) sSize (n_cow stealFrom)])
                      (n_size n) (n_cow n))
          | Some (sChildren, c) \<Rightarrow>
              Some (Node nItems
                      ((n_children n)[i := Node cItems (children_insertAt 0 c (n_children child)) (cSize + n_size c) (n_cow child),
                                      i - 1 := Node sItems sChildren (sSize - n_size c) (n_cow stealFrom)])
                      (n_size n) (n_cow n)))))"

definition steal_right :: "nat \<Rightarrow> ('k, 'v) node \<Rightarrow> ('k, 'v) node option" where
  "steal_right i n =
     Option.bind (mutableChild i n) (\<lambda>child.
     Option.bind (mutableChild (Suc i) (set_child i child n)) (\<lambda>stealFrom.
     Option.bind (items_removeAt 0 (n_items stealFrom)) (\<lambda>(sItems, stolenItem).
       let sSize = n_size stealFrom - 1;
           cItems = n_items child @ [n_items n ! i];
           cSize = n_size child + 1;
           nItems = (n_items n)[i := stolenItem]
       in case children_removeAt 0 (n_children stealFrom) of
            None \<Rightarrow>
              Some (Node nItems ((n_children n)[i := Node cItems (n_children child) cSize (n_cow child),
                                                Suc i := Node sItems (n_children stealFrom) sSize (n_cow stealFrom)])
                      (n_size n) (n_cow n))
          | Some (sChildren, c) \<Rightarrow>
              Some (Node nItems
                      ((n_children n)[i := Node cItems (n_children child @ [c]) (cSize + n_size c) (n_cow child),
                                      Suc i := Node sItems sChildren (sSize - n_size c) (n_cow stealFrom)])
                      (n_size n) (n_cow n)))))"

definition merge_child :: "nat \<Rightarrow> ('k, 'v) node \<Rightarrow> ('k, 'v) node option" where
  "merge_child i n =
     Option.bind (mutableChild i n) (\<lambda>child.
     Option.bind (items_removeAt i (n_items n)) (\<lambda>(nItems, mergeItem).
     Option.bind (children_removeAt (Suc i) ((n_children n)[i := child])) (\<lambda>(nChildren, mergeChild).
       let cItems = n_items child @ [mergeItem] @ n_items mergeChild;
           cChildren = n_children child @ n_children mergeChild;
           child' = Node cItems cChildren (computeSize (Node cItems cChildren 0 (n_cow child))) (n_cow child)
       in Some (Node nItems (nChildren[i := child']) (n_size n) (n_cow n)))))"

definition growChild :: "nat \<Rightarrow> nat \<Rightarrow> ('k, 'v) node \<Rightarrow> ('k, 'v) node option" where
  "growChild i minItems n =
     (if i > 0 \<and> length (n_items (n_children n ! (i - 1))) > minItems then steal_left i n
      else if i < length (n_items n) \<and> length (n_items (n_children n ! Suc i)) > minItems then steal_right i n
      else merge_child (if i \<ge> length (n_items n) then i - 1 else i) n)"

text \<open>\<^verbatim>\<open>remove\<close> up to its recursive calls: the result, or the child's index and whether the item is in this
  node.\<close>

type_synonym ('k, 'v) removeResult = "('k, 'v) node \<times> ('k, 'v) item option \<times> bool"

definition leaf_result :: "('k, 'v) node \<Rightarrow> (('k, 'v) item list \<times> ('k, 'v) item) option \<Rightarrow> ('k, 'v) removeResult option" where
  "leaf_result n r =
     (case r of None \<Rightarrow> None | Some (its, out) \<Rightarrow> Some (Node its (n_children n) (n_size n - 1) (n_cow n), Some out, True))"

definition remove_step ::
  "'k option \<Rightarrow> toRemove \<Rightarrow> ('k \<Rightarrow> 'k \<Rightarrow> bool) \<Rightarrow> ('k, 'v) node \<Rightarrow> (('k, 'v) removeResult + nat \<times> bool) option" where
  "remove_step key typ lt n =
     (case typ of
        removeMax \<Rightarrow>
          if n_children n = [] then map_option Inl (leaf_result n (items_pop (n_items n)))
          else Some (Inr (length (n_items n), False))
      | removeMin \<Rightarrow>
          if n_children n = [] then map_option Inl (leaf_result n (items_removeAt 0 (n_items n)))
          else Some (Inr (0, False))
      | removeItem \<Rightarrow>
          (case key of
             None \<Rightarrow> None
           | Some k \<Rightarrow>
               (case items_find lt k (n_items n) of (i, found) \<Rightarrow>
                  if n_children n = []
                  then if found then map_option Inl (leaf_result n (items_removeAt i (n_items n)))
                       else Some (Inl (n, None, False))
                  else Some (Inr (i, found)))))"

partial_function (option) node_remove ::
  "'k option \<Rightarrow> nat \<Rightarrow> toRemove \<Rightarrow> ('k \<Rightarrow> 'k \<Rightarrow> bool) \<Rightarrow> ('k, 'v) node \<Rightarrow> ('k, 'v) removeResult option" where
  "node_remove key minItems typ lt n =
     Option.bind (remove_step key typ lt n) (\<lambda>r. case r of
        Inl result \<Rightarrow> Some result
      | Inr (i, found) \<Rightarrow>
          Option.bind (mutableChild i n) (\<lambda>child.
            if length (n_items child) \<le> minItems
            then Option.bind (growChild i minItems n) (\<lambda>n1. node_remove key minItems typ lt n1)
            else if found
            then Option.bind (node_remove None minItems removeMax lt child) (\<lambda>(c', out', _).
                   case out' of
                     None \<Rightarrow> None
                   | Some m \<Rightarrow>
                       Some (Node ((n_items n)[i := m]) ((n_children n)[i := c']) (n_size n - 1) (n_cow n),
                             Some (n_items n ! i), True))
            else Option.bind (node_remove key minItems typ lt child) (\<lambda>(c', out, removed).
                   let n1 = set_child i c' n
                   in Some (if removed then add_size (- 1) n1 else n1, out, removed))))"

declare node_remove.simps [code]

section \<open>The tree\<close>

record ('k, 'v) BTree =
  bt_degree :: nat
  bt_less :: "'k \<Rightarrow> 'k \<Rightarrow> bool"
  bt_root :: "('k, 'v) node option"
  bt_cow :: nat

definition New :: "nat \<Rightarrow> nat \<Rightarrow> ('k \<Rightarrow> 'k \<Rightarrow> bool) \<Rightarrow> ('k, 'v) BTree option" where
  "New cow degree lt =
     (if degree \<le> 1 then None else Some \<lparr>bt_degree = degree, bt_less = lt, bt_root = None, bt_cow = cow\<rparr>)"

definition maxItems :: "('k, 'v) BTree \<Rightarrow> nat" where
  "maxItems t = bt_degree t * 2 - 1"

definition minItems :: "('k, 'v) BTree \<Rightarrow> nat" where
  "minItems t = bt_degree t - 1"

text \<open>\<^verbatim>\<open>Clone\<close> makes two new contexts, \<open>cow1\<close> and \<open>cow2\<close>.\<close>

definition Clone :: "nat \<Rightarrow> nat \<Rightarrow> ('k, 'v) BTree \<Rightarrow> ('k, 'v) BTree \<times> ('k, 'v) BTree" where
  "Clone cow1 cow2 t = (t\<lparr>bt_cow := cow1\<rparr>, t\<lparr>bt_cow := cow2\<rparr>)"

text \<open>The root split of \<^verbatim>\<open>set\<close>.\<close>

definition split_root :: "nat \<Rightarrow> nat \<Rightarrow> ('k, 'v) node \<Rightarrow> ('k, 'v) node option" where
  "split_root cow maxIt root =
     (if length (n_items root) \<ge> maxIt
      then Option.bind (node_split (maxIt div 2) root) (\<lambda>(first, item2, second).
             Some (Node [item2] [first, second] (n_size root) cow))
      else Some root)"

definition BTree_set ::
  "'k \<Rightarrow> 'v \<Rightarrow> bool \<Rightarrow> ('k, 'v) BTree \<Rightarrow> (('k, 'v) BTree \<times> 'v option \<times> bool \<times> int) option" where
  "BTree_set k v computeIndex t =
     (case bt_root t of
        None \<Rightarrow> Some (t\<lparr>bt_root := Some (Node [(k, v)] [] 1 (bt_cow t))\<rparr>, None, False, 0)
      | Some root \<Rightarrow>
          Option.bind (split_root (bt_cow t) (maxItems t) (mutableFor (bt_cow t) root)) (\<lambda>root1.
          Option.bind (node_insert (k, v) (maxItems t) (bt_less t) computeIndex root1) (\<lambda>(root2, old, present, idx).
            Some (t\<lparr>bt_root := Some root2\<rparr>, old, present, idx))))"

definition BTree_Set :: "'k \<Rightarrow> 'v \<Rightarrow> ('k, 'v) BTree \<Rightarrow> (('k, 'v) BTree \<times> 'v option \<times> bool) option" where
  "BTree_Set k v t = map_option (\<lambda>(t', old, present, _). (t', old, present)) (BTree_set k v False t)"

definition SetWithIndex ::
  "'k \<Rightarrow> 'v \<Rightarrow> ('k, 'v) BTree \<Rightarrow> (('k, 'v) BTree \<times> 'v option \<times> bool \<times> int) option" where
  "SetWithIndex k v t = BTree_set k v True t"

definition deleteItem ::
  "'k option \<Rightarrow> toRemove \<Rightarrow> ('k, 'v) BTree \<Rightarrow> (('k, 'v) BTree \<times> ('k, 'v) item option \<times> bool) option" where
  "deleteItem key typ t =
     (case bt_root t of
        None \<Rightarrow> Some (t, None, False)
      | Some root \<Rightarrow>
          if n_items root = [] then Some (t, None, False)
          else Option.bind (node_remove key (minItems t) typ (bt_less t) (mutableFor (bt_cow t) root)) (\<lambda>(root1, out, removed).
                 Some (t\<lparr>bt_root := Some (if n_items root1 = [] \<and> n_children root1 \<noteq> [] then n_children root1 ! 0 else root1)\<rparr>,
                       out, removed)))"

definition BTree_Delete :: "'k \<Rightarrow> ('k, 'v) BTree \<Rightarrow> (('k, 'v) BTree \<times> 'v option \<times> bool) option" where
  "BTree_Delete k t = map_option (\<lambda>(t', m, removed). (t', map_option snd m, removed)) (deleteItem (Some k) removeItem t)"

definition DeleteMin :: "('k, 'v) BTree \<Rightarrow> (('k, 'v) BTree \<times> ('k, 'v) item option) option" where
  "DeleteMin t = map_option (\<lambda>(t', m, _). (t', m)) (deleteItem None removeMin t)"

definition DeleteMax :: "('k, 'v) BTree \<Rightarrow> (('k, 'v) BTree \<times> ('k, 'v) item option) option" where
  "DeleteMax t = map_option (\<lambda>(t', m, _). (t', m)) (deleteItem None removeMax t)"

definition BTree_Get :: "'k \<Rightarrow> ('k, 'v) BTree \<Rightarrow> 'v option option" where
  "BTree_Get k t =
     (case bt_root t of
        None \<Rightarrow> Some None
      | Some root \<Rightarrow> map_option (\<lambda>(m, ok, _). if \<not> ok then None else map_option snd m) (node_get k False (bt_less t) root))"

definition GetWithIndex :: "'k \<Rightarrow> ('k, 'v) BTree \<Rightarrow> ('v option \<times> int) option" where
  "GetWithIndex k t =
     (case bt_root t of
        None \<Rightarrow> Some (None, -1)
      | Some root \<Rightarrow> map_option (\<lambda>(m, _, index). (map_option snd m, index)) (node_get k True (bt_less t) root))"

definition Has :: "'k \<Rightarrow> ('k, 'v) BTree \<Rightarrow> bool option" where
  "Has k t =
     (case bt_root t of None \<Rightarrow> Some False
      | Some root \<Rightarrow> map_option (\<lambda>(_, ok, _). ok) (node_get k False (bt_less t) root))"

definition BTree_Len :: "('k, 'v) BTree \<Rightarrow> int" where
  "BTree_Len t = (case bt_root t of None \<Rightarrow> 0 | Some root \<Rightarrow> n_size root)"

definition BTree_At :: "int \<Rightarrow> ('k, 'v) BTree \<Rightarrow> ('k, 'v) item option" where
  "BTree_At i t =
     (if i < 0 \<or> i \<ge> BTree_Len t then None
      else case bt_root t of None \<Rightarrow> None | Some root \<Rightarrow> node_at i root)"

text \<open>The loops of \<^verbatim>\<open>Min\<close> and \<^verbatim>\<open>Max\<close> follow the first and the last child.\<close>

fun leftmost :: "('k, 'v) node \<Rightarrow> ('k, 'v) node" where
  "leftmost (Node its [] sz cow) = Node its [] sz cow"
| "leftmost (Node its (c # cs) sz cow) = leftmost c"

fun rightmost :: "('k, 'v) node \<Rightarrow> ('k, 'v) node" where
  "rightmost (Node its cs sz cow) =
     (if 0 < length cs then rightmost (cs ! (length cs - 1)) else Node its cs sz cow)"

definition BTree_Min :: "('k, 'v) BTree \<Rightarrow> ('k, 'v) item option" where
  "BTree_Min t =
     (case bt_root t of None \<Rightarrow> None
      | Some root \<Rightarrow> (let n = leftmost root in if n_items n = [] then None else Some (n_items n ! 0)))"

definition BTree_Max :: "('k, 'v) BTree \<Rightarrow> ('k, 'v) item option" where
  "BTree_Max t =
     (case bt_root t of None \<Rightarrow> None
      | Some root \<Rightarrow> (let n = rightmost root in if n_items n = [] then None else Some (n_items n ! (length (n_items n) - 1))))"

section \<open>Cursors and iterators\<close>

text \<open>A cursor stack is kept with its top first.  The index of a cursor is below zero only inside \<^verbatim>\<open>dec\<close>.\<close>

type_synonym ('k, 'v) cursor = "('k, 'v) node \<times> int"
type_synonym ('k, 'v) cursorStack = "('k, 'v) cursor list"

definition cs_push :: "('k, 'v) cursor \<Rightarrow> ('k, 'v) cursorStack \<Rightarrow> ('k, 'v) cursorStack" where
  "cs_push c s = c # s"

definition cs_incTop :: "int \<Rightarrow> ('k, 'v) cursorStack \<Rightarrow> ('k, 'v) cursorStack" where
  "cs_incTop d s = (case s of [] \<Rightarrow> [] | (n, i) # rest \<Rightarrow> (n, i + d) # rest)"

lemma length_incTop [simp, termination_simp]: "length (cs_incTop d s) = length s"
  by (simp add: cs_incTop_def split: list.split)

fun cursorStackForKey ::
  "'k \<Rightarrow> ('k \<Rightarrow> 'k \<Rightarrow> bool) \<Rightarrow> ('k, 'v) cursorStack \<Rightarrow> ('k, 'v) node \<Rightarrow> (('k, 'v) cursorStack \<times> bool \<times> int) option" where
  "cursorStackForKey k lt st (Node its cs sz cow) =
     (case items_find lt k its of (i, found) \<Rightarrow>
        let st1 = cs_push (Node its cs sz cow, int i) st
        in if found
           then Some (st1, True, if cs \<noteq> [] then partialSize (Suc i) (Node its cs sz cow) - 1 else int i)
           else if cs \<noteq> []
           then if i < length cs
                then case cursorStackForKey k lt st1 (cs ! i) of
                       None \<Rightarrow> None
                     | Some (st2, found', idx) \<Rightarrow> Some (st2, found', idx + partialSize i (Node its cs sz cow))
                else None
           else Some (st1, False, int i))"

fun cursorStackForIndex :: "int \<Rightarrow> ('k, 'v) cursorStack \<Rightarrow> ('k, 'v) node \<Rightarrow> ('k, 'v) cursorStack option"
  and index_loop :: "int \<Rightarrow> ('k, 'v) cursorStack \<Rightarrow> ('k, 'v) node \<Rightarrow> nat \<Rightarrow> ('k, 'v) node list \<Rightarrow> ('k, 'v) cursorStack option" where
  "cursorStackForIndex i st (Node its cs sz cow) =
     (if cs = [] then Some (cs_push (Node its cs sz cow, i) st)
      else index_loop i st (Node its cs sz cow) 0 cs)"
| "index_loop i st n j [] = None"
| "index_loop i st n j (c # cs) =
     (if i < n_size c then cursorStackForIndex i (cs_push (n, int j) st) c
      else if i - n_size c = 0 then Some (cs_push (n, int j) st)
      else index_loop (i - n_size c - 1) st n (Suc j) cs)"

record ('k, 'v) Iterator =
  it_Item :: "('k, 'v) item option"
  it_Index :: int
  it_cursors :: "('k, 'v) cursorStack"
  it_stay :: bool
  it_descending :: bool

definition empty_Iterator :: "('k, 'v) Iterator" where
  "empty_Iterator = \<lparr>it_Item = None, it_Index = 0, it_cursors = [], it_stay = False, it_descending = False\<rparr>"

definition BTree_Before :: "'k \<Rightarrow> ('k, 'v) BTree \<Rightarrow> ('k, 'v) Iterator option" where
  "BTree_Before k t =
     (case bt_root t of
        None \<Rightarrow> Some empty_Iterator
      | Some root \<Rightarrow>
          (case cursorStackForKey k (bt_less t) [] root of
             None \<Rightarrow> None
           | Some (st, found, idx) \<Rightarrow>
               (case st of
                  [] \<Rightarrow> None
                | (n, i) # _ \<Rightarrow>
                    let stay = (found \<or> i < int (length (n_items n)))
                    in Some \<lparr>it_Item = None, it_Index = (if stay then idx else idx - 1), it_cursors = st,
                             it_stay = stay, it_descending = False\<rparr>)))"

definition BTree_After :: "'k \<Rightarrow> ('k, 'v) BTree \<Rightarrow> ('k, 'v) Iterator option" where
  "BTree_After k t =
     (case bt_root t of
        None \<Rightarrow> Some empty_Iterator
      | Some root \<Rightarrow>
          (case cursorStackForKey k (bt_less t) [] root of
             None \<Rightarrow> None
           | Some (st, found, idx) \<Rightarrow>
               Some \<lparr>it_Item = None, it_Index = idx, it_cursors = st, it_stay = found, it_descending = True\<rparr>))"

definition indexIterator :: "int \<Rightarrow> bool \<Rightarrow> ('k, 'v) BTree \<Rightarrow> ('k, 'v) Iterator option" where
  "indexIterator i descending t =
     (if i < 0 \<or> i > BTree_Len t then None
      else if i = BTree_Len t then Some empty_Iterator
      else case bt_root t of
             None \<Rightarrow> None
           | Some root \<Rightarrow>
               (case cursorStackForIndex i [] root of
                  None \<Rightarrow> None
                | Some st \<Rightarrow> Some \<lparr>it_Item = None, it_Index = i, it_cursors = st, it_stay = True, it_descending = descending\<rparr>))"

definition BeforeIndex :: "int \<Rightarrow> ('k, 'v) BTree \<Rightarrow> ('k, 'v) Iterator option" where
  "BeforeIndex i t = indexIterator i False t"

definition AfterIndex :: "int \<Rightarrow> ('k, 'v) BTree \<Rightarrow> ('k, 'v) Iterator option" where
  "AfterIndex i t = indexIterator i True t"

text \<open>The loops of \<^verbatim>\<open>inc\<close>: down to the leftmost leaf, then up past the nodes that are exhausted.\<close>

fun inc_down :: "('k, 'v) node \<Rightarrow> int \<Rightarrow> ('k, 'v) cursorStack \<Rightarrow> ('k, 'v) cursorStack option" where
  "inc_down (Node its cs sz cow) i st =
     (if cs = [] then Some st
      else if 0 \<le> i \<and> nat i < length cs then inc_down (cs ! nat i) 0 (cs_push (cs ! nat i, 0) st)
      else None)"

fun inc_up :: "('k, 'v) cursorStack \<Rightarrow> ('k, 'v) cursorStack" where
  "inc_up [] = []"
| "inc_up ((n, i) # st) = (if i \<ge> int (length (n_items n)) then inc_up st else (n, i) # st)"

text \<open>\<^verbatim>\<open>inc\<close>: whether there is a next item.\<close>

definition it_inc :: "('k, 'v) Iterator \<Rightarrow> (('k, 'v) Iterator \<times> bool) option" where
  "it_inc it =
     (case cs_incTop 1 (it_cursors it) of
        [] \<Rightarrow> None
      | (n, i) # st \<Rightarrow>
          (case inc_down n i ((n, i) # st) of
             None \<Rightarrow> None
           | Some st1 \<Rightarrow>
               let st2 = inc_up st1
               in Some (it\<lparr>it_Index := it_Index it + 1, it_cursors := st2\<rparr>, st2 \<noteq> [])))"

fun dec_down :: "('k, 'v) node \<Rightarrow> int \<Rightarrow> ('k, 'v) cursorStack \<Rightarrow> ('k, 'v) cursorStack option" where
  "dec_down (Node its cs sz cow) i st =
     (if cs = [] then Some st
      else if 0 \<le> i \<and> nat i < length cs
      then dec_down (cs ! nat i) (int (length (n_items (cs ! nat i))))
             (cs_push (cs ! nat i, int (length (n_items (cs ! nat i)))) st)
      else None)"

fun dec_up :: "('k, 'v) cursorStack \<Rightarrow> ('k, 'v) cursorStack" where
  "dec_up [] = []"
| "dec_up ((n, i) # st) = (if i < 0 then dec_up (cs_incTop (- 1) st) else (n, i) # st)"

definition it_dec :: "('k, 'v) Iterator \<Rightarrow> (('k, 'v) Iterator \<times> bool) option" where
  "it_dec it =
     (case it_cursors it of
        [] \<Rightarrow> None
      | (n, i) # st \<Rightarrow>
          (case dec_down n i ((n, i) # st) of
             None \<Rightarrow> None
           | Some st1 \<Rightarrow>
               let st2 = dec_up (cs_incTop (- 1) st1)
               in Some (it\<lparr>it_Index := it_Index it - 1, it_cursors := st2\<rparr>, st2 \<noteq> [])))"

definition it_Next :: "('k, 'v) Iterator \<Rightarrow> (('k, 'v) Iterator \<times> bool) option" where
  "it_Next it =
     Option.bind
       (if it_cursors it = [] then Some (it, False)
        else if it_stay it then Some (it\<lparr>it_stay := False\<rparr>, True)
        else if it_descending it then it_dec it
        else it_inc it)
       (\<lambda>(it1, more).
          if \<not> more then Some (it1, False)
          else case it_cursors it1 of
                 [] \<Rightarrow> None
               | (n, i) # _ \<Rightarrow>
                   if 0 \<le> i \<and> nat i < length (n_items n)
                   then Some (it1\<lparr>it_Item := Some (n_items n ! nat i)\<rparr>, True) else None)"

end
