(* ===== verification/Btree_Spec.thy ===== *)
theory Btree_Spec
  imports Btree
begin

text \<open>
  What a B-tree promises: it is a sequence of items, strictly increasing in the order of the keys.  The
  order is the interface a client provides (\<open>strict_weak_order\<close>); the abstract operations are
  filters on the sequence; the well-formedness of nodes and the decomposition of a node around a child
  are shared by the proofs of insertion, removal, access and iteration.
\<close>

section \<open>The order of the keys\<close>

locale strict_weak_order =
  fixes lt :: "'k \<Rightarrow> 'k \<Rightarrow> bool"
  assumes irrefl: "\<not> lt a a"
    and trans: "lt a b \<Longrightarrow> lt b c \<Longrightarrow> lt a c"
    and negtrans: "\<not> lt a b \<Longrightarrow> \<not> lt b c \<Longrightarrow> \<not> lt a c"

definition eqv :: "('k \<Rightarrow> 'k \<Rightarrow> bool) \<Rightarrow> 'k \<Rightarrow> 'k \<Rightarrow> bool" where
  "eqv lt a b \<longleftrightarrow> \<not> lt a b \<and> \<not> lt b a"

definition sorted_items :: "('k \<Rightarrow> 'k \<Rightarrow> bool) \<Rightarrow> ('k, 'v) item list \<Rightarrow> bool" where
  "sorted_items lt xs \<longleftrightarrow> sorted_wrt (\<lambda>x y. lt (fst x) (fst y)) xs"

section \<open>Operations on sequences\<close>

definition spec_set :: "('k \<Rightarrow> 'k \<Rightarrow> bool) \<Rightarrow> 'k \<Rightarrow> 'v \<Rightarrow> ('k, 'v) item list \<Rightarrow> ('k, 'v) item list" where
  "spec_set lt k v xs = filter (\<lambda>y. lt (fst y) k) xs @ (k, v) # filter (\<lambda>y. lt k (fst y)) xs"

definition spec_find :: "('k \<Rightarrow> 'k \<Rightarrow> bool) \<Rightarrow> 'k \<Rightarrow> ('k, 'v) item list \<Rightarrow> ('k, 'v) item option" where
  "spec_find lt k xs = List.find (\<lambda>y. eqv lt k (fst y)) xs"

definition spec_rank :: "('k \<Rightarrow> 'k \<Rightarrow> bool) \<Rightarrow> 'k \<Rightarrow> ('k, 'v) item list \<Rightarrow> int" where
  "spec_rank lt k xs = int (length (filter (\<lambda>y. lt (fst y) k) xs))"

definition spec_delete :: "('k \<Rightarrow> 'k \<Rightarrow> bool) \<Rightarrow> 'k \<Rightarrow> ('k, 'v) item list \<Rightarrow> ('k, 'v) item list" where
  "spec_delete lt k xs = filter (\<lambda>y. \<not> eqv lt k (fst y)) xs"

section \<open>Interleaving children and items\<close>

fun weave :: "'a list list \<Rightarrow> 'a list \<Rightarrow> 'a list" where
  "weave [] ys = ys"
| "weave (c # cs) [] = c @ concat cs"
| "weave (c # cs) (y # ys) = c @ y # weave cs ys"

text \<open>What is left and what is right of a child.\<close>

definition wl :: "'a list list \<Rightarrow> 'a list \<Rightarrow> 'a list" where
  "wl as xs = concat (map2 (\<lambda>c x. c @ [x]) as xs)"

definition wr :: "'a list \<Rightarrow> 'a list list \<Rightarrow> 'a list" where
  "wr ys bs = concat (map2 (\<lambda>y c. y # c) ys bs)"

lemma wl_simps [simp]: "wl [] [] = []" "wl (a # as) (x # xs) = a @ x # wl as xs"
  by (simp_all add: wl_def)

lemma wr_simps [simp]: "wr [] [] = []" "wr (y # ys) (b # bs) = y # b @ wr ys bs"
  by (simp_all add: wr_def)

lemma wl_append [simp]: "length as = length xs \<Longrightarrow> wl (as @ as') (xs @ xs') = wl as xs @ wl as' xs'"
  by (simp add: wl_def)

lemma wr_append [simp]: "length ys = length bs \<Longrightarrow> wr (ys @ ys') (bs @ bs') = wr ys bs @ wr ys' bs'"
  by (simp add: wr_def)

lemma weave_right: "length bs = length ys \<Longrightarrow> weave (c # bs) ys = c @ wr ys bs"
  by (induction bs ys arbitrary: c rule: list_induct2) auto

lemma weave_split:
  "length as = length xs \<Longrightarrow> length bs = length ys \<Longrightarrow> weave (as @ c # bs) (xs @ ys) = wl as xs @ c @ wr ys bs"
  by (induction as xs rule: list_induct2) (simp_all add: weave_right)

lemma set_wl_items: "length as = length xs \<Longrightarrow> set xs \<subseteq> set (wl as xs)"
  by (induction as xs rule: list_induct2) auto

lemma set_wr_items: "length ys = length bs \<Longrightarrow> set ys \<subseteq> set (wr ys bs)"
  by (induction ys bs rule: list_induct2) auto

lemma length_wl: "length as = length xs \<Longrightarrow> length (wl as xs) = sum_list (map length as) + length xs"
  by (induction as xs rule: list_induct2) auto

lemma length_wr: "length ys = length bs \<Longrightarrow> length (wr ys bs) = sum_list (map length bs) + length ys"
  by (induction ys bs rule: list_induct2) auto

lemma sorted_wl_items:
  "length as = length xs \<Longrightarrow> sorted_wrt P (wl as xs) \<Longrightarrow> sorted_wrt P xs"
proof (induction as xs rule: list_induct2)
  case (Cons a as x xs)
  then show ?case using set_wl_items [OF Cons.hyps] by (auto simp: sorted_wrt_append)
qed simp

lemma sorted_wr_items:
  "length ys = length bs \<Longrightarrow> sorted_wrt P (wr ys bs) \<Longrightarrow> sorted_wrt P ys"
proof (induction ys bs rule: list_induct2)
  case (Cons y ys b bs)
  then show ?case using set_wr_items [OF Cons.hyps] by (auto simp: sorted_wrt_append)
qed simp

section \<open>Nodes as sequences\<close>

fun inorder :: "('k, 'v) node \<Rightarrow> ('k, 'v) item list" where
  "inorder (Node its cs sz cow) = weave (map inorder cs) its"

text \<open>\<open>node_ok d h n\<close>: a node of height \<open>h\<close> in a tree of degree \<open>d\<close>.  All leaves have the same depth, every node has
  at most \<open>2 d - 1\<close> items, every child at least \<open>d - 1\<close>, and the sizes are right.\<close>

fun node_ok :: "nat \<Rightarrow> nat \<Rightarrow> ('k, 'v) node \<Rightarrow> bool" where
  "node_ok d 0 (Node its cs sz cow) = (cs = [] \<and> length its \<le> 2 * d - 1 \<and> sz = int (length its))"
| "node_ok d (Suc h) (Node its cs sz cow) =
     (length cs = Suc (length its) \<and> length its \<le> 2 * d - 1
      \<and> (\<forall>c\<in>set cs. node_ok d h c \<and> d - 1 \<le> length (n_items c))
      \<and> sz = int (length its) + sum_list (map n_size cs))"

lemma node_ok_size: "node_ok d h n \<Longrightarrow> n_size n = int (length (inorder n))"
proof (induction d h n rule: node_ok.induct)
  case (2 d h its cs sz cow)
  then obtain c bs where cs: "cs = c # bs" "length bs = length its" by (cases cs) auto
  have "n_size x = int (length (inorder x))" if "x \<in> set cs" for x
    using 2 that by auto
  then have "sum_list (map n_size cs) = int (sum_list (map (length \<circ> inorder) cs))"
    by (induction cs) auto
  then show ?case using 2(2) cs by (simp add: weave_right length_wr comp_def algebra_simps)
qed simp

lemma sum_sizes:
  "\<forall>x\<in>set cs. node_ok d h x \<Longrightarrow> sum_list (map n_size cs) = int (sum_list (map (\<lambda>x. length (inorder x)) cs))"
  by (induction cs) (auto simp: node_ok_size)

text \<open>How many items are left of a child.\<close>

lemma length_left:
  assumes "\<forall>x\<in>set as. node_ok d h x" "length as = length xs"
  shows "int (length (wl (map inorder as) xs)) = int (length xs) + sum_list (map n_size as)"
  using assms by (simp add: length_wl comp_def sum_sizes)

lemma computeSize_eq: "computeSize (Node its cs sz cow) = int (length its) + sum_list (map n_size cs)"
proof -
  have "fold (\<lambda>c s. s + n_size c) cs a = a + sum_list (map n_size cs)" for a by (induction cs arbitrary: a) auto
  then show ?thesis by (simp add: computeSize_def)
qed

lemma mutableFor_simps [simp]:
  "n_items (mutableFor w n) = n_items n" "n_children (mutableFor w n) = n_children n"
  "n_size (mutableFor w n) = n_size n" "n_cow (mutableFor w n) = w"
  by (simp_all add: mutableFor_def)

lemma mutableFor_eq: "mutableFor w n = Node (n_items n) (n_children n) (n_size n) w"
  by (cases n) (simp add: mutableFor_def)

lemma node_ok_mutable [simp]: "node_ok d h (mutableFor w n) = node_ok d h n" "inorder (mutableFor w n) = inorder n"
  by (cases n; cases h; simp add: mutableFor_eq)+

text \<open>A node taken apart around the child with index \<open>i\<close>.\<close>

lemma node_ok_cases:
  assumes "node_ok d (Suc h) n" "i \<le> length (n_items n)"
  obtains xs ys as c bs where "n_items n = xs @ ys" "n_children n = as @ c # bs"
    "length xs = i" "length as = i" "length bs = length ys" "n_children n ! i = c"
proof -
  obtain its cs sz cow where n: "n = Node its cs sz cow" by (cases n)
  have len: "i < length cs" "length cs = Suc (length its)" using assms by (auto simp: n)
  show thesis
    by (rule that [of "take i its" "drop i its" "take i cs" "cs ! i" "drop (Suc i) cs"])
       (use len assms(2) in \<open>auto simp: n id_take_nth_drop [symmetric]\<close>)
qed

lemma inorder_split:
  "length as = length xs \<Longrightarrow> length bs = length ys \<Longrightarrow>
   inorder (Node (xs @ ys) (as @ c # bs) sz cow) = wl (map inorder as) xs @ inorder c @ wr ys (map inorder bs)"
  using weave_split [of "map inorder as" xs "map inorder bs" ys "inorder c"] by simp

lemma inorder_leaf [simp]: "inorder (Node its [] sz cow) = its"
  by simp

lemma inorder_node: "inorder n = inorder (Node (n_items n) (n_children n) sz cow)"
  by (cases n) simp

lemma node_ok_split:
  "length as = length xs \<Longrightarrow> length bs = length ys \<Longrightarrow>
   node_ok d (Suc h) (Node (xs @ ys) (as @ c # bs) sz cow) \<longleftrightarrow>
     length xs + length ys \<le> 2 * d - 1
   \<and> (\<forall>x\<in>set as \<union> set bs. node_ok d h x \<and> d - 1 \<le> length (n_items x))
   \<and> node_ok d h c \<and> d - 1 \<le> length (n_items c)
   \<and> sz = int (length xs + length ys) + sum_list (map n_size as) + n_size c + sum_list (map n_size bs)"
  by auto

lemma partialSize_take:
  "partialSize i n = int i + sum_list (map n_size (take i (n_children n)))" if "i \<le> length (n_children n)"
proof -
  have "partialSize_loop i j cs s = s + int (i - j) + sum_list (map n_size (take (i - j) cs))"
    if "j \<le> i" "i - j \<le> length cs" for j s and cs :: "('a, 'b) node list"
    using that
  proof (induction cs arbitrary: j s)
    case (Cons c cs)
    show ?case
    proof (cases "j = i")
      case False
      then have j: "Suc j \<le> i" "i - j = Suc (i - Suc j)" using Cons.prems by auto
      have "partialSize_loop i j (c # cs) s = partialSize_loop i (Suc j) cs (s + n_size c + 1)" using False by simp
      also have "\<dots> = s + n_size c + 1 + int (i - Suc j) + sum_list (map n_size (take (i - Suc j) cs))"
        using Cons.IH [OF j(1)] Cons.prems j by simp
      finally show ?thesis using j by simp
    qed simp
  qed simp
  from this [of 0 "n_children n" 0] that show ?thesis by (simp add: partialSize_def)
qed

declare inorder.simps [simp del]

lemma find_append:
  "List.find P (xs @ ys) = (case List.find P xs of None \<Rightarrow> List.find P ys | Some y \<Rightarrow> Some y)"
  by (induction xs) auto

lemma in_set_take_nth: "x \<in> set (take i s) \<Longrightarrow> \<exists>a<i. a < length s \<and> x = s ! a"
  by (auto simp: in_set_conv_nth)

section \<open>Consequences of the order\<close>

context strict_weak_order
begin

lemma asym: "lt a b \<Longrightarrow> \<not> lt b a"
  using irrefl trans by blast

lemma lt_eqv_trans: "lt a b \<Longrightarrow> eqv lt b c \<Longrightarrow> lt a c"
  using negtrans [of a c b] by (auto simp: eqv_def)

lemma eqv_lt_trans: "eqv lt a b \<Longrightarrow> lt b c \<Longrightarrow> lt a c"
  using negtrans [of b a c] by (auto simp: eqv_def)

lemma eqv_sym: "eqv lt a b \<longleftrightarrow> eqv lt b a"
  by (auto simp: eqv_def)

lemma eqv_refl [simp]: "eqv lt a a"
  by (simp add: eqv_def irrefl)

lemma sorted_nth: "sorted_items lt s \<Longrightarrow> i < j \<Longrightarrow> j < length s \<Longrightarrow> lt (fst (s ! i)) (fst (s ! j))"
  unfolding sorted_items_def by (rule sorted_wrt_nth_less)

lemma items_sorted:
  assumes "node_ok d h n" "sorted_items lt (inorder n)"
  shows "sorted_items lt (n_items n)"
proof (cases h)
  case 0
  then show ?thesis using assms by (cases n) simp
next
  case (Suc h')
  obtain its cs sz cow where n: "n = Node its cs sz cow" by (cases n)
  obtain c bs where cs: "cs = c # bs" "length bs = length its" using assms(1) by (cases cs) (auto simp: n Suc)
  have "sorted_items lt (inorder c @ wr its (map inorder bs))"
    using assms(2) weave_right [of "map inorder bs" its "inorder c"] cs by (simp add: n inorder.simps)
  then show ?thesis
    using sorted_wr_items [of its "map inorder bs"] cs by (simp add: sorted_items_def sorted_wrt_append n)
qed

text \<open>\<^verbatim>\<open>find\<close>: the items before the index are smaller, those after it greater.\<close>

lemma find_correct:
  assumes "sorted_items lt s" "items_find lt k s = (i, found)"
  shows "i \<le> length s" "\<And>x. x \<in> set (take i s) \<Longrightarrow> lt (fst x) k"
    "found \<Longrightarrow> i < length s" "found \<Longrightarrow> eqv lt k (fst (s ! i))" "found \<Longrightarrow> x \<in> set (drop (Suc i) s) \<Longrightarrow> lt k (fst x)"
    "\<not> found \<Longrightarrow> x \<in> set (drop i s) \<Longrightarrow> lt k (fst x)"
proof -
  let ?f = "\<lambda>i. lt k (fst (s ! i))"
  define j where "j = go_search (length s) ?f"
  have mono: "?f b" if "a \<le> b" "b < length s" "?f a" for a b
    using that sorted_nth [OF assms(1), of a b] trans by (cases "a = b") (auto simp: order_le_less)
  have j: "j \<le> length s" "\<And>a. a < j \<Longrightarrow> \<not> ?f a" "\<And>a. j \<le> a \<Longrightarrow> a < length s \<Longrightarrow> ?f a"
    unfolding j_def using go_search_le [of "length s" ?f] go_search_below [of "length s" ?f] go_search_above [of "length s" ?f] mono
    by blast+
  have above: "lt k (fst x)" if "x \<in> set (drop j s)" for x
    using that j(3) by (auto simp: in_set_conv_nth)
  have *: "i \<le> length s \<and> (\<forall>x\<in>set (take i s). lt (fst x) k)
      \<and> (found \<longrightarrow> i < length s \<and> eqv lt k (fst (s ! i)) \<and> (\<forall>x\<in>set (drop (Suc i) s). lt k (fst x)))
      \<and> (\<not> found \<longrightarrow> (\<forall>x\<in>set (drop i s). lt k (fst x)))"
  proof (cases "j > 0 \<and> \<not> lt (fst (s ! (j - 1))) k")
    case True
    then have i: "i = j - 1" "found" using assms(2) by (auto simp: items_find_def j_def Let_def)
    have e: "eqv lt k (fst (s ! i))" using True i j(2) [of i] by (auto simp: eqv_def)
    have "lt (fst (s ! a)) k" if "a < i" for a
      using sorted_nth [OF assms(1) that] j(1) True i lt_eqv_trans [OF _ e [unfolded eqv_sym [of k]]] by auto
    then show ?thesis using i e True j(1) above by (auto dest!: in_set_take_nth)
  next
    case False
    then have i: "i = j" "\<not> found" using assms(2) by (auto simp: items_find_def j_def Let_def split: if_splits)
    have "lt (fst (s ! a)) k" if "a < j" for a
    proof (cases "a = j - 1")
      case True
      then show ?thesis using False that by auto
    next
      case neq: False
      then have "lt (fst (s ! a)) (fst (s ! (j - 1)))" using sorted_nth [OF assms(1), of a "j - 1"] that j(1) by auto
      moreover have "lt (fst (s ! (j - 1))) k" using False that by auto
      ultimately show ?thesis using trans by blast
    qed
    then show ?thesis using i j(1) above by (auto dest!: in_set_take_nth)
  qed
  from * show "i \<le> length s" "\<And>x. x \<in> set (take i s) \<Longrightarrow> lt (fst x) k"
    "found \<Longrightarrow> i < length s" "found \<Longrightarrow> eqv lt k (fst (s ! i))" "found \<Longrightarrow> x \<in> set (drop (Suc i) s) \<Longrightarrow> lt k (fst x)"
    "\<not> found \<Longrightarrow> x \<in> set (drop i s) \<Longrightarrow> lt k (fst x)" by blast+
qed

lemma find_split:
  assumes "sorted_items lt (xs @ ys)" "\<forall>x\<in>set xs. lt (fst x) k" "\<forall>y\<in>set ys. lt k (fst y)"
  shows "items_find lt k (xs @ ys) = (length xs, False)"
proof -
  obtain i found where f: "items_find lt k (xs @ ys) = (i, found)" by fastforce
  note c = find_correct [OF assms(1) f]
  have nf: "\<not> found"
  proof
    assume found
    then have "i < length (xs @ ys)" "eqv lt k (fst ((xs @ ys) ! i))" using c(3,4) by auto
    then show False using assms(2,3) by (auto simp: eqv_def nth_append split: if_splits)
  qed
  have "i = length xs"
  proof (rule linorder_cases [of i "length xs"])
    assume "i < length xs"
    then have "xs ! i \<in> set (drop i (xs @ ys))" by (auto simp: in_set_conv_nth intro!: exI [of _ 0])
    with c(6) [OF nf] \<open>i < length xs\<close> assms(2) asym show ?thesis by (meson nth_mem)
  next
    assume gt: "length xs < i"
    then obtain y zs where y: "ys = y # zs" using c(1) by (cases ys) auto
    with gt have "y \<in> set (take i (xs @ ys))" by (simp add: take_Cons')
    with c(2) assms(3) asym y show ?thesis by auto
  qed
  with f nf show ?thesis by simp
qed

lemma find_split_found:
  assumes "sorted_items lt (xs @ y # ys)" "eqv lt k (fst y)"
  shows "items_find lt k (xs @ y # ys) = (length xs, True)"
proof -
  obtain i found where f: "items_find lt k (xs @ y # ys) = (i, found)" by fastforce
  note c = find_correct [OF assms(1) f]
  have xs: "lt (fst x) k" if "x \<in> set xs" for x
    using assms that lt_eqv_trans [of "fst x" "fst y" k] by (auto simp: sorted_items_def sorted_wrt_append eqv_sym)
  have ys: "lt k (fst x)" if "x \<in> set ys" for x
    using assms that eqv_lt_trans [of k "fst y" "fst x"] by (auto simp: sorted_items_def sorted_wrt_append)
  have nk: "\<not> lt (fst y) k" "\<not> lt k (fst y)" using assms(2) by (auto simp: eqv_def)
  have "length xs \<ge> i"
  proof (rule ccontr)
    assume "\<not> length xs \<ge> i"
    then have "y \<in> set (take i (xs @ y # ys))" by (auto simp: take_Cons')
    with c(2) nk show False by blast
  qed
  moreover have "i \<ge> length xs"
  proof (rule ccontr)
    assume n: "\<not> i \<ge> length xs"
    then have "y \<in> set (drop (Suc i) (xs @ y # ys))" "y \<in> set (drop i (xs @ y # ys))" by auto
    with c(5,6) nk show False by blast
  qed
  ultimately have "i = length xs" by simp
  moreover have "found" using c(6) [of y] nk calculation by auto
  ultimately show ?thesis using f by simp
qed

text \<open>What is left of a child is smaller than a key that the items on the left are smaller than.\<close>

lemma wl_smaller:
  "length as = length xs \<Longrightarrow> sorted_items lt (wl as xs) \<Longrightarrow> \<forall>x\<in>set xs. lt (fst x) k \<Longrightarrow> \<forall>y\<in>set (wl as xs). lt (fst y) k"
proof (induction as xs rule: list_induct2)
  case (Cons a as x xs)
  have "lt (fst y) k" if "y \<in> set a" for y
    using Cons.prems that trans [of "fst y" "fst x" k] by (auto simp: sorted_items_def sorted_wrt_append)
  with Cons show ?case by (auto simp: sorted_items_def sorted_wrt_append)
qed simp

lemma wr_greater:
  "length ys = length bs \<Longrightarrow> sorted_items lt (wr ys bs) \<Longrightarrow> \<forall>y\<in>set ys. lt k (fst y) \<Longrightarrow> \<forall>z\<in>set (wr ys bs). lt k (fst z)"
proof (induction ys bs rule: list_induct2)
  case (Cons y ys b bs)
  have "lt k (fst z)" if "z \<in> set b" for z
    using Cons.prems that trans [of k "fst y" "fst z"] by (auto simp: sorted_items_def sorted_wrt_append)
  with Cons show ?case by (auto simp: sorted_items_def sorted_wrt_append)
qed simp

text \<open>The abstract operations act on the part that can hold the key.\<close>

lemma spec_between:
  assumes "\<forall>x\<in>set l. lt (fst x) k" "\<forall>x\<in>set r. lt k (fst x)"
  shows "spec_set lt k v (l @ m @ r) = l @ spec_set lt k v m @ r"
    and "spec_find lt k (l @ m @ r) = spec_find lt k m"
    and "spec_rank lt k (l @ m @ r) = int (length l) + spec_rank lt k m"
    and "spec_delete lt k (l @ m @ r) = l @ spec_delete lt k m @ r"
proof -
  have l: "filter (\<lambda>y. lt (fst y) k) l = l" "filter (\<lambda>y. lt k (fst y)) l = []" "filter (\<lambda>y. \<not> eqv lt k (fst y)) l = l"
    "List.find (\<lambda>y. eqv lt k (fst y)) l = None"
    using assms(1) asym by (auto simp: filter_id_conv filter_empty_conv eqv_def find_None_iff)
  have r: "filter (\<lambda>y. lt (fst y) k) r = []" "filter (\<lambda>y. lt k (fst y)) r = r" "filter (\<lambda>y. \<not> eqv lt k (fst y)) r = r"
    "List.find (\<lambda>y. eqv lt k (fst y)) r = None"
    using assms(2) asym by (auto simp: filter_id_conv filter_empty_conv eqv_def find_None_iff)
  show "spec_set lt k v (l @ m @ r) = l @ spec_set lt k v m @ r" by (simp add: spec_set_def l r)
  show "spec_rank lt k (l @ m @ r) = int (length l) + spec_rank lt k m" by (simp add: spec_rank_def l r)
  show "spec_delete lt k (l @ m @ r) = l @ spec_delete lt k m @ r" by (simp add: spec_delete_def l r)
  show "spec_find lt k (l @ m @ r) = spec_find lt k m"
    using l r by (simp add: spec_find_def find_append split: option.split)
qed

lemma sorted_spec_set: "sorted_items lt xs \<Longrightarrow> sorted_items lt (spec_set lt k v xs)"
  using trans by (auto simp: sorted_items_def spec_set_def sorted_wrt_append sorted_wrt_filter)

lemma sorted_spec_delete: "sorted_items lt xs \<Longrightarrow> sorted_items lt (spec_delete lt k xs)"
  by (simp add: sorted_items_def spec_delete_def sorted_wrt_filter)

end

end
