(* ===== verification/Btree_Insert.thy ===== *)
theory Btree_Insert
  imports Btree_Spec
begin

text \<open>
  Insertion into a B-tree is insertion into its sequence: splits keep the sequence, the recursion goes into the
  child that can hold the key, and every node of the result is well formed.
\<close>

section \<open>Splits\<close>

lemma node_split_ok:
  assumes "node_ok d h n" "length (n_items n) = 2 * d - 1" "2 \<le> d"
  obtains first it second where "node_split ((2 * d - 1) div 2) n = Some (first, it, second)"
    "node_ok d h first" "node_ok d h second" "length (n_items first) = d - 1" "length (n_items second) = d - 1"
    "inorder n = inorder first @ it # inorder second"
proof -
  obtain its cs sz cow where n: "n = Node its cs sz cow" by (cases n)
  have mid: "(2 * d - 1) div 2 = d - 1" using assms(3) by auto
  have len: "length its = 2 * d - 1" using assms(2) by (simp add: n)
  define xs it ys where "xs = take (d - 1) its" and "it = its ! (d - 1)" and "ys = drop d its"
  have its: "its = xs @ it # ys" "length xs = d - 1" "length ys = d - 1"
    using len assms(3) id_take_nth_drop [of "d - 1" its] by (auto simp: xs_def it_def ys_def)
  show thesis
  proof (cases h)
    case 0
    show thesis
      by (rule that [of "Node xs [] (int (d - 1)) cow" it "Node ys [] (int (d - 1)) cow"])
         (use assms 0 len its mid in \<open>auto simp: n node_split_def items_truncate_def computeSize_eq Let_def nth_append\<close>)
  next
    case (Suc h')
    have lc: "length cs = 2 * d" using assms(1,3) len by (auto simp: n Suc)
    define as c b bs where "as = take (d - 1) cs" and "c = cs ! (d - 1)" and "b = cs ! d" and "bs = drop (Suc d) cs"
    have d: "Suc (d - 1) = d" using assms(3) by simp
    have cs: "cs = as @ c # b # bs" "length as = d - 1" "length bs = d - 1"
      using lc assms(3) id_take_nth_drop [of "d - 1" cs] Cons_nth_drop_Suc [of d cs] d
      by (auto simp: as_def c_def b_def bs_def)
    let ?first = "Node xs (as @ [c]) (int (d - 1) + sum_list (map n_size (as @ [c]))) cow"
    let ?second = "Node ys (b # bs) (int (d - 1) + sum_list (map n_size (b # bs))) cow"
    have ok: "node_ok d h' x \<and> d - 1 \<le> length (n_items x)" if "x \<in> set cs" for x
      using assms(1) that by (auto simp: n Suc)
    have "take d cs = as @ [c]" "drop d cs = b # bs" using cs d by auto
    moreover have "inorder n = inorder ?first @ it # inorder ?second"
      using weave_split [of "map inorder as" xs "map inorder (b # bs)" "it # ys" "inorder c"]
        weave_split [of "map inorder as" xs "[]" "[]" "inorder c"] weave_right [of "map inorder bs" ys "inorder b"]
      by (simp add: n cs its inorder.simps)
    moreover have "node_split ((2 * d - 1) div 2) n = Some (?first, it, ?second)"
      unfolding mid using calculation(1,2) its cs assms(3) d
      by (simp add: n node_split_def items_truncate_def children_truncate_def computeSize_eq Let_def nth_append)
    moreover have "node_ok d h ?first" "node_ok d h ?second"
      using ok its cs assms(3) by (auto simp: Suc)
    ultimately show thesis
      using its by (intro that [of ?first it ?second]) simp_all
  qed
qed

text \<open>\<^verbatim>\<open>maybeSplitChild\<close>: the sequence stays, and the children that an insertion can go into have room.\<close>

lemma maybeSplit_ok:
  assumes "node_ok d (Suc h) (Node (xs @ ys) (as @ c # bs) sz cow)" "length as = length xs" "length bs = length ys"
    and "length (xs @ ys) < 2 * d - 1" "2 \<le> d" "length (n_items c) = 2 * d - 1"
  obtains first it second where
    "maybeSplitChild (length xs) (2 * d - 1) (Node (xs @ ys) (as @ c # bs) sz cow)
       = Some (Node (xs @ it # ys) (as @ first # second # bs) sz cow, True)"
    "node_ok d (Suc h) (Node (xs @ it # ys) (as @ first # second # bs) sz cow)"
    "length (n_items first) = d - 1" "length (n_items second) = d - 1"
    "inorder c = inorder first @ it # inorder second"
proof -
  have c: "node_ok d h c" using assms(1) by (simp add: node_ok_split [OF assms(2,3)])
  have m: "node_ok d h (mutableFor cow c)" "length (n_items (mutableFor cow c)) = 2 * d - 1" using c assms(6) by simp_all
  obtain first it second where s: "node_split ((2 * d - 1) div 2) (mutableFor cow c) = Some (first, it, second)"
    "node_ok d h first" "node_ok d h second" "length (n_items first) = d - 1" "length (n_items second) = d - 1"
    "inorder (mutableFor cow c) = inorder first @ it # inorder second"
    by (rule node_split_ok [OF m assms(5)])
  have size: "n_size c = n_size first + n_size second + 1"
    using node_ok_size [OF c] node_ok_size [OF s(2)] node_ok_size [OF s(3)] s(6) by simp
  from s(6) have ord: "inorder c = inorder first @ it # inorder second" by simp
  have "maybeSplitChild (length xs) (2 * d - 1) (Node (xs @ ys) (as @ c # bs) sz cow)
       = Some (Node (xs @ it # ys) (as @ first # second # bs) sz cow, True)"
    using s(1) assms(6)
    by (simp add: maybeSplitChild_def items_insertAt_def children_insertAt_def list_update_append assms(2) [symmetric])
  moreover have "node_ok d (Suc h) (Node (xs @ it # ys) (as @ first # second # bs) sz cow)"
    using assms s size by (auto simp: node_ok_split)
  ultimately show thesis using that s(4,5) ord by blast
qed

lemma maybeSplit_none:
  assumes "length as = length xs" "length (n_items c) < m"
  shows "maybeSplitChild (length xs) m (Node (xs @ ys) (as @ c # bs) sz cow) = Some (Node (xs @ ys) (as @ c # bs) sz cow, False)"
  using assms by (simp add: maybeSplitChild_def nth_append)

section \<open>Insertion into a node\<close>

text \<open>What an insertion into \<open>n\<close> has to give.\<close>

definition insert_post ::
  "('k \<Rightarrow> 'k \<Rightarrow> bool) \<Rightarrow> nat \<Rightarrow> nat \<Rightarrow> 'k \<Rightarrow> 'v \<Rightarrow> bool \<Rightarrow> ('k, 'v) node \<Rightarrow> ('k, 'v) insertResult \<Rightarrow> bool" where
  "insert_post lt d h k v computeIndex n r \<longleftrightarrow>
     (case r of (n', old, present, idx) \<Rightarrow>
        node_ok d h n' \<and> length (n_items n) \<le> length (n_items n') \<and> n_cow n' = n_cow n
      \<and> inorder n' = spec_set lt k v (inorder n)
      \<and> old = map_option snd (spec_find lt k (inorder n)) \<and> present = (spec_find lt k (inorder n) \<noteq> None)
      \<and> (computeIndex \<longrightarrow> idx = spec_rank lt k (inorder n)))"

context strict_weak_order
begin

lemma length_spec_set:
  assumes "sorted_items lt xs"
  shows "length (spec_set lt k v xs) = (if spec_find lt k xs = None then Suc (length xs) else length xs)"
  using assms
proof (induction xs)
  case (Cons x xs)
  have s: "sorted_items lt xs" "\<And>y. y \<in> set xs \<Longrightarrow> lt (fst x) (fst y)" using Cons.prems by (auto simp: sorted_items_def)
  show ?case
  proof (cases "eqv lt k (fst x)")
    case True
    have "lt k (fst y)" if "y \<in> set xs" for y using eqv_lt_trans [OF True s(2) [OF that]] .
    with True show ?thesis
      using asym by (auto simp: spec_set_def spec_find_def eqv_def filter_empty_conv filter_id_conv)
  next
    case False
    with Cons.IH [OF s(1)] asym show ?thesis by (auto simp: spec_set_def spec_find_def eqv_def)
  qed
qed (simp add: spec_set_def spec_find_def)

lemma around_found:
  assumes "sorted_items lt (xs @ y # ys)" "eqv lt k (fst y)"
  shows "\<forall>x\<in>set xs. lt (fst x) k" "\<forall>x\<in>set ys. lt k (fst x)"
proof -
  show "\<forall>x\<in>set xs. lt (fst x) k"
    using assms lt_eqv_trans eqv_sym by (fastforce simp: sorted_items_def sorted_wrt_append)
  show "\<forall>x\<in>set ys. lt k (fst x)"
    using assms eqv_lt_trans by (fastforce simp: sorted_items_def sorted_wrt_append)
qed

lemma spec_found:
  assumes "sorted_items lt (xs @ y # ys)" "eqv lt k (fst y)"
  shows "spec_set lt k v (xs @ y # ys) = xs @ (k, v) # ys" "spec_find lt k (xs @ y # ys) = Some y"
    "spec_rank lt k (xs @ y # ys) = int (length xs)" "spec_delete lt k (xs @ y # ys) = xs @ ys"
proof -
  note xs = around_found(1) [OF assms] and ys = around_found(2) [OF assms]
  have y: "\<not> lt (fst y) k" "\<not> lt k (fst y)" using assms(2) by (auto simp: eqv_def)
  show "spec_set lt k v (xs @ y # ys) = xs @ (k, v) # ys"
    using spec_between(1) [OF xs ys, of v "[y]"] y by (simp add: spec_set_def)
  show "spec_find lt k (xs @ y # ys) = Some y"
    using spec_between(2) [OF xs ys, of "[y]"] assms(2) by (simp add: spec_find_def)
  show "spec_rank lt k (xs @ y # ys) = int (length xs)"
    using spec_between(3) [OF xs ys, of "[y]"] y by (simp add: spec_rank_def)
  show "spec_delete lt k (xs @ y # ys) = xs @ ys"
    using spec_between(4) [OF xs ys, of "[y]"] assms(2) by (simp add: spec_delete_def)
qed

text \<open>The sequence left and right of the child that can hold the key.\<close>

lemma sides:
  assumes "sorted_items lt (inorder (Node (xs @ ys) (as @ c # bs) sz cow))" "length as = length xs" "length bs = length ys"
    and "\<forall>x\<in>set xs. lt (fst x) k" "\<forall>y\<in>set ys. lt k (fst y)"
  shows "\<forall>x\<in>set (wl (map inorder as) xs). lt (fst x) k" "\<forall>x\<in>set (wr ys (map inorder bs)). lt k (fst x)"
    "sorted_items lt (inorder c)"
proof -
  have "sorted_items lt (wl (map inorder as) xs @ inorder c @ wr ys (map inorder bs))"
    using assms(1) inorder_split [OF assms(2,3)] by simp
  then have s: "sorted_items lt (wl (map inorder as) xs)" "sorted_items lt (inorder c)" "sorted_items lt (wr ys (map inorder bs))"
    by (simp_all add: sorted_items_def sorted_wrt_append)
  from wl_smaller [OF _ s(1) assms(4)] wr_greater [OF _ s(3) assms(5)] s(2) assms(2,3)
  show "\<forall>x\<in>set (wl (map inorder as) xs). lt (fst x) k" "\<forall>x\<in>set (wr ys (map inorder bs)). lt k (fst x)"
    "sorted_items lt (inorder c)" by auto
qed

lemma insert_descend:
  assumes "node_ok d (Suc h) (Node (xs @ ys) (as @ c # bs) sz cow)" "length as = length xs" "length bs = length ys"
    and "sorted_items lt (inorder (Node (xs @ ys) (as @ c # bs) sz cow))"
    and "\<forall>x\<in>set xs. lt (fst x) k" "\<forall>y\<in>set ys. lt k (fst y)"
    and "insert_post lt d h k v computeIndex (mutableFor cow c) (c', old, present, idx)"
  defines "n2 \<equiv> set_child (length xs) c' (Node (xs @ ys) (as @ c # bs) sz cow)"
  defines "n3 \<equiv> if \<not> present then add_size 1 n2 else n2"
  shows "insert_post lt d (Suc h) k v computeIndex (Node (xs @ ys) (as @ c # bs) sz cow)
           (n3, old, present, if computeIndex then idx + partialSize (length xs) n3 else idx)"
proof -
  note s = sides [OF assms(4,2,3,5,6)]
  have c: "node_ok d h c" "d - 1 \<le> length (n_items c)" using assms(1) by (simp_all add: node_ok_split [OF assms(2,3)])
  have p: "node_ok d h c'" "length (n_items c) \<le> length (n_items c')" "inorder c' = spec_set lt k v (inorder c)"
    "old = map_option snd (spec_find lt k (inorder c))" "present = (spec_find lt k (inorder c) \<noteq> None)"
    "computeIndex \<Longrightarrow> idx = spec_rank lt k (inorder c)"
    using assms(7) by (auto simp: insert_post_def)
  have size: "n_size c' = n_size c + (if present then 0 else 1)"
    using node_ok_size [OF c(1)] node_ok_size [OF p(1)] length_spec_set [OF s(3), of k v] p(3,5) by simp
  have n3: "n3 = Node (xs @ ys) (as @ c' # bs) (sz + (if present then 0 else 1)) cow"
    by (simp add: n3_def n2_def set_child_def add_size_def assms(2) [symmetric])
  have "\<forall>x\<in>set as. node_ok d h x" using assms(1) by (simp add: node_ok_split [OF assms(2,3)])
  from length_left [OF this assms(2)]
  have ps: "partialSize (length xs) n3 = int (length (wl (map inorder as) xs))"
    using assms(2) by (simp add: n3 partialSize_take)
  have ok: "node_ok d (Suc h) n3"
    using assms(1) p(1,2) c(2) size by (auto simp: n3 node_ok_split [OF assms(2,3)])
  show ?thesis
    using ok p spec_between [OF s(1,2)] ps
    by (simp add: insert_post_def n3 inorder_split [OF assms(2,3)])
qed

text \<open>A step of \<^verbatim>\<open>insert\<close> at an inner node: either the key is in this node (possibly after a split) or the child to
  descend to has room.\<close>

lemma found_here:
  assumes "node_ok d h (Node (xs @ y # ys) cs sz cow)" "sorted_items lt (inorder (Node (xs @ y # ys) cs sz cow))"
    and "eqv lt k (fst y)"
  shows "inorder (Node (xs @ (k, v) # ys) cs sz cow) = spec_set lt k v (inorder (Node (xs @ y # ys) cs sz cow))"
    and "spec_find lt k (inorder (Node (xs @ y # ys) cs sz cow)) = Some y"
    and "itemIndex (length xs) (Node (xs @ y # ys) cs sz cow) = spec_rank lt k (inorder (Node (xs @ y # ys) cs sz cow))"
proof -
  have "inorder (Node (xs @ (k, v) # ys) cs sz cow) = spec_set lt k v (inorder (Node (xs @ y # ys) cs sz cow))
    \<and> spec_find lt k (inorder (Node (xs @ y # ys) cs sz cow)) = Some y
    \<and> itemIndex (length xs) (Node (xs @ y # ys) cs sz cow) = spec_rank lt k (inorder (Node (xs @ y # ys) cs sz cow))"
  proof (cases h)
    case 0
    then have "cs = []" using assms(1) by simp
    then show ?thesis using assms spec_found [of xs y ys k] 0 by (auto simp: itemIndex_def)
  next
    case (Suc h')
    then have len: "length cs = Suc (Suc (length xs + length ys))" using assms(1) by simp
    define as c b bs where "as = take (length xs) cs" and "c = cs ! length xs" and "b = cs ! Suc (length xs)"
      and "bs = drop (Suc (Suc (length xs))) cs"
    have cs: "cs = as @ c # b # bs" "length as = length xs" "length bs = length ys"
      using len id_take_nth_drop [of "length xs" cs] Cons_nth_drop_Suc [of "Suc (length xs)" cs]
      by (auto simp: as_def c_def b_def bs_def)
    let ?l = "wl (map inorder as) xs @ inorder c" and ?r = "inorder b @ wr ys (map inorder bs)"
    have ord: "inorder (Node (xs @ z # ys) cs s cow) = ?l @ z # ?r" for z s
      using inorder_split [of as xs "b # bs" "z # ys" c s cow] cs by simp
    have ok: "\<forall>x\<in>set as. node_ok d h' x" "node_ok d h' c" using assms(1) by (auto simp: Suc cs)
    have "int (length ?l) = int (length xs) + sum_list (map n_size as) + n_size c"
      using length_left [OF ok(1) cs(2)] node_ok_size [OF ok(2)] by simp
    then have idx: "itemIndex (length xs) (Node (xs @ y # ys) cs sz cow) = int (length ?l)"
      using cs len by (simp add: itemIndex_def partialSize_take)
    have s: "sorted_items lt (?l @ y # ?r)" using assms(2) by (simp add: ord)
    show ?thesis using spec_found [OF s assms(3)] idx by (simp add: ord)
  qed
  then show "inorder (Node (xs @ (k, v) # ys) cs sz cow) = spec_set lt k v (inorder (Node (xs @ y # ys) cs sz cow))"
    "spec_find lt k (inorder (Node (xs @ y # ys) cs sz cow)) = Some y"
    "itemIndex (length xs) (Node (xs @ y # ys) cs sz cow) = spec_rank lt k (inorder (Node (xs @ y # ys) cs sz cow))"
    by simp_all
qed

lemma insert_here:
  assumes "node_ok d h (Node (xs @ y # ys) cs sz cow)" "sorted_items lt (inorder (Node (xs @ y # ys) cs sz cow))"
    and "eqv lt k (fst y)"
  shows "insert_post lt d h k v computeIndex (Node (xs @ y # ys) cs sz cow)
    (Node (xs @ (k, v) # ys) cs sz cow, Some (snd y), True,
     if computeIndex then itemIndex (length xs) (Node (xs @ y # ys) cs sz cow) else 0)"
proof -
  have "node_ok d h (Node (xs @ (k, v) # ys) cs sz cow)" using assms(1) by (cases h) auto
  then show ?thesis using found_here(1) [OF assms, of v] found_here(2,3) [OF assms] by (simp add: insert_post_def)
qed

lemma insert_post_after_split:
  "insert_post lt d h k v ci n1 r \<Longrightarrow> inorder n1 = inorder n \<Longrightarrow> n_cow n1 = n_cow n \<Longrightarrow>
   length (n_items n) \<le> length (n_items n1) \<Longrightarrow> insert_post lt d h k v ci n r"
  by (auto simp: insert_post_def)

lemma node_insert_child:
  assumes "insert_step (k, v) m lt ci n = Some (Inr (Node (xs @ ys) (as @ c # bs) sz cow, length xs))" "length as = length xs"
    and "node_insert (k, v) m lt ci (mutableFor cow c) = Some (c', old, present, idx)"
  shows "node_insert (k, v) m lt ci n =
    (let n2 = set_child (length xs) c' (Node (xs @ ys) (as @ c # bs) sz cow); n3 = if \<not> present then add_size 1 n2 else n2
     in Some (n3, old, present, if ci then idx + partialSize (length xs) n3 else idx))"
  using assms by (simp add: node_insert.simps [of "(k, v)" m lt ci n] mutableChild_def nth_append)

lemma insert_via_child:
  assumes "insert_step (k, v) m lt ci n = Some (Inr (Node (xs @ ys) (as @ c # bs) sz cow, length xs))"
    and "node_ok d (Suc h) (Node (xs @ ys) (as @ c # bs) sz cow)" "length as = length xs" "length bs = length ys"
    and "sorted_items lt (inorder (Node (xs @ ys) (as @ c # bs) sz cow))"
    and "\<forall>x\<in>set xs. lt (fst x) k" "\<forall>y\<in>set ys. lt k (fst y)"
    and "\<exists>r. node_insert (k, v) m lt ci (mutableFor cow c) = Some r \<and> insert_post lt d h k v ci (mutableFor cow c) r"
  shows "\<exists>r. node_insert (k, v) m lt ci n = Some r
           \<and> insert_post lt d (Suc h) k v ci (Node (xs @ ys) (as @ c # bs) sz cow) r"
proof -
  obtain c' old present idx where r: "node_insert (k, v) m lt ci (mutableFor cow c) = Some (c', old, present, idx)"
    "insert_post lt d h k v ci (mutableFor cow c) (c', old, present, idx)" using assms(8) by auto
  from node_insert_child [OF assms(1,3) r(1)] insert_descend [OF assms(2-7) r(2)]
  show ?thesis unfolding Let_def by blast
qed

lemma node_insert_ok:
  assumes "2 \<le> d" "node_ok d h n" "length (n_items n) < 2 * d - 1" "sorted_items lt (inorder n)"
  shows "\<exists>r. node_insert (k, v) (2 * d - 1) lt ci n = Some r \<and> insert_post lt d h k v ci n r"
  using assms
proof (induction h arbitrary: n)
  case (0 n)
  obtain its sz cow where n: "n = Node its [] sz cow" using 0 by (cases n) auto
  obtain i found where f: "items_find lt k its = (i, found)" by fastforce
  have s: "sorted_items lt its" using 0 by (simp add: n)
  note c = find_correct [OF s f]
  show ?case
  proof (cases found)
    case True
    then have "i < length its" using c(3) by simp
    then have "its = take i its @ its ! i # drop (Suc i) its" "length (take i its) = i" by (simp_all add: id_take_nth_drop)
    then obtain xs y zs where its: "its = xs @ y # zs" "length xs = i" by blast
    have "eqv lt k (fst y)" using c(4) [OF True] its by (simp add: nth_append)
    from insert_here [OF _ _ this, of d 0 xs zs "[]" sz cow v ci] 0 True f its
    show ?thesis by (cases ci) (simp_all add: n itemIndex_def node_insert.simps insert_step_def list_update_append nth_append)
  next
    case False
    have "\<forall>x\<in>set (take i its). lt (fst x) k" "\<forall>x\<in>set (drop i its). lt k (fst x)" using c(2) c(6) [OF False] by auto
    note sb = spec_between [OF this]
    have "spec_set lt k v its = take i its @ (k, v) # drop i its" "spec_find lt k its = None" "spec_rank lt k its = int i"
      using sb(1) [of v "[]"] sb(2) [of "[]"] sb(3) [of "[]"] c(1) by (auto simp: spec_set_def spec_find_def spec_rank_def)
    then show ?thesis
      using 0 False c(1) by (simp add: n node_insert.simps insert_step_def f insert_post_def items_insertAt_def)
  qed
next
  case (Suc h n)
  obtain i found where f: "items_find lt k (n_items n) = (i, found)" by fastforce
  have s: "sorted_items lt (n_items n)" using items_sorted Suc.prems by blast
  note c = find_correct [OF s f]
  obtain xs ys as b bs where dec: "n_items n = xs @ ys" "n_children n = as @ b # bs" "length xs = i" "length as = length xs"
    "length bs = length ys" "n_children n ! i = b"
    using node_ok_cases [OF Suc.prems(2) c(1)] by metis
  obtain sz cow where n: "n = Node (xs @ ys) (as @ b # bs) sz cow" using dec by (cases n) auto
  show ?case
  proof (cases found)
    case True
    then obtain y zs where ys: "ys = y # zs" using c(3) dec by (cases ys) auto
    have e: "eqv lt k (fst y)" using c(4) True dec ys by (simp add: nth_append)
    have "node_insert (k, v) (2 * d - 1) lt ci n =
        Some (Node (xs @ (k, v) # zs) (as @ b # bs) sz cow, Some (snd y), True, if ci then itemIndex (length xs) n else 0)"
      using f True dec(3) by (simp add: n ys node_insert.simps insert_step_def list_update_append nth_append)
    with insert_here [OF Suc.prems(2) [unfolded n ys] Suc.prems(4) [unfolded n ys] e, of v ci]
    show ?thesis unfolding n ys by blast
  next
    case False
    have xs: "\<forall>x\<in>set xs. lt (fst x) k" and ys: "\<forall>y\<in>set ys. lt k (fst y)"
      using c(2) c(6) [OF False] dec by auto
    have b: "node_ok d h b" using Suc.prems(2) by (simp add: n node_ok_split [OF dec(4,5)])
    show ?thesis
    proof (cases "length (n_items b) < 2 * d - 1")
      case True
      note step = maybeSplit_none [OF dec(4) True, of ys bs sz cow]
      have "sorted_items lt (inorder b)" using sides(3) [OF _ dec(4,5) xs ys] Suc.prems(4) n by blast
      then have "\<exists>r. node_insert (k, v) (2 * d - 1) lt ci (mutableFor cow b) = Some r
          \<and> insert_post lt d h k v ci (mutableFor cow b) r"
        using Suc.IH [of "mutableFor cow b"] Suc.prems(1) b True by auto
      moreover have "insert_step (k, v) (2 * d - 1) lt ci n = Some (Inr (Node (xs @ ys) (as @ b # bs) sz cow, length xs))"
        using f False step dec by (simp add: insert_step_def n)
      ultimately show ?thesis
        using insert_via_child [OF _ Suc.prems(2) [unfolded n] dec(4,5) Suc.prems(4) [unfolded n] xs ys] n by blast
    next
      case full: False
      then have full: "length (n_items b) = 2 * d - 1" using b by (cases b; cases h) auto
      have room0: "length (xs @ ys) < 2 * d - 1" using Suc.prems(3) by (simp add: n)
      obtain first it second where sp:
        "maybeSplitChild (length xs) (2 * d - 1) n = Some (Node (xs @ it # ys) (as @ first # second # bs) sz cow, True)"
        "node_ok d (Suc h) (Node (xs @ it # ys) (as @ first # second # bs) sz cow)"
        "length (n_items first) = d - 1" "length (n_items second) = d - 1"
        "inorder b = inorder first @ it # inorder second"
        unfolding n by (rule maybeSplit_ok [OF Suc.prems(2) [unfolded n] dec(4,5) room0 Suc.prems(1) full])
      let ?n1 = "Node (xs @ it # ys) (as @ first # second # bs) sz cow"
      have ord: "inorder ?n1 = inorder n"
        using inorder_split [of as xs "second # bs" "it # ys" first sz cow] inorder_split [OF dec(4,5), of b sz cow] dec(4,5) sp(5)
        by (simp add: n)
      then have s1: "sorted_items lt (inorder ?n1)" using Suc.prems(4) by simp
      have post: "insert_post lt d (Suc h) k v ci n r" if "insert_post lt d (Suc h) k v ci ?n1 r" for r
        using insert_post_after_split [OF that ord] by (simp add: n)
      have room: "length (n_items first) < 2 * d - 1" "length (n_items second) < 2 * d - 1" using sp(3,4) Suc.prems(1) by auto
      have step: "insert_step (k, v) (2 * d - 1) lt ci n =
        (if lt k (fst it) then Some (Inr (?n1, length xs))
         else if lt (fst it) k then Some (Inr (?n1, Suc (length xs)))
         else Some (Inl (Node (xs @ (k, v) # ys) (as @ first # second # bs) sz cow, Some (snd it), True,
                         if ci then itemIndex (length xs) ?n1 else 0)))"
        using f False sp(1) dec(3) by (simp add: insert_step_def n Let_def list_update_append nth_append)
      consider (left) "lt k (fst it)" | (right) "\<not> lt k (fst it)" "lt (fst it) k" | (here) "\<not> lt k (fst it)" "\<not> lt (fst it) k"
        by blast
      then show ?thesis
      proof cases
        case left
        have len: "length (second # bs) = length (it # ys)" using dec(5) by simp
        have ys': "\<forall>y\<in>set (it # ys). lt k (fst y)" using left ys by simp
        have "\<exists>r. node_insert (k, v) (2 * d - 1) lt ci (mutableFor cow first) = Some r
            \<and> insert_post lt d h k v ci (mutableFor cow first) r"
          using Suc.IH [of "mutableFor cow first"] Suc.prems(1) sp(2) room(1) sides(3) [OF s1 dec(4) len xs ys']
          by (auto simp: node_ok_split [OF dec(4) len])
        moreover have "insert_step (k, v) (2 * d - 1) lt ci n = Some (Inr (?n1, length xs))" using step left by simp
        ultimately show ?thesis
          using insert_via_child [OF _ sp(2) dec(4) len s1 xs ys'] post by blast
      next
        case right
        have len: "length (as @ [first]) = length (xs @ [it])" using dec(4) by simp
        have xs': "\<forall>x\<in>set (xs @ [it]). lt (fst x) k" using right xs by simp
        have n1: "?n1 = Node ((xs @ [it]) @ ys) ((as @ [first]) @ second # bs) sz cow" by simp
        have "\<exists>r. node_insert (k, v) (2 * d - 1) lt ci (mutableFor cow second) = Some r
            \<and> insert_post lt d h k v ci (mutableFor cow second) r"
          using Suc.IH [of "mutableFor cow second"] Suc.prems(1) sp(2) [unfolded n1] room(2)
            sides(3) [OF s1 [unfolded n1] len dec(5) xs' ys]
          by (auto simp: node_ok_split [OF len dec(5)] simp del: append_assoc)
        moreover have "insert_step (k, v) (2 * d - 1) lt ci n
            = Some (Inr (Node ((xs @ [it]) @ ys) ((as @ [first]) @ second # bs) sz cow, length (xs @ [it])))"
          using step right by simp
        ultimately show ?thesis
          using insert_via_child [OF _ sp(2) [unfolded n1] len dec(5) s1 [unfolded n1] xs' ys] post [unfolded n1] by blast
      next
        case here
        then have "eqv lt k (fst it)" by (simp add: eqv_def)
        from post [OF insert_here [OF sp(2) s1 this, of v ci]] step here show ?thesis
          by (simp add: node_insert.simps)
      qed
    qed
  qed
qed

end

section \<open>Insertion into a tree\<close>

text \<open>A tree of degree \<open>d\<close> at least 2, whose root has an item if it has children.\<close>

definition tree_ok :: "('k, 'v) BTree \<Rightarrow> bool" where
  "tree_ok t \<longleftrightarrow> 2 \<le> bt_degree t \<and>
     (case bt_root t of
        None \<Rightarrow> True
      | Some r \<Rightarrow> (\<exists>h. node_ok (bt_degree t) h r \<and> (n_children r \<noteq> [] \<longrightarrow> n_items r \<noteq> []))
                  \<and> sorted_items (bt_less t) (inorder r))"

definition elems :: "('k, 'v) BTree \<Rightarrow> ('k, 'v) item list" where
  "elems t = (case bt_root t of None \<Rightarrow> [] | Some r \<Rightarrow> inorder r)"

lemma tree_ok_New: "New cow degree lt = Some t \<Longrightarrow> tree_ok t \<and> elems t = []"
  by (auto simp: New_def tree_ok_def elems_def split: if_splits)

lemma tree_ok_Len: "tree_ok t \<Longrightarrow> BTree_Len t = int (length (elems t))"
  by (auto simp: tree_ok_def BTree_Len_def elems_def node_ok_size split: option.splits)

context strict_weak_order
begin

lemma split_root_ok:
  assumes "node_ok d h r" "2 \<le> d" "sorted_items lt (inorder r)" "n_children r \<noteq> [] \<longrightarrow> n_items r \<noteq> []"
  obtains h' r' where "split_root cow (2 * d - 1) r = Some r'" "node_ok d h' r'" "length (n_items r') < 2 * d - 1"
    "inorder r' = inorder r" "n_children r' \<noteq> [] \<longrightarrow> n_items r' \<noteq> []"
proof (cases "2 * d - 1 \<le> length (n_items r)")
  case True
  then have full: "length (n_items r) = 2 * d - 1" using assms(1) by (cases r; cases h) auto
  obtain first it second where s: "node_split ((2 * d - 1) div 2) r = Some (first, it, second)"
    "node_ok d h first" "node_ok d h second" "length (n_items first) = d - 1" "length (n_items second) = d - 1"
    "inorder r = inorder first @ it # inorder second"
    by (rule node_split_ok [OF assms(1) full assms(2)])
  have "n_size r = 1 + n_size first + n_size second"
    using node_ok_size [OF assms(1)] node_ok_size [OF s(2)] node_ok_size [OF s(3)] s(6) by simp
  then show thesis
    using True s assms(2) by (intro that [of "Node [it] [first, second] (n_size r) cow" "Suc h"]) (auto simp: split_root_def inorder.simps)
next
  case False
  then show thesis using assms by (intro that [of r h]) (auto simp: split_root_def)
qed

lemma BTree_set_ok:
  assumes "tree_ok t" "bt_less t = lt"
  obtains t' old present idx where "BTree_set k v ci t = Some (t', old, present, idx)" "tree_ok t'"
    "elems t' = spec_set lt k v (elems t)" "old = map_option snd (spec_find lt k (elems t))"
    "present = (spec_find lt k (elems t) \<noteq> None)" "ci \<longrightarrow> idx = spec_rank lt k (elems t)"
    "bt_less t' = lt" "bt_degree t' = bt_degree t" "bt_cow t' = bt_cow t"
proof (cases "bt_root t")
  case None
  show thesis
    by (rule that [of "t\<lparr>bt_root := Some (Node [(k, v)] [] 1 (bt_cow t))\<rparr>" None False 0])
       (use assms None in \<open>auto simp: BTree_set_def tree_ok_def elems_def spec_set_def spec_find_def spec_rank_def sorted_items_def
          intro!: exI [of _ 0]\<close>)
next
  case (Some r)
  let ?d = "bt_degree t" and ?r = "mutableFor (bt_cow t) r"
  obtain h where r: "node_ok ?d h r" "2 \<le> ?d" "sorted_items lt (inorder r)" "n_children r \<noteq> [] \<longrightarrow> n_items r \<noteq> []"
    using assms Some by (auto simp: tree_ok_def)
  have max: "maxItems t = 2 * ?d - 1" by (simp add: maxItems_def mult.commute)
  obtain h' r' where s: "split_root (bt_cow t) (2 * ?d - 1) ?r = Some r'" "node_ok ?d h' r'" "length (n_items r') < 2 * ?d - 1"
    "inorder r' = inorder ?r" "n_children r' \<noteq> [] \<longrightarrow> n_items r' \<noteq> []"
    by (rule split_root_ok [of ?d h ?r "bt_cow t"]) (use r in simp_all)
  have sorted: "sorted_items lt (inorder r')" using s(4) r(3) by simp
  obtain n' old present idx where i: "node_insert (k, v) (2 * ?d - 1) lt ci r' = Some (n', old, present, idx)"
    "insert_post lt ?d h' k v ci r' (n', old, present, idx)"
    using node_insert_ok [OF r(2) s(2,3) sorted, of k v ci] by auto
  then have p: "node_ok ?d h' n'" "length (n_items r') \<le> length (n_items n')" "inorder n' = spec_set lt k v (inorder r)"
    "old = map_option snd (spec_find lt k (inorder r))" "present = (spec_find lt k (inorder r) \<noteq> None)"
    "ci \<longrightarrow> idx = spec_rank lt k (inorder r)"
    using s(4) by (auto simp: insert_post_def)
  have "n_items n' \<noteq> []" if inner: "n_children n' \<noteq> []"
  proof -
    obtain h'' where h: "h' = Suc h''" using p(1) inner by (cases n'; cases h') auto
    then have "n_children r' \<noteq> []" using s(2) by (cases r') auto
    with s(5) p(2) show ?thesis by auto
  qed
  then have "tree_ok (t\<lparr>bt_root := Some n'\<rparr>)"
    using p(1,3) r(2,3) assms(2) sorted_spec_set by (auto simp: tree_ok_def)
  then show thesis
    using i(1) s(1) p Some assms(2)
    by (intro that [of "t\<lparr>bt_root := Some n'\<rparr>" old present idx]) (auto simp: BTree_set_def max elems_def)
qed

end

end
