(* ===== verification/Btree_Delete.thy ===== *)
theory Btree_Delete
  imports Btree_Insert
begin

text \<open>
  Removal from a B-tree is removal from its sequence, and it returns: stealing from a sibling and merging keep the
  sequence and leave the child that the removal goes into with an item to spare, so the second call of
  \<^verbatim>\<open>remove\<close> on the same node descends.
\<close>

section \<open>Moving children between siblings\<close>

text \<open>Items and children of a node of height \<open>h\<close>, without the bound on the items and the size.\<close>

definition body_ok :: "nat \<Rightarrow> nat \<Rightarrow> ('k, 'v) item list \<Rightarrow> ('k, 'v) node list \<Rightarrow> bool" where
  "body_ok d h its cs \<longleftrightarrow>
     (case h of
        0 \<Rightarrow> cs = []
      | Suc h' \<Rightarrow> length cs = Suc (length its) \<and> (\<forall>c\<in>set cs. node_ok d h' c \<and> d - 1 \<le> length (n_items c)))"

lemma node_ok_body:
  "node_ok d h (Node its cs sz cow) \<longleftrightarrow>
     body_ok d h its cs \<and> length its \<le> 2 * d - 1 \<and> sz = int (length its) + sum_list (map n_size cs)"
  by (cases h) (auto simp: body_ok_def)

lemma weave_append:
  "length cs = Suc (length is) \<Longrightarrow> ds \<noteq> [] \<Longrightarrow> weave (cs @ ds) (is @ m # js) = weave cs is @ m # weave ds js"
proof (induction "is" arbitrary: cs)
  case Nil
  then show ?case by (cases cs) auto
next
  case (Cons i "is")
  then show ?case by (cases cs) auto
qed

lemma body_ok_join:
  assumes "body_ok d h is cs" "body_ok d h js ds"
  shows "body_ok d h (is @ m # js) (cs @ ds)"
    and "inorder (Node (is @ m # js) (cs @ ds) s w) = inorder (Node is cs s1 w1) @ m # inorder (Node js ds s2 w2)"
proof -
  show "body_ok d h (is @ m # js) (cs @ ds)" using assms by (cases h) (auto simp: body_ok_def)
  have "ds \<noteq> []" if "h \<noteq> 0" using assms(2) that by (cases h) (auto simp: body_ok_def)
  then show "inorder (Node (is @ m # js) (cs @ ds) s w) = inorder (Node is cs s1 w1) @ m # inorder (Node js ds s2 w2)"
    using assms weave_append [of "map inorder cs" "is" "map inorder ds" m js]
    by (cases h) (auto simp: body_ok_def inorder.simps)
qed

text \<open>The end of a node that a sibling takes: its last item and, unless it is a leaf, its last child.\<close>

lemma body_ok_last:
  assumes "body_ok d h (is @ [m]) cs"
  obtains cs' e where "body_ok d h is cs'" "cs = cs' @ e" "h = 0 \<and> e = [] \<or> (\<exists>c. e = [c] \<and> cs \<noteq> [])"
    "\<And>x js ds. body_ok d h js ds \<Longrightarrow> body_ok d h (x # js) (e @ ds)"
    "\<And>x js ds s s' s1 s2 w w' w1 w2. body_ok d h js ds \<Longrightarrow>
       inorder (Node (is @ [m]) cs s w) @ x # inorder (Node js ds s' w')
       = inorder (Node is cs' s1 w1) @ m # inorder (Node (x # js) (e @ ds) s2 w2)"
proof (cases h)
  case 0
  then show thesis using assms that [of "[]" "[]"] by (auto simp: body_ok_def)
next
  case (Suc h')
  then obtain cs' c where cs: "cs = cs' @ [c]" using assms by (cases cs rule: rev_cases) (auto simp: body_ok_def)
  have ok: "body_ok d h is cs'" "node_ok d h' c" "d - 1 \<le> length (n_items c)" using assms Suc cs by (auto simp: body_ok_def)
  show thesis
  proof (rule that [of cs' "[c]"])
    fix x s s' s1 s2 w w' w1 w2 and js :: "('a, 'b) item list" and ds
    assume js: "body_ok d h js ds"
    then have "ds \<noteq> []" using Suc by (auto simp: body_ok_def)
    then show "inorder (Node (is @ [m]) cs s w) @ x # inorder (Node js ds s' w')
       = inorder (Node is cs' s1 w1) @ m # inorder (Node (x # js) ([c] @ ds) s2 w2)"
      using ok Suc weave_append [of "map inorder cs'" "is" "[inorder c]" m "[]"] by (simp add: inorder.simps cs body_ok_def)
  qed (use ok Suc cs in \<open>auto simp: body_ok_def\<close>)
qed

lemma body_ok_first:
  assumes "body_ok d h (m # is) cs"
  obtains cs' e where "body_ok d h is cs'" "cs = e @ cs'" "h = 0 \<and> e = [] \<or> (\<exists>c. e = [c] \<and> cs \<noteq> [])"
    "\<And>x js ds. body_ok d h js ds \<Longrightarrow> body_ok d h (js @ [x]) (ds @ e)"
    "\<And>x js ds s s' s1 s2 w w' w1 w2. body_ok d h js ds \<Longrightarrow>
       inorder (Node js ds s w) @ x # inorder (Node (m # is) cs s' w')
       = inorder (Node (js @ [x]) (ds @ e) s1 w1) @ m # inorder (Node is cs' s2 w2)"
proof (cases h)
  case 0
  then show thesis using assms that [of "[]" "[]"] by (auto simp: body_ok_def)
next
  case (Suc h')
  then obtain c cs' where cs: "cs = c # cs'" using assms by (cases cs) (auto simp: body_ok_def)
  have ok: "body_ok d h is cs'" "node_ok d h' c" "d - 1 \<le> length (n_items c)" using assms Suc cs by (auto simp: body_ok_def)
  show thesis
  proof (rule that [of cs' "[c]"])
    fix x s s' s1 s2 w w' w1 w2 and js :: "('a, 'b) item list" and ds
    assume js: "body_ok d h js ds"
    then show "inorder (Node js ds s w) @ x # inorder (Node (m # is) cs s' w')
       = inorder (Node (js @ [x]) (ds @ [c]) s1 w1) @ m # inorder (Node is cs' s2 w2)"
      using ok Suc weave_append [of "map inorder ds" js "[inorder c]" x "[]"] by (simp add: inorder.simps cs body_ok_def)
  qed (use ok Suc cs in \<open>auto simp: body_ok_def\<close>)
qed

lemma nonempty_inorder: "node_ok d h c \<Longrightarrow> n_items c \<noteq> [] \<Longrightarrow> inorder c \<noteq> []"
proof (cases h)
  case (Suc h')
  assume "node_ok d h c" "n_items c \<noteq> []"
  then obtain x xs b bs sz w where "c = Node (x # xs) (b # bs) sz w" "length bs = Suc (length xs)"
    unfolding Suc by (cases c; cases "n_items c"; cases "n_children c") auto
  then show ?thesis by (simp add: inorder.simps)
qed (cases c, simp)

section \<open>Growing a child\<close>

lemma pair_index:
  assumes "length as = i"
  shows "(as @ u # v # bs) ! i = u" "(as @ u # v # bs) ! Suc i = v"
    "(as @ u # v # bs)[i := u', Suc i := v'] = as @ u' # v' # bs" "(as @ u # v # bs)[Suc i := v', i := u'] = as @ u' # v' # bs"
    "(as @ u # v # bs)[i := u'] = as @ u' # v # bs" "(as @ u # v # bs)[Suc i := v'] = as @ u # v' # bs"
    "(as @ u # bs)[i := u'] = as @ u' # bs" "(as @ u # bs) ! i = u"
  using assms by (auto simp: nth_append list_update_append)

text \<open>Two neighbouring children and the item between them may be rearranged.\<close>

lemma replace_pair:
  assumes "node_ok d (Suc h) (Node (xs @ x # ys) (as @ l # c # bs) sz cow)" "length as = length xs" "length bs = length ys"
    and "node_ok d h l'" "d - 1 \<le> length (n_items l')" "node_ok d h c'" "d - 1 \<le> length (n_items c')"
    and "inorder l @ x # inorder c = inorder l' @ m # inorder c'"
  shows "node_ok d (Suc h) (Node (xs @ m # ys) (as @ l' # c' # bs) sz cow)"
    and "inorder (Node (xs @ m # ys) (as @ l' # c' # bs) sz cow) = inorder (Node (xs @ x # ys) (as @ l # c # bs) sz cow)"
proof -
  have lc: "node_ok d h l" "node_ok d h c" using assms(1) by auto
  have "length (inorder l) + length (inorder c) = length (inorder l') + length (inorder c')"
    using arg_cong [OF assms(8), of length] by simp
  then have "n_size l + n_size c = n_size l' + n_size c'"
    using lc assms(4,6) by (simp add: node_ok_size)
  then show "node_ok d (Suc h) (Node (xs @ m # ys) (as @ l' # c' # bs) sz cow)"
    using assms by auto
  have ord: "inorder (Node (xs @ z # ys) (as @ u # v # bs) sz cow)
      = wl (map inorder as) xs @ (inorder u @ z # inorder v) @ wr ys (map inorder bs)" for z u v
    using inorder_split [of as xs "v # bs" "z # ys" u sz cow] assms(2,3) by simp
  show "inorder (Node (xs @ m # ys) (as @ l' # c' # bs) sz cow) = inorder (Node (xs @ x # ys) (as @ l # c # bs) sz cow)"
    unfolding ord assms(8) ..
qed

lemma steal_left_ok:
  assumes "node_ok d (Suc h) (Node (xs @ x # ys) (as @ l # c # bs) sz cow)" "length as = length xs"
    and "d \<le> length (n_items l)" "length (n_items c) \<le> d - 1" "2 \<le> d"
  obtains m l' c' where
    "steal_left (Suc (length xs)) (Node (xs @ x # ys) (as @ l # c # bs) sz cow)
       = Some (Node (xs @ m # ys) (as @ l' # c' # bs) sz cow)"
    "node_ok d h l'" "d - 1 \<le> length (n_items l')" "node_ok d h c'" "length (n_items c') = Suc (length (n_items c))"
    "inorder l @ x # inorder c = inorder l' @ m # inorder c'" "m \<in> set (inorder l)"
proof -
  obtain li lcs ls lw where l: "l = Node li lcs ls lw" by (cases l)
  obtain ci ccs cz cw where c: "c = Node ci ccs cz cw" by (cases c)
  have "li \<noteq> []" using assms(3,5) by (auto simp: l)
  then obtain li' m where li: "li = li' @ [m]" by (cases li rule: rev_cases) auto
  have lok: "body_ok d h (li' @ [m]) lcs" "length li \<le> 2 * d - 1" "ls = int (length li) + sum_list (map n_size lcs)"
    using assms(1) by (auto simp: l li node_ok_body [of d h])
  have cok: "body_ok d h ci ccs" "cz = int (length ci) + sum_list (map n_size ccs)" "length ci \<le> d - 1"
    using assms(1,4) by (auto simp: c node_ok_body [of d h])
  obtain lcs' e where e: "body_ok d h li' lcs'" "lcs = lcs' @ e" "h = 0 \<and> e = [] \<or> (\<exists>c. e = [c] \<and> lcs \<noteq> [])"
    "\<And>x js ds. body_ok d h js ds \<Longrightarrow> body_ok d h (x # js) (e @ ds)"
    "\<And>x js ds s s' s1 s2 w w' w1 w2. body_ok d h js ds \<Longrightarrow>
       inorder (Node (li' @ [m]) lcs s w) @ x # inorder (Node js ds s' w')
       = inorder (Node li' lcs' s1 w1) @ m # inorder (Node (x # js) (e @ ds) s2 w2)"
    by (rule body_ok_last [OF lok(1)]) blast
  let ?l = "Node li' lcs' (ls - 1 - sum_list (map n_size e)) cow"
  let ?c = "Node (x # ci) (e @ ccs) (cz + 1 + sum_list (map n_size e)) cow"
  have "lcs' = []" if "h = 0" using e(1) that by (simp add: body_ok_def)
  then have "steal_left (Suc (length xs)) (Node (xs @ x # ys) (as @ l # c # bs) sz cow)
       = Some (Node (xs @ m # ys) (as @ ?l # ?c # bs) sz cow)"
    using e(2,3) assms(2)
    by (auto simp: steal_left_def mutableChild_def set_child_def pair_index [OF assms(2)] l c li items_pop_def children_pop_def
        items_insertAt_def children_insertAt_def nth_append Let_def)
  moreover have "node_ok d h ?l" using e(1,2) lok(2,3) by (simp add: node_ok_body li)
  moreover have "node_ok d h ?c" using e(4) [OF cok(1)] cok(2,3) assms(5) by (simp add: node_ok_body)
  moreover have "inorder l @ x # inorder c = inorder ?l @ m # inorder ?c"
    unfolding l c li by (rule e(5) [OF cok(1)])
  moreover have "m \<in> set (inorder l)"
  proof (cases h)
    case (Suc h')
    then have "lcs \<noteq> []" using lok(1) by (auto simp: body_ok_def)
    with e(3) Suc obtain b where b: "e = [b]" by auto
    have "inorder l = inorder (Node li' lcs' 0 0) @ m # inorder b"
      using weave_append [of "map inorder lcs'" li' "[inorder b]" m "[]"] e(1) Suc
      by (simp add: l li e(2) b inorder.simps body_ok_def)
    then show ?thesis by simp
  qed (use lok(1) in \<open>simp add: l li body_ok_def\<close>)
  ultimately show thesis
    using that [of m ?l ?c] assms(3) by (simp add: l c li)
qed

lemma steal_right_ok:
  assumes "node_ok d (Suc h) (Node (xs @ x # ys) (as @ c # r # bs) sz cow)" "length as = length xs"
    and "d \<le> length (n_items r)" "length (n_items c) \<le> d - 1" "2 \<le> d"
  obtains m c' r' where
    "steal_right (length xs) (Node (xs @ x # ys) (as @ c # r # bs) sz cow)
       = Some (Node (xs @ m # ys) (as @ c' # r' # bs) sz cow)"
    "node_ok d h r'" "d - 1 \<le> length (n_items r')" "node_ok d h c'" "length (n_items c') = Suc (length (n_items c))"
    "inorder c @ x # inorder r = inorder c' @ m # inorder r'" "m \<in> set (inorder r)"
proof -
  obtain ri rcs rz rw where r: "r = Node ri rcs rz rw" by (cases r)
  obtain ci ccs cz cw where c: "c = Node ci ccs cz cw" by (cases c)
  have "ri \<noteq> []" using assms(3,5) by (auto simp: r)
  then obtain m ri' where ri: "ri = m # ri'" by (cases ri) auto
  have rok: "body_ok d h (m # ri') rcs" "length ri \<le> 2 * d - 1" "rz = int (length ri) + sum_list (map n_size rcs)"
    using assms(1) by (auto simp: r ri node_ok_body [of d h])
  have cok: "body_ok d h ci ccs" "cz = int (length ci) + sum_list (map n_size ccs)" "length ci \<le> d - 1"
    using assms(1,4) by (auto simp: c node_ok_body [of d h])
  obtain rcs' e where e: "body_ok d h ri' rcs'" "rcs = e @ rcs'" "h = 0 \<and> e = [] \<or> (\<exists>c. e = [c] \<and> rcs \<noteq> [])"
    "\<And>x js ds. body_ok d h js ds \<Longrightarrow> body_ok d h (js @ [x]) (ds @ e)"
    "\<And>x js ds s s' s1 s2 w w' w1 w2. body_ok d h js ds \<Longrightarrow>
       inorder (Node js ds s w) @ x # inorder (Node (m # ri') rcs s' w')
       = inorder (Node (js @ [x]) (ds @ e) s1 w1) @ m # inorder (Node ri' rcs' s2 w2)"
    by (rule body_ok_first [OF rok(1)]) blast
  let ?r = "Node ri' rcs' (rz - 1 - sum_list (map n_size e)) cow"
  let ?c = "Node (ci @ [x]) (ccs @ e) (cz + 1 + sum_list (map n_size e)) cow"
  have "rcs' = []" if "h = 0" using e(1) that by (simp add: body_ok_def)
  then have "steal_right (length xs) (Node (xs @ x # ys) (as @ c # r # bs) sz cow)
       = Some (Node (xs @ m # ys) (as @ ?c # ?r # bs) sz cow)"
    using e(2,3) assms(2)
    by (auto simp: steal_right_def mutableChild_def set_child_def pair_index [OF assms(2)] r c ri items_removeAt_def children_removeAt_def
        nth_append Let_def)
  moreover have "node_ok d h ?r" using e(1,2) rok(2,3) by (simp add: node_ok_body ri)
  moreover have "node_ok d h ?c" using e(4) [OF cok(1)] cok(2,3) assms(5) by (simp add: node_ok_body)
  moreover have "inorder c @ x # inorder r = inorder ?c @ m # inorder ?r"
    unfolding r c ri by (rule e(5) [OF cok(1)])
  moreover have "m \<in> set (inorder r)"
  proof (cases h)
    case (Suc h')
    then have "rcs \<noteq> []" using rok(1) by (auto simp: body_ok_def)
    with e(3) Suc obtain b where "e = [b]" by auto
    then show ?thesis by (simp add: r ri e(2) inorder.simps)
  qed (use rok(1) in \<open>simp add: r ri body_ok_def\<close>)
  ultimately show thesis
    using that [of m ?c ?r] assms(3) by (simp add: r c ri)
qed

lemma merge_ok:
  assumes "node_ok d (Suc h) (Node (xs @ x # ys) (as @ c # r # bs) sz cow)" "length as = length xs" "length bs = length ys"
    and "length (n_items c) \<le> d - 1" "length (n_items r) \<le> d - 1" "2 \<le> d"
  obtains c' where "merge_child (length xs) (Node (xs @ x # ys) (as @ c # r # bs) sz cow) = Some (Node (xs @ ys) (as @ c' # bs) sz cow)"
    "node_ok d (Suc h) (Node (xs @ ys) (as @ c' # bs) sz cow)" "d \<le> length (n_items c')"
    "inorder (Node (xs @ ys) (as @ c' # bs) sz cow) = inorder (Node (xs @ x # ys) (as @ c # r # bs) sz cow)"
proof -
  obtain ri rcs rz rw where r: "r = Node ri rcs rz rw" by (cases r)
  obtain ci ccs cz cw where c: "c = Node ci ccs cz cw" by (cases c)
  have rok: "body_ok d h ri rcs" "rz = int (length ri) + sum_list (map n_size rcs)" "length ri = d - 1"
    using assms(1,5) by (auto simp: r node_ok_body [of d h])
  have cok: "body_ok d h ci ccs" "cz = int (length ci) + sum_list (map n_size ccs)" "length ci = d - 1"
    using assms(1,4) by (auto simp: c node_ok_body [of d h])
  let ?c = "Node (ci @ x # ri) (ccs @ rcs) (int (length ci + Suc (length ri)) + sum_list (map n_size (ccs @ rcs))) cow"
  have nth: "(as @ c # r # bs) ! length xs = c" using assms(2) by (simp add: nth_append)
  have "merge_child (length xs) (Node (xs @ x # ys) (as @ c # r # bs) sz cow) = Some (Node (xs @ ys) (as @ ?c # bs) sz cow)"
    using assms(2)
    by (simp add: merge_child_def mutableChild_def nth items_removeAt_def children_removeAt_def c r computeSize_eq Let_def
        list_update_append nth_append)
  moreover have ok: "node_ok d h ?c" using body_ok_join(1) [OF cok(1) rok(1)] cok(3) rok(3) assms(6) by (simp add: node_ok_body)
  moreover have len: "d \<le> length (n_items ?c)" using cok(3) rok(3) assms(6) by simp
  moreover have ord: "inorder ?c = inorder c @ x # inorder r"
    unfolding c r by (rule body_ok_join(2) [OF cok(1) rok(1)])
  moreover have "node_ok d (Suc h) (Node (xs @ ys) (as @ ?c # bs) sz cow)"
    using assms(1-3) ok len cok(2) rok(2) by (auto simp: r c)
  moreover have "inorder (Node (xs @ ys) (as @ ?c # bs) sz cow) = inorder (Node (xs @ x # ys) (as @ c # r # bs) sz cow)"
    using inorder_split [of as xs bs ys ?c sz cow] inorder_split [of as xs "r # bs" "x # ys" c sz cow] assms(2,3) ord by simp
  ultimately show thesis using that [of ?c] by blast
qed

section \<open>What a removal does\<close>

text \<open>The item removed and the sequence that is left.\<close>

definition remove_spec ::
  "('k \<Rightarrow> 'k \<Rightarrow> bool) \<Rightarrow> toRemove \<Rightarrow> 'k option \<Rightarrow> ('k, 'v) item list \<Rightarrow> ('k, 'v) item option \<times> ('k, 'v) item list" where
  "remove_spec lt typ key xs =
     (case typ of
        removeMax \<Rightarrow> (Some (last xs), butlast xs)
      | removeMin \<Rightarrow> (Some (hd xs), tl xs)
      | removeItem \<Rightarrow> (spec_find lt (the key) xs, spec_delete lt (the key) xs))"

text \<open>Where \<^verbatim>\<open>remove\<close> goes in a node with items \<open>xs @ ys\<close>: the child between \<open>xs\<close> and \<open>ys\<close>, and whether the item is the
  first of \<open>ys\<close>.\<close>

definition target ::
  "('k \<Rightarrow> 'k \<Rightarrow> bool) \<Rightarrow> toRemove \<Rightarrow> 'k option \<Rightarrow> ('k, 'v) item list \<Rightarrow> ('k, 'v) item list \<Rightarrow> bool \<Rightarrow> bool" where
  "target lt typ key xs ys found \<longleftrightarrow>
     (case typ of
        removeMax \<Rightarrow> ys = [] \<and> \<not> found
      | removeMin \<Rightarrow> xs = [] \<and> \<not> found
      | removeItem \<Rightarrow>
          key \<noteq> None \<and> (\<forall>x\<in>set xs. lt (fst x) (the key))
        \<and> (if found then ys \<noteq> [] \<and> eqv lt (the key) (fst (hd ys)) else (\<forall>y\<in>set ys. lt (the key) (fst y))))"

definition remove_post ::
  "('k \<Rightarrow> 'k \<Rightarrow> bool) \<Rightarrow> nat \<Rightarrow> nat \<Rightarrow> toRemove \<Rightarrow> 'k option \<Rightarrow> ('k, 'v) node \<Rightarrow> ('k, 'v) removeResult \<Rightarrow> bool" where
  "remove_post lt d h typ key n r \<longleftrightarrow>
     (case r of (n', out, removed) \<Rightarrow>
        node_ok d h n' \<and> length (n_items n) - 1 \<le> length (n_items n') \<and> n_cow n' = n_cow n
      \<and> remove_spec lt typ key (inorder n) = (out, inorder n') \<and> removed = (out \<noteq> None))"

context strict_weak_order
begin

lemma length_spec_delete:
  assumes "sorted_items lt xs"
  shows "length xs = length (spec_delete lt k xs) + (if spec_find lt k xs = None then 0 else 1)"
proof (cases "spec_find lt k xs")
  case None
  then have "spec_delete lt k xs = xs" by (auto simp: spec_find_def spec_delete_def find_None_iff filter_id_conv)
  with None show ?thesis by simp
next
  case (Some y)
  then obtain i where "i < length xs" "eqv lt k (fst (xs ! i))" by (auto simp: spec_find_def find_Some_iff)
  then obtain us z vs where xs: "xs = us @ z # vs" "eqv lt k (fst z)" by (metis id_take_nth_drop)
  from spec_found [OF assms [unfolded xs(1)] xs(2)] show ?thesis by (simp add: xs(1))
qed

lemma length_remove_spec:
  assumes "sorted_items lt xs" "xs \<noteq> []"
  shows "length xs = length (snd (remove_spec lt typ key xs)) + (if fst (remove_spec lt typ key xs) = None then 0 else 1)"
proof (cases "typ")
  case removeItem
  then show ?thesis using length_spec_delete [OF assms(1), of "the key"] by (simp add: remove_spec_def)
qed (use assms(2) in \<open>simp_all add: remove_spec_def\<close>)

lemma sorted_remove_spec: "sorted_items lt xs \<Longrightarrow> sorted_items lt (snd (remove_spec lt typ key xs))"
  by (cases "typ")
     (auto simp: remove_spec_def sorted_spec_delete, auto simp: sorted_items_def butlast_conv_take tl_def
       sorted_wrt_take split: list.split)

lemma remove_spec_between:
  assumes "target lt typ key xs ys False" "m \<noteq> []"
    and "length as = length xs" "length bs = length ys" "sorted_items lt (wl as xs @ m @ wr ys bs)"
  shows "remove_spec lt typ key (wl as xs @ m @ wr ys bs)
    = (fst (remove_spec lt typ key m), wl as xs @ snd (remove_spec lt typ key m) @ wr ys bs)"
proof (cases "typ")
  case removeItem
  have s: "sorted_items lt (wl as xs)" "sorted_items lt (wr ys bs)" using assms(5) by (simp_all add: sorted_items_def sorted_wrt_append)
  have "\<forall>x\<in>set (wl as xs). lt (fst x) (the key)" "\<forall>x\<in>set (wr ys bs). lt (the key) (fst x)"
    using wl_smaller [OF assms(3) s(1)] wr_greater [OF assms(4) [symmetric] s(2)] assms(1) removeItem by (auto simp: target_def)
  from spec_between(2,4) [OF this, of m] show ?thesis by (simp add: remove_spec_def removeItem)
next
  case removeMin
  then show ?thesis using assms by (simp add: target_def remove_spec_def)
next
  case removeMax
  then show ?thesis using assms by (simp add: target_def remove_spec_def butlast_append)
qed

lemma remove_step_target:
  assumes "target lt typ key xs ys found" "sorted_items lt (xs @ ys)" "cs \<noteq> []"
  shows "remove_step key typ lt (Node (xs @ ys) cs sz cow) = Some (Inr (length xs, found))"
proof (cases "typ")
  case removeItem
  then obtain k where k: "key = Some k" using assms(1) by (auto simp: target_def)
  have "items_find lt k (xs @ ys) = (length xs, found)"
  proof (cases found)
    case True
    then obtain y zs where "ys = y # zs" "eqv lt k (fst y)" using assms(1) removeItem k by (cases ys) (auto simp: target_def)
    with find_split_found [of xs y zs k] assms(2) True show ?thesis by simp
  next
    case False
    then show ?thesis using find_split [OF assms(2), of k] assms(1) removeItem k by (simp add: target_def)
  qed
  then show ?thesis using assms(3) by (simp add: remove_step_def removeItem k)
qed (use assms in \<open>simp_all add: target_def remove_step_def\<close>)

lemma target_exists:
  assumes "sorted_items lt its" "typ = removeItem \<longrightarrow> key \<noteq> None"
  obtains xs ys found where "its = xs @ ys" "target lt typ key xs ys found"
proof (cases "typ")
  case removeItem
  then obtain k where k: "key = Some k" using assms(2) by auto
  obtain i found where f: "items_find lt k its = (i, found)" by fastforce
  note c = find_correct [OF assms(1) f]
  show thesis
    by (rule that [of "take i its" "drop i its" found])
       (use c in \<open>auto simp: target_def removeItem k hd_drop_conv_nth\<close>)
next
  case removeMin
  then show thesis using that [of "[]" its False] by (simp add: target_def)
next
  case removeMax
  then show thesis using that [of its "[]" False] by (simp add: target_def)
qed

end

section \<open>Removal from a node\<close>

text \<open>What the recursion may assume of the children.\<close>

definition removes ::
  "('k \<Rightarrow> 'k \<Rightarrow> bool) \<Rightarrow> nat \<Rightarrow> nat \<Rightarrow> ('k, 'v) node \<Rightarrow> bool" where
  "removes lt d h c \<longleftrightarrow>
     (\<forall>ty key. (ty = removeItem \<longrightarrow> key \<noteq> None) \<longrightarrow>
        (\<exists>r. node_remove key (d - 1) ty lt c = Some r \<and> remove_post lt d h ty key c r))"

context strict_weak_order
begin

lemma remove_in_child:
  assumes "node_ok d (Suc h) (Node (xs @ ys) (as @ c # bs) sz cow)" "length as = length xs" "length bs = length ys"
    and "sorted_items lt (inorder (Node (xs @ ys) (as @ c # bs) sz cow))" "target lt ty key xs ys False"
    and "d \<le> length (n_items c)" "2 \<le> d" "removes lt d h (mutableFor cow c)" "ty = removeItem \<longrightarrow> key \<noteq> None"
  shows "\<exists>r. node_remove key (d - 1) ty lt (Node (xs @ ys) (as @ c # bs) sz cow) = Some r
           \<and> remove_post lt d (Suc h) ty key (Node (xs @ ys) (as @ c # bs) sz cow) r
           \<and> length (n_items (fst r)) = length (xs @ ys)"
proof -
  let ?n = "Node (xs @ ys) (as @ c # bs) sz cow"
  have ord: "inorder (Node (xs @ ys) (as @ b # bs) s cow) = wl (map inorder as) xs @ inorder b @ wr ys (map inorder bs)" for b s
    by (rule inorder_split [OF assms(2,3)])
  have c: "node_ok d h c" using assms(1) by (simp add: node_ok_split [OF assms(2,3)])
  have ne: "inorder c \<noteq> []" by (rule nonempty_inorder [OF c]) (use assms(6,7) in auto)
  have sc: "sorted_items lt (inorder c)" using assms(4) by (simp add: ord sorted_items_def sorted_wrt_append)
  obtain c' out removed where r: "node_remove key (d - 1) ty lt (mutableFor cow c) = Some (c', out, removed)"
    "remove_post lt d h ty key (mutableFor cow c) (c', out, removed)"
    using assms(8,9) unfolding removes_def by (metis prod_cases3)
  then have p: "node_ok d h c'" "length (n_items c) - 1 \<le> length (n_items c')"
    "remove_spec lt ty key (inorder c) = (out, inorder c')" "removed = (out \<noteq> None)"
    by (auto simp: remove_post_def)
  have size: "n_size c = n_size c' + (if removed then 1 else 0)"
    using length_remove_spec [OF sc ne, of ty key] p node_ok_size [OF c] node_ok_size [OF p(1)] by simp
  let ?n' = "Node (xs @ ys) (as @ c' # bs) (if removed then sz - 1 else sz) cow"
  have step: "remove_step key ty lt ?n = Some (Inr (length xs, False))"
    using remove_step_target [OF assms(5)] items_sorted [OF assms(1,4)] by simp
  have spare: "\<not> length (n_items c) \<le> d - 1" using assms(6,7) by linarith
  have "node_remove key (d - 1) ty lt ?n = Some (?n', out, removed)"
    using step r(1) assms(2) spare
    by (subst node_remove.simps) (simp add: mutableChild_def pair_index set_child_def add_size_def Let_def)
  moreover have "node_ok d (Suc h) ?n'"
    using assms(1,6) p(1,2) size by (auto simp: node_ok_split [OF assms(2,3)])
  moreover have "remove_spec lt ty key (inorder ?n) = (out, inorder ?n')"
    using remove_spec_between [OF assms(5) ne, of "map inorder as" "map inorder bs"] assms(2,3,4) p(3) by (simp add: ord)
  ultimately show ?thesis using p(4) by (auto simp: remove_post_def)
qed

lemma remove_found:
  assumes "node_ok d (Suc h) (Node (xs @ y # ys) (as @ c # bs) sz cow)" "length as = length xs" "length bs = Suc (length ys)"
    and "sorted_items lt (inorder (Node (xs @ y # ys) (as @ c # bs) sz cow))" "target lt ty key xs (y # ys) True"
    and "d \<le> length (n_items c)" "2 \<le> d" "removes lt d h (mutableFor cow c)"
  shows "\<exists>r. node_remove key (d - 1) ty lt (Node (xs @ y # ys) (as @ c # bs) sz cow) = Some r
           \<and> remove_post lt d (Suc h) ty key (Node (xs @ y # ys) (as @ c # bs) sz cow) r
           \<and> length (n_items (fst r)) = length (xs @ y # ys)"
proof -
  let ?n = "Node (xs @ y # ys) (as @ c # bs) sz cow"
  obtain b bs' where bs: "bs = b # bs'" "length bs' = length ys" using assms(3) by (cases bs) auto
  let ?l = "wl (map inorder as) xs" and ?r = "inorder b @ wr ys (map inorder bs')"
  have ord: "inorder (Node (xs @ z # ys) (as @ u # bs) s cow) = (?l @ inorder u) @ z # ?r" for z u s
    using inorder_split [of as xs bs "z # ys" u s cow] assms(2) bs by simp
  have c: "node_ok d h c" using assms(1) by auto
  have ne: "inorder c \<noteq> []" by (rule nonempty_inorder [OF c]) (use assms(6,7) in auto)
  have ty: "ty = removeItem" "key \<noteq> None" "eqv lt (the key) (fst y)" using assms(5) by (cases ty; auto simp: target_def)+
  obtain c' out removed where r: "node_remove None (d - 1) removeMax lt (mutableFor cow c) = Some (c', out, removed)"
    "remove_post lt d h removeMax None (mutableFor cow c) (c', out, removed)"
    using assms(8) unfolding removes_def by (metis prod_cases3 toRemove.distinct(3,5))
  then have p: "node_ok d h c'" "length (n_items c) - 1 \<le> length (n_items c')"
    "out = Some (last (inorder c))" "inorder c' = butlast (inorder c)"
    by (auto simp: remove_post_def remove_spec_def)
  have size: "n_size c = n_size c' + 1"
    using ne p(4) node_ok_size [OF c] node_ok_size [OF p(1)] by (cases "inorder c" rule: rev_cases) simp_all
  let ?n' = "Node (xs @ last (inorder c) # ys) (as @ c' # bs) (sz - 1) cow"
  have step: "remove_step key ty lt ?n = Some (Inr (length xs, True))"
    using remove_step_target [OF assms(5)] items_sorted [OF assms(1,4)] by simp
  have spare: "\<not> length (n_items c) \<le> d - 1" using assms(6,7) by linarith
  have "node_remove key (d - 1) ty lt ?n = Some (?n', Some y, True)"
    using step r(1) assms(2) spare p(3)
    by (subst node_remove.simps) (simp add: mutableChild_def pair_index)
  moreover have "node_ok d (Suc h) ?n'"
    using assms(1-3,6) p(1,2) size by auto
  moreover have "remove_spec lt ty key (inorder ?n) = (Some y, inorder ?n')"
    using spec_found(2,4) [OF assms(4) [unfolded ord] ty(3)] ne by (simp add: remove_spec_def ty(1) ord p(4))
  ultimately show ?thesis by (auto simp: remove_post_def)
qed

text \<open>The child has an item to spare: the removal descends.\<close>

lemma remove_descend:
  assumes "node_ok d (Suc h) (Node (xs @ ys) (as @ c # bs) sz cow)" "length as = length xs" "length bs = length ys"
    and "sorted_items lt (inorder (Node (xs @ ys) (as @ c # bs) sz cow))" "target lt ty key xs ys found"
    and "d \<le> length (n_items c)" "2 \<le> d" "removes lt d h (mutableFor cow c)" "ty = removeItem \<longrightarrow> key \<noteq> None"
  shows "\<exists>r. node_remove key (d - 1) ty lt (Node (xs @ ys) (as @ c # bs) sz cow) = Some r
           \<and> remove_post lt d (Suc h) ty key (Node (xs @ ys) (as @ c # bs) sz cow) r
           \<and> length (n_items (fst r)) = length (xs @ ys)"
proof (cases found)
  case True
  then obtain y zs where "ys = y # zs" using assms(5) by (cases ty; cases ys) (auto simp: target_def)
  then show ?thesis using remove_found [of d h xs y zs as c bs sz cow ty key] assms True by simp
next
  case False
  then show ?thesis using remove_in_child [OF assms(1-4) _ assms(6-9)] assms(5) by simp
qed

end

section \<open>Growing the child that the removal goes into\<close>

context strict_weak_order
begin

lemma target_steal_left:
  assumes "target lt ty key (xs @ [x]) ys found" "lt (fst m) (fst x)"
  shows "target lt ty key (xs @ [m]) ys found"
  using assms trans [of "fst m" "fst x" "the key"] by (cases ty) (auto simp: target_def)

lemma target_right:
  assumes "target lt ty key xs (x # ys) found" "sorted_items lt (x # ys)"
  shows "target lt ty key xs ys False"
proof (cases "ty = removeItem \<and> found")
  case True
  then have "eqv lt (the key) (fst x)" using assms(1) by (simp add: target_def)
  then have "lt (the key) (fst y)" if "y \<in> set ys" for y
    using eqv_lt_trans [of "the key" "fst x"] assms(2) that by (auto simp: sorted_items_def)
  with True assms(1) show ?thesis by (auto simp: target_def)
qed (use assms(1) in \<open>cases ty; auto simp: target_def\<close>)

lemma target_steal_right:
  assumes "target lt ty key xs (x # ys) found" "sorted_items lt (x # m # ys)" "sorted_items lt (x # ys)"
  shows "target lt ty key xs (m # ys) False"
proof (cases "ty = removeItem")
  case True
  have "lt (the key) (fst m)"
    using assms(1,2) True eqv_lt_trans [of "the key" "fst x" "fst m"] trans [of "the key" "fst x" "fst m"]
    by (cases found) (auto simp: target_def sorted_items_def)
  with target_right [OF assms(1,3)] True show ?thesis by (auto simp: target_def)
qed (use assms(1) in \<open>cases ty; auto simp: target_def\<close>)

text \<open>The items around a pair of children, and the items within them.\<close>

lemma pair_sorted:
  assumes "sorted_items lt (inorder (Node (xs @ x # ys) (as @ l # c # bs) sz cow))" "length as = length xs" "length bs = length ys"
  shows "sorted_items lt (x # ys)" "m \<in> set (inorder l) \<Longrightarrow> lt (fst m) (fst x)"
    "m \<in> set (inorder c) \<Longrightarrow> sorted_items lt (x # m # ys)"
proof -
  have s: "sorted_items lt (wl (map inorder as) xs @ inorder l @ x # inorder c @ wr ys (map inorder bs))"
    using assms(1) inorder_split [of as xs "c # bs" "x # ys" l sz cow] assms(2,3) by simp
  have ys: "set ys \<subseteq> set (wr ys (map inorder bs))" "sorted_items lt ys"
    using set_wr_items [of ys "map inorder bs"] sorted_wr_items [of ys "map inorder bs"] s assms(3)
    by (auto simp: sorted_items_def sorted_wrt_append)
  with s show "sorted_items lt (x # ys)" "m \<in> set (inorder l) \<Longrightarrow> lt (fst m) (fst x)"
    "m \<in> set (inorder c) \<Longrightarrow> sorted_items lt (x # m # ys)"
    by (auto simp: sorted_items_def sorted_wrt_append)
qed

lemma grow_left:
  assumes "node_ok d (Suc h) (Node (xs @ x # ys) (as @ l # c # bs) sz cow)" "length as = length xs" "length bs = length ys"
    and "sorted_items lt (inorder (Node (xs @ x # ys) (as @ l # c # bs) sz cow))" "target lt ty key (xs @ [x]) ys found"
    and "length (n_items c) \<le> d - 1" "d \<le> length (n_items l)" "2 \<le> d"
  obtains m l' c' where
    "growChild (Suc (length xs)) (d - 1) (Node (xs @ x # ys) (as @ l # c # bs) sz cow) = Some (Node (xs @ m # ys) (as @ l' # c' # bs) sz cow)"
    "node_ok d (Suc h) (Node (xs @ m # ys) (as @ l' # c' # bs) sz cow)"
    "inorder (Node (xs @ m # ys) (as @ l' # c' # bs) sz cow) = inorder (Node (xs @ x # ys) (as @ l # c # bs) sz cow)"
    "target lt ty key (xs @ [m]) ys found" "d \<le> length (n_items c')"
proof -
  let ?n = "Node (xs @ x # ys) (as @ l # c # bs) sz cow"
  obtain m l' c' where s: "steal_left (Suc (length xs)) ?n = Some (Node (xs @ m # ys) (as @ l' # c' # bs) sz cow)"
    "node_ok d h l'" "d - 1 \<le> length (n_items l')" "node_ok d h c'" "length (n_items c') = Suc (length (n_items c))"
    "inorder l @ x # inorder c = inorder l' @ m # inorder c'" "m \<in> set (inorder l)"
    by (rule steal_left_ok [OF assms(1,2,7,6,8)])
  have c: "d - 1 \<le> length (n_items c)" using assms(1) by auto
  have spare: "d - 1 < length (n_items l)" using assms(7,8) by linarith
  have "growChild (Suc (length xs)) (d - 1) ?n = Some (Node (xs @ m # ys) (as @ l' # c' # bs) sz cow)"
    using s(1) assms(2) spare by (simp add: growChild_def pair_index)
  moreover have "d - 1 \<le> length (n_items c')" using s(5) c by simp
  note replace_pair [OF assms(1-3) s(2-4) this s(6)]
  moreover have "target lt ty key (xs @ [m]) ys found"
    using target_steal_left [OF assms(5)] pair_sorted(2) [OF assms(4,2,3) s(7)] by blast
  ultimately show thesis using that [of m l' c'] s(5) c by simp
qed

lemma grow_right:
  assumes "node_ok d (Suc h) (Node (xs @ x # ys) (as @ c # r # bs) sz cow)" "length as = length xs" "length bs = length ys"
    and "sorted_items lt (inorder (Node (xs @ x # ys) (as @ c # r # bs) sz cow))" "target lt ty key xs (x # ys) found"
    and "length (n_items c) \<le> d - 1" "d \<le> length (n_items r)" "2 \<le> d"
    and "xs = [] \<or> length (n_items (last as)) \<le> d - 1"
  obtains m c' r' where
    "growChild (length xs) (d - 1) (Node (xs @ x # ys) (as @ c # r # bs) sz cow) = Some (Node (xs @ m # ys) (as @ c' # r' # bs) sz cow)"
    "node_ok d (Suc h) (Node (xs @ m # ys) (as @ c' # r' # bs) sz cow)"
    "inorder (Node (xs @ m # ys) (as @ c' # r' # bs) sz cow) = inorder (Node (xs @ x # ys) (as @ c # r # bs) sz cow)"
    "target lt ty key xs (m # ys) False" "d \<le> length (n_items c')"
proof -
  let ?n = "Node (xs @ x # ys) (as @ c # r # bs) sz cow"
  obtain m c' r' where s: "steal_right (length xs) ?n = Some (Node (xs @ m # ys) (as @ c' # r' # bs) sz cow)"
    "node_ok d h r'" "d - 1 \<le> length (n_items r')" "node_ok d h c'" "length (n_items c') = Suc (length (n_items c))"
    "inorder c @ x # inorder r = inorder c' @ m # inorder r'" "m \<in> set (inorder r)"
    by (rule steal_right_ok [OF assms(1,2,7,6,8)])
  have c: "d - 1 \<le> length (n_items c)" using assms(1) by auto
  have "xs \<noteq> [] \<Longrightarrow> (as @ c # r # bs) ! (length xs - 1) = last as"
    using assms(2) by (cases as rule: rev_cases) (auto simp: nth_append)
  moreover have "d - 1 < length (n_items r)" using assms(7,8) by linarith
  ultimately have "growChild (length xs) (d - 1) ?n = Some (Node (xs @ m # ys) (as @ c' # r' # bs) sz cow)"
    using s(1) assms(2,9) by (auto simp: growChild_def pair_index)
  moreover have "d - 1 \<le> length (n_items c')" using s(5) c by simp
  note replace_pair [OF assms(1-3) s(4) this s(2,3,6)]
  moreover have "target lt ty key xs (m # ys) False"
    using target_steal_right [OF assms(5)] pair_sorted(1,3) [OF assms(4,2,3)] s(7) by blast
  ultimately show thesis using that [of m c' r'] s(5) c by simp
qed

end

context strict_weak_order
begin

lemma last_before: "length as = length xs \<Longrightarrow> xs \<noteq> [] \<Longrightarrow> (as @ bs) ! (length xs - 1) = last as"
  by (cases as rule: rev_cases) (auto simp: nth_append)

text \<open>\<^verbatim>\<open>growChildAndRemove\<close> before its call of \<^verbatim>\<open>remove\<close>.\<close>

lemma growChild_ok:
  assumes "node_ok d (Suc h) (Node (xs @ ys) (as @ c # bs) sz cow)" "length as = length xs" "length bs = length ys"
    and "sorted_items lt (inorder (Node (xs @ ys) (as @ c # bs) sz cow))" "target lt ty key xs ys found"
    and "length (n_items c) \<le> d - 1" "2 \<le> d" "xs @ ys \<noteq> []"
  obtains xs' ys' as' c' bs' found' where
    "growChild (length xs) (d - 1) (Node (xs @ ys) (as @ c # bs) sz cow) = Some (Node (xs' @ ys') (as' @ c' # bs') sz cow)"
    "length as' = length xs'" "length bs' = length ys'" "length (xs @ ys) - 1 \<le> length (xs' @ ys')"
    "node_ok d (Suc h) (Node (xs' @ ys') (as' @ c' # bs') sz cow)"
    "inorder (Node (xs' @ ys') (as' @ c' # bs') sz cow) = inorder (Node (xs @ ys) (as @ c # bs) sz cow)"
    "target lt ty key xs' ys' found'" "d \<le> length (n_items c')"
proof -
  let ?n = "Node (xs @ ys) (as @ c # bs) sz cow"
  consider (left) "xs \<noteq> []" "d \<le> length (n_items (last as))"
    | (right) r bs1 y ys1 where "xs = [] \<or> length (n_items (last as)) \<le> d - 1" "ys = y # ys1" "bs = r # bs1" "d \<le> length (n_items r)"
    | (merge_right) r bs1 y ys1 where "xs = [] \<or> length (n_items (last as)) \<le> d - 1" "ys = y # ys1" "bs = r # bs1" "length (n_items r) \<le> d - 1"
    | (merge_left) "xs \<noteq> []" "length (n_items (last as)) \<le> d - 1" "ys = []" "bs = []"
    using assms(3,8) by (cases ys; cases bs) fastforce+
  then show thesis
  proof cases
    case left
    then obtain xs0 x as0 l where eq: "xs = xs0 @ [x]" "as = as0 @ [l]" "length as0 = length xs0"
      using assms(2) by (cases xs rule: rev_cases; cases as rule: rev_cases) auto
    have n: "?n = Node (xs0 @ x # ys) (as0 @ l # c # bs) sz cow" by (simp add: eq)
    have l: "d \<le> length (n_items l)" using left(2) by (simp add: eq)
    obtain m l' c' where g:
      "growChild (Suc (length xs0)) (d - 1) ?n = Some (Node (xs0 @ m # ys) (as0 @ l' # c' # bs) sz cow)"
      "node_ok d (Suc h) (Node (xs0 @ m # ys) (as0 @ l' # c' # bs) sz cow)"
      "inorder (Node (xs0 @ m # ys) (as0 @ l' # c' # bs) sz cow) = inorder ?n"
      "target lt ty key (xs0 @ [m]) ys found" "d \<le> length (n_items c')"
      unfolding n by (rule grow_left [OF assms(1) [unfolded n] eq(3) assms(3) assms(4) [unfolded n] assms(5) [unfolded eq(1)] assms(6) l assms(7)])
    show thesis
      by (rule that [of "xs0 @ [m]" ys "as0 @ [l']" c' bs found]) (use g eq assms(3) in simp_all)
  next
    case right
    have len: "length bs1 = length ys1" using assms(3) right by simp
    note a = assms(1,4,5) [unfolded right(2,3)]
    obtain m c' r' where g:
      "growChild (length xs) (d - 1) ?n = Some (Node (xs @ m # ys1) (as @ c' # r' # bs1) sz cow)"
      "node_ok d (Suc h) (Node (xs @ m # ys1) (as @ c' # r' # bs1) sz cow)"
      "inorder (Node (xs @ m # ys1) (as @ c' # r' # bs1) sz cow) = inorder ?n"
      "target lt ty key xs (m # ys1) False" "d \<le> length (n_items c')"
      unfolding right(2,3) by (rule grow_right [OF a(1) assms(2) len a(2,3) assms(6) right(4) assms(7) right(1)])
    show thesis
      by (rule that [of xs "m # ys1" as c' "r' # bs1" False]) (use g right assms(2) len in simp_all)
  next
    case merge_right
    have len: "length bs1 = length ys1" using assms(3) merge_right by simp
    note a = assms(1,4,5) [unfolded merge_right(2,3)]
    obtain c' where g: "merge_child (length xs) ?n = Some (Node (xs @ ys1) (as @ c' # bs1) sz cow)"
      "node_ok d (Suc h) (Node (xs @ ys1) (as @ c' # bs1) sz cow)" "d \<le> length (n_items c')"
      "inorder (Node (xs @ ys1) (as @ c' # bs1) sz cow) = inorder ?n"
      unfolding merge_right(2,3) by (rule merge_ok [OF a(1) assms(2) len assms(6) merge_right(4) assms(7)])
    have "growChild (length xs) (d - 1) ?n = merge_child (length xs) ?n"
      using merge_right assms(2,6) last_before [OF assms(2), of "c # bs"] by (auto simp: growChild_def pair_index)
    moreover have "target lt ty key xs ys1 False"
      using target_right [OF a(3)] pair_sorted(1) [OF a(2) assms(2) len] by blast
    ultimately show thesis
      by (intro that [of xs ys1 as c' bs1 False]) (use g merge_right assms(2) len in simp_all)
  next
    case merge_left
    then obtain xs0 x as0 l where eq: "xs = xs0 @ [x]" "as = as0 @ [l]" "length as0 = length xs0"
      using assms(2) by (cases xs rule: rev_cases; cases as rule: rev_cases) auto
    have n: "?n = Node (xs0 @ x # []) (as0 @ l # c # []) sz cow" by (simp add: eq merge_left)
    have l: "length (n_items l) \<le> d - 1" using merge_left(2) by (simp add: eq)
    obtain c' where g: "merge_child (length xs0) ?n = Some (Node (xs0 @ []) (as0 @ c' # []) sz cow)"
      "node_ok d (Suc h) (Node (xs0 @ []) (as0 @ c' # []) sz cow)" "d \<le> length (n_items c')"
      "inorder (Node (xs0 @ []) (as0 @ c' # []) sz cow) = inorder ?n"
      unfolding n by (rule merge_ok [OF assms(1) [unfolded n] eq(3) _ l assms(6,7)]) simp_all
    have "growChild (length xs) (d - 1) ?n = merge_child (length xs0) ?n"
      using l eq by (simp add: growChild_def merge_left nth_append)
    moreover have "target lt ty key xs0 [] False"
      using assms(5) by (cases ty) (auto simp: target_def merge_left eq split: if_splits)
    ultimately show thesis
      by (intro that [of xs0 "[]" as0 c' "[]" False]) (use g merge_left eq in simp_all)
  qed
qed

lemma remove_leaf:
  assumes "node_ok d 0 n" "n_items n \<noteq> []" "sorted_items lt (inorder n)" "ty = removeItem \<longrightarrow> key \<noteq> None"
  shows "\<exists>r. node_remove key (d - 1) ty lt n = Some r \<and> remove_post lt d 0 ty key n r"
proof -
  obtain its sz cow where n: "n = Node its [] sz cow" using assms(1) by (cases n) auto
  have its: "sorted_items lt its" "its \<noteq> []" "length its \<le> 2 * d - 1" "sz = int (length its)" using assms by (auto simp: n)
  obtain xs ys found where t: "its = xs @ ys" "target lt ty key xs ys found" using target_exists [OF its(1) assms(4)] .
  show ?thesis
  proof (cases ty)
    case removeItem
    then obtain k where k: "key = Some k" using assms(4) by auto
    show ?thesis
    proof (cases found)
      case True
      then obtain y zs where ys: "ys = y # zs" "eqv lt k (fst y)" using t(2) removeItem k by (cases ys) (auto simp: target_def)
      note s = its(1) [unfolded t(1) ys(1)]
      from find_split_found [OF s ys(2)] spec_found(2,4) [OF s ys(2)] its(3,4) show ?thesis
        by (subst node_remove.simps) (simp add: n t(1) ys(1) remove_step_def removeItem k leaf_result_def items_removeAt_def
            remove_post_def remove_spec_def)
    next
      case False
      then have b: "\<forall>x\<in>set xs. lt (fst x) k" "\<forall>y\<in>set ys. lt k (fst y)" using t(2) removeItem k by (auto simp: target_def)
      from find_split [OF its(1) [unfolded t(1)] b] spec_between(2,4) [OF b, of "[]"] its(3,4) show ?thesis
        by (subst node_remove.simps) (simp add: n t(1) remove_step_def removeItem k remove_post_def remove_spec_def
            spec_find_def spec_delete_def)
    qed
  next
    case removeMin
    then show ?thesis using its
      by (subst node_remove.simps) (simp add: n remove_step_def leaf_result_def items_removeAt_def remove_post_def remove_spec_def
          hd_conv_nth drop_Suc of_nat_diff Suc_le_eq)
  next
    case removeMax
    then show ?thesis using its
      by (subst node_remove.simps) (simp add: n remove_step_def leaf_result_def items_pop_def remove_post_def remove_spec_def
          last_conv_nth butlast_conv_take of_nat_diff Suc_le_eq)
  qed
qed

lemma node_remove_ok:
  assumes "2 \<le> d" "node_ok d h n" "n_items n \<noteq> []" "sorted_items lt (inorder n)" "ty = removeItem \<longrightarrow> key \<noteq> None"
  shows "\<exists>r. node_remove key (d - 1) ty lt n = Some r \<and> remove_post lt d h ty key n r"
  using assms
proof (induction h arbitrary: n ty key)
  case 0
  then show ?case using remove_leaf by blast
next
  case (Suc h n ty key)
  have IH: "removes lt d h (mutableFor w c)" if "node_ok d h c" "d \<le> length (n_items c)" "sorted_items lt (inorder c)"
    for w and c :: "('k, 'a) node"
  proof -
    have "n_items (mutableFor w c) \<noteq> []" using that(2) Suc.prems(1) by auto
    with Suc.IH [of "mutableFor w c"] Suc.prems(1) that show ?thesis by (simp add: removes_def)
  qed
  obtain its cs sz cow where n0: "n = Node its cs sz cow" by (cases n)
  have "sorted_items lt its" using items_sorted [OF Suc.prems(2,4)] by (simp add: n0)
  from target_exists [OF this Suc.prems(5)] obtain xs ys found where t: "its = xs @ ys" "target lt ty key xs ys found" .
  have "length xs \<le> length (n_items n)" by (simp add: n0 t)
  from node_ok_cases [OF Suc.prems(2) this]
  obtain as c bs where dec: "cs = as @ c # bs" "length as = length xs" "length bs = length ys"
    by (metis append_eq_append_conv n0 node.sel(1,2) t(1))
  have n: "n = Node (xs @ ys) (as @ c # bs) sz cow" by (simp add: n0 t dec)
  note ok = Suc.prems(2) [unfolded n] and srt = Suc.prems(4) [unfolded n]
  have child: "node_ok d h c1 \<and> sorted_items lt (inorder c1)"
    if "node_ok d (Suc h) (Node (xs1 @ ys1) (as1 @ c1 # bs1) sz cow)" "length as1 = length xs1" "length bs1 = length ys1"
      "sorted_items lt (inorder (Node (xs1 @ ys1) (as1 @ c1 # bs1) sz cow))" for xs1 ys1 as1 c1 bs1
    using that by (simp add: node_ok_split [OF that(2,3)] inorder_split [OF that(2,3)] sorted_items_def sorted_wrt_append)
  show ?case
  proof (cases "length (n_items c) \<le> d - 1")
    case False
    then have "d \<le> length (n_items c)" by simp
    with remove_descend [OF ok dec(2,3) srt t(2) _ Suc.prems(1) _ Suc.prems(5)] IH child [OF ok dec(2,3) srt]
    show ?thesis unfolding n by blast
  next
    case True
    have "xs @ ys \<noteq> []" using Suc.prems(3) by (simp add: n)
    then obtain xs' ys' as' c' bs' found' where g:
      "growChild (length xs) (d - 1) n = Some (Node (xs' @ ys') (as' @ c' # bs') sz cow)"
      "length as' = length xs'" "length bs' = length ys'" "length (xs @ ys) - 1 \<le> length (xs' @ ys')"
      "node_ok d (Suc h) (Node (xs' @ ys') (as' @ c' # bs') sz cow)"
      "inorder (Node (xs' @ ys') (as' @ c' # bs') sz cow) = inorder n"
      "target lt ty key xs' ys' found'" "d \<le> length (n_items c')"
      unfolding n by (rule growChild_ok [OF ok dec(2,3) srt t(2) True Suc.prems(1)])
    let ?n1 = "Node (xs' @ ys') (as' @ c' # bs') sz cow"
    have s1: "sorted_items lt (inorder ?n1)" using g(6) Suc.prems(4) by simp
    have "removes lt d h (mutableFor cow c')" using IH child [OF g(5,2,3) s1] g(8) by blast
    from remove_descend [OF g(5,2,3) s1 g(7,8) Suc.prems(1) this Suc.prems(5)]
    obtain r where r: "node_remove key (d - 1) ty lt ?n1 = Some r" "remove_post lt d (Suc h) ty key ?n1 r"
      "length (n_items (fst r)) = length (xs' @ ys')" by blast
    have "remove_step key ty lt n = Some (Inr (length xs, found))"
      unfolding n by (rule remove_step_target [OF t(2)]) (use items_sorted [OF ok srt] in simp_all)
    then have "node_remove key (d - 1) ty lt n = Some r"
      using r(1) g(1) True dec(2) by (subst node_remove.simps) (simp add: mutableChild_def n pair_index)
    moreover have "remove_post lt d (Suc h) ty key n r" 
      using r(2,3) g(4,6) by (auto simp: remove_post_def n)
    ultimately show ?thesis by blast
  qed
qed

end

section \<open>Removal from a tree\<close>

context strict_weak_order
begin

lemma collapse_root:
  assumes "node_ok d h n" "2 \<le> d"
  obtains h' r where "r = (if n_items n = [] \<and> n_children n \<noteq> [] then n_children n ! 0 else n)"
    "node_ok d h' r" "inorder r = inorder n" "n_children r \<noteq> [] \<longrightarrow> n_items r \<noteq> []"
proof (cases "n_items n = [] \<and> n_children n \<noteq> []")
  case True
  then obtain h' where h: "h = Suc h'" using assms(1) by (cases n; cases h) auto
  then obtain c sz w where n: "n = Node [] [c] sz w" using assms(1) True by (cases n; cases "n_children n") auto
  show thesis
    by (rule that [of c h']) (use assms in \<open>auto simp: n h inorder.simps\<close>)
next
  case False
  then show thesis using assms(1) by (intro that [of n h]) auto
qed

lemma deleteItem_ok:
  assumes "tree_ok t" "bt_less t = lt" "ty = removeItem \<longrightarrow> key \<noteq> None" "elems t \<noteq> []"
  obtains t' out where "deleteItem key ty t = Some (t', out, out \<noteq> None)" "tree_ok t'"
    "remove_spec lt ty key (elems t) = (out, elems t')"
    "bt_less t' = lt" "bt_degree t' = bt_degree t" "bt_cow t' = bt_cow t"
proof -
  let ?d = "bt_degree t"
  obtain r where r: "bt_root t = Some r" using assms(4) by (auto simp: elems_def split: option.splits)
  obtain h where ok: "node_ok ?d h r" "2 \<le> ?d" "sorted_items lt (inorder r)" "n_children r \<noteq> [] \<longrightarrow> n_items r \<noteq> []"
    using assms(1,2) r by (auto simp: tree_ok_def)
  have ne: "n_items r \<noteq> []" using ok(4) assms(4) by (cases r) (auto simp: elems_def r)
  obtain n' out where m: "node_remove key (?d - 1) ty lt (mutableFor (bt_cow t) r) = Some (n', out, out \<noteq> None)"
    "node_ok ?d h n'" "remove_spec lt ty key (inorder r) = (out, inorder n')"
    using node_remove_ok [OF ok(2), of h "mutableFor (bt_cow t) r" ty key] ok ne assms(3) by (fastforce simp: remove_post_def)
  obtain h' r' where c: "r' = (if n_items n' = [] \<and> n_children n' \<noteq> [] then n_children n' ! 0 else n')"
    "node_ok ?d h' r'" "inorder r' = inorder n'" "n_children r' \<noteq> [] \<longrightarrow> n_items r' \<noteq> []"
    by (rule collapse_root [OF m(2) ok(2)])
  let ?t = "t\<lparr>bt_root := Some r'\<rparr>"
  have "deleteItem key ty t = Some (?t, out, out \<noteq> None)"
    using m(1) ne assms(2) by (simp add: deleteItem_def r minItems_def c(1))
  moreover have "sorted_items lt (inorder r')" using sorted_remove_spec [OF ok(3), of ty key] m(3) c(3) by simp
  then have "tree_ok ?t" using c ok(2) assms(2) by (auto simp: tree_ok_def)
  ultimately show thesis using that [of ?t out] m(3) c(3) assms(2) r by (simp add: elems_def)
qed

lemma deleteItem_empty:
  assumes "tree_ok t" "elems t = []"
  shows "deleteItem key ty t = Some (t, None, False)"
proof (cases "bt_root t")
  case (Some r)
  then obtain h where "node_ok (bt_degree t) h r" "n_children r \<noteq> [] \<longrightarrow> n_items r \<noteq> []" using assms(1) by (auto simp: tree_ok_def)
  then have "n_items r = []" using nonempty_inorder [of "bt_degree t" h r] assms(2) by (auto simp: elems_def Some)
  then show ?thesis by (simp add: deleteItem_def Some)
qed (simp add: deleteItem_def)

end

end
