(* ===== verification/Btree_Access.thy ===== *)
theory Btree_Access
  imports Btree_Delete
begin

text \<open>
  Reading a B-tree is reading its sequence: access by key (with the position of the key), by position, and
  to the first and the last item.
\<close>

section \<open>By position\<close>

lemma at_loop_ok:
  assumes "length cs = Suc (length its)" "\<forall>c\<in>set cs. node_ok d h c"
    and "\<And>c j. c \<in> set cs \<Longrightarrow> 0 \<le> j \<Longrightarrow> j < int (length (inorder c)) \<Longrightarrow> node_at j c = Some (inorder c ! nat j)"
    and "0 \<le> i" "i < int (length (weave (map inorder cs) its))"
  shows "at_loop i cs its = Some (weave (map inorder cs) its ! nat i)"
  using assms
proof (induction cs arbitrary: its i)
  case (Cons c cs)
  have c: "n_size c = int (length (inorder c))" using Cons.prems(2) node_ok_size by auto
  show ?case
  proof (cases its)
    case Nil
    then show ?thesis using Cons.prems c by simp
  next
    case its: (Cons m ms)
    let ?j = "i - n_size c - 1"
    consider "i < n_size c" | "i = n_size c" | "n_size c < i" by linarith
    then show ?thesis
    proof cases
      case 3
      have "at_loop ?j cs ms = Some (weave (map inorder cs) ms ! nat ?j)"
        using Cons.IH [of ms ?j] Cons.prems 3 its c by simp
      moreover have "nat i = length (inorder c) + Suc (nat ?j)" using 3 c by simp
      ultimately show ?thesis using 3 its by (simp add: nth_append)
    qed (use Cons.prems c its in \<open>simp_all add: nth_append nat_less_iff\<close>)
  qed
qed simp

lemma node_at_ok: "node_ok d h n \<Longrightarrow> 0 \<le> i \<Longrightarrow> i < int (length (inorder n)) \<Longrightarrow> node_at i n = Some (inorder n ! nat i)"
proof (induction h arbitrary: n i)
  case (0 n i)
  then show ?case by (cases n) simp
next
  case (Suc h n i)
  obtain its cs sz cow where n: "n = Node its cs sz cow" by (cases n)
  have "cs \<noteq> []" using Suc.prems(1) by (auto simp: n)
  then show ?case using at_loop_ok [of cs its d h i] Suc by (auto simp: n inorder.simps)
qed

lemma BTree_At_ok:
  assumes "tree_ok t"
  shows "BTree_At i t = (if 0 \<le> i \<and> i < int (length (elems t)) then Some (elems t ! nat i) else None)"
proof (cases "bt_root t")
  case (Some r)
  then obtain h where h: "node_ok (bt_degree t) h r" using assms by (auto simp: tree_ok_def)
  show ?thesis using node_at_ok [OF h, of i] tree_ok_Len [OF assms] by (auto simp: BTree_At_def elems_def Some)
qed (simp add: BTree_At_def elems_def)

section \<open>The ends\<close>

lemma leftmost_ok:
  assumes "node_ok d h n" "2 \<le> d" "n_items n \<noteq> []"
  shows "n_items (leftmost n) \<noteq> [] \<and> hd (n_items (leftmost n)) = hd (inorder n)"
  using assms
proof (induction h arbitrary: n)
  case (0 n)
  then show ?case by (cases n) simp
next
  case (Suc h n)
  then obtain x xs c cs sz w where n: "n = Node (x # xs) (c # cs) sz w"
    by (cases n; cases "n_items n"; cases "n_children n") auto
  have c: "node_ok d h c" "n_items c \<noteq> []" using Suc.prems by (auto simp: n)
  then have "inorder c \<noteq> []" by (rule nonempty_inorder)
  with Suc.IH [OF c(1) assms(2) c(2)] show ?case by (simp add: n inorder.simps)
qed

lemma rightmost_ok:
  assumes "node_ok d h n" "2 \<le> d" "n_items n \<noteq> []"
  shows "n_items (rightmost n) \<noteq> [] \<and> last (n_items (rightmost n)) = last (inorder n)"
  using assms
proof (induction h arbitrary: n)
  case (0 n)
  then show ?case by (cases n) simp
next
  case (Suc h n)
  then obtain xs cs c sz w where n: "n = Node xs (cs @ [c]) sz w" "length cs = length xs"
    by (cases n; cases "n_children n" rule: rev_cases) auto
  have c: "node_ok d h c" "n_items c \<noteq> []" using Suc.prems by (auto simp: n)
  then have "inorder c \<noteq> []" by (rule nonempty_inorder)
  with Suc.IH [OF c(1) assms(2) c(2)] inorder_split [of cs xs "[]" "[]" c sz w] n(2) show ?case by (simp add: n(1) nth_append)
qed

lemma BTree_ends:
  assumes "tree_ok t"
  shows "BTree_Min t = (if elems t = [] then None else Some (hd (elems t)))"
    and "BTree_Max t = (if elems t = [] then None else Some (last (elems t)))"
proof -
  have "BTree_Min t = (if elems t = [] then None else Some (hd (elems t)))
      \<and> BTree_Max t = (if elems t = [] then None else Some (last (elems t)))"
  proof (cases "bt_root t")
    case None
    then show ?thesis by (simp add: BTree_Min_def BTree_Max_def elems_def)
  next
    case (Some r)
    then obtain h where h: "node_ok (bt_degree t) h r" "2 \<le> bt_degree t" "n_children r \<noteq> [] \<longrightarrow> n_items r \<noteq> []"
      using assms by (auto simp: tree_ok_def)
    show ?thesis
    proof (cases "n_items r = []")
      case True
      then show ?thesis using h(3) by (cases r) (simp add: Some BTree_Min_def BTree_Max_def elems_def Let_def)
    next
      case False
      then show ?thesis
        using leftmost_ok [OF h(1,2) False] rightmost_ok [OF h(1,2) False] nonempty_inorder [OF h(1) False]
          last_conv_nth [of "n_items (rightmost r)"] hd_conv_nth [of "n_items (leftmost r)"]
        by (simp add: Some BTree_Min_def BTree_Max_def elems_def Let_def)
    qed
  qed
  then show "BTree_Min t = (if elems t = [] then None else Some (hd (elems t)))"
    "BTree_Max t = (if elems t = [] then None else Some (last (elems t)))" by simp_all
qed

section \<open>By key\<close>

text \<open>The position of an item of an inner node, and of the child before it.\<close>

lemma partialSize_left:
  assumes "node_ok d (Suc h) (Node (xs @ ys) (as @ c # bs) sz cow)" "length as = length xs" "length bs = length ys"
  shows "partialSize (length xs) (Node (xs @ ys) (as @ c # bs) sz cow) = int (length (wl (map inorder as) xs))"
proof -
  have "\<forall>x\<in>set as. node_ok d h x" using assms(1) by auto
  from length_left [OF this assms(2)] show ?thesis using assms(2) by (simp add: partialSize_take)
qed

context strict_weak_order
begin

lemma node_get_ok:
  assumes "node_ok d h n" "sorted_items lt (inorder n)"
  shows "\<exists>idx. node_get k ci lt n = Some (spec_find lt k (inorder n), spec_find lt k (inorder n) \<noteq> None, idx)
           \<and> (spec_find lt k (inorder n) = None \<longrightarrow> idx = -1)
           \<and> (ci \<and> spec_find lt k (inorder n) \<noteq> None \<longrightarrow> idx = spec_rank lt k (inorder n))"
  using assms
proof (induction h arbitrary: n)
  case (0 n)
  then obtain its sz cow where n: "n = Node its [] sz cow" by (cases n) auto
  obtain i found where f: "items_find lt k its = (i, found)" by fastforce
  have s: "sorted_items lt its" using 0 by (simp add: n)
  note c = find_correct [OF s f]
  show ?case
  proof (cases found)
    case True
    then have "its = take i its @ its ! i # drop (Suc i) its" "length (take i its) = i" using c(3) by (simp_all add: id_take_nth_drop)
    then obtain xs y zs where its: "its = xs @ y # zs" "length xs = i" by blast
    have "eqv lt k (fst y)" using c(4) [OF True] its by (simp add: nth_append)
    from spec_found(2,3) [OF s [unfolded its(1)] this] f True its
    show ?thesis by (simp add: n itemIndex_def nth_append)
  next
    case False
    have "\<forall>x\<in>set (take i its). lt (fst x) k" "\<forall>x\<in>set (drop i its). lt k (fst x)" using c(2) c(6) [OF False] by auto
    from spec_between(2) [OF this, of "[]"] show ?thesis using f False by (simp add: n spec_find_def)
  qed
next
  case (Suc h n)
  obtain i found where f: "items_find lt k (n_items n) = (i, found)" by fastforce
  note c = find_correct [OF items_sorted [OF Suc.prems] f]
  obtain xs ys as b bs where dec: "n_items n = xs @ ys" "n_children n = as @ b # bs" "length xs = i" "length as = length xs"
    "length bs = length ys" "n_children n ! i = b"
    using node_ok_cases [OF Suc.prems(1) c(1)] by metis
  obtain sz cow where n: "n = Node (xs @ ys) (as @ b # bs) sz cow" using dec by (cases n) auto
  show ?case
  proof (cases found)
    case True
    then obtain y zs where ys: "ys = y # zs" using c(3) dec by (cases ys) auto
    have e: "eqv lt k (fst y)" using c(4) True dec ys by (simp add: nth_append)
    from found_here(2,3) [OF Suc.prems [unfolded n ys] e] f True dec(3)
    show ?thesis by (simp add: n ys nth_append)
  next
    case False
    have xs: "\<forall>x\<in>set xs. lt (fst x) k" and ys: "\<forall>y\<in>set ys. lt k (fst y)" using c(2) c(6) [OF False] dec by auto
    note s = sides [OF Suc.prems(2) [unfolded n] dec(4,5) xs ys]
    have b: "node_ok d h b" using Suc.prems(1) by (simp add: n node_ok_split [OF dec(4,5)])
    from Suc.IH [OF b s(3)] obtain idx where g:
      "node_get k ci lt b = Some (spec_find lt k (inorder b), spec_find lt k (inorder b) \<noteq> None, idx)"
      "spec_find lt k (inorder b) = None \<longrightarrow> idx = -1"
      "ci \<and> spec_find lt k (inorder b) \<noteq> None \<longrightarrow> idx = spec_rank lt k (inorder b)"
      by (elim exE conjE) (rule that; assumption)
    have same: "spec_find lt k (inorder n) = spec_find lt k (inorder b)"
      "spec_rank lt k (inorder n) = partialSize i n + spec_rank lt k (inorder b)"
      unfolding n inorder_split [OF dec(4,5)] spec_between(2,3) [OF s(1,2), of "inorder b"] dec(3) [symmetric]
        partialSize_left [OF Suc.prems(1) [unfolded n] dec(4,5)] by (rule refl)+
    have "node_get k ci lt n = Some (spec_find lt k (inorder b), spec_find lt k (inorder b) \<noteq> None,
        if ci \<and> spec_find lt k (inorder b) \<noteq> None then idx + partialSize i n else idx)"
      using f [unfolded n] False g(1) dec(3,4) by (auto simp add: n pair_index)
    then show ?thesis using g(2,3) by (simp add: same)
  qed
qed

lemma GetWithIndex_ok:
  assumes "tree_ok t" "bt_less t = lt"
  shows "GetWithIndex k t =
     Some (map_option snd (spec_find lt k (elems t)), if spec_find lt k (elems t) = None then -1 else spec_rank lt k (elems t))"
proof (cases "bt_root t")
  case None
  then show ?thesis by (simp add: GetWithIndex_def elems_def spec_find_def)
next
  case (Some r)
  then obtain h where h: "node_ok (bt_degree t) h r" "sorted_items lt (inorder r)" using assms by (auto simp: tree_ok_def)
  from node_get_ok [OF h, of k True] show ?thesis by (auto simp: GetWithIndex_def Some assms(2) elems_def)
qed

lemma BTree_Get_ok:
  assumes "tree_ok t" "bt_less t = lt"
  shows "BTree_Get k t = Some (map_option snd (spec_find lt k (elems t)))" "Has k t = Some (spec_find lt k (elems t) \<noteq> None)"
proof -
  have "BTree_Get k t = Some (map_option snd (spec_find lt k (elems t))) \<and> Has k t = Some (spec_find lt k (elems t) \<noteq> None)"
  proof (cases "bt_root t")
    case None
    then show ?thesis by (simp add: BTree_Get_def Has_def elems_def spec_find_def)
  next
    case (Some r)
    then obtain h where h: "node_ok (bt_degree t) h r" "sorted_items lt (inorder r)" using assms by (auto simp: tree_ok_def)
    from node_get_ok [OF h, of k False] obtain idx
      where "node_get k False lt r = Some (spec_find lt k (inorder r), spec_find lt k (inorder r) \<noteq> None, idx)" by blast
    then show ?thesis by (cases "spec_find lt k (inorder r)") (simp_all add: BTree_Get_def Has_def Some assms(2) elems_def)
  qed
  then show "BTree_Get k t = Some (map_option snd (spec_find lt k (elems t)))" "Has k t = Some (spec_find lt k (elems t) \<noteq> None)"
    by simp_all
qed

end

end
