(* ===== verification/Btree_Iter.thy ===== *)
theory Btree_Iter
  imports Btree_Access
begin

text \<open>
  Iterators enumerate the sequence.  A stack of cursors stands for a position: what lies ahead of an
  ascending iterator and behind a descending one is a concatenation over the stack, and \<^verbatim>\<open>Next\<close> takes its
  first item away.
\<close>

section \<open>Positions\<close>

text \<open>For one cursor: the item under it and everything to its right in the node; everything to the left of the child
  under it; that child.\<close>

definition after_cursor :: "('k, 'v) cursor \<Rightarrow> ('k, 'v) item list" where
  "after_cursor c =
     (case c of (n, i) \<Rightarrow>
        if n_children n = [] then drop (nat i) (n_items n)
        else wr (drop (nat i) (n_items n)) (map inorder (drop (Suc (nat i)) (n_children n))))"

definition before_cursor :: "('k, 'v) cursor \<Rightarrow> ('k, 'v) item list" where
  "before_cursor c =
     (case c of (n, i) \<Rightarrow>
        if n_children n = [] then take (nat i) (n_items n)
        else wl (map inorder (take (nat i) (n_children n))) (take (nat i) (n_items n)))"

definition child_at :: "('k, 'v) node \<Rightarrow> nat \<Rightarrow> ('k, 'v) item list" where
  "child_at n i = (if n_children n = [] then [] else inorder (n_children n ! i))"

definition ahead_all :: "('k, 'v) cursorStack \<Rightarrow> ('k, 'v) item list" where
  "ahead_all st = concat (map after_cursor st)"

definition behind_all :: "('k, 'v) cursorStack \<Rightarrow> ('k, 'v) item list" where
  "behind_all st = concat (map (\<lambda>c. rev (before_cursor c)) st)"

text \<open>The items that an ascending and a descending iterator still have to visit.\<close>

definition ahead :: "('k, 'v) Iterator \<Rightarrow> ('k, 'v) item list" where
  "ahead it =
     (case it_cursors it of
        [] \<Rightarrow> []
      | c # st \<Rightarrow> (if it_stay it then after_cursor c else tl (after_cursor c)) @ ahead_all st)"

definition behind :: "('k, 'v) Iterator \<Rightarrow> ('k, 'v) item list" where
  "behind it =
     (case it_cursors it of
        [] \<Rightarrow> []
      | (n, i) # st \<Rightarrow>
          (if it_stay it then rev (before_cursor (n, i + 1))
           else rev (child_at n (nat i)) @ rev (before_cursor (n, i))) @ behind_all st)"

definition cursor_ok :: "nat \<Rightarrow> ('k, 'v) cursor \<Rightarrow> bool" where
  "cursor_ok d c \<longleftrightarrow> (case c of (n, i) \<Rightarrow> (\<exists>h. node_ok d h n) \<and> 0 \<le> i \<and> i \<le> int (length (n_items n)))"

text \<open>The item under the top cursor is the current one; only a leaf's cursor can be past its last item.\<close>

definition on_item :: "('k, 'v) cursorStack \<Rightarrow> bool" where
  "on_item st \<longleftrightarrow> (case st of [] \<Rightarrow> False | (n, i) # _ \<Rightarrow> i < int (length (n_items n)))"

definition iter_ok :: "nat \<Rightarrow> ('k, 'v) Iterator \<Rightarrow> bool" where
  "iter_ok d it \<longleftrightarrow>
     (\<forall>c\<in>set (it_cursors it). cursor_ok d c)
   \<and> (it_cursors it \<noteq> [] \<longrightarrow> on_item (it_cursors it) \<or> \<not> it_stay it \<and> n_children (fst (hd (it_cursors it))) = [])"

lemma ahead_all_simps [simp]: "ahead_all [] = []" "ahead_all (c # st) = after_cursor c @ ahead_all st"
  by (simp_all add: ahead_all_def)

lemma behind_all_simps [simp]: "behind_all [] = []" "behind_all (c # st) = rev (before_cursor c) @ behind_all st"
  by (simp_all add: behind_all_def)

lemma wr_Nil [simp]: "wr [] bs = []"
  by (simp add: wr_def)

lemma wl_Nil [simp]: "wl as [] = []"
  by (simp add: wl_def)

section \<open>The pieces of a node\<close>

lemma cursor_split:
  assumes "node_ok d h n" "i \<le> length (n_items n)"
  shows "inorder n = before_cursor (n, int i) @ child_at n i @ after_cursor (n, int i)"
proof (cases h)
  case 0
  then show ?thesis using assms by (cases n) (simp add: before_cursor_def child_at_def after_cursor_def)
next
  case (Suc h')
  obtain its cs sz w where n: "n = Node its cs sz w" by (cases n)
  have len: "length cs = Suc (length its)" "i \<le> length its" using assms by (auto simp: n Suc)
  have cs: "take i cs @ cs ! i # drop (Suc i) cs = cs" "cs \<noteq> []" using len by (auto simp: id_take_nth_drop [symmetric])
  from inorder_split [of "take i cs" "take i its" "drop (Suc i) cs" "drop i its" "cs ! i" sz w] len
  show ?thesis using cs by (simp add: n before_cursor_def child_at_def after_cursor_def)
qed

lemma after_step:
  assumes "node_ok d h n" "i < length (n_items n)"
  shows "after_cursor (n, int i) = n_items n ! i # child_at n (Suc i) @ after_cursor (n, int i + 1)"
proof (cases h)
  case 0
  then show ?thesis using assms by (cases n) (simp add: child_at_def after_cursor_def Cons_nth_drop_Suc nat_add_distrib)
next
  case (Suc h')
  then have "n_children n \<noteq> []" "Suc i < length (n_children n)" using assms by (cases n; auto)+
  with assms(2) show ?thesis
    using Cons_nth_drop_Suc [of i "n_items n"] Cons_nth_drop_Suc [of "Suc i" "n_children n"]
    by (simp add: child_at_def after_cursor_def nat_add_distrib)
       (metis list.simps(9) wr_simps(2))
qed

lemma before_step:
  assumes "node_ok d h n" "i < length (n_items n)"
  shows "before_cursor (n, int i + 1) = before_cursor (n, int i) @ child_at n i @ [n_items n ! i]"
proof (cases h)
  case 0
  then show ?thesis using assms by (cases n) (simp add: child_at_def before_cursor_def take_Suc_conv_app_nth nat_add_distrib)
next
  case (Suc h')
  then have "n_children n \<noteq> []" "i < length (n_children n)" using assms by (cases n; auto)+
  with assms(2) show ?thesis
    by (simp add: child_at_def before_cursor_def nat_add_distrib take_Suc_conv_app_nth)
qed

lemma child_ok:
  assumes "node_ok d (Suc h) n" "i \<le> length (n_items n)"
  shows "i < length (n_children n)" "node_ok d h (n_children n ! i)" "child_at n i = inorder (n_children n ! i)"
proof -
  show i: "i < length (n_children n)" using assms by (cases n) auto
  then show "node_ok d h (n_children n ! i)" using assms(1) nth_mem [OF i] by (cases n) auto
  show "child_at n i = inorder (n_children n ! i)" using i by (auto simp: child_at_def)
qed

lemma cursor_ends:
  "node_ok d h n \<Longrightarrow> child_at n 0 @ after_cursor (n, 0) = inorder n"
  "node_ok d h n \<Longrightarrow> before_cursor (n, int (length (n_items n))) @ child_at n (length (n_items n)) = inorder n"
proof -
  assume n: "node_ok d h n"
  have "before_cursor (n, 0) = []" by (simp add: before_cursor_def)
  then show "child_at n 0 @ after_cursor (n, 0) = inorder n" using cursor_split [OF n, of 0] by simp
  have "after_cursor (n, int (length (n_items n))) = []" by (simp add: after_cursor_def)
  then show "before_cursor (n, int (length (n_items n))) @ child_at n (length (n_items n)) = inorder n"
    using cursor_split [OF n, of "length (n_items n)"] by simp
qed

section \<open>Moving\<close>

lemma inc_down_ok:
  assumes "node_ok d h n" "0 \<le> i" "i \<le> int (length (n_items n))" "\<forall>c\<in>set st. cursor_ok d c"
  shows "\<exists>st'. inc_down n i ((n, i) # st) = Some st' \<and> (\<forall>c\<in>set st'. cursor_ok d c)
           \<and> ahead_all st' = child_at n (nat i) @ after_cursor (n, i) @ ahead_all st"
  using assms
proof (induction h arbitrary: n i st)
  case 0
  then show ?case by (cases n) (auto simp: child_at_def cursor_ok_def intro!: exI [of _ 0])
next
  case (Suc h)
  let ?c = "n_children n ! nat i"
  have i: "nat i \<le> length (n_items n)" using Suc.prems by simp
  note c = child_ok [OF Suc.prems(1) i]
  have ok: "\<forall>c\<in>set ((n, i) # st). cursor_ok d c" using Suc.prems by (auto simp: cursor_ok_def)
  from Suc.IH [OF c(2) _ _ ok, of 0] obtain st' where
    "inc_down ?c 0 ((?c, 0) # (n, i) # st) = Some st'" "\<forall>c\<in>set st'. cursor_ok d c"
    "ahead_all st' = (child_at ?c 0 @ after_cursor (?c, 0)) @ after_cursor (n, i) @ ahead_all st" by auto
  then show ?case
    using c Suc.prems(2) cursor_ends(1) [OF c(2)] by (cases n) (auto simp: cs_push_def)
qed

lemma inc_up_ok:
  assumes "\<forall>c\<in>set st. cursor_ok d c"
  shows "ahead_all (inc_up st) = ahead_all st \<and> (\<forall>c\<in>set (inc_up st). cursor_ok d c)
       \<and> (inc_up st \<noteq> [] \<longrightarrow> on_item (inc_up st))"
  using assms by (induction st rule: inc_up.induct) (auto simp: after_cursor_def on_item_def)

lemma dec_down_ok:
  assumes "node_ok d h n" "0 \<le> i" "i \<le> int (length (n_items n))" "\<forall>c\<in>set st. cursor_ok d c"
  shows "\<exists>st'. dec_down n i ((n, i) # st) = Some st' \<and> (\<forall>c\<in>set st'. cursor_ok d c)
           \<and> behind_all st' = rev (child_at n (nat i)) @ rev (before_cursor (n, i)) @ behind_all st"
  using assms
proof (induction h arbitrary: n i st)
  case 0
  then show ?case by (cases n) (auto simp: child_at_def cursor_ok_def intro!: exI [of _ 0])
next
  case (Suc h)
  let ?c = "n_children n ! nat i"
  let ?l = "int (length (n_items ?c))"
  have i: "nat i \<le> length (n_items n)" using Suc.prems by simp
  note c = child_ok [OF Suc.prems(1) i]
  have ok: "\<forall>c\<in>set ((n, i) # st). cursor_ok d c" using Suc.prems by (auto simp: cursor_ok_def)
  from Suc.IH [OF c(2) _ _ ok, of ?l] obtain st' where
    "dec_down ?c ?l ((?c, ?l) # (n, i) # st) = Some st'" "\<forall>c\<in>set st'. cursor_ok d c"
    "behind_all st' = rev (before_cursor (?c, ?l) @ child_at ?c (nat ?l)) @ rev (before_cursor (n, i)) @ behind_all st" by auto
  then show ?case
    using c Suc.prems(2) arg_cong [OF cursor_ends(2) [OF c(2)], of rev] by (cases n) (auto simp: cs_push_def)
qed

lemma dec_up_ok:
  assumes "\<forall>c\<in>set st. cursor_ok d c" "st' = dec_up (cs_incTop (- 1) st)"
  shows "behind_all st = (case st' of [] \<Rightarrow> [] | (n, i) # r \<Rightarrow> rev (before_cursor (n, i + 1)) @ behind_all r)
       \<and> (\<forall>c\<in>set st'. cursor_ok d c) \<and> (st' \<noteq> [] \<longrightarrow> on_item st')"
  using assms
proof (induction st arbitrary: st')
  case (Cons c st)
  obtain n i where c: "c = (n, i)" "0 \<le> i" "i \<le> int (length (n_items n))" "\<exists>h. node_ok d h n"
    using Cons.prems(1) by (cases c) (auto simp: cursor_ok_def)
  show ?case
  proof (cases "i = 0")
    case True
    then have "before_cursor c = []" "st' = dec_up (cs_incTop (- 1) st)"
      using Cons.prems(2) by (simp_all add: c before_cursor_def cs_incTop_def)
    with Cons.IH [of st'] Cons.prems(1) show ?thesis by simp
  next
    case False
    then have "st' = (n, i - 1) # st" using Cons.prems(2) c by (simp add: cs_incTop_def)
    with Cons.prems(1) c False show ?thesis by (auto simp: on_item_def cursor_ok_def)
  qed
qed (simp add: cs_incTop_def)

section \<open>Next\<close>

text \<open>\<^verbatim>\<open>Next\<close> of an ascending and of a descending iterator: it reports whether an item is left, takes it, and
  keeps its index.\<close>

definition takes :: "('k, 'v) item list \<Rightarrow> ('k, 'v) item list \<Rightarrow> ('k, 'v) Iterator \<Rightarrow> bool \<Rightarrow> bool" where
  "takes xs xs' it' ok \<longleftrightarrow>
     ok = (xs \<noteq> []) \<and> xs' = tl xs \<and> (ok \<longrightarrow> it_Item it' = Some (hd xs) \<and> \<not> it_stay it' \<and> it_cursors it' \<noteq> [])"

lemma top_on_item:
  assumes "cursor_ok d (n, i)" "on_item ((n, i) # st)"
  obtains h j where "node_ok d h n" "i = int j" "j < length (n_items n)" "nat i = j"
  using assms that by (auto simp: cursor_ok_def on_item_def zless_nat_conj nat_less_iff dest!: zero_le_imp_eq_int)

lemma Next_stay:
  assumes "iter_ok d it" "it_stay it" "it_cursors it \<noteq> []"
  obtains m where "it_Next it = Some (it\<lparr>it_stay := False, it_Item := Some m\<rparr>, True)"
    "ahead it = m # ahead (it\<lparr>it_stay := False, it_Item := Some m\<rparr>)"
    "behind it = m # behind (it\<lparr>it_stay := False, it_Item := Some m\<rparr>)"
    "iter_ok d (it\<lparr>it_stay := False, it_Item := Some m\<rparr>)"
proof -
  obtain n i st where st: "it_cursors it = (n, i) # st" using assms(3) by (cases "it_cursors it") auto
  have "cursor_ok d (n, i)" "on_item ((n, i) # st)" using assms st by (auto simp: iter_ok_def)
  then obtain h j where j: "node_ok d h n" "i = int j" "j < length (n_items n)" "nat i = j" by (rule top_on_item)
  show thesis
    by (rule that [of "n_items n ! j"])
       (use assms st j after_step [OF j(1,3)] before_step [OF j(1,3)] in
         \<open>auto simp: it_Next_def iter_ok_def ahead_def behind_def on_item_def\<close>)
qed

lemma Next_inc:
  assumes "iter_ok d it" "\<not> it_stay it" "\<not> it_descending it" "it_cursors it \<noteq> []"
  obtains it' where "it_Next it = Some (it', ahead it \<noteq> [])" "iter_ok d it'" "takes (ahead it) (ahead it') it' (ahead it \<noteq> [])"
    "\<not> it_descending it'" "it_Index it' = it_Index it + 1" "\<not> it_stay it'"
proof -
  obtain n i st where st: "it_cursors it = (n, i) # st" using assms(4) by (cases "it_cursors it") auto
  have ok: "cursor_ok d (n, i)" "\<forall>c\<in>set st. cursor_ok d c" using assms(1) st by (auto simp: iter_ok_def)
  obtain st1 where d: "inc_down n (i + 1) ((n, i + 1) # st) = Some st1" "ahead_all (inc_up st1) = ahead it"
    "\<forall>c\<in>set (inc_up st1). cursor_ok d c" "inc_up st1 \<noteq> [] \<longrightarrow> on_item (inc_up st1)"
  proof (cases "on_item ((n, i) # st)")
    case True
    then obtain h j where j: "node_ok d h n" "i = int j" "j < length (n_items n)" "nat i = j" by (rule top_on_item [OF ok(1)])
    from inc_down_ok [OF j(1) _ _ ok(2), of "i + 1"] j obtain st1 where s:
      "inc_down n (i + 1) ((n, i + 1) # st) = Some st1" "\<forall>c\<in>set st1. cursor_ok d c"
      "ahead_all st1 = child_at n (nat (i + 1)) @ after_cursor (n, i + 1) @ ahead_all st" by auto
    have "nat (i + 1) = Suc j" using j by auto
    then have "ahead_all st1 = ahead it" using s(3) after_step [OF j(1,3)] assms(2) by (simp add: ahead_def st j(2))
    with that s inc_up_ok [OF s(2)] show thesis by auto
  next
    case False
    then have leaf: "n_children n = []" and i: "i \<ge> int (length (n_items n))"
      using assms(1) st by (auto simp: iter_ok_def on_item_def)
    then have "inc_down n (i + 1) ((n, i + 1) # st) = Some ((n, i + 1) # st)" by (cases n) simp
    moreover have "inc_up ((n, i + 1) # st) = inc_up st" using i by simp
    moreover have "ahead it = ahead_all st" using leaf i assms(2) by (simp add: ahead_def st after_cursor_def)
    ultimately show thesis using that inc_up_ok [OF ok(2)] by auto
  qed
  have inc: "it_inc it = Some (it\<lparr>it_Index := it_Index it + 1, it_cursors := inc_up st1\<rparr>, inc_up st1 \<noteq> [])"
    using d(1) by (simp add: it_inc_def st cs_incTop_def Let_def)
  show thesis
  proof (cases "inc_up st1")
    case Nil
    then have "ahead it = []" using d(2) by simp
    with Nil show thesis
      by (intro that [of "it\<lparr>it_Index := it_Index it + 1, it_cursors := []\<rparr>"])
         (use assms inc in \<open>auto simp: it_Next_def iter_ok_def takes_def ahead_def\<close>)
  next
    case (Cons c st2)
    obtain m j where c: "c = (m, j)" by fastforce
    have "cursor_ok d (m, j)" "on_item ((m, j) # st2)" using d(3,4) Cons c by auto
    then obtain h l where j: "node_ok d h m" "j = int l" "l < length (n_items m)" "nat j = l" by (rule top_on_item)
    have a: "ahead it = n_items m ! l # tl (after_cursor (m, j)) @ ahead_all st2"
      using d(2) after_step [OF j(1,3)] by (simp add: Cons c j(2))
    show thesis
      by (rule that [of "it\<lparr>it_Index := it_Index it + 1, it_cursors := (m, j) # st2, it_Item := Some (n_items m ! l)\<rparr>"])
         (use assms(2-4) inc Cons c j d(3,4) in \<open>auto simp: it_Next_def iter_ok_def takes_def a\<close>, simp_all add: ahead_def assms(2))
  qed
qed


lemma Next_dec:
  assumes "iter_ok d it" "\<not> it_stay it" "it_descending it" "it_cursors it \<noteq> []"
  obtains it' where "it_Next it = Some (it', behind it \<noteq> [])" "iter_ok d it'" "takes (behind it) (behind it') it' (behind it \<noteq> [])"
    "it_descending it'" "it_Index it' = it_Index it - 1" "\<not> it_stay it'"
proof -
  obtain n i st where st: "it_cursors it = (n, i) # st" using assms(4) by (cases "it_cursors it") auto
  have ok: "\<forall>c\<in>set st. cursor_ok d c" using assms(1) st by (auto simp: iter_ok_def)
  obtain h where n: "node_ok d h n" "0 \<le> i" "i \<le> int (length (n_items n))" using assms(1) st by (auto simp: iter_ok_def cursor_ok_def)
  obtain st1 where d: "dec_down n i ((n, i) # st) = Some st1" "\<forall>c\<in>set st1. cursor_ok d c" "behind_all st1 = behind it"
    using dec_down_ok [OF n ok] assms(2) by (auto simp: behind_def st)
  define st2 where "st2 = dec_up (cs_incTop (- 1) st1)"
  note u = dec_up_ok [OF d(2) st2_def]
  have dec: "it_dec it = Some (it\<lparr>it_Index := it_Index it - 1, it_cursors := st2\<rparr>, st2 \<noteq> [])"
    using d(1) by (simp add: it_dec_def st st2_def Let_def)
  show thesis
  proof (cases st2)
    case Nil
    then have "behind it = []" using d(3) u by simp
    with Nil show thesis
      by (intro that [of "it\<lparr>it_Index := it_Index it - 1, it_cursors := []\<rparr>"])
         (use assms dec in \<open>auto simp: it_Next_def iter_ok_def takes_def behind_def\<close>)
  next
    case (Cons c st3)
    obtain m j where c: "c = (m, j)" by fastforce
    have "cursor_ok d (m, j)" "on_item ((m, j) # st3)" using u Cons c by auto
    then obtain h l where j: "node_ok d h m" "j = int l" "l < length (n_items m)" "nat j = l" by (rule top_on_item)
    have a: "behind it = n_items m ! l # (rev (child_at m l) @ rev (before_cursor (m, j))) @ behind_all st3"
      using d(3) u before_step [OF j(1,3)] by (simp add: Cons c j(2))
    show thesis
      by (rule that [of "it\<lparr>it_Index := it_Index it - 1, it_cursors := (m, j) # st3, it_Item := Some (n_items m ! l)\<rparr>"])
         (use assms(2-4) dec Cons c j u in \<open>auto simp: it_Next_def iter_ok_def takes_def a\<close>, simp_all add: behind_def assms(2) j)
  qed
qed

section \<open>Running an iterator\<close>

text \<open>Call \<^verbatim>\<open>Next\<close> until it reports the end, collecting \<^verbatim>\<open>Item\<close> and \<^verbatim>\<open>Index\<close>; \<open>None\<close> when the number of calls allowed is not
  enough.\<close>

fun iterate :: "nat \<Rightarrow> ('k, 'v) Iterator \<Rightarrow> (('k, 'v) item option \<times> int) list option" where
  "iterate 0 it = None"
| "iterate (Suc fuel) it =
     (case it_Next it of
        None \<Rightarrow> None
      | Some (it', ok) \<Rightarrow>
          if ok then map_option (Cons (it_Item it', it_Index it')) (iterate fuel it') else Some [])"

fun numbered :: "int \<Rightarrow> int \<Rightarrow> 'a list \<Rightarrow> ('a option \<times> int) list" where
  "numbered start step [] = []"
| "numbered start step (x # xs) = (Some x, start) # numbered (start + step) step xs"

lemma iterate_ascending:
  assumes "iter_ok d it" "\<not> it_descending it"
  shows "iterate (Suc (length (ahead it))) it = Some (numbered (if it_stay it then it_Index it else it_Index it + 1) 1 (ahead it))"
  using assms
proof (induction "length (ahead it)" arbitrary: it)
  case 0
  then have "ahead it = []" by simp
  show ?case
  proof (cases "it_cursors it = []")
    case False
    then have "\<not> it_stay it" using Next_stay [OF 0(2) _ False] \<open>ahead it = []\<close> by force
    from Next_inc [OF 0(2) this 0(3) False] \<open>ahead it = []\<close> show ?thesis by force
  qed (simp add: it_Next_def \<open>ahead it = []\<close>)
next
  case (Suc l)
  then have ne: "it_cursors it \<noteq> []" "ahead it \<noteq> []" by (auto simp: ahead_def)
  show ?case
  proof (cases "it_stay it")
    case True
    obtain m where m: "it_Next it = Some (it\<lparr>it_stay := False, it_Item := Some m\<rparr>, True)"
      "ahead it = m # ahead (it\<lparr>it_stay := False, it_Item := Some m\<rparr>)"
      "iter_ok d (it\<lparr>it_stay := False, it_Item := Some m\<rparr>)"
      using Next_stay [OF Suc.prems(1) True ne(1)] by metis
    from Suc.hyps(1) [OF _ m(3)] Suc.hyps(2) Suc.prems(2) show ?thesis
      unfolding m(2) by (simp add: m(1) True)
  next
    case False
    obtain it' where i: "it_Next it = Some (it', True)" "iter_ok d it'" "takes (ahead it) (ahead it') it' True"
      "\<not> it_descending it'" "it_Index it' = it_Index it + 1" "\<not> it_stay it'"
      by (rule Next_inc [OF Suc.prems(1) False Suc.prems(2) ne(1)]) (rule that, use ne(2) in simp_all)
    then obtain x where a: "ahead it = x # ahead it'" "it_Item it' = Some x" using ne(2) by (cases "ahead it") (auto simp: takes_def)
    then have "l = length (ahead it')" using Suc.hyps(2) by simp
    from Suc.hyps(1) [OF this i(2,4)] a(2) i(5,6) show ?thesis
      unfolding a(1) by (simp add: i(1) False)
  qed
qed

lemma iterate_descending:
  assumes "iter_ok d it" "it_descending it"
  shows "iterate (Suc (length (behind it))) it = Some (numbered (if it_stay it then it_Index it else it_Index it - 1) (- 1) (behind it))"
  using assms
proof (induction "length (behind it)" arbitrary: it)
  case 0
  then have "behind it = []" by simp
  show ?case
  proof (cases "it_cursors it = []")
    case False
    then have "\<not> it_stay it" using Next_stay [OF 0(2) _ False] \<open>behind it = []\<close> by force
    from Next_dec [OF 0(2) this 0(3) False] \<open>behind it = []\<close> show ?thesis by force
  qed (simp add: it_Next_def \<open>behind it = []\<close>)
next
  case (Suc l)
  then have ne: "it_cursors it \<noteq> []" "behind it \<noteq> []" by (auto simp: behind_def)
  show ?case
  proof (cases "it_stay it")
    case True
    obtain m where m: "it_Next it = Some (it\<lparr>it_stay := False, it_Item := Some m\<rparr>, True)"
      "behind it = m # behind (it\<lparr>it_stay := False, it_Item := Some m\<rparr>)"
      "iter_ok d (it\<lparr>it_stay := False, it_Item := Some m\<rparr>)"
      using Next_stay [OF Suc.prems(1) True ne(1)] by metis
    from Suc.hyps(1) [OF _ m(3)] Suc.hyps(2) Suc.prems(2) show ?thesis
      unfolding m(2) by (simp add: m(1) True)
  next
    case False
    obtain it' where i: "it_Next it = Some (it', True)" "iter_ok d it'" "takes (behind it) (behind it') it' True"
      "it_descending it'" "it_Index it' = it_Index it - 1" "\<not> it_stay it'"
      by (rule Next_dec [OF Suc.prems(1) False Suc.prems(2) ne(1)]) (rule that, use ne(2) in simp_all)
    then obtain x where a: "behind it = x # behind it'" "it_Item it' = Some x" using ne(2) by (cases "behind it") (auto simp: takes_def)
    then have "l = length (behind it')" using Suc.hyps(2) by simp
    from Suc.hyps(1) [OF this i(2,4)] a(2) i(5,6) show ?thesis
      unfolding a(1) by (simp add: i(1) False)
  qed
qed

lemma iterate_mono: "iterate f it = Some r \<Longrightarrow> f \<le> g \<Longrightarrow> iterate g it = Some r"
proof (induction f arbitrary: g it r)
  case (Suc f)
  then obtain g' where g: "g = Suc g'" "f \<le> g'" by (cases g) auto
  from Suc.prems(1) obtain it' b where n: "it_Next it = Some (it', b)" by (auto split: option.splits)
  show ?case
  proof (cases b)
    case True
    then obtain r' where "iterate f it' = Some r'" "r = (it_Item it', it_Index it') # r'" using Suc.prems(1) n by auto
    with Suc.IH [OF _ g(2)] show ?thesis using n True g(1) by simp
  qed (use Suc.prems(1) n g(1) in simp)
qed simp

section \<open>Starting positions\<close>

definition from_key :: "('k \<Rightarrow> 'k \<Rightarrow> bool) \<Rightarrow> 'k \<Rightarrow> ('k, 'v) item list \<Rightarrow> ('k, 'v) item list" where
  "from_key lt k xs = filter (\<lambda>x. \<not> lt (fst x) k) xs"

definition upto_key :: "('k \<Rightarrow> 'k \<Rightarrow> bool) \<Rightarrow> 'k \<Rightarrow> ('k, 'v) item list \<Rightarrow> ('k, 'v) item list" where
  "upto_key lt k xs = filter (\<lambda>x. \<not> lt k (fst x)) xs"

text \<open>What a stack for a key has to satisfy.\<close>

definition key_stack ::
  "('k \<Rightarrow> 'k \<Rightarrow> bool) \<Rightarrow> nat \<Rightarrow> 'k \<Rightarrow> ('k, 'v) item list \<Rightarrow> ('k, 'v) cursorStack \<Rightarrow> ('k, 'v) cursorStack \<Rightarrow> bool \<Rightarrow> int \<Rightarrow> bool" where
  "key_stack lt d k xs st st' found idx \<longleftrightarrow>
     (\<forall>c\<in>set st'. cursor_ok d c) \<and> st' \<noteq> [] \<and> found = (spec_find lt k xs \<noteq> None) \<and> idx = spec_rank lt k xs
   \<and> ahead_all st' = from_key lt k xs @ ahead_all st
   \<and> (if found then on_item st' \<and> rev (before_cursor (fst (hd st'), snd (hd st') + 1)) @ behind_all (tl st') = rev (upto_key lt k xs) @ behind_all st
      else n_children (fst (hd st')) = [] \<and> behind_all st' = rev (upto_key lt k xs) @ behind_all st)"

context strict_weak_order
begin

lemma key_between:
  assumes "\<forall>x\<in>set l. lt (fst x) k" "\<forall>x\<in>set r. lt k (fst x)"
  shows "from_key lt k (l @ m @ r) = from_key lt k m @ r" "upto_key lt k (l @ m @ r) = l @ upto_key lt k m"
proof -
  have "filter (\<lambda>x. \<not> lt (fst x) k) l = []" "filter (\<lambda>x. \<not> lt k (fst x)) l = l"
    "filter (\<lambda>x. \<not> lt (fst x) k) r = r" "filter (\<lambda>x. \<not> lt k (fst x)) r = []"
    using assms asym by (auto simp: filter_empty_conv filter_id_conv)
  then show "from_key lt k (l @ m @ r) = from_key lt k m @ r" "upto_key lt k (l @ m @ r) = l @ upto_key lt k m"
    by (simp_all add: from_key_def upto_key_def)
qed

lemma key_found:
  assumes "sorted_items lt (l @ y # r)" "eqv lt k (fst y)"
  shows "from_key lt k (l @ y # r) = y # r" "upto_key lt k (l @ y # r) = l @ [y]"
proof -
  from key_between [OF around_found [OF assms], of "[y]"] assms(2)
  show "from_key lt k (l @ y # r) = y # r" "upto_key lt k (l @ y # r) = l @ [y]"
    by (simp_all add: from_key_def upto_key_def eqv_def)
qed

lemma length_upto_key:
  assumes "sorted_items lt xs"
  shows "int (length (upto_key lt k xs)) = spec_rank lt k xs + (if spec_find lt k xs = None then 0 else 1)"
proof (cases "spec_find lt k xs")
  case None
  then have "upto_key lt k xs = filter (\<lambda>y. lt (fst y) k) xs"
    using asym by (auto simp: upto_key_def spec_find_def find_None_iff eqv_def intro!: filter_cong)
  with None show ?thesis by (simp add: spec_rank_def)
next
  case (Some y)
  then obtain i where "i < length xs" "eqv lt k (fst (xs ! i))" by (auto simp: spec_find_def find_Some_iff)
  then obtain us z vs where xs: "xs = us @ z # vs" "eqv lt k (fst z)" by (metis id_take_nth_drop)
  from spec_found(2,3) [OF assms [unfolded xs(1)] xs(2)] key_found(2) [OF assms [unfolded xs(1)] xs(2)]
  show ?thesis by (simp add: xs(1))
qed

lemma cursor_smaller:
  assumes "sorted_items lt (inorder n)" "node_ok d h n" "i \<le> length (n_items n)"
    and "\<forall>x\<in>set (take i (n_items n)). lt (fst x) k" "\<forall>x\<in>set (drop i (n_items n)). lt k (fst x)"
  shows "\<forall>x\<in>set (before_cursor (n, int i)). lt (fst x) k" "\<forall>x\<in>set (after_cursor (n, int i)). lt k (fst x)"
    "sorted_items lt (child_at n i)"
proof -
  have s: "sorted_items lt (before_cursor (n, int i))" "sorted_items lt (after_cursor (n, int i))" "sorted_items lt (child_at n i)"
    using assms(1) cursor_split [OF assms(2,3)] by (simp_all add: sorted_items_def sorted_wrt_append)
  have len: "n_children n \<noteq> [] \<Longrightarrow> length (n_children n) = Suc (length (n_items n))" using assms(2) by (cases n; cases h) auto
  show "\<forall>x\<in>set (before_cursor (n, int i)). lt (fst x) k"
    using assms(3,4) s(1) len wl_smaller [of "map inorder (take i (n_children n))" "take i (n_items n)" k]
    by (cases "n_children n = []") (simp_all add: before_cursor_def min_def)
  show "\<forall>x\<in>set (after_cursor (n, int i)). lt k (fst x)"
    using assms(3,5) s(2) len wr_greater [of "drop i (n_items n)" "map inorder (drop (Suc i) (n_children n))" k]
    by (cases "n_children n = []") (simp_all add: after_cursor_def)
  show "sorted_items lt (child_at n i)" by (rule s(3))
qed

lemma length_before:
  assumes "node_ok d (Suc h) n" "i \<le> length (n_items n)"
  shows "partialSize i n = int (length (before_cursor (n, int i)))"
proof -
  obtain its cs sz w where n: "n = Node its cs sz w" by (cases n)
  have len: "length cs = Suc (length its)" "i \<le> length its" "cs \<noteq> []" using assms by (auto simp: n)
  have "\<forall>x\<in>set (take i cs). node_ok d h x" using assms(1) by (auto simp: n dest: in_set_takeD)
  from length_left [OF this, of "take i its"] len show ?thesis
    by (simp add: n partialSize_take before_cursor_def min_def)
qed

text \<open>The key is in this node, or the child to descend to is between the smaller and the greater items.\<close>

lemma key_stack_found:
  assumes "node_ok d h n" "sorted_items lt (inorder n)" "\<forall>c\<in>set st. cursor_ok d c"
    and "i < length (n_items n)" "eqv lt k (fst (n_items n ! i))"
  shows "key_stack lt d k (inorder n) st ((n, int i) # st) True (itemIndex i n)"
proof -
  let ?y = "n_items n ! i"
  have ord: "inorder n = (before_cursor (n, int i) @ child_at n i) @ ?y # child_at n (Suc i) @ after_cursor (n, int i + 1)"
    using cursor_split [OF assms(1), of i] after_step [OF assms(1,4)] assms(4) by simp
  note f = key_found [OF assms(2) [unfolded ord] assms(5)]
  obtain xs ys cs sz w where n: "n = Node (xs @ ?y # ys) cs sz w" "length xs = i"
    using id_take_nth_drop [OF assms(4)] assms(4) by (cases n) (metis length_take min.absorb4 node.sel(1))
  have "itemIndex i n = spec_rank lt k (inorder n)" "spec_find lt k (inorder n) = Some ?y"
    using found_here(2,3) [of d h xs ?y ys cs sz w k] assms(1,2,5) n by metis+
  then show ?thesis
    using assms(1,3,4) f ord after_step [OF assms(1,4)] before_step [OF assms(1,4)]
    by (auto simp: key_stack_def cursor_ok_def on_item_def)
qed

lemma cursorStackForKey_ok:
  assumes "node_ok d h n" "sorted_items lt (inorder n)" "\<forall>c\<in>set st. cursor_ok d c"
  shows "\<exists>st' found idx. cursorStackForKey k lt st n = Some (st', found, idx) \<and> key_stack lt d k (inorder n) st st' found idx"
  using assms
proof (induction h arbitrary: n st)
  case (0 n st)
  then have leaf: "n_children n = []" by (cases n) auto
  obtain i found where f: "items_find lt k (n_items n) = (i, found)" by fastforce
  note c = find_correct [OF items_sorted [OF 0(1,2)] f]
  show ?case
  proof (cases found)
    case True
    from key_stack_found [OF 0 c(3,4) [OF True]] show ?thesis
      using f True leaf by (cases n) (auto simp: cs_push_def itemIndex_def)
  next
    case False
    have b: "\<forall>x\<in>set (take i (n_items n)). lt (fst x) k" "\<forall>x\<in>set (drop i (n_items n)). lt k (fst x)" using c(2) c(6) [OF False] by auto
    have ord: "inorder n = take i (n_items n) @ [] @ drop i (n_items n)" using leaf by (cases n) simp
    have "key_stack lt d k (inorder n) st ((n, int i) # st) False (int i)"
      unfolding key_stack_def ord spec_between(2,3) [OF b] key_between [OF b]
      using 0(1,3) leaf c(1) by (auto simp: cursor_ok_def after_cursor_def before_cursor_def spec_find_def spec_rank_def
          from_key_def upto_key_def)
    then show ?thesis using f False leaf by (cases n) (auto simp: cs_push_def)
  qed
next
  case (Suc h n st)
  obtain i found where f: "items_find lt k (n_items n) = (i, found)" by fastforce
  note c = find_correct [OF items_sorted [OF Suc.prems(1,2)] f]
  note ch = child_ok [OF Suc.prems(1) c(1)]
  have inner: "n_children n \<noteq> []" using ch(1) by auto
  show ?case
  proof (cases found)
    case True
    from key_stack_found [OF Suc.prems c(3,4) [OF True]] show ?thesis
      using f True inner by (cases n) (auto simp: cs_push_def itemIndex_def)
  next
    case False
    have b: "\<forall>x\<in>set (take i (n_items n)). lt (fst x) k" "\<forall>x\<in>set (drop i (n_items n)). lt k (fst x)" using c(2) c(6) [OF False] by auto
    note s = cursor_smaller [OF Suc.prems(2,1) c(1) b]
    let ?c = "n_children n ! i"
    have "\<forall>c\<in>set ((n, int i) # st). cursor_ok d c" using Suc.prems(1,3) c(1) by (auto simp: cursor_ok_def)
    from Suc.IH [OF ch(2) s(3) [unfolded ch(3)] this] obtain st' found' idx where g:
      "cursorStackForKey k lt ((n, int i) # st) ?c = Some (st', found', idx)"
      "key_stack lt d k (inorder ?c) ((n, int i) # st) st' found' idx" by blast
    have ord: "inorder n = before_cursor (n, int i) @ inorder ?c @ after_cursor (n, int i)"
      using cursor_split [OF Suc.prems(1) c(1)] ch(3) by simp
    have "key_stack lt d k (inorder n) st st' found' (idx + partialSize i n)"
      using g(2) length_before [OF Suc.prems(1) c(1)]
      unfolding key_stack_def ord spec_between(2,3) [OF s(1,2)] key_between [OF s(1,2)] by simp
    then show ?thesis using f False inner g(1) ch(1) by (cases n) (auto simp: cs_push_def)
  qed
qed

end

text \<open>What a stack for the position \<open>p\<close> has to satisfy.\<close>

definition index_stack ::
  "nat \<Rightarrow> ('k, 'v) item list \<Rightarrow> nat \<Rightarrow> ('k, 'v) cursorStack \<Rightarrow> ('k, 'v) cursorStack \<Rightarrow> bool" where
  "index_stack d xs p st st' \<longleftrightarrow>
     (\<forall>c\<in>set st'. cursor_ok d c) \<and> on_item st' \<and> ahead_all st' = drop p xs @ ahead_all st
   \<and> rev (before_cursor (fst (hd st'), snd (hd st') + 1)) @ behind_all (tl st') = rev (take (Suc p) xs) @ behind_all st"

lemma index_stack_here:
  assumes "node_ok d h n" "j < length (n_items n)" "\<forall>c\<in>set st. cursor_ok d c"
  shows "index_stack d (inorder n) (length (before_cursor (n, int j) @ child_at n j)) st ((n, int j) # st)"
  using assms cursor_split [OF assms(1), of j] after_step [OF assms(1,2)] before_step [OF assms(1,2)]
  by (auto simp: index_stack_def cursor_ok_def on_item_def)

lemma index_loop_ok:
  fixes n :: "('k, 'v) node"
  assumes "node_ok d (Suc h) n" "\<forall>c\<in>set st. cursor_ok d c" "j \<le> length (n_items n)"
    and "\<And>(c :: ('k, 'v) node) i st. node_ok d h c \<Longrightarrow> \<forall>c\<in>set st. cursor_ok d c \<Longrightarrow> i < length (inorder c) \<Longrightarrow>
           \<exists>st'. cursorStackForIndex (int i) st c = Some st' \<and> index_stack d (inorder c) i st st'"
    and "length (before_cursor (n, int j)) + i < length (inorder n)"
  shows "\<exists>st'. index_loop (int i) st n j (drop j (n_children n)) = Some st'
           \<and> index_stack d (inorder n) (length (before_cursor (n, int j)) + i) st st'"
  using assms(3,5)
proof (induction "length (n_items n) - j" arbitrary: j i)
  case (0 j i)
  then have j: "j = length (n_items n)" by simp
  note c = child_ok [OF assms(1) 0(2)]
  have cs: "drop j (n_children n) = n_children n ! j # drop (Suc j) (n_children n)" by (simp add: Cons_nth_drop_Suc c(1))
  have ord: "inorder n = before_cursor (n, int j) @ inorder (n_children n ! j) @ after_cursor (n, int j)" "after_cursor (n, int j) = []"
    using cursor_split [OF assms(1) 0(2)] c(3) by (simp_all add: after_cursor_def j)
  have i: "i < length (inorder (n_children n ! j))" using 0(3) ord by simp
  have st: "\<forall>c\<in>set ((n, int j) # st). cursor_ok d c" using assms(1,2) 0(2) by (auto simp: cursor_ok_def)
  from assms(4) [OF c(2) st i] ord i show ?case
    by (auto simp: cs cs_push_def node_ok_size [OF c(2)] index_stack_def)
next
  case (Suc l j i)
  then have j: "j < length (n_items n)" by simp
  note c = child_ok [OF assms(1) Suc(3)]
  let ?c = "n_children n ! j"
  have cs: "drop j (n_children n) = ?c # drop (Suc j) (n_children n)" by (simp add: Cons_nth_drop_Suc c(1))
  have ord: "inorder n = before_cursor (n, int j) @ inorder ?c @ after_cursor (n, int j)"
    using cursor_split [OF assms(1) Suc(3)] c(3) by simp
  have sz: "n_size ?c = int (length (inorder ?c))" by (rule node_ok_size [OF c(2)])
  consider "i < length (inorder ?c)" | "i = length (inorder ?c)" | i' where "i = Suc (length (inorder ?c) + i')"
    by (metis less_iff_Suc_add linorder_cases)
  then show ?case
  proof cases
    case 1
    have st: "\<forall>c\<in>set ((n, int j) # st). cursor_ok d c" using assms(1,2) Suc(3) by (auto simp: cursor_ok_def)
    from assms(4) [OF c(2) st 1] ord 1 show ?thesis by (auto simp: cs cs_push_def sz index_stack_def)
  next
    case 2
    then show ?thesis using index_stack_here [OF assms(1) j assms(2)] c(3) by (auto simp: cs cs_push_def sz)
  next
    case 3
    have len: "length (before_cursor (n, int (Suc j))) + i' = length (before_cursor (n, int j)) + i"
      using before_step [OF assms(1) j] c(3) 3 by (simp add: add.commute)
    have "l = length (n_items n) - Suc j" "Suc j \<le> length (n_items n)" using Suc(2) j by auto
    from Suc(1) [OF this, of i'] Suc(4) len 3 show ?thesis by (simp add: cs sz add.assoc)
  qed
qed

lemma cursorStackForIndex_ok:
  assumes "node_ok d h n" "\<forall>c\<in>set st. cursor_ok d c" "i < length (inorder n)"
  shows "\<exists>st'. cursorStackForIndex (int i) st n = Some st' \<and> index_stack d (inorder n) i st st'"
  using assms
proof (induction h arbitrary: n st i)
  case (0 n st i)
  then have "n_children n = []" "inorder n = n_items n" by (cases n; simp)+
  then show ?case using index_stack_here [OF 0(1) _ 0(2), of i] 0(3)
    by (cases n) (auto simp: cs_push_def before_cursor_def child_at_def min_def)
next
  case (Suc h n st i)
  have "before_cursor (n, int 0) = []" by (simp add: before_cursor_def)
  moreover have "n_children n \<noteq> []" using Suc.prems(1) by (cases n) auto
  ultimately show ?case using index_loop_ok [OF Suc.prems(1,2) _ Suc.IH, of 0 i] Suc.prems(3) by (cases n) simp
qed

section \<open>Iterators of a tree\<close>

lemma ahead_stack:
  assumes "it_cursors it = st" "it_stay it \<or> st = [] \<or> after_cursor (hd st) = []"
  shows "ahead it = ahead_all st"
  using assms by (cases st) (auto simp: ahead_def)

lemma index_iterator:
  assumes "tree_ok t" "0 \<le> i" "i \<le> int (length (elems t))"
  obtains it where "indexIterator i desc t = Some it" "iter_ok (bt_degree t) it" "ahead it = drop (nat i) (elems t)"
    "behind it = (if i = int (length (elems t)) then [] else rev (take (Suc (nat i)) (elems t)))"
    "i < int (length (elems t)) \<longrightarrow> it_stay it \<and> it_Index it = i \<and> it_descending it = desc"
    "i = int (length (elems t)) \<longrightarrow> it = empty_Iterator"
proof (cases "i = int (length (elems t))")
  case True
  then show thesis
    using tree_ok_Len [OF assms(1)] by (intro that [of empty_Iterator])
      (auto simp: indexIterator_def empty_Iterator_def iter_ok_def ahead_def behind_def)
next
  case False
  then have i: "nat i < length (elems t)" "i < int (length (elems t))" using assms by auto
  then obtain r where r: "bt_root t = Some r" "elems t = inorder r" by (auto simp: elems_def split: option.splits)
  obtain h where h: "node_ok (bt_degree t) h r" using assms(1) r by (auto simp: tree_ok_def)
  from cursorStackForIndex_ok [OF h, of "[]" "nat i"] i r assms(2) obtain st where s:
    "cursorStackForIndex i [] r = Some st" "index_stack (bt_degree t) (elems t) (nat i) [] st" by auto
  let ?it = "\<lparr>it_Item = None, it_Index = i, it_cursors = st, it_stay = True, it_descending = desc\<rparr>"
  obtain n j st' where st: "st = (n, j) # st'" using s(2) by (cases st) (auto simp: index_stack_def on_item_def)
  have "indexIterator i desc t = Some ?it"
    using s(1) r(1) i(2) assms(2) tree_ok_Len [OF assms(1)] by (simp add: indexIterator_def)
  moreover have "iter_ok (bt_degree t) ?it" "ahead ?it = drop (nat i) (elems t)" "behind ?it = rev (take (Suc (nat i)) (elems t))"
    using s(2) by (simp_all add: index_stack_def iter_ok_def ahead_def behind_def st)
  ultimately show thesis using that [of ?it] False by simp
qed

context strict_weak_order
begin

lemma Before_ok:
  assumes "tree_ok t" "bt_less t = lt"
  obtains it where "BTree_Before k t = Some it" "iter_ok (bt_degree t) it" "\<not> it_descending it"
    "ahead it = from_key lt k (elems t)"
    "bt_root t \<noteq> None \<longrightarrow> (if it_stay it then it_Index it else it_Index it + 1) = spec_rank lt k (elems t)"
proof (cases "bt_root t")
  case None
  then show thesis by (intro that [of empty_Iterator])
      (auto simp: BTree_Before_def empty_Iterator_def iter_ok_def ahead_def elems_def from_key_def)
next
  case (Some r)
  then obtain h where h: "node_ok (bt_degree t) h r" "sorted_items lt (inorder r)" using assms by (auto simp: tree_ok_def)
  obtain st found idx where s: "cursorStackForKey k lt [] r = Some (st, found, idx)"
    "key_stack lt (bt_degree t) k (inorder r) [] st found idx" using cursorStackForKey_ok [OF h, of "[]" k] by auto
  obtain n i st' where st: "st = (n, i) # st'" using s(2) by (cases st) (auto simp: key_stack_def)
  let ?stay = "found \<or> i < int (length (n_items n))"
  let ?it = "\<lparr>it_Item = None, it_Index = (if ?stay then idx else idx - 1), it_cursors = st, it_stay = ?stay, it_descending = False\<rparr>"
  have k: "\<forall>c\<in>set st. cursor_ok (bt_degree t) c" "found \<longrightarrow> on_item st" "\<not> found \<longrightarrow> n_children n = []"
    "ahead_all st = from_key lt k (inorder r)" "idx = spec_rank lt k (inorder r)"
    using s(2) by (auto simp: key_stack_def st split: if_splits)
  have "BTree_Before k t = Some ?it" using s(1) Some assms(2) by (simp add: BTree_Before_def st Let_def)
  moreover have "iter_ok (bt_degree t) ?it" using k(1-3) by (auto simp: iter_ok_def st on_item_def)
  moreover have "ahead ?it = from_key lt k (elems t)"
    using k(3,4) by (subst ahead_stack [of _ st]) (auto simp: st elems_def Some after_cursor_def)
  ultimately show thesis using that [of ?it] k(5) by (auto simp: elems_def Some)
qed

lemma After_ok:
  assumes "tree_ok t" "bt_less t = lt"
  obtains it where "BTree_After k t = Some it" "iter_ok (bt_degree t) it" "it_descending it \<or> it = empty_Iterator"
    "behind it = rev (upto_key lt k (elems t))"
    "bt_root t \<noteq> None \<longrightarrow> (if it_stay it then it_Index it else it_Index it - 1) = int (length (upto_key lt k (elems t))) - 1"
    "bt_root t \<noteq> None \<longrightarrow> it_descending it"
proof (cases "bt_root t")
  case None
  then show thesis by (intro that [of empty_Iterator])
      (auto simp: BTree_After_def empty_Iterator_def iter_ok_def behind_def elems_def upto_key_def)
next
  case (Some r)
  then obtain h where h: "node_ok (bt_degree t) h r" "sorted_items lt (inorder r)" using assms by (auto simp: tree_ok_def)
  obtain st found idx where s: "cursorStackForKey k lt [] r = Some (st, found, idx)"
    "key_stack lt (bt_degree t) k (inorder r) [] st found idx" using cursorStackForKey_ok [OF h, of "[]" k] by auto
  obtain n i st' where st: "st = (n, i) # st'" using s(2) by (cases st) (auto simp: key_stack_def)
  let ?it = "\<lparr>it_Item = None, it_Index = idx, it_cursors = st, it_stay = found, it_descending = True\<rparr>"
  have k: "\<forall>c\<in>set st. cursor_ok (bt_degree t) c" "found \<longrightarrow> on_item st" "\<not> found \<longrightarrow> n_children n = []"
    "idx = spec_rank lt k (inorder r)" "found = (spec_find lt k (inorder r) \<noteq> None)"
    using s(2) by (auto simp: key_stack_def st split: if_splits)
  have "BTree_After k t = Some ?it" using s(1) Some assms(2) by (simp add: BTree_After_def)
  moreover have "iter_ok (bt_degree t) ?it" using k(1-3) by (auto simp: iter_ok_def st)
  moreover have "behind ?it = rev (upto_key lt k (elems t))"
    using s(2) by (cases found) (auto simp: st elems_def Some behind_def key_stack_def child_at_def)
  moreover have "(if found then idx else idx - 1) = int (length (upto_key lt k (elems t))) - 1"
    using k(4,5) length_upto_key [OF h(2), of k] by (auto simp: elems_def Some)
  ultimately show thesis by (intro that [of ?it]) (simp_all split: if_splits)
qed

end

end
