(* ===== verification/Btree_Keys.thy ===== *)
theory Btree_Keys
  imports Btree_Iter
begin

text \<open>
  The contract of the B-tree for the keys that a client uses.  A comparison function need not order all values of
  its type: it is enough that it orders a set of keys that contains every key given to the tree.  The
  operations only compare such keys, so they behave as under an extension to a strict weak order of the type.
\<close>

section \<open>Orders on a set of keys\<close>

definition order_on :: "'k set \<Rightarrow> ('k \<Rightarrow> 'k \<Rightarrow> bool) \<Rightarrow> bool" where
  "order_on K lt \<longleftrightarrow>
     (\<forall>a\<in>K. \<not> lt a a) \<and> (\<forall>a\<in>K. \<forall>b\<in>K. \<forall>c\<in>K. lt a b \<longrightarrow> lt b c \<longrightarrow> lt a c)
   \<and> (\<forall>a\<in>K. \<forall>b\<in>K. \<forall>c\<in>K. \<not> lt a b \<longrightarrow> \<not> lt b c \<longrightarrow> \<not> lt a c)"

definition same_on :: "'k set \<Rightarrow> ('k \<Rightarrow> 'k \<Rightarrow> bool) \<Rightarrow> ('k \<Rightarrow> 'k \<Rightarrow> bool) \<Rightarrow> bool" where
  "same_on K lt lt' \<longleftrightarrow> (\<forall>a\<in>K. \<forall>b\<in>K. lt a b = lt' a b)"

text \<open>Other values come before the keys.\<close>

definition extend_order :: "'k set \<Rightarrow> ('k \<Rightarrow> 'k \<Rightarrow> bool) \<Rightarrow> 'k \<Rightarrow> 'k \<Rightarrow> bool" where
  "extend_order K lt a b \<longleftrightarrow> order_on K lt \<and> b \<in> K \<and> (a \<in> K \<longrightarrow> lt a b)"

interpretation ext: strict_weak_order "extend_order K lt" for K lt
proof
  fix a b c
  show "\<not> extend_order K lt a a" by (auto simp: extend_order_def order_on_def)
  show "extend_order K lt a b \<Longrightarrow> extend_order K lt b c \<Longrightarrow> extend_order K lt a c"
    unfolding extend_order_def order_on_def by blast
  show "\<not> extend_order K lt a b \<Longrightarrow> \<not> extend_order K lt b c \<Longrightarrow> \<not> extend_order K lt a c"
    unfolding extend_order_def order_on_def by blast
qed

lemma extend_same: "order_on K lt \<Longrightarrow> same_on K lt (extend_order K lt)"
  by (auto simp: same_on_def extend_order_def)

lemma order_on_same: "same_on K lt lt' \<Longrightarrow> order_on K lt \<Longrightarrow> order_on K lt'"
  unfolding order_on_def same_on_def by (intro conjI ballI impI) metis+

lemma order_on_subset: "order_on K lt \<Longrightarrow> L \<subseteq> K \<Longrightarrow> order_on L lt"
  unfolding order_on_def by blast

section \<open>The operations compare keys only\<close>

lemma go_search_loop_cong:
  "(\<And>a. a < j \<Longrightarrow> f a = g a) \<Longrightarrow> go_search_loop f i j = go_search_loop g i j"
proof (induction f i j rule: go_search_loop.induct)
  case (1 f i j)
  show ?case
  proof (cases "i < j")
    case True
    let ?h = "(i + j) div 2"
    have "f ?h = g ?h" using "1.prems" True by simp
    with "1.IH"(1) [OF True refl] "1.IH"(2) [OF True refl] "1.prems" True show ?thesis
      by (simp add: go_search_loop.simps [of f i j] go_search_loop.simps [of g i j] Let_def)
  qed (simp add: go_search_loop.simps)
qed

lemma go_search_loop_le: "i \<le> j \<Longrightarrow> go_search_loop f i j \<le> j"
proof (induction f i j rule: go_search_loop.induct)
  case (1 f i j)
  show ?case
  proof (cases "i < j")
    case True
    let ?h = "(i + j) div 2"
    have h: "i \<le> ?h" "?h < j" using True by auto
    have "go_search_loop f (?h + 1) j \<le> j" if "\<not> f ?h" using "1.IH"(1) [OF True refl that] h by simp
    moreover have "go_search_loop f i ?h \<le> j" if "\<not> \<not> f ?h" using "1.IH"(2) [OF True refl that] h by simp
    ultimately show ?thesis using True by (simp add: go_search_loop.simps [of f i j] Let_def)
  qed (use "1.prems" in \<open>simp add: go_search_loop.simps\<close>)
qed

lemma list_all_parts:
  "list_all P xs \<Longrightarrow> list_all P (take i xs)" "list_all P xs \<Longrightarrow> list_all P (drop i xs)"
  "list_all P xs \<Longrightarrow> i < length xs \<Longrightarrow> P (xs ! i)" "list_all P xs \<Longrightarrow> P y \<Longrightarrow> list_all P (xs[i := y])"
  by (auto simp: list_all_iff dest: in_set_takeD in_set_dropD set_update_subset_insert [THEN subsetD])

lemma key_nth: "list_all (\<lambda>x. fst x \<in> K) xs \<Longrightarrow> i < length xs \<Longrightarrow> fst (xs ! i) \<in> K"
  by (rule list_all_parts(3))

lemma find_le: "items_find lt k s = (i, found) \<Longrightarrow> i \<le> length s"
  using go_search_loop_le [of 0 "length s" "\<lambda>i. lt k (fst (s ! i))"]
  by (auto simp: items_find_def go_search_def Let_def split: if_splits)

lemma find_same:
  assumes "same_on K lt lt'" "k \<in> K" "list_all (\<lambda>x. fst x \<in> K) s"
  shows "items_find lt k s = items_find lt' k s"
proof -
  have eq: "lt k (fst (s ! i)) = lt' k (fst (s ! i))" "lt (fst (s ! i)) k = lt' (fst (s ! i)) k" if "i < length s" for i
    using assms key_nth [OF assms(3) that] by (auto simp: same_on_def)
  have i: "go_search (length s) (\<lambda>i. lt k (fst (s ! i))) = go_search (length s) (\<lambda>i. lt' k (fst (s ! i)))" (is "?i = ?i'")
    unfolding go_search_def by (rule go_search_loop_cong) (rule eq)
  have "?i \<le> length s" unfolding go_search_def by (rule go_search_loop_le) simp
  then have "?i > 0 \<Longrightarrow> lt (fst (s ! (?i - 1))) k = lt' (fst (s ! (?i - 1))) k" using eq(2) [of "?i - 1"] by simp
  then show ?thesis unfolding items_find_def Let_def i by auto
qed

text \<open>All keys of a node are in a set; nodes made from it have no other keys.\<close>

fun within :: "'k set \<Rightarrow> ('k, 'v) node \<Rightarrow> bool" where
  "within K (Node its cs sz cow) = (list_all (\<lambda>x. fst x \<in> K) its \<and> list_all (within K) cs)"

lemma within_sel: "within K n \<longleftrightarrow> list_all (\<lambda>x. fst x \<in> K) (n_items n) \<and> list_all (within K) (n_children n)"
  by (cases n) simp

lemma within_inorder: "node_ok d h n \<Longrightarrow> within K n \<longleftrightarrow> list_all (\<lambda>x. fst x \<in> K) (inorder n)"
proof (induction h arbitrary: n)
  case 0
  then show ?case by (cases n) (auto simp: list_all_iff)
next
  case (Suc h)
  obtain its c cs sz w where n: "n = Node its (c # cs) sz w" "length cs = length its" using Suc.prems by (cases n; cases "n_children n") auto
  have "set (wr its (map inorder cs)) = set its \<union> (\<Union>x\<in>set cs. set (inorder x))"
    using n(2) by (induction its cs rule: list_induct2') auto
  then have "set (inorder n) = set its \<union> (\<Union>x\<in>set (c # cs). set (inorder x))"
    using n weave_right [of "map inorder cs" its "inorder c"] by (simp add: inorder.simps Un_ac)
  moreover have "\<And>x. x \<in> set (c # cs) \<Longrightarrow> within K x \<longleftrightarrow> list_all (\<lambda>x. fst x \<in> K) (inorder x)" using Suc n by auto
  ultimately show ?case by (auto simp: n list_all_iff)
qed

lemma within_mutable [simp]: "within K (mutableFor w n) = within K n"
  by (cases n) (simp add: mutableFor_eq)

lemma within_mutableChild: "mutableChild i n = Some c \<Longrightarrow> within K n \<Longrightarrow> within K c"
  by (auto simp: mutableChild_def within_sel [of K n] split: if_splits intro: list_all_parts(3))

lemma within_split:
  assumes "within K n" "node_split i n = Some (a, m, b)"
  shows "within K a \<and> fst m \<in> K \<and> within K b"
proof -
  obtain its cs sz w where n: "n = Node its cs sz w" by (cases n)
  show ?thesis
    using assms by (auto simp: n node_split_def Let_def items_truncate_def children_truncate_def list_all_parts key_nth split: if_splits)
qed

lemma within_maybeSplit:
  assumes "within K n" "maybeSplitChild i mx n = Some (n1, b)"
  shows "within K n1"
proof -
  obtain its cs sz w where n: "n = Node its cs sz w" by (cases n)
  show ?thesis
  proof (cases "length (n_items (cs ! i)) < mx")
    case True
    then show ?thesis using assms by (auto simp: n maybeSplitChild_def split: if_splits)
  next
    case False
    then obtain a m c where s: "i < length cs" "node_split (mx div 2) (mutableFor w (cs ! i)) = Some (a, m, c)"
      "n1 = Node (items_insertAt i m its) (children_insertAt (Suc i) c (cs[i := a])) sz w"
      using assms(2) by (auto simp: n maybeSplitChild_def split: if_splits option.splits)
    have "within K (mutableFor w (cs ! i))" using assms(1) s(1) by (simp add: n list_all_parts)
    from within_split [OF this s(2)] assms(1) show ?thesis
      by (simp add: n s(3) items_insertAt_def children_insertAt_def list_all_parts)
  qed
qed

lemma insert_step_same:
  assumes "same_on K lt lt'" "fst m \<in> K" "within K n"
  shows "insert_step m mx lt ci n = insert_step m mx lt' ci n"
    and "insert_step m mx lt ci n = Some (Inr (n1, i)) \<Longrightarrow> within K n1"
proof -
  have its: "list_all (\<lambda>x. fst x \<in> K) (n_items n)" using assms(3) by (simp add: within_sel [of K n])
  note f = find_same [OF assms(1,2) its]
  obtain j found where j: "items_find lt' (fst m) (n_items n) = (j, found)" by fastforce
  show "insert_step m mx lt ci n = Some (Inr (n1, i)) \<Longrightarrow> within K n1"
    using j f within_maybeSplit [OF assms(3), of j mx]
    by (auto simp: insert_step_def Let_def split: if_splits option.splits bool.splits)
  have k: "fst (n_items n1 ! j) \<in> K" if s: "maybeSplitChild j mx n = Some (n1, True)" for n1
  proof (rule key_nth)
    show "list_all (\<lambda>x. fst x \<in> K) (n_items n1)" using within_maybeSplit [OF assms(3) s] by (simp add: within_sel [of K n1])
    show "j < length (n_items n1)"
      using s find_le [OF j] by (auto simp: maybeSplitChild_def items_insertAt_def split: if_splits option.splits)
  qed
  have "lt (fst m) (fst (n_items n1 ! j)) = lt' (fst m) (fst (n_items n1 ! j))"
    "lt (fst (n_items n1 ! j)) (fst m) = lt' (fst (n_items n1 ! j)) (fst m)"
    if "maybeSplitChild j mx n = Some (n1, True)" for n1
    using assms(1,2) k [OF that] by (auto simp: same_on_def)
  then show "insert_step m mx lt ci n = insert_step m mx lt' ci n"
    unfolding insert_step_def f j by (auto simp: Let_def split: option.split bool.split)
qed

lemma node_insert_same:
  assumes "node_insert m mx lt' ci n = Some r" "same_on K lt lt'" "fst m \<in> K" "within K n"
  shows "node_insert m mx lt ci n = Some r"
  using assms
proof (induction m mx lt' ci n r arbitrary: lt rule: node_insert.raw_induct [rotated, consumes 1])
  case (1 rec m mx lt' ci n r)
  note step = insert_step_same [OF 1(3,4,5), of mx ci]
  from 1(2) obtain x where x: "insert_step m mx lt' ci n = Some x" by (auto simp: bind_eq_Some_conv)
  show ?case
  proof (cases x)
    case (Inl a)
    then show ?thesis using 1(2) x step(1) by (simp add: node_insert.simps)
  next
    case (Inr p)
    then obtain n1 i where p: "x = Inr (n1, i)" by (cases p) auto
    from 1(2) x p obtain c c' old pr idx where c: "mutableChild i n1 = Some c" "rec m mx lt' ci c = Some (c', old, pr, idx)"
      by (auto simp: bind_eq_Some_conv)
    have "within K n1" using step(2) [of n1 i] step(1) x p by simp
    from 1(1) [OF c(2) 1(3,4) within_mutableChild [OF c(1) this]]
    show ?thesis using 1(2) c x p step(1) by (subst node_insert.simps) simp
  qed
qed

lemma within_pieces:
  "within K n \<Longrightarrow> items_pop (n_items n) = Some (its, m) \<Longrightarrow> list_all (\<lambda>x. fst x \<in> K) its \<and> fst m \<in> K"
  "within K n \<Longrightarrow> items_removeAt i (n_items n) = Some (its, m) \<Longrightarrow> list_all (\<lambda>x. fst x \<in> K) its \<and> fst m \<in> K"
  "list_all (within K) cs \<Longrightarrow> children_pop cs = Some (cs', c) \<Longrightarrow> list_all (within K) cs' \<and> within K c"
  "list_all (within K) cs \<Longrightarrow> children_removeAt i cs = Some (cs', c) \<Longrightarrow> list_all (within K) cs' \<and> within K c"
  by (auto simp: within_sel [of K n] items_pop_def items_removeAt_def children_pop_def children_removeAt_def list_all_parts key_nth
      split: if_splits)

lemma within_steal:
  assumes "within K n" "i \<le> length (n_items n)"
  shows "steal_left i n = Some n1 \<Longrightarrow> 0 < i \<Longrightarrow> within K n1" "steal_right i n = Some n1 \<Longrightarrow> i < length (n_items n) \<Longrightarrow> within K n1"
proof -
  have n: "list_all (\<lambda>x. fst x \<in> K) (n_items n)" "list_all (within K) (n_children n)" using assms(1) by (simp_all add: within_sel [of K n])
  have kids: "within K c" if "mutableChild j (set_child i child n) = Some c" "within K child" for j c child
    using within_mutableChild [OF that(1)] n that(2) by (simp add: set_child_def list_all_parts)
  show "within K n1" if s: "steal_left i n = Some n1" "0 < i"
  proof -
    from s(1) obtain child sib sItems m where
      c: "mutableChild i n = Some child" "mutableChild (i - 1) (set_child i child n) = Some sib" "items_pop (n_items sib) = Some (sItems, m)"
      by (auto simp: steal_left_def bind_eq_Some_conv)
    have w: "within K child" "within K sib" using within_mutableChild [OF c(1) assms(1)] kids [OF c(2)] by auto
    have it: "fst (n_items n ! (i - 1)) \<in> K" using key_nth [OF n(1), of "i - 1"] assms(2) s(2) by simp
    show ?thesis
    proof (cases "children_pop (n_children sib)")
      case None
      then show ?thesis using s(1) c w it n within_pieces(1) [OF w(2) c(3)]
        by (auto simp: steal_left_def items_insertAt_def within_sel [of K child] within_sel [of K sib] list_all_parts)
    next
      case (Some p)
      then obtain cs' b where p: "children_pop (n_children sib) = Some (cs', b)" by (cases p) auto
      from within_pieces(3) [OF _ p] w have b: "list_all (within K) cs' \<and> within K b" by (simp add: within_sel [of K sib])
      show ?thesis using s(1) c w it n within_pieces(1) [OF w(2) c(3)] p b
        by (auto simp: steal_left_def items_insertAt_def children_insertAt_def within_sel [of K child] list_all_parts)
    qed
  qed
  show "within K n1" if s: "steal_right i n = Some n1" "i < length (n_items n)"
  proof -
    from s(1) obtain child sib sItems m where
      c: "mutableChild i n = Some child" "mutableChild (Suc i) (set_child i child n) = Some sib" "items_removeAt 0 (n_items sib) = Some (sItems, m)"
      by (auto simp: steal_right_def bind_eq_Some_conv)
    have w: "within K child" "within K sib" using within_mutableChild [OF c(1) assms(1)] kids [OF c(2)] by auto
    have it: "fst (n_items n ! i) \<in> K" using key_nth [OF n(1) s(2)] .
    show ?thesis
    proof (cases "children_removeAt 0 (n_children sib)")
      case None
      then show ?thesis using s(1) c w it n within_pieces(2) [OF w(2) c(3)]
        by (auto simp: steal_right_def within_sel [of K child] within_sel [of K sib] list_all_parts)
    next
      case (Some p)
      then obtain cs' b where p: "children_removeAt 0 (n_children sib) = Some (cs', b)" by (cases p) auto
      from within_pieces(4) [OF _ p] w have b: "list_all (within K) cs' \<and> within K b" by (simp add: within_sel [of K sib])
      show ?thesis using s(1) c w it n within_pieces(2) [OF w(2) c(3)] p b
        by (auto simp: steal_right_def within_sel [of K child] list_all_parts)
    qed
  qed
qed

lemma within_merge:
  assumes "within K n" "merge_child i n = Some n1"
  shows "within K n1"
proof -
  have n: "list_all (within K) (n_children n)" using assms(1) by (simp add: within_sel [of K n])
  from assms(2) obtain child its m cs r where
    c: "mutableChild i n = Some child" "items_removeAt i (n_items n) = Some (its, m)"
      "children_removeAt (Suc i) ((n_children n)[i := child]) = Some (cs, r)"
    by (auto simp: merge_child_def bind_eq_Some_conv)
  have w: "within K child" by (rule within_mutableChild [OF c(1) assms(1)])
  with n have "list_all (within K) ((n_children n)[i := child])" by (simp add: list_all_parts)
  from within_pieces(4) [OF this c(3)] within_pieces(2) [OF assms(1) c(2)] w show ?thesis
    using assms(2) c by (auto simp: merge_child_def Let_def within_sel [of K child] within_sel [of K r] list_all_parts)
qed

lemma within_grow: "within K n \<Longrightarrow> i \<le> length (n_items n) \<Longrightarrow> growChild i mn n = Some n1 \<Longrightarrow> within K n1"
  using within_steal [of K n i n1] within_merge [of K n _ n1] by (auto simp: growChild_def split: if_splits)

lemma remove_step_same:
  assumes "same_on K lt lt'" "\<And>k. key = Some k \<Longrightarrow> k \<in> K" "within K n"
  shows "remove_step key ty lt n = remove_step key ty lt' n"
  using find_same [OF assms(1), of "the key" "n_items n"] assms(2,3)
  by (auto simp: remove_step_def within_sel [of K n] split: toRemove.split option.split)

lemma remove_step_le: "remove_step key ty lt n = Some (Inr (i, found)) \<Longrightarrow> i \<le> length (n_items n)"
  by (auto simp: remove_step_def find_le split: toRemove.splits option.splits prod.splits if_splits)

lemma node_remove_same:
  assumes "node_remove key mn ty lt' n = Some r" "same_on K lt lt'" "\<And>k. key = Some k \<Longrightarrow> k \<in> K" "within K n"
  shows "node_remove key mn ty lt n = Some r"
  using assms
proof (induction key mn ty lt' n r arbitrary: lt rule: node_remove.raw_induct [rotated, consumes 1])
  case (1 rec key mn ty lt' n r)
  have step: "remove_step key ty lt n = remove_step key ty lt' n" by (rule remove_step_same [OF 1(3,4,5)])
  from 1(2) obtain x where x: "remove_step key ty lt' n = Some x" by (auto simp: bind_eq_Some_conv)
  show ?case
  proof (cases x)
    case (Inl a)
    then show ?thesis using 1(2) x step by (subst node_remove.simps) simp
  next
    case (Inr p)
    then obtain i found where p: "x = Inr (i, found)" by (cases p) auto
    from 1(2) x p obtain c where c: "mutableChild i n = Some c" by (auto simp: bind_eq_Some_conv)
    have w: "within K c" by (rule within_mutableChild [OF c 1(5)])
    have none: "\<And>k. None = Some k \<Longrightarrow> k \<in> K" by simp
    consider (grow) "length (n_items c) \<le> mn" | (found) "\<not> length (n_items c) \<le> mn" "found" | (child) "\<not> length (n_items c) \<le> mn" "\<not> found"
      by blast
    then show ?thesis
    proof cases
      case grow
      then obtain n1 where g: "growChild i mn n = Some n1" "rec key mn ty lt' n1 = Some r"
        using 1(2) x p c by (auto simp: bind_eq_Some_conv)
      have "i \<le> length (n_items n)" using remove_step_le x p by blast
      from 1(1) [OF g(2) 1(3,4) within_grow [OF 1(5) this g(1)]] show ?thesis
        using grow g(1) c x p step by (subst node_remove.simps) simp
    next
      case found
      then obtain c' out b where g: "rec None mn removeMax lt' c = Some (c', out, b)"
        using 1(2) x p c by (auto simp: bind_eq_Some_conv)
      from 1(1) [OF g 1(3) none w] show ?thesis
        using 1(2) found g c x p step by (subst node_remove.simps) simp
    next
      case child
      then obtain c' out b where g: "rec key mn ty lt' c = Some (c', out, b)"
        using 1(2) x p c by (auto simp: bind_eq_Some_conv)
      from 1(1) [OF g 1(3,4) w] show ?thesis
        using 1(2) child g c x p step by (subst node_remove.simps) simp
    qed
  qed
qed


lemma within_nth: "within K (Node its cs sz cow) \<Longrightarrow> i < length cs \<Longrightarrow> within K (cs ! i)"
  by (simp add: list_all_parts)

lemma node_get_same:
  "same_on K lt lt' \<Longrightarrow> k \<in> K \<Longrightarrow> within K n \<Longrightarrow> node_get k ci lt n = node_get k ci lt' n"
proof (induction k ci lt n rule: node_get.induct)
  case (1 k ci lt its cs sz cow)
  have f: "items_find lt k its = items_find lt' k its" using find_same [OF 1(2,3), of its] 1(4) by simp
  obtain i found where i: "items_find lt' k its = (i, found)" by fastforce
  have "node_get k ci lt (cs ! i) = node_get k ci lt' (cs ! i)" if "\<not> found" "cs \<noteq> []" "i < length cs"
    using 1(1) [OF f [unfolded i, symmetric] that 1(2,3)] within_nth [OF 1(4) that(3)] by blast
  then show ?case by (simp add: f i)
qed

lemma cursorStackForKey_same:
  "same_on K lt lt' \<Longrightarrow> k \<in> K \<Longrightarrow> within K n \<Longrightarrow> cursorStackForKey k lt st n = cursorStackForKey k lt' st n"
proof (induction k lt st n rule: cursorStackForKey.induct)
  case (1 k lt st its cs sz cow)
  have f: "items_find lt k its = items_find lt' k its" using find_same [OF 1(2,3), of its] 1(4) by simp
  obtain i found where i: "items_find lt' k its = (i, found)" by fastforce
  let ?st = "cs_push (Node its cs sz cow, int i) st"
  have "cursorStackForKey k lt ?st (cs ! i) = cursorStackForKey k lt' ?st (cs ! i)" if "\<not> found" "cs \<noteq> []" "i < length cs"
    using 1(1) [OF f [unfolded i, symmetric] refl that 1(2,3)] within_nth [OF 1(4) that(3)] by blast
  then show ?case by (simp add: f i Let_def)
qed

section \<open>Trees over a set of keys\<close>

definition keys_ok :: "'k set \<Rightarrow> ('k, 'v) BTree \<Rightarrow> bool" where
  "keys_ok K t \<longleftrightarrow> order_on K (bt_less t) \<and> tree_ok t \<and> list_all (\<lambda>x. fst x \<in> K) (elems t)"

text \<open>The abstract operations compare the same keys.\<close>

lemma spec_same:
  assumes "same_on K lt lt'" "k \<in> K" "list_all (\<lambda>x. fst x \<in> K) xs"
  shows "spec_set lt k v xs = spec_set lt' k v xs" "spec_find lt k xs = spec_find lt' k xs" "spec_rank lt k xs = spec_rank lt' k xs"
    "spec_delete lt k xs = spec_delete lt' k xs" "from_key lt k xs = from_key lt' k xs" "upto_key lt k xs = upto_key lt' k xs"
proof -
  have eq: "lt (fst x) k = lt' (fst x) k" "lt k (fst x) = lt' k (fst x)" if "x \<in> set xs" for x
    using assms that by (auto simp: same_on_def list_all_iff)
  have f: "filter (\<lambda>y. lt (fst y) k) xs = filter (\<lambda>y. lt' (fst y) k) xs" "filter (\<lambda>y. lt k (fst y)) xs = filter (\<lambda>y. lt' k (fst y)) xs"
    using eq by (auto intro: filter_cong)
  show "spec_set lt k v xs = spec_set lt' k v xs" "spec_rank lt k xs = spec_rank lt' k xs"
    by (simp_all add: spec_set_def spec_rank_def f)
  show "spec_find lt k xs = spec_find lt' k xs"
    using eq by (auto simp: spec_find_def eqv_def intro: find_cong)
  show "spec_delete lt k xs = spec_delete lt' k xs" "from_key lt k xs = from_key lt' k xs" "upto_key lt k xs = upto_key lt' k xs"
    using eq by (auto simp: spec_delete_def from_key_def upto_key_def eqv_def intro: filter_cong)
qed

lemma sorted_same:
  "same_on K lt lt' \<Longrightarrow> list_all (\<lambda>x. fst x \<in> K) xs \<Longrightarrow> sorted_items lt xs = sorted_items lt' xs"
  by (induction xs) (auto simp: sorted_items_def same_on_def list_all_iff)

lemma tree_ok_same:
  assumes "same_on K (bt_less t) lt'" "list_all (\<lambda>x. fst x \<in> K) (elems t)"
  shows "tree_ok (t\<lparr>bt_less := lt'\<rparr>) = tree_ok t"
  using assms sorted_same [OF assms(1)] by (auto simp: tree_ok_def elems_def split: option.splits)

lemma elems_less [simp]: "elems (t\<lparr>bt_less := lt'\<rparr>) = elems t"
  by (simp add: elems_def)

lemma root_within: "tree_ok t \<Longrightarrow> list_all (\<lambda>x. fst x \<in> K) (elems t) \<Longrightarrow> bt_root t = Some r \<Longrightarrow> within K r"
  by (auto simp: tree_ok_def elems_def within_inorder)

text \<open>What a tree with the extended order returns, the tree returns.\<close>

lemma keys_okD:
  assumes "keys_ok K t"
  shows "tree_ok (t\<lparr>bt_less := extend_order K (bt_less t)\<rparr>)" "same_on K (bt_less t) (extend_order K (bt_less t))"
    "list_all (\<lambda>x. fst x \<in> K) (elems t)" "tree_ok t" "order_on K (bt_less t)"
proof -
  show k: "list_all (\<lambda>x. fst x \<in> K) (elems t)" "tree_ok t" "order_on K (bt_less t)" using assms by (simp_all add: keys_ok_def)
  show s: "same_on K (bt_less t) (extend_order K (bt_less t))" by (rule extend_same [OF k(3)])
  show "tree_ok (t\<lparr>bt_less := extend_order K (bt_less t)\<rparr>)" using tree_ok_same [OF s k(1)] k(2) by simp
qed

lemma keys_okI:
  assumes "keys_ok K t" "tree_ok t'" "bt_less t' = extend_order K (bt_less t)" "list_all (\<lambda>x. fst x \<in> K) (elems t')"
  shows "keys_ok K (t'\<lparr>bt_less := bt_less t\<rparr>)"
proof -
  have "same_on K (bt_less t') (bt_less t)" using keys_okD(2) [OF assms(1)] assms(3) by (auto simp: same_on_def)
  from tree_ok_same [OF this assms(4)] assms(2,4) keys_okD(5) [OF assms(1)] show ?thesis by (simp add: keys_ok_def)
qed

lemma within_split_root:
  assumes "within K r" "split_root cow mx r = Some r1"
  shows "within K r1"
proof (cases "length (n_items r) \<ge> mx")
  case True
  then obtain a m b where s: "node_split (mx div 2) r = Some (a, m, b)" "r1 = Node [m] [a, b] (n_size r) cow"
    using assms(2) by (auto simp: split_root_def bind_eq_Some_conv)
  from within_split [OF assms(1) s(1)] show ?thesis by (simp add: s(2))
qed (use assms in \<open>simp add: split_root_def\<close>)

lemma set_same:
  assumes "keys_ok K t" "k \<in> K" "BTree_set k v ci (t\<lparr>bt_less := extend_order K (bt_less t)\<rparr>) = Some (t', r)"
  shows "BTree_set k v ci t = Some (t'\<lparr>bt_less := bt_less t\<rparr>, r)"
proof (cases "bt_root t")
  case None
  then show ?thesis using assms(3) by (auto simp: BTree_set_def)
next
  case (Some root)
  note d = keys_okD [OF assms(1)]
  have w: "within K root" by (rule root_within [OF d(4,3) Some])
  let ?lt = "extend_order K (bt_less t)"
  from assms(3) Some obtain root1 root2 old p idx where s:
    "split_root (bt_cow t) (maxItems t) (mutableFor (bt_cow t) root) = Some root1"
    "node_insert (k, v) (maxItems t) ?lt ci root1 = Some (root2, old, p, idx)"
    "t' = t\<lparr>bt_less := ?lt, bt_root := Some root2\<rparr>" "r = (old, p, idx)"
    by (auto simp: BTree_set_def maxItems_def bind_eq_Some_conv)
  have "within K root1"
    by (rule within_split_root [OF _ s(1)]) (simp add: w)
  from node_insert_same [OF s(2) d(2) _ this] assms(2) s(1,3,4) Some show ?thesis by (simp add: BTree_set_def)
qed

lemma Set_keys:
  assumes "keys_ok K t" "k \<in> K"
  obtains t' old present idx where "BTree_set k v ci t = Some (t', old, present, idx)" "keys_ok K t'"
    "elems t' = spec_set (bt_less t) k v (elems t)" "old = map_option snd (spec_find (bt_less t) k (elems t))"
    "present = (spec_find (bt_less t) k (elems t) \<noteq> None)" "ci \<longrightarrow> idx = spec_rank (bt_less t) k (elems t)"
    "bt_less t' = bt_less t" "bt_degree t' = bt_degree t" "bt_cow t' = bt_cow t"
proof -
  note d = keys_okD [OF assms(1)]
  let ?lt = "extend_order K (bt_less t)"
  let ?t = "t\<lparr>bt_less := ?lt\<rparr>"
  have less: "bt_less ?t = ?lt" by simp
  obtain t' old present idx where s: "BTree_set k v ci ?t = Some (t', old, present, idx)" "tree_ok t'"
    "elems t' = spec_set ?lt k v (elems ?t)" "old = map_option snd (spec_find ?lt k (elems ?t))"
    "present = (spec_find ?lt k (elems ?t) \<noteq> None)" "ci \<longrightarrow> idx = spec_rank ?lt k (elems ?t)"
    "bt_less t' = ?lt" "bt_degree t' = bt_degree ?t" "bt_cow t' = bt_cow ?t"
    by (rule ext.BTree_set_ok [OF d(1) less, of k v ci])
  note e = spec_same [OF d(2) assms(2) d(3)]
  have "list_all (\<lambda>x. fst x \<in> K) (elems t')" using d(3) assms(2) by (auto simp: s(3) spec_set_def list_all_iff)
  from keys_okI [OF assms(1) s(2,7) this] set_same [OF assms s(1)] s(3-6,8,9) show thesis
    by (intro that [of "t'\<lparr>bt_less := bt_less t\<rparr>" old present idx]) (simp_all add: e)
qed

lemma delete_same:
  assumes "keys_ok K t" "\<And>k. key = Some k \<Longrightarrow> k \<in> K" "deleteItem key ty (t\<lparr>bt_less := extend_order K (bt_less t)\<rparr>) = Some (t', r)"
  shows "deleteItem key ty t = Some (t'\<lparr>bt_less := bt_less t\<rparr>, r)"
proof (cases "bt_root t")
  case None
  then show ?thesis using assms(3) by (auto simp: deleteItem_def)
next
  case (Some root)
  note d = keys_okD [OF assms(1)]
  have w: "within K (mutableFor (bt_cow t) root)" using root_within [OF d(4,3) Some] by simp
  show ?thesis
  proof (cases "n_items root = []")
    case True
    then show ?thesis using assms(3) Some by (auto simp: deleteItem_def)
  next
    case False
    let ?lt = "extend_order K (bt_less t)"
    from assms(3) Some False obtain root1 out removed where s:
      "node_remove key (minItems t) ty ?lt (mutableFor (bt_cow t) root) = Some (root1, out, removed)"
      by (auto simp: deleteItem_def minItems_def bind_eq_Some_conv)
    from node_remove_same [OF s d(2) assms(2) w] assms(3) s Some False show ?thesis by (auto simp: deleteItem_def minItems_def)
  qed
qed

lemma Delete_keys:
  assumes "keys_ok K t" "k \<in> K"
  obtains t' where "BTree_Delete k t = Some (t', map_option snd (spec_find (bt_less t) k (elems t)), spec_find (bt_less t) k (elems t) \<noteq> None)"
    "keys_ok K t'" "elems t' = spec_delete (bt_less t) k (elems t)"
    "bt_less t' = bt_less t" "bt_degree t' = bt_degree t" "bt_cow t' = bt_cow t"
proof (cases "elems t = []")
  case True
  then show thesis
    using assms ext.deleteItem_empty [OF keys_okD(4) [OF assms(1)] True, of "Some k" removeItem]
    by (intro that [of t]) (simp_all add: BTree_Delete_def spec_find_def spec_delete_def)
next
  case False
  note d = keys_okD [OF assms(1)]
  let ?lt = "extend_order K (bt_less t)"
  let ?t = "t\<lparr>bt_less := ?lt\<rparr>"
  have less: "bt_less ?t = ?lt" and ne: "elems ?t \<noteq> []" using False by simp_all
  have key: "removeItem = removeItem \<longrightarrow> Some k \<noteq> None" by simp
  obtain t' out where s: "deleteItem (Some k) removeItem ?t = Some (t', out, out \<noteq> None)" "tree_ok t'"
    "remove_spec ?lt removeItem (Some k) (elems ?t) = (out, elems t')"
    "bt_less t' = ?lt" "bt_degree t' = bt_degree ?t" "bt_cow t' = bt_cow ?t"
    by (rule ext.deleteItem_ok [OF d(1) less key ne])
  note e = spec_same [OF d(2) assms(2) d(3)]
  have out: "out = spec_find (bt_less t) k (elems t)" "elems t' = spec_delete (bt_less t) k (elems t)"
    using s(3) by (auto simp: remove_spec_def e)
  have "list_all (\<lambda>x. fst x \<in> K) (elems t')" using d(3) by (auto simp: out spec_delete_def list_all_iff)
  from keys_okI [OF assms(1) s(2,4) this] delete_same [OF assms(1) _ s(1)] s(5,6) assms(2) out show thesis
    by (intro that [of "t'\<lparr>bt_less := bt_less t\<rparr>"]) (simp_all add: BTree_Delete_def)
qed

lemma GetWithIndex_keys:
  assumes "keys_ok K t" "k \<in> K"
  shows "GetWithIndex k t = Some (map_option snd (spec_find (bt_less t) k (elems t)),
     if spec_find (bt_less t) k (elems t) = None then -1 else spec_rank (bt_less t) k (elems t))"
proof -
  note d = keys_okD [OF assms(1)]
  let ?lt = "extend_order K (bt_less t)"
  have "GetWithIndex k t = GetWithIndex k (t\<lparr>bt_less := ?lt\<rparr>)"
    using node_get_same [OF d(2) assms(2) root_within [OF d(4,3)]] by (auto simp: GetWithIndex_def split: option.split)
  then show ?thesis
    using ext.GetWithIndex_ok [OF d(1), of K "bt_less t" k] spec_same [OF d(2) assms(2) d(3)] by simp
qed

end
