(* ===== verification/Btree_Run.thy ===== *)
theory Btree_Run
  imports Btree_Keys
begin

text \<open>
  The B-tree as its clients see it: any sequence of updates of a new tree returns, answers as the operations on
  sequences do, and leaves a balanced tree; reads and iterators of such a tree are those of the
  sequence.
\<close>

section \<open>Sequences of updates\<close>

datatype ('k, 'v) tree_op = OpSet 'k 'v | OpSetWithIndex 'k 'v | OpDelete 'k | OpDeleteMin | OpDeleteMax

datatype ('k, 'v) tree_answer =
    Previous "'v option" bool
  | PreviousAt "'v option" bool int
  | Extreme "('k, 'v) item option"

definition apply_op :: "('k, 'v) tree_op \<Rightarrow> ('k, 'v) BTree \<Rightarrow> (('k, 'v) BTree \<times> ('k, 'v) tree_answer) option" where
  "apply_op p t =
     (case p of
        OpSet k v \<Rightarrow> map_option (\<lambda>(t', old, present). (t', Previous old present)) (BTree_Set k v t)
      | OpSetWithIndex k v \<Rightarrow> map_option (\<lambda>(t', old, present, idx). (t', PreviousAt old present idx)) (SetWithIndex k v t)
      | OpDelete k \<Rightarrow> map_option (\<lambda>(t', old, removed). (t', Previous old removed)) (BTree_Delete k t)
      | OpDeleteMin \<Rightarrow> map_option (\<lambda>(t', m). (t', Extreme m)) (DeleteMin t)
      | OpDeleteMax \<Rightarrow> map_option (\<lambda>(t', m). (t', Extreme m)) (DeleteMax t))"

fun run_ops :: "('k, 'v) tree_op list \<Rightarrow> ('k, 'v) BTree \<Rightarrow> (('k, 'v) BTree \<times> ('k, 'v) tree_answer list) option" where
  "run_ops [] t = Some (t, [])"
| "run_ops (p # ps) t =
     (case apply_op p t of
        None \<Rightarrow> None
      | Some (t1, a) \<Rightarrow> map_option (\<lambda>(t2, as). (t2, a # as)) (run_ops ps t1))"

text \<open>The same updates of a sequence.\<close>

definition spec_op ::
  "('k \<Rightarrow> 'k \<Rightarrow> bool) \<Rightarrow> ('k, 'v) tree_op \<Rightarrow> ('k, 'v) item list \<Rightarrow> ('k, 'v) item list \<times> ('k, 'v) tree_answer" where
  "spec_op lt p xs =
     (case p of
        OpSet k v \<Rightarrow> (spec_set lt k v xs, Previous (map_option snd (spec_find lt k xs)) (spec_find lt k xs \<noteq> None))
      | OpSetWithIndex k v \<Rightarrow>
          (spec_set lt k v xs, PreviousAt (map_option snd (spec_find lt k xs)) (spec_find lt k xs \<noteq> None) (spec_rank lt k xs))
      | OpDelete k \<Rightarrow> (spec_delete lt k xs, Previous (map_option snd (spec_find lt k xs)) (spec_find lt k xs \<noteq> None))
      | OpDeleteMin \<Rightarrow> (tl xs, Extreme (if xs = [] then None else Some (hd xs)))
      | OpDeleteMax \<Rightarrow> (butlast xs, Extreme (if xs = [] then None else Some (last xs))))"

fun spec_run ::
  "('k \<Rightarrow> 'k \<Rightarrow> bool) \<Rightarrow> ('k, 'v) tree_op list \<Rightarrow> ('k, 'v) item list \<Rightarrow> ('k, 'v) item list \<times> ('k, 'v) tree_answer list" where
  "spec_run lt [] xs = (xs, [])"
| "spec_run lt (p # ps) xs =
     (case spec_op lt p xs of (ys, a) \<Rightarrow> (case spec_run lt ps ys of (zs, as) \<Rightarrow> (zs, a # as)))"

fun op_key :: "('k, 'v) tree_op \<Rightarrow> 'k option" where
  "op_key (OpSet k v) = Some k"
| "op_key (OpSetWithIndex k v) = Some k"
| "op_key (OpDelete k) = Some k"
| "op_key OpDeleteMin = None"
| "op_key OpDeleteMax = None"

definition ops_over :: "'k set \<Rightarrow> ('k, 'v) tree_op list \<Rightarrow> bool" where
  "ops_over K ps \<longleftrightarrow> list_all (\<lambda>p. case op_key p of None \<Rightarrow> True | Some k \<Rightarrow> k \<in> K) ps"

section \<open>Each update\<close>

text \<open>Removal of an end of a tree over the keys \<open>K\<close>.\<close>

lemma end_keys:
  assumes "keys_ok K t" "ty \<noteq> removeItem"
  obtains t' out where "deleteItem None ty t = Some (t', out, out \<noteq> None)" "keys_ok K t'" "bt_less t' = bt_less t"
    "bt_degree t' = bt_degree t"
    "elems t = [] \<longrightarrow> out = None \<and> elems t' = []"
    "elems t \<noteq> [] \<longrightarrow> remove_spec (bt_less t) ty None (elems t) = (out, elems t')"
proof (cases "elems t = []")
  case True
  from ext.deleteItem_empty [OF keys_okD(4) [OF assms(1)] True, of None ty] show thesis
    using assms(1) True by (intro that [of t None]) simp_all
next
  case False
  note d = keys_okD [OF assms(1)]
  let ?lt = "extend_order K (bt_less t)"
  let ?t = "t\<lparr>bt_less := ?lt\<rparr>"
  have less: "bt_less ?t = ?lt" and ne: "elems ?t \<noteq> []" using False by simp_all
  have key: "ty = removeItem \<longrightarrow> None \<noteq> None" using assms(2) by simp
  obtain t' out where s: "deleteItem None ty ?t = Some (t', out, out \<noteq> None)" "tree_ok t'"
    "remove_spec ?lt ty None (elems ?t) = (out, elems t')"
    "bt_less t' = ?lt" "bt_degree t' = bt_degree ?t" "bt_cow t' = bt_cow ?t"
    by (rule ext.deleteItem_ok [OF d(1) less key ne])
  have same: "remove_spec (bt_less t) ty None (elems t) = (out, elems t')" using s(3) assms(2) by (cases ty) (simp_all add: remove_spec_def)
  have "elems t' = tl (elems t) \<or> elems t' = butlast (elems t)" using same assms(2) by (cases ty) (simp_all add: remove_spec_def)
  then have "set (elems t') \<subseteq> set (elems t)" using False by (auto dest: in_set_butlastD list.set_sel(2))
  then have "list_all (\<lambda>x. fst x \<in> K) (elems t')" using d(3) by (auto simp: list_all_iff)
  from keys_okI [OF assms(1) s(2,4) this] delete_same [OF assms(1) _ s(1)] s(5) False same show thesis
    by (intro that [of "t'\<lparr>bt_less := bt_less t\<rparr>" out]) simp_all
qed

lemma apply_op_ok:
  assumes "keys_ok K t" "case op_key p of None \<Rightarrow> True | Some k \<Rightarrow> k \<in> K"
  obtains t' a where "apply_op p t = Some (t', a)" "keys_ok K t'" "bt_less t' = bt_less t" "bt_degree t' = bt_degree t"
    "spec_op (bt_less t) p (elems t) = (elems t', a)"
proof (cases p)
  case (OpSet k v)
  then have "k \<in> K" using assms(2) by simp
  then obtain t' old present idx where "BTree_set k v False t = Some (t', old, present, idx)" "keys_ok K t'"
    "elems t' = spec_set (bt_less t) k v (elems t)" "old = map_option snd (spec_find (bt_less t) k (elems t))"
    "present = (spec_find (bt_less t) k (elems t) \<noteq> None)" "False \<longrightarrow> idx = spec_rank (bt_less t) k (elems t)"
    "bt_less t' = bt_less t" "bt_degree t' = bt_degree t"
    by (rule Set_keys [OF assms(1), of k v False])
  then show thesis
    by (intro that [of t' "Previous old present"]) (simp_all add: OpSet apply_op_def spec_op_def BTree_Set_def SetWithIndex_def)
next
  case (OpSetWithIndex k v)
  then have "k \<in> K" using assms(2) by simp
  then obtain t' old present idx where "BTree_set k v True t = Some (t', old, present, idx)" "keys_ok K t'"
    "elems t' = spec_set (bt_less t) k v (elems t)" "old = map_option snd (spec_find (bt_less t) k (elems t))"
    "present = (spec_find (bt_less t) k (elems t) \<noteq> None)" "True \<longrightarrow> idx = spec_rank (bt_less t) k (elems t)"
    "bt_less t' = bt_less t" "bt_degree t' = bt_degree t"
    by (rule Set_keys [OF assms(1), of k v True])
  then show thesis
    by (intro that [of t' "PreviousAt old present idx"]) (simp_all add: OpSetWithIndex apply_op_def spec_op_def BTree_Set_def SetWithIndex_def)
next
  case (OpDelete k)
  then have "k \<in> K" using assms(2) by simp
  then obtain t' where "BTree_Delete k t = Some (t', map_option snd (spec_find (bt_less t) k (elems t)), spec_find (bt_less t) k (elems t) \<noteq> None)"
    "keys_ok K t'" "elems t' = spec_delete (bt_less t) k (elems t)" "bt_less t' = bt_less t" "bt_degree t' = bt_degree t"
    by (rule Delete_keys [OF assms(1)])
  then show thesis
    by (intro that [of t' "Previous (map_option snd (spec_find (bt_less t) k (elems t))) (spec_find (bt_less t) k (elems t) \<noteq> None)"])
       (simp_all add: OpDelete apply_op_def spec_op_def)
next
  case OpDeleteMin
  obtain t' out where "deleteItem None removeMin t = Some (t', out, out \<noteq> None)" "keys_ok K t'" "bt_less t' = bt_less t"
    "bt_degree t' = bt_degree t" "elems t = [] \<longrightarrow> out = None \<and> elems t' = []"
    "elems t \<noteq> [] \<longrightarrow> remove_spec (bt_less t) removeMin None (elems t) = (out, elems t')"
    by (rule end_keys [OF assms(1), of removeMin]) simp
  then show thesis
    by (intro that [of t' "Extreme out"]) (auto simp: OpDeleteMin apply_op_def spec_op_def DeleteMin_def remove_spec_def)
next
  case OpDeleteMax
  obtain t' out where "deleteItem None removeMax t = Some (t', out, out \<noteq> None)" "keys_ok K t'" "bt_less t' = bt_less t"
    "bt_degree t' = bt_degree t" "elems t = [] \<longrightarrow> out = None \<and> elems t' = []"
    "elems t \<noteq> [] \<longrightarrow> remove_spec (bt_less t) removeMax None (elems t) = (out, elems t')"
    by (rule end_keys [OF assms(1), of removeMax]) simp
  then show thesis
    by (intro that [of t' "Extreme out"]) (auto simp: OpDeleteMax apply_op_def spec_op_def DeleteMax_def remove_spec_def)
qed


lemma run_ops_ok:
  assumes "keys_ok K t" "ops_over K ps"
  obtains t' as where "run_ops ps t = Some (t', as)" "keys_ok K t'" "bt_less t' = bt_less t" "bt_degree t' = bt_degree t"
    "spec_run (bt_less t) ps (elems t) = (elems t', as)"
proof -
  have "\<exists>t' as. run_ops ps t = Some (t', as) \<and> keys_ok K t' \<and> bt_less t' = bt_less t \<and> bt_degree t' = bt_degree t
      \<and> spec_run (bt_less t) ps (elems t) = (elems t', as)"
    using assms
  proof (induction ps arbitrary: t)
    case (Cons p ps)
    have p: "case op_key p of None \<Rightarrow> True | Some k \<Rightarrow> k \<in> K" "ops_over K ps" using Cons.prems(2) by (simp_all add: ops_over_def)
    obtain t1 a where s: "apply_op p t = Some (t1, a)" "keys_ok K t1" "bt_less t1 = bt_less t" "bt_degree t1 = bt_degree t"
      "spec_op (bt_less t) p (elems t) = (elems t1, a)"
      by (rule apply_op_ok [OF Cons.prems(1) p(1)])
    from Cons.IH [OF s(2) p(2)] s show ?case by auto
  qed simp
  then show thesis using that by blast
qed

section \<open>Balance\<close>

text \<open>A child of height \<open>h\<close> holds at least \<open>d ^ Suc h - 1\<close> items.\<close>

lemma sum_sizes_Suc:
  "\<forall>c\<in>set cs. n_size c = int (length (inorder c)) \<Longrightarrow>
     int (sum_list (map (\<lambda>c. Suc (length (inorder c))) cs)) = int (length cs) + sum_list (map n_size cs)"
  by (induction cs) simp_all

lemma length_inorder:
  assumes "node_ok d (Suc h) (Node its cs sz cow)"
  shows "Suc (length (inorder (Node its cs sz cow))) = sum_list (map (\<lambda>c. Suc (length (inorder c))) cs)"
proof -
  have "\<forall>c\<in>set cs. n_size c = int (length (inorder c))" using assms by (auto intro!: node_ok_size)
  from sum_sizes_Suc [OF this]
  have "int (sum_list (map (\<lambda>c. Suc (length (inorder c))) cs)) = int (Suc (length (inorder (Node its cs sz cow))))"
    using node_ok_size [OF assms] assms by simp
  then show ?thesis by (simp only: of_nat_eq_iff)
qed

lemma sum_list_ge: "(\<And>c. c \<in> set cs \<Longrightarrow> (b :: nat) \<le> f c) \<Longrightarrow> length cs * b \<le> sum_list (map f cs)"
  by (induction cs) (simp_all add: add_mono)

lemma child_height: "node_ok d h n \<Longrightarrow> d - 1 \<le> length (n_items n) \<Longrightarrow> d ^ Suc h \<le> Suc (length (inorder n))"
proof (induction d h n rule: node_ok.induct)
  case (1 d its cs sz cow)
  then show ?case by simp
next
  case (2 d h its cs sz cow)
  have "d ^ Suc h \<le> Suc (length (inorder c))" if "c \<in> set cs" for c using 2 that by auto
  then have "length cs * d ^ Suc h \<le> sum_list (map (\<lambda>c. Suc (length (inorder c))) cs)" by (rule sum_list_ge)
  moreover have "d \<le> length cs" using 2(2,3) by simp
  then have "d * d ^ Suc h \<le> length cs * d ^ Suc h" by (rule mult_le_mono1)
  ultimately show ?case using length_inorder [OF 2(2)] by (simp only: power_Suc)
qed

lemma root_height:
  assumes "node_ok d h r" "n_items r \<noteq> []"
  shows "2 * d ^ h \<le> Suc (length (inorder r))"
proof (cases h)
  case 0
  then show ?thesis using assms by (cases r) (simp add: Suc_le_eq)
next
  case (Suc h')
  obtain its cs sz cow where r: "r = Node its cs sz cow" by (cases r)
  have "d ^ Suc h' \<le> Suc (length (inorder c))" if "c \<in> set cs" for c using child_height [of d h' c] assms(1) that by (auto simp: r Suc)
  then have "length cs * d ^ Suc h' \<le> sum_list (map (\<lambda>c. Suc (length (inorder c))) cs)" by (rule sum_list_ge)
  moreover have "2 \<le> length cs" using assms by (cases its) (simp_all add: r Suc)
  then have "2 * d ^ h \<le> length cs * d ^ Suc h'" unfolding Suc by (rule mult_le_mono1)
  ultimately show ?thesis using length_inorder [of d h' its cs sz cow] assms(1) by (simp only: r Suc)
qed

section \<open>Reading a tree\<close>

lemma Get_keys:
  assumes "keys_ok K t" "k \<in> K"
  shows "BTree_Get k t = Some (map_option snd (spec_find (bt_less t) k (elems t)))"
    and "Has k t = Some (spec_find (bt_less t) k (elems t) \<noteq> None)"
proof -
  note d = keys_okD [OF assms(1)]
  let ?lt = "extend_order K (bt_less t)"
  let ?t = "t\<lparr>bt_less := ?lt\<rparr>"
  have "BTree_Get k t = BTree_Get k ?t" "Has k t = Has k ?t"
    using node_get_same [OF d(2) assms(2) root_within [OF d(4,3)]] by (auto simp: BTree_Get_def Has_def split: option.split)
  then show "BTree_Get k t = Some (map_option snd (spec_find (bt_less t) k (elems t)))"
    "Has k t = Some (spec_find (bt_less t) k (elems t) \<noteq> None)"
    using ext.BTree_Get_ok [OF d(1), of K "bt_less t" k] spec_same [OF d(2) assms(2) d(3)] by simp_all
qed

lemma iterators_same:
  assumes "keys_ok K t" "k \<in> K"
  shows "BTree_Before k t = BTree_Before k (t\<lparr>bt_less := extend_order K (bt_less t)\<rparr>)"
    and "BTree_After k t = BTree_After k (t\<lparr>bt_less := extend_order K (bt_less t)\<rparr>)"
proof -
  note d = keys_okD [OF assms(1)]
  have "cursorStackForKey k (bt_less t) [] r = cursorStackForKey k (extend_order K (bt_less t)) [] r" if "bt_root t = Some r" for r
    by (rule cursorStackForKey_same [OF d(2) assms(2) root_within [OF d(4,3) that]])
  then show "BTree_Before k t = BTree_Before k (t\<lparr>bt_less := extend_order K (bt_less t)\<rparr>)"
    "BTree_After k t = BTree_After k (t\<lparr>bt_less := extend_order K (bt_less t)\<rparr>)"
    by (auto simp: BTree_Before_def BTree_After_def split: option.split)
qed

lemma Next_empty: "it_Next empty_Iterator = Some (empty_Iterator, False)"
  by (simp add: it_Next_def empty_Iterator_def)

lemma iterate_empty: "0 < fuel \<Longrightarrow> iterate fuel empty_Iterator = Some []"
  by (cases fuel) (simp_all add: Next_empty)

lemma Before_keys:
  assumes "keys_ok K t" "k \<in> K" "length (elems t) < fuel"
  obtains it where "BTree_Before k t = Some it"
    "iterate fuel it = Some (numbered (spec_rank (bt_less t) k (elems t)) 1 (from_key (bt_less t) k (elems t)))"
proof -
  note d = keys_okD [OF assms(1)] and e = spec_same [OF keys_okD(2) [OF assms(1)] assms(2) keys_okD(3) [OF assms(1)]]
  let ?lt = "extend_order K (bt_less t)"
  let ?t = "t\<lparr>bt_less := ?lt\<rparr>"
  have less: "bt_less ?t = ?lt" by simp
  obtain it where it: "BTree_Before k ?t = Some it" "iter_ok (bt_degree ?t) it" "\<not> it_descending it"
    "ahead it = from_key ?lt k (elems ?t)"
    "bt_root ?t \<noteq> None \<longrightarrow> (if it_stay it then it_Index it else it_Index it + 1) = spec_rank ?lt k (elems ?t)"
    by (rule ext.Before_ok [OF d(1) less, of k])
  have "length (ahead it) < fuel" using assms(3) it(4) by (simp add: from_key_def order.strict_trans1 [OF length_filter_le])
  then have "iterate fuel it = Some (numbered (if it_stay it then it_Index it else it_Index it + 1) 1 (ahead it))"
    using iterate_mono [OF iterate_ascending [OF it(2,3)]] by simp
  moreover have "bt_root t = None \<Longrightarrow> ahead it = []" using it(4) by (simp add: from_key_def elems_def)
  ultimately show thesis using it(1,4,5) e iterators_same [OF assms(1,2)] by (intro that [of it]) (cases "bt_root t"; simp)+
qed

lemma After_keys:
  assumes "keys_ok K t" "k \<in> K" "length (elems t) < fuel"
  obtains it where "BTree_After k t = Some it"
    "iterate fuel it = Some (numbered (int (length (upto_key (bt_less t) k (elems t))) - 1) (- 1) (rev (upto_key (bt_less t) k (elems t))))"
proof -
  note d = keys_okD [OF assms(1)] and e = spec_same [OF keys_okD(2) [OF assms(1)] assms(2) keys_okD(3) [OF assms(1)]]
  let ?lt = "extend_order K (bt_less t)"
  let ?t = "t\<lparr>bt_less := ?lt\<rparr>"
  have less: "bt_less ?t = ?lt" by simp
  obtain it where it: "BTree_After k ?t = Some it" "iter_ok (bt_degree ?t) it" "it_descending it \<or> it = empty_Iterator"
    "behind it = rev (upto_key ?lt k (elems ?t))"
    "bt_root ?t \<noteq> None \<longrightarrow> (if it_stay it then it_Index it else it_Index it - 1) = int (length (upto_key ?lt k (elems ?t))) - 1"
    "bt_root ?t \<noteq> None \<longrightarrow> it_descending it"
    by (rule ext.After_ok [OF d(1) less, of k])
  show thesis
  proof (cases "bt_root t")
    case None
    then have "BTree_After k t = Some empty_Iterator" "elems t = []" by (simp_all add: BTree_After_def elems_def)
    then show thesis using iterate_empty [of fuel] assms(3) by (intro that [of empty_Iterator]) (simp_all add: upto_key_def)
  next
    case (Some r)
    have "length (behind it) < fuel" using assms(3) it(4) by (simp add: upto_key_def order.strict_trans1 [OF length_filter_le])
    then have "iterate fuel it = Some (numbered (if it_stay it then it_Index it else it_Index it - 1) (- 1) (behind it))"
      using iterate_mono [OF iterate_descending [OF it(2)]] it(6) Some by simp
    then show thesis using it(1,4,5) e Some iterators_same [OF assms(1,2)] by (intro that [of it]) simp_all
  qed
qed

section \<open>Properties\<close>

text \<open>A new tree is a tree over any keys that its comparison orders.\<close>

lemma New_keys:
  assumes "order_on K lt" "New cow degree lt = Some t"
  shows "keys_ok K t" "elems t = []" "bt_less t = lt" "bt_degree t = degree"
  using tree_ok_New [OF assms(2)] assms by (auto simp: keys_ok_def New_def split: if_splits)

lemma tree_ok_sorted: "tree_ok t \<Longrightarrow> sorted_items (bt_less t) (elems t)"
  by (auto simp: tree_ok_def elems_def sorted_items_def split: option.splits)

lemma int_order: "order_on UNIV ((<) :: int \<Rightarrow> int \<Rightarrow> bool)"
  by (auto simp: order_on_def)

text \<open>C2: A B-tree refines a sorted sequence.  If the comparison is a strict weak order on the keys that are used, any
  sequence of calls of \<^verbatim>\<open>Set\<close>, \<^verbatim>\<open>SetWithIndex\<close>, \<^verbatim>\<open>Delete\<close>, \<^verbatim>\<open>DeleteMin\<close> and \<^verbatim>\<open>DeleteMax\<close> on a new tree returns without a panic; every
  answer (the previous value, whether there was one, the index, the item removed) is the one that the same
  operation on the sequence gives, and the tree holds the resulting sequence, in order and with the right length.\<close>

theorem btree_refines_sequence:
  assumes "order_on K lt" "New cow degree lt = Some t" "ops_over K ps"
  shows "\<exists>t' as. run_ops ps t = Some (t', as) \<and> spec_run lt ps [] = (elems t', as)
    \<and> sorted_items lt (elems t') \<and> BTree_Len t' = int (length (elems t'))"
proof -
  note n = New_keys [OF assms(1,2)]
  obtain t' as where r: "run_ops ps t = Some (t', as)" "keys_ok K t'" "bt_less t' = bt_less t" "bt_degree t' = bt_degree t"
    "spec_run (bt_less t) ps (elems t) = (elems t', as)"
    by (rule run_ops_ok [OF n(1) assms(3)])
  then show ?thesis using n keys_okD(4) [OF r(2)] tree_ok_Len [of t'] tree_ok_sorted [of t'] by auto
qed

theorem btree_refines_sequence_witness:
  "\<exists>t' as. run_ops [OpSet 5 ''a'', OpSetWithIndex 7 ''b'', OpSet (5::int) ''c'', OpSet 1 ''d'', OpDelete 7, OpDeleteMin, OpDelete 2]
       \<lparr>bt_degree = 2, bt_less = (<), bt_root = None, bt_cow = 0\<rparr> = Some (t', as)
     \<and> elems t' = [(5, ''c'')] \<and> BTree_Len t' = 1
     \<and> as = [Previous None False, PreviousAt None False 1, Previous (Some ''a'') True, Previous None False,
             Previous (Some ''b'') True, Extreme (Some (1, ''d'')), Previous None False]"
proof -
  let ?ps = "[OpSet 5 ''a'', OpSetWithIndex 7 ''b'', OpSet (5::int) ''c'', OpSet 1 ''d'', OpDelete 7, OpDeleteMin, OpDelete 2]"
  let ?t = "\<lparr>bt_degree = 2, bt_less = (<), bt_root = None, bt_cow = 0\<rparr>"
  have "New 0 2 (<) = Some ?t" "ops_over UNIV ?ps" by (simp_all add: New_def ops_over_def)
  from btree_refines_sequence [OF int_order this] obtain t' as where r: "run_ops ?ps ?t = Some (t', as)"
    "spec_run (<) ?ps [] = (elems t', as)" "BTree_Len t' = int (length (elems t'))" by blast
  have s: "spec_run (<) ?ps [] = ([(5, ''c'')], [Previous None False, PreviousAt None False 1, Previous (Some ''a'') True, Previous None False,
             Previous (Some ''b'') True, Extreme (Some (1, ''d'')), Previous None False])"
    by (simp add: spec_op_def spec_set_def spec_find_def spec_rank_def spec_delete_def eqv_def)
  then have "elems t' = [(5, ''c'')]" using r(2) by simp
  then show ?thesis using r s by simp
qed

text \<open>C10: A B-tree stays balanced.  After any such sequence of calls all leaves are at the same depth \<open>h\<close>, every node has
  at most \<open>2 d - 1\<close> items and every node but the root at least \<open>d - 1\<close>, the size kept in each node is the number of
  items below it, and the depth is logarithmic: \<open>2 d ^ h\<close> is at most one more than the number of items.\<close>

theorem btree_balanced:
  assumes "order_on K lt" "New cow degree lt = Some t" "ops_over K ps" "run_ops ps t = Some (t', as)" "bt_root t' = Some r"
  shows "\<exists>h. node_ok degree h r \<and> (elems t' \<noteq> [] \<longrightarrow> 2 * degree ^ h \<le> Suc (length (elems t')))"
proof -
  note n = New_keys [OF assms(1,2)]
  have "keys_ok K t' \<and> bt_degree t' = degree"
    by (rule run_ops_ok [OF n(1) assms(3)]) (use assms(4) n(4) in simp)
  then obtain h where h: "node_ok degree h r" "n_children r \<noteq> [] \<longrightarrow> n_items r \<noteq> []"
    using keys_okD(4) [of K t'] assms(5) by (auto simp: tree_ok_def)
  have "2 * degree ^ h \<le> Suc (length (elems t'))" if "elems t' \<noteq> []"
    using root_height [OF h(1)] h(2) that by (cases r) (auto simp: elems_def assms(5))
  with h(1) show ?thesis by blast
qed

theorem btree_balanced_witness:
  "\<exists>t' as r h. run_ops (map (\<lambda>k. OpSet k ()) [4, 1, 3, 5, 9 :: int]) \<lparr>bt_degree = 2, bt_less = (<), bt_root = None, bt_cow = 0\<rparr> = Some (t', as)
     \<and> bt_root t' = Some r \<and> length (elems t') = 5 \<and> node_ok 2 h r \<and> 2 * 2 ^ h \<le> (6 :: nat)"
proof -
  let ?t = "\<lparr>bt_degree = 2, bt_less = (<), bt_root = None, bt_cow = 0\<rparr> :: (int, unit) BTree"
  let ?ps = "map (\<lambda>k. OpSet k ()) [4, 1, 3, 5, 9 :: int]"
  have n: "New 0 2 (<) = Some ?t" "ops_over UNIV ?ps" by (simp_all add: New_def ops_over_def)
  obtain t' as where r: "run_ops ?ps ?t = Some (t', as)" "spec_run (bt_less ?t) ?ps (elems ?t) = (elems t', as)"
    by (rule run_ops_ok [OF New_keys(1) [OF int_order n(1)] n(2)])
  have "spec_run (<) ?ps [] = ([(1, ()), (3, ()), (4, ()), (5, ()), (9, ())], replicate 5 (Previous None False))"
    by (simp add: spec_op_def spec_set_def spec_find_def eqv_def eval_nat_numeral)
  then have e: "elems t' = [(1, ()), (3, ()), (4, ()), (5, ()), (9, ())]" using r(2) by (simp add: elems_def)
  then obtain root where root: "bt_root t' = Some root" by (cases "bt_root t'") (simp_all add: elems_def)
  from btree_balanced [OF int_order n r(1) root] e obtain h where "node_ok 2 h root" "2 * 2 ^ h \<le> (6 :: nat)" by auto
  with r(1) root e show ?thesis by (intro exI [of _ t'] exI [of _ as] exI [of _ root] exI [of _ h]) simp
qed

text \<open>A tree with two levels.\<close>

definition sample_tree :: "(int, string) BTree" where
  "sample_tree = \<lparr>bt_degree = 2, bt_less = (<),
     bt_root = Some (Node [(4, ''d'')] [Node [(1, ''a''), (3, ''c'')] [] 2 0, Node [(7, ''g'')] [] 1 0] 4 0), bt_cow = 0\<rparr>"

lemma sample_tree_ok: "keys_ok UNIV sample_tree" "tree_ok sample_tree" "bt_less sample_tree = (<)"
  "elems sample_tree = [(1, ''a''), (3, ''c''), (4, ''d''), (7, ''g'')]"
proof -
  show e: "elems sample_tree = [(1, ''a''), (3, ''c''), (4, ''d''), (7, ''g'')]" "bt_less sample_tree = (<)"
    by (simp_all add: sample_tree_def elems_def inorder.simps)
  show t: "tree_ok sample_tree"
    by (auto simp: sample_tree_def tree_ok_def sorted_items_def inorder.simps intro!: exI [of _ "Suc 0"])
  show "keys_ok UNIV sample_tree" using t int_order by (simp add: keys_ok_def e)
qed

text \<open>C28: Every read of a well-formed tree returns and agrees with its sequence of items: \<^verbatim>\<open>Get\<close> and \<^verbatim>\<open>Has\<close> look a key up,
  \<^verbatim>\<open>GetWithIndex\<close> also returns its rank (or -1), \<^verbatim>\<open>At\<close> is the item at a position and panics out of range, and \<^verbatim>\<open>Min\<close> and
  \<^verbatim>\<open>Max\<close> are the ends.\<close>

theorem btree_reads:
  assumes "keys_ok K t" "k \<in> K"
  shows "BTree_Get k t = Some (map_option snd (spec_find (bt_less t) k (elems t)))
    \<and> Has k t = Some (spec_find (bt_less t) k (elems t) \<noteq> None)
    \<and> GetWithIndex k t = Some (map_option snd (spec_find (bt_less t) k (elems t)),
        if spec_find (bt_less t) k (elems t) = None then -1 else spec_rank (bt_less t) k (elems t))
    \<and> BTree_At i t = (if 0 \<le> i \<and> i < int (length (elems t)) then Some (elems t ! nat i) else None)
    \<and> BTree_Min t = (if elems t = [] then None else Some (hd (elems t)))
    \<and> BTree_Max t = (if elems t = [] then None else Some (last (elems t)))"
  using Get_keys [OF assms] GetWithIndex_keys [OF assms] BTree_At_ok [OF keys_okD(4) [OF assms(1)]]
    BTree_ends [OF keys_okD(4) [OF assms(1)]] by blast

theorem btree_reads_witness:
  "BTree_Get 3 sample_tree = Some (Some ''c'') \<and> Has 2 sample_tree = Some False \<and> GetWithIndex 7 sample_tree = Some (Some ''g'', 3)
   \<and> BTree_At 2 sample_tree = Some (4, ''d'') \<and> BTree_At 4 sample_tree = None \<and> BTree_Min sample_tree = Some (1, ''a'')"
  using btree_reads [OF sample_tree_ok(1) UNIV_I, of 3 2] btree_reads [OF sample_tree_ok(1) UNIV_I, of 2 4]
    btree_reads [OF sample_tree_ok(1) UNIV_I, of 7 0]
  by (simp add: sample_tree_ok spec_find_def spec_rank_def eqv_def)

text \<open>C29: Iterators terminate and enumerate.  From \<^verbatim>\<open>Before(k)\<close>, calls of \<^verbatim>\<open>Next\<close> produce the items that are not below \<open>k\<close> in
  ascending order, from \<^verbatim>\<open>After(k)\<close> those that are not above \<open>k\<close> in descending order, each with its position in the
  whole sequence; \<^verbatim>\<open>Next\<close> reports the end after as many calls as there are items, at most.\<close>

theorem btree_iterators:
  assumes "keys_ok K t" "k \<in> K" "length (elems t) < fuel"
  shows "\<exists>up down. BTree_Before k t = Some up \<and> BTree_After k t = Some down
    \<and> iterate fuel up = Some (numbered (spec_rank (bt_less t) k (elems t)) 1 (from_key (bt_less t) k (elems t)))
    \<and> iterate fuel down = Some (numbered (int (length (upto_key (bt_less t) k (elems t))) - 1) (- 1) (rev (upto_key (bt_less t) k (elems t))))"
proof -
  obtain up where "BTree_Before k t = Some up"
    "iterate fuel up = Some (numbered (spec_rank (bt_less t) k (elems t)) 1 (from_key (bt_less t) k (elems t)))"
    by (rule Before_keys [OF assms])
  moreover obtain down where "BTree_After k t = Some down"
    "iterate fuel down = Some (numbered (int (length (upto_key (bt_less t) k (elems t))) - 1) (- 1) (rev (upto_key (bt_less t) k (elems t))))"
    by (rule After_keys [OF assms])
  ultimately show ?thesis by blast
qed

theorem btree_iterators_witness:
  "\<exists>up down. BTree_Before 2 sample_tree = Some up \<and> BTree_After 4 sample_tree = Some down
    \<and> iterate 5 up = Some [(Some (3, ''c''), 1), (Some (4, ''d''), 2), (Some (7, ''g''), 3)]
    \<and> iterate 5 down = Some [(Some (4, ''d''), 2), (Some (3, ''c''), 1), (Some (1, ''a''), 0)]"
  using btree_iterators [OF sample_tree_ok(1) UNIV_I, of 5 2] btree_iterators [OF sample_tree_ok(1) UNIV_I, of 5 4]
  by (auto simp: sample_tree_ok spec_rank_def from_key_def upto_key_def)

text \<open>Iterators by position.  \<^verbatim>\<open>BeforeIndex(i)\<close> and \<^verbatim>\<open>AfterIndex(i)\<close> panic exactly when \<open>i\<close> is not between 0 and the length; otherwise
  the one enumerates the items from position \<open>i\<close> on, the other those up to it, backwards.  At the length itself both are
  empty, although all items come before that position.\<close>

theorem btree_index_iterators:
  assumes "tree_ok t" "length (elems t) < fuel"
  shows "(\<not> (0 \<le> i \<and> i \<le> int (length (elems t))) \<longrightarrow> BeforeIndex i t = None \<and> AfterIndex i t = None)
    \<and> (0 \<le> i \<and> i \<le> int (length (elems t)) \<longrightarrow>
         (\<exists>up down. BeforeIndex i t = Some up \<and> AfterIndex i t = Some down
            \<and> iterate fuel up = Some (numbered i 1 (drop (nat i) (elems t)))
            \<and> iterate fuel down = Some (if i = int (length (elems t)) then [] else numbered i (- 1) (rev (take (Suc (nat i)) (elems t))))))"
proof (cases "0 \<le> i \<and> i \<le> int (length (elems t))")
  case True
  obtain up where u: "indexIterator i False t = Some up" "iter_ok (bt_degree t) up" "ahead up = drop (nat i) (elems t)"
    "i < int (length (elems t)) \<longrightarrow> it_stay up \<and> it_Index up = i \<and> it_descending up = False"
    "i = int (length (elems t)) \<longrightarrow> up = empty_Iterator"
    by (rule index_iterator [OF assms(1), of i False]) (use True in auto)
  obtain down where d: "indexIterator i True t = Some down" "iter_ok (bt_degree t) down"
    "behind down = (if i = int (length (elems t)) then [] else rev (take (Suc (nat i)) (elems t)))"
    "i < int (length (elems t)) \<longrightarrow> it_stay down \<and> it_Index down = i \<and> it_descending down = True"
    "i = int (length (elems t)) \<longrightarrow> down = empty_Iterator"
    by (rule index_iterator [OF assms(1), of i True]) (use True in auto)
  show ?thesis
  proof (cases "i = int (length (elems t))")
    case eq: True
    then show ?thesis using u(1,5) d(1,5) iterate_empty [of fuel] assms(2) by (auto simp: BeforeIndex_def AfterIndex_def)
  next
    case False
    then have up: "\<not> it_descending up" "it_stay up" "it_Index up = i" and down: "it_descending down" "it_stay down" "it_Index down = i"
      using True u(4) d(4) by auto
    have "length (ahead up) < fuel" "length (behind down) < fuel" using assms(2) u(3) d(3) False by auto
    with iterate_mono [OF iterate_ascending [OF u(2) up(1)], of fuel] iterate_mono [OF iterate_descending [OF d(2) down(1)], of fuel]
    show ?thesis using True False u(1,3) d(1,3) up down by (simp add: BeforeIndex_def AfterIndex_def)
  qed
qed (use tree_ok_Len [OF assms(1)] in \<open>auto simp: BeforeIndex_def AfterIndex_def indexIterator_def\<close>)

theorem btree_index_iterators_witness:
  "\<exists>up down. BeforeIndex 2 sample_tree = Some up \<and> AfterIndex 2 sample_tree = Some down
    \<and> iterate 5 up = Some [(Some (4, ''d''), 2), (Some (7, ''g''), 3)]
    \<and> iterate 5 down = Some [(Some (4, ''d''), 2), (Some (3, ''c''), 1), (Some (1, ''a''), 0)]"
  using btree_index_iterators [OF sample_tree_ok(2), of 5 2] by (simp add: sample_tree_ok numeral_2_eq_2)

end
