(* ===== verification/Btree_Store.thy ===== *)
theory Btree_Store
  imports Btree_Run
begin

text \<open>
  The B-tree as an ordered store: the interface on which the snapshots of Firestore rely.  A provider keeps a sequence of
  items sorted by the keys, and finds, removes and inserts by key; its client reasons about positions in the
  sequence.  The B-tree is an instance.
\<close>

section \<open>The interface\<close>

context strict_weak_order
begin

lemma split_absent:
  "sorted_items lt xs \<Longrightarrow> spec_find lt k xs = None \<Longrightarrow> xs = filter (\<lambda>y. lt (fst y) k) xs @ filter (\<lambda>y. lt k (fst y)) xs"
proof (induction xs)
  case (Cons x xs)
  have s: "sorted_items lt xs" "\<And>y. y \<in> set xs \<Longrightarrow> lt (fst x) (fst y)" using Cons.prems by (auto simp: sorted_items_def)
  have n: "spec_find lt k xs = None" "\<not> eqv lt k (fst x)" using Cons.prems(2) by (auto simp: spec_find_def split: if_splits)
  show ?case
  proof (cases "lt k (fst x)")
    case True
    have gt: "lt k (fst y)" if "y \<in> set xs" for y using trans [OF True s(2) [OF that]] .
    then have "filter (\<lambda>y. lt k (fst y)) xs = xs" "filter (\<lambda>y. lt (fst y) k) xs = []"
      using asym by (auto simp: filter_id_conv filter_empty_conv)
    with True asym [OF True] show ?thesis by simp
  next
    case False
    with n(2) have "lt (fst x) k" by (auto simp: eqv_def)
    with False Cons.IH [OF s(1) n(1)] show ?thesis by simp
  qed
qed simp

end

locale ordered_store =
  fixes inv :: "'k set \<Rightarrow> 't \<Rightarrow> bool"
    and contents :: "'t \<Rightarrow> ('k \<times> 'v) list"
    and less_of :: "'t \<Rightarrow> 'k \<Rightarrow> 'k \<Rightarrow> bool"
    and set_key :: "'k \<Rightarrow> 'v \<Rightarrow> 't \<Rightarrow> ('t \<times> 'v option \<times> bool) option"
    and delete_key :: "'k \<Rightarrow> 't \<Rightarrow> ('t \<times> 'v option \<times> bool) option"
    and get_index :: "'k \<Rightarrow> 't \<Rightarrow> ('v option \<times> int) option"
  assumes order: "inv K t \<Longrightarrow> order_on K (less_of t)"
    and keys: "inv K t \<Longrightarrow> list_all (\<lambda>x. fst x \<in> K) (contents t)"
    and sorted: "inv K t \<Longrightarrow> sorted_items (less_of t) (contents t)"
    and get_index: "inv K t \<Longrightarrow> k \<in> K \<Longrightarrow> get_index k t = Some (map_option snd (spec_find (less_of t) k (contents t)),
          if spec_find (less_of t) k (contents t) = None then -1 else spec_rank (less_of t) k (contents t))"
    and delete_key: "inv K t \<Longrightarrow> k \<in> K \<Longrightarrow> \<exists>t'. inv K t' \<and> less_of t' = less_of t
        \<and> contents t' = spec_delete (less_of t) k (contents t)
        \<and> delete_key k t = Some (t', map_option snd (spec_find (less_of t) k (contents t)), spec_find (less_of t) k (contents t) \<noteq> None)"
    and set_key: "inv K t \<Longrightarrow> k \<in> K \<Longrightarrow> \<exists>t'. inv K t' \<and> less_of t' = less_of t
        \<and> contents t' = spec_set (less_of t) k v (contents t)
        \<and> set_key k v t = Some (t', map_option snd (spec_find (less_of t) k (contents t)), spec_find (less_of t) k (contents t) \<noteq> None)"
begin

text \<open>The order of the store, extended to all keys.\<close>

lemma extended:
  assumes "inv K t"
  shows "same_on K (less_of t) (extend_order K (less_of t))" "sorted_items (extend_order K (less_of t)) (contents t)"
proof -
  show same: "same_on K (less_of t) (extend_order K (less_of t))" by (rule extend_same [OF order [OF assms]])
  show "sorted_items (extend_order K (less_of t)) (contents t)" using sorted_same [OF same keys [OF assms]] sorted [OF assms] by simp
qed

lemma split_at:
  assumes "inv K t" "contents t = l @ x # r"
  shows "get_index (fst x) t = Some (Some (snd x), int (length l))"
    and "\<exists>t'. delete_key (fst x) t = Some (t', Some (snd x), True) \<and> inv K t' \<and> contents t' = l @ r \<and> less_of t' = less_of t"
proof -
  note e = extended [OF assms(1)]
  have k: "fst x \<in> K" using keys [OF assms(1)] assms(2) by simp
  have f: "spec_find (less_of t) (fst x) (contents t) = Some x" "spec_rank (less_of t) (fst x) (contents t) = int (length l)"
    "spec_delete (less_of t) (fst x) (contents t) = l @ r"
    using ext.spec_found [of K "less_of t" l x r "fst x"] e(2) spec_same [OF e(1) k keys [OF assms(1)]] assms(2) by simp_all
  show "get_index (fst x) t = Some (Some (snd x), int (length l))" using get_index [OF assms(1) k] f by simp
  show "\<exists>t'. delete_key (fst x) t = Some (t', Some (snd x), True) \<and> inv K t' \<and> contents t' = l @ r \<and> less_of t' = less_of t"
    using delete_key [OF assms(1) k] f by auto
qed

lemma set_absent:
  assumes "inv K t" "k \<in> K" "spec_find (less_of t) k (contents t) = None"
  shows "\<exists>t' l r. set_key k v t = Some (t', None, False) \<and> inv K t' \<and> contents t = l @ r \<and> contents t' = l @ (k, v) # r
           \<and> less_of t' = less_of t"
proof -
  note e = extended [OF assms(1)]
  note s = spec_same [OF e(1) assms(2) keys [OF assms(1)]]
  let ?lt = "extend_order K (less_of t)"
  let ?l = "filter (\<lambda>y. ?lt (fst y) k) (contents t)" and ?r = "filter (\<lambda>y. ?lt k (fst y)) (contents t)"
  have "contents t = ?l @ ?r" by (rule ext.split_absent [OF e(2)]) (use assms(3) s in simp)
  moreover have "spec_set (less_of t) k v (contents t) = ?l @ (k, v) # ?r" using s by (simp add: spec_set_def)
  ultimately show ?thesis using set_key [OF assms(1,2), of v] assms(3) by fastforce
qed

end

section \<open>The B-tree provides it\<close>

interpretation btree: ordered_store keys_ok elems bt_less BTree_Set BTree_Delete GetWithIndex
proof
  fix K k v and t :: "('a, 'b) BTree"
  assume t: "keys_ok K t"
  show "order_on K (bt_less t)" "list_all (\<lambda>x. fst x \<in> K) (elems t)" by (rule keys_okD(5) [OF t], rule keys_okD(3) [OF t])
  show "sorted_items (bt_less t) (elems t)" by (rule tree_ok_sorted [OF keys_okD(4) [OF t]])
  assume k: "k \<in> K"
  show "GetWithIndex k t = Some (map_option snd (spec_find (bt_less t) k (elems t)),
      if spec_find (bt_less t) k (elems t) = None then -1 else spec_rank (bt_less t) k (elems t))" by (rule GetWithIndex_keys [OF t k])
  show "\<exists>t'. keys_ok K t' \<and> bt_less t' = bt_less t \<and> elems t' = spec_delete (bt_less t) k (elems t)
      \<and> BTree_Delete k t = Some (t', map_option snd (spec_find (bt_less t) k (elems t)), spec_find (bt_less t) k (elems t) \<noteq> None)"
    by (rule Delete_keys [OF t k]) blast
  show "\<exists>t'. keys_ok K t' \<and> bt_less t' = bt_less t \<and> elems t' = spec_set (bt_less t) k v (elems t)
      \<and> BTree_Set k v t = Some (t', map_option snd (spec_find (bt_less t) k (elems t)), spec_find (bt_less t) k (elems t) \<noteq> None)"
    by (rule Set_keys [OF t k, of v False]) (auto simp: BTree_Set_def)
qed

end
