(* ===== verification/Btree_Heap.thy ===== *)
theory Btree_Heap
  imports Btree_Run
begin

text \<open>
  The B-tree on a heap: nodes with addresses, modified in place, shared between a tree and its clones, and reused
  through the pool of freed nodes (\<^verbatim>\<open>internal/btree/btree.go\<close>).  It is the model for the one claim that depends on aliasing: a
  tree that is cloned is not changed by what is done to the clone.  A cell holds the fields of a
  node; \<open>None\<close> as its owner is the nil context of a freed node.  \<open>pick\<close> stands for the choice of \<^verbatim>\<open>sync.Pool\<close> between the nodes
  of the pool and a new one.  As before \<open>None\<close> is a panic or a call that does not return.
\<close>

section \<open>Cells and stores\<close>

record ('k, 'v) cell =
  c_items :: "('k, 'v) item list"
  c_children :: "nat list"
  c_size :: int
  c_cow :: "nat option"

record ('k, 'v) store =
  st_heap :: "nat \<Rightarrow> ('k, 'v) cell option"
  st_pool :: "nat list"
  st_next :: nat

definition put :: "nat \<Rightarrow> ('k, 'v) cell \<Rightarrow> ('k, 'v) store \<Rightarrow> ('k, 'v) store" where
  "put a x st = st\<lparr>st_heap := (st_heap st)(a \<mapsto> x)\<rparr>"

text \<open>A change of the fields of a node other than its owner.\<close>

definition upd :: "nat \<Rightarrow> (('k, 'v) cell \<Rightarrow> ('k, 'v) cell) \<Rightarrow> ('k, 'v) store \<Rightarrow> ('k, 'v) store option" where
  "upd a f st = Option.bind (st_heap st a) (\<lambda>x. Some (put a ((f x)\<lparr>c_cow := c_cow x\<rparr>) st))"

section \<open>Nodes\<close>

definition h_newNode :: "(nat list \<Rightarrow> nat option) \<Rightarrow> nat option \<Rightarrow> ('k, 'v) store \<Rightarrow> (nat \<times> ('k, 'v) store) option" where
  "h_newNode pick c st =
     (case pick (st_pool st) of
        Some a \<Rightarrow>
          if a \<in> set (st_pool st)
          then Option.bind (st_heap st a) (\<lambda>x. Some (a, (put a (x\<lparr>c_cow := c\<rparr>) st)\<lparr>st_pool := removeAll a (st_pool st)\<rparr>))
          else None
      | None \<Rightarrow>
          Some (st_next st, (put (st_next st) \<lparr>c_items = [], c_children = [], c_size = 0, c_cow = c\<rparr> st)\<lparr>st_next := Suc (st_next st)\<rparr>))"

definition h_freeNode :: "nat option \<Rightarrow> nat \<Rightarrow> ('k, 'v) store \<Rightarrow> ('k, 'v) store option" where
  "h_freeNode c a st =
     Option.bind (st_heap st a) (\<lambda>x.
       if c_cow x = c
       then Some ((put a (x\<lparr>c_items := [], c_children := [], c_cow := None\<rparr>) st)\<lparr>st_pool := a # st_pool st\<rparr>)
       else Some st)"

definition h_sizes :: "nat list \<Rightarrow> ('k, 'v) store \<Rightarrow> int list option" where
  "h_sizes cs st = those (map (\<lambda>c. map_option c_size (st_heap st c)) cs)"

text \<open>\<^verbatim>\<open>n.size = n.computeSize()\<close>.\<close>

definition h_resize :: "nat \<Rightarrow> ('k, 'v) store \<Rightarrow> ('k, 'v) store option" where
  "h_resize n st =
     Option.bind (st_heap st n) (\<lambda>x.
     Option.bind (h_sizes (c_children x) st) (\<lambda>ss.
       upd n (\<lambda>x. x\<lparr>c_size := int (length (c_items x)) + sum_list ss\<rparr>) st))"

definition h_mutableFor :: "(nat list \<Rightarrow> nat option) \<Rightarrow> nat option \<Rightarrow> nat \<Rightarrow> ('k, 'v) store \<Rightarrow> (nat \<times> ('k, 'v) store) option" where
  "h_mutableFor pick c n st =
     Option.bind (st_heap st n) (\<lambda>x.
       if c_cow x = c then Some (n, st)
       else Option.bind (h_newNode pick c st) (\<lambda>(out, st1).
            Option.bind (upd out (\<lambda>y. y\<lparr>c_items := c_items x, c_children := c_children x, c_size := c_size x\<rparr>) st1) (\<lambda>st2.
              Some (out, st2))))"

definition h_mutableChild :: "(nat list \<Rightarrow> nat option) \<Rightarrow> nat \<Rightarrow> nat \<Rightarrow> ('k, 'v) store \<Rightarrow> (nat \<times> ('k, 'v) store) option" where
  "h_mutableChild pick i n st =
     Option.bind (st_heap st n) (\<lambda>x.
       if i < length (c_children x)
       then Option.bind (h_mutableFor pick (c_cow x) (c_children x ! i) st) (\<lambda>(c, st1).
            Option.bind (upd n (\<lambda>y. y\<lparr>c_children := (c_children y)[i := c]\<rparr>) st1) (\<lambda>st2. Some (c, st2)))
       else None)"

definition h_split_children :: "nat \<Rightarrow> nat list \<Rightarrow> nat \<Rightarrow> nat \<Rightarrow> ('k, 'v) store \<Rightarrow> ('k, 'v) store option" where
  "h_split_children i cs n b st =
     (if cs \<noteq> []
      then Option.bind (upd b (\<lambda>y. y\<lparr>c_children := c_children y @ drop (Suc i) cs\<rparr>) st)
             (upd n (\<lambda>y. y\<lparr>c_children := children_truncate (Suc i) (c_children y)\<rparr>))
      else Some st)"

definition h_split :: "(nat list \<Rightarrow> nat option) \<Rightarrow> nat \<Rightarrow> nat \<Rightarrow> ('k, 'v) store \<Rightarrow> (('k, 'v) item \<times> nat \<times> ('k, 'v) store) option" where
  "h_split pick i n st =
     Option.bind (st_heap st n) (\<lambda>x.
       if i < length (c_items x)
       then Option.bind (h_newNode pick (c_cow x) st) (\<lambda>(b, st1).
            Option.bind (upd b (\<lambda>y. y\<lparr>c_items := c_items y @ drop (Suc i) (c_items x)\<rparr>) st1) (\<lambda>st2.
            Option.bind (upd n (\<lambda>y. y\<lparr>c_items := items_truncate i (c_items y)\<rparr>) st2) (\<lambda>st3.
            Option.bind (h_split_children i (c_children x) n b st3) (\<lambda>st4.
            Option.bind (h_resize n st4) (\<lambda>st5.
            Option.bind (h_resize b st5) (\<lambda>st6. Some (c_items x ! i, b, st6)))))))
       else None)"

definition h_maybeSplitChild :: "(nat list \<Rightarrow> nat option) \<Rightarrow> nat \<Rightarrow> nat \<Rightarrow> nat \<Rightarrow> ('k, 'v) store \<Rightarrow> (bool \<times> ('k, 'v) store) option" where
  "h_maybeSplitChild pick i mx n st =
     Option.bind (st_heap st n) (\<lambda>x.
       if i < length (c_children x)
       then Option.bind (st_heap st (c_children x ! i)) (\<lambda>c.
            if length (c_items c) < mx then Some (False, st)
            else Option.bind (h_mutableChild pick i n st) (\<lambda>(first, st1).
                 Option.bind (h_split pick (mx div 2) first st1) (\<lambda>(it, second, st2).
                 Option.bind (upd n (\<lambda>y. y\<lparr>c_items := items_insertAt i it (c_items y),
                                       c_children := children_insertAt (Suc i) second (c_children y)\<rparr>) st2) (\<lambda>st3.
                   Some (True, st3)))))
       else None)"

definition h_partialSize :: "nat \<Rightarrow> nat \<Rightarrow> ('k, 'v) store \<Rightarrow> int option" where
  "h_partialSize i n st =
     Option.bind (st_heap st n) (\<lambda>x.
     Option.bind (h_sizes (take i (c_children x)) st) (\<lambda>ss. Some (sum_list (map (\<lambda>s. s + 1) ss))))"

definition h_itemIndex :: "nat \<Rightarrow> nat \<Rightarrow> ('k, 'v) store \<Rightarrow> int option" where
  "h_itemIndex i n st =
     Option.bind (st_heap st n) (\<lambda>x.
       if c_children x = [] then Some (int i) else map_option (\<lambda>s. s - 1) (h_partialSize (Suc i) n st))"

section \<open>Insertion\<close>

text \<open>An item in its place: the value replaced, and the index if it is asked for.\<close>

definition h_replace :: "nat \<Rightarrow> ('k, 'v) item \<Rightarrow> bool \<Rightarrow> nat \<Rightarrow> ('k, 'v) store \<Rightarrow> (('v option \<times> bool \<times> int) \<times> ('k, 'v) store) option" where
  "h_replace i m computeIndex n st =
     Option.bind (st_heap st n) (\<lambda>x.
     Option.bind (upd n (\<lambda>y. y\<lparr>c_items := (c_items y)[i := m]\<rparr>) st) (\<lambda>st1.
     Option.bind (if computeIndex then h_itemIndex i n st1 else Some 0) (\<lambda>idx.
       Some ((Some (snd (c_items x ! i)), True, idx), st1))))"

definition h_insert_step ::
  "(nat list \<Rightarrow> nat option) \<Rightarrow> ('k, 'v) item \<Rightarrow> nat \<Rightarrow> ('k \<Rightarrow> 'k \<Rightarrow> bool) \<Rightarrow> bool \<Rightarrow> nat \<Rightarrow> ('k, 'v) store
   \<Rightarrow> ((('v option \<times> bool \<times> int) + nat) \<times> ('k, 'v) store) option" where
  "h_insert_step pick m mx lt computeIndex n st =
     Option.bind (st_heap st n) (\<lambda>x.
       case items_find lt (fst m) (c_items x) of (i, found) \<Rightarrow>
         if found then map_option (\<lambda>(r, st1). (Inl r, st1)) (h_replace i m computeIndex n st)
         else if c_children x = []
         then Option.bind (upd n (\<lambda>y. y\<lparr>c_items := items_insertAt i m (c_items y), c_size := c_size y + 1\<rparr>) st) (\<lambda>st1.
                Some (Inl (None, False, int i), st1))
         else Option.bind (h_maybeSplitChild pick i mx n st) (\<lambda>(splitted, st1).
                if \<not> splitted then Some (Inr i, st1)
                else Option.bind (st_heap st1 n) (\<lambda>x1.
                  let inTree = c_items x1 ! i
                  in if lt (fst m) (fst inTree) then Some (Inr i, st1)
                     else if lt (fst inTree) (fst m) then Some (Inr (Suc i), st1)
                     else map_option (\<lambda>(r, st2). (Inl r, st2)) (h_replace i m computeIndex n st1))))"

partial_function (option) h_insert ::
  "(nat list \<Rightarrow> nat option) \<Rightarrow> ('k, 'v) item \<Rightarrow> nat \<Rightarrow> ('k \<Rightarrow> 'k \<Rightarrow> bool) \<Rightarrow> bool \<Rightarrow> nat \<Rightarrow> ('k, 'v) store
   \<Rightarrow> (('v option \<times> bool \<times> int) \<times> ('k, 'v) store) option" where
  "h_insert pick m mx lt computeIndex n st =
     Option.bind (h_insert_step pick m mx lt computeIndex n st) (\<lambda>(r, st1). case r of
        Inl result \<Rightarrow> Some (result, st1)
      | Inr i \<Rightarrow>
          Option.bind (h_mutableChild pick i n st1) (\<lambda>(c, st2).
          Option.bind (h_insert pick m mx lt computeIndex c st2) (\<lambda>((old, present, idx), st3).
          Option.bind (if \<not> present then upd n (\<lambda>y. y\<lparr>c_size := c_size y + 1\<rparr>) st3 else Some st3) (\<lambda>st4.
          Option.bind (if computeIndex then map_option (\<lambda>s. idx + s) (h_partialSize i n st4) else Some idx) (\<lambda>idx'.
            Some ((old, present, idx'), st4))))))"

declare h_insert.simps [code]

section \<open>Removal\<close>

text \<open>A child that goes along with the item stolen.\<close>

definition h_move_child ::
  "nat \<Rightarrow> nat \<Rightarrow> (nat \<Rightarrow> nat list \<Rightarrow> nat list) \<Rightarrow> (nat list \<times> nat) option \<Rightarrow> ('k, 'v) store \<Rightarrow> ('k, 'v) store option" where
  "h_move_child stealFrom child add r st =
     (case r of
        None \<Rightarrow> Some st
      | Some (sChildren, c) \<Rightarrow>
          Option.bind (st_heap st c) (\<lambda>cx.
          Option.bind (upd stealFrom (\<lambda>y. y\<lparr>c_children := sChildren, c_size := c_size y - c_size cx\<rparr>) st)
            (upd child (\<lambda>y. y\<lparr>c_children := add c (c_children y), c_size := c_size y + c_size cx\<rparr>))))"

definition h_steal_left :: "(nat list \<Rightarrow> nat option) \<Rightarrow> nat \<Rightarrow> nat \<Rightarrow> ('k, 'v) store \<Rightarrow> ('k, 'v) store option" where
  "h_steal_left pick i n st =
     Option.bind (h_mutableChild pick i n st) (\<lambda>(child, st1).
     Option.bind (h_mutableChild pick (i - 1) n st1) (\<lambda>(stealFrom, st2).
     Option.bind (st_heap st2 stealFrom) (\<lambda>sx.
     Option.bind (items_pop (c_items sx)) (\<lambda>(sItems, stolenItem).
     Option.bind (upd stealFrom (\<lambda>y. y\<lparr>c_items := sItems, c_size := c_size y - 1\<rparr>) st2) (\<lambda>st3.
     Option.bind (st_heap st3 n) (\<lambda>nx.
     Option.bind (upd child (\<lambda>y. y\<lparr>c_items := items_insertAt 0 (c_items nx ! (i - 1)) (c_items y), c_size := c_size y + 1\<rparr>) st3) (\<lambda>st4.
     Option.bind (upd n (\<lambda>y. y\<lparr>c_items := (c_items y)[i - 1 := stolenItem]\<rparr>) st4) (\<lambda>st5.
       h_move_child stealFrom child (children_insertAt 0) (children_pop (c_children sx)) st5))))))))"

definition h_steal_right :: "(nat list \<Rightarrow> nat option) \<Rightarrow> nat \<Rightarrow> nat \<Rightarrow> ('k, 'v) store \<Rightarrow> ('k, 'v) store option" where
  "h_steal_right pick i n st =
     Option.bind (h_mutableChild pick i n st) (\<lambda>(child, st1).
     Option.bind (h_mutableChild pick (Suc i) n st1) (\<lambda>(stealFrom, st2).
     Option.bind (st_heap st2 stealFrom) (\<lambda>sx.
     Option.bind (items_removeAt 0 (c_items sx)) (\<lambda>(sItems, stolenItem).
     Option.bind (upd stealFrom (\<lambda>y. y\<lparr>c_items := sItems, c_size := c_size y - 1\<rparr>) st2) (\<lambda>st3.
     Option.bind (st_heap st3 n) (\<lambda>nx.
     Option.bind (upd child (\<lambda>y. y\<lparr>c_items := c_items y @ [c_items nx ! i], c_size := c_size y + 1\<rparr>) st3) (\<lambda>st4.
     Option.bind (upd n (\<lambda>y. y\<lparr>c_items := (c_items y)[i := stolenItem]\<rparr>) st4) (\<lambda>st5.
       h_move_child stealFrom child (\<lambda>c cs. cs @ [c]) (children_removeAt 0 (c_children sx)) st5))))))))"

definition h_merge_child :: "(nat list \<Rightarrow> nat option) \<Rightarrow> nat \<Rightarrow> nat \<Rightarrow> ('k, 'v) store \<Rightarrow> ('k, 'v) store option" where
  "h_merge_child pick i n st =
     Option.bind (h_mutableChild pick i n st) (\<lambda>(child, st1).
     Option.bind (st_heap st1 n) (\<lambda>nx.
     Option.bind (items_removeAt i (c_items nx)) (\<lambda>(nItems, mergeItem).
     Option.bind (children_removeAt (Suc i) (c_children nx)) (\<lambda>(nChildren, mergeChild).
     Option.bind (upd n (\<lambda>y. y\<lparr>c_items := nItems, c_children := nChildren\<rparr>) st1) (\<lambda>st2.
     Option.bind (st_heap st2 mergeChild) (\<lambda>mx.
     Option.bind (upd child (\<lambda>y. y\<lparr>c_items := c_items y @ [mergeItem] @ c_items mx, c_children := c_children y @ c_children mx\<rparr>) st2) (\<lambda>st3.
     Option.bind (h_resize child st3) (\<lambda>st4. h_freeNode (c_cow nx) mergeChild st4))))))))"

definition h_growChild :: "(nat list \<Rightarrow> nat option) \<Rightarrow> nat \<Rightarrow> nat \<Rightarrow> nat \<Rightarrow> ('k, 'v) store \<Rightarrow> ('k, 'v) store option" where
  "h_growChild pick i mn n st =
     Option.bind (st_heap st n) (\<lambda>x.
     Option.bind (if i > 0 then map_option (\<lambda>c. length (c_items c) > mn) (st_heap st (c_children x ! (i - 1))) else Some False) (\<lambda>left.
       if left then h_steal_left pick i n st
       else Option.bind (if i < length (c_items x) then map_option (\<lambda>c. length (c_items c) > mn) (st_heap st (c_children x ! Suc i)) else Some False) (\<lambda>right.
            if right then h_steal_right pick i n st
            else h_merge_child pick (if i \<ge> length (c_items x) then i - 1 else i) n st)))"

text \<open>\<^verbatim>\<open>remove\<close> up to its recursive calls.\<close>

definition h_leaf_result ::
  "nat \<Rightarrow> (('k, 'v) item list \<times> ('k, 'v) item) option \<Rightarrow> ('k, 'v) store
   \<Rightarrow> (((('k, 'v) item option \<times> bool) + nat \<times> bool) \<times> ('k, 'v) store) option" where
  "h_leaf_result n r st =
     Option.bind r (\<lambda>(its, out).
     Option.bind (upd n (\<lambda>y. y\<lparr>c_items := its, c_size := c_size y - 1\<rparr>) st) (\<lambda>st1. Some (Inl (Some out, True), st1)))"

definition h_remove_step ::
  "'k option \<Rightarrow> toRemove \<Rightarrow> ('k \<Rightarrow> 'k \<Rightarrow> bool) \<Rightarrow> nat \<Rightarrow> ('k, 'v) store
   \<Rightarrow> (((('k, 'v) item option \<times> bool) + nat \<times> bool) \<times> ('k, 'v) store) option" where
  "h_remove_step key ty lt n st =
     Option.bind (st_heap st n) (\<lambda>x.
       case ty of
         removeMax \<Rightarrow>
           if c_children x = [] then h_leaf_result n (items_pop (c_items x)) st
           else Some (Inr (length (c_items x), False), st)
       | removeMin \<Rightarrow>
           if c_children x = [] then h_leaf_result n (items_removeAt 0 (c_items x)) st
           else Some (Inr (0, False), st)
       | removeItem \<Rightarrow>
           Option.bind key (\<lambda>k.
             case items_find lt k (c_items x) of (i, found) \<Rightarrow>
               if c_children x = []
               then if found then h_leaf_result n (items_removeAt i (c_items x)) st
                    else Some (Inl (None, False), st)
               else Some (Inr (i, found), st)))"

partial_function (option) h_remove ::
  "(nat list \<Rightarrow> nat option) \<Rightarrow> 'k option \<Rightarrow> nat \<Rightarrow> toRemove \<Rightarrow> ('k \<Rightarrow> 'k \<Rightarrow> bool) \<Rightarrow> nat \<Rightarrow> ('k, 'v) store
   \<Rightarrow> ((('k, 'v) item option \<times> bool) \<times> ('k, 'v) store) option" where
  "h_remove pick key mn ty lt n st =
     Option.bind (h_remove_step key ty lt n st) (\<lambda>(r, st1). case r of
        Inl result \<Rightarrow> Some (result, st1)
      | Inr (i, found) \<Rightarrow>
          Option.bind (st_heap st1 n) (\<lambda>x.
          if i < length (c_children x)
          then Option.bind (st_heap st1 (c_children x ! i)) (\<lambda>cx.
            if length (c_items cx) \<le> mn
            then Option.bind (h_growChild pick i mn n st1) (\<lambda>st2. h_remove pick key mn ty lt n st2)
            else Option.bind (h_mutableChild pick i n st1) (\<lambda>(child, st2).
              if found
              then Option.bind (h_remove pick None mn removeMax lt child st2) (\<lambda>((out', _), st3).
                   Option.bind out' (\<lambda>m.
                   Option.bind (upd n (\<lambda>y. y\<lparr>c_items := (c_items y)[i := m], c_size := c_size y - 1\<rparr>) st3) (\<lambda>st4.
                     Some ((Some (c_items x ! i), True), st4))))
              else Option.bind (h_remove pick key mn ty lt child st2) (\<lambda>((out, removed), st3).
                   Option.bind (if removed then upd n (\<lambda>y. y\<lparr>c_size := c_size y - 1\<rparr>) st3 else Some st3) (\<lambda>st4.
                     Some ((out, removed), st4)))))
          else None))"

declare h_remove.simps [code]

section \<open>Trees\<close>

record 'k htree =
  ht_degree :: nat
  ht_less :: "'k \<Rightarrow> 'k \<Rightarrow> bool"
  ht_root :: "nat option"
  ht_cow :: nat

definition h_Clone :: "nat \<Rightarrow> nat \<Rightarrow> 'k htree \<Rightarrow> 'k htree \<times> 'k htree" where
  "h_Clone cow1 cow2 t = (t\<lparr>ht_cow := cow1\<rparr>, t\<lparr>ht_cow := cow2\<rparr>)"

text \<open>The split of a full root: the new root has the item and the two halves.\<close>

definition h_split_root :: "(nat list \<Rightarrow> nat option) \<Rightarrow> nat \<Rightarrow> nat \<Rightarrow> nat \<Rightarrow> ('k, 'v) store \<Rightarrow> (nat \<times> ('k, 'v) store) option" where
  "h_split_root pick cow mx root st =
     Option.bind (st_heap st root) (\<lambda>x.
       if length (c_items x) \<ge> mx
       then Option.bind (h_split pick (mx div 2) root st) (\<lambda>(item2, second, st1).
            Option.bind (h_newNode pick (Some cow) st1) (\<lambda>(r, st2).
            Option.bind (upd r (\<lambda>y. y\<lparr>c_items := c_items y @ [item2], c_children := c_children y @ [root, second], c_size := c_size x\<rparr>) st2) (\<lambda>st3.
              Some (r, st3))))
       else Some (root, st))"

definition h_set ::
  "(nat list \<Rightarrow> nat option) \<Rightarrow> 'k \<Rightarrow> 'v \<Rightarrow> bool \<Rightarrow> 'k htree \<Rightarrow> ('k, 'v) store
   \<Rightarrow> ('k htree \<times> ('v option \<times> bool \<times> int) \<times> ('k, 'v) store) option" where
  "h_set pick k v computeIndex t st =
     (case ht_root t of
        None \<Rightarrow>
          Option.bind (h_newNode pick (Some (ht_cow t)) st) (\<lambda>(r, st1).
          Option.bind (upd r (\<lambda>y. y\<lparr>c_items := c_items y @ [(k, v)], c_size := 1\<rparr>) st1) (\<lambda>st2.
            Some (t\<lparr>ht_root := Some r\<rparr>, (None, False, 0), st2)))
      | Some root \<Rightarrow>
          Option.bind (h_mutableFor pick (Some (ht_cow t)) root st) (\<lambda>(root1, st1).
          Option.bind (h_split_root pick (ht_cow t) (ht_degree t * 2 - 1) root1 st1) (\<lambda>(root2, st2).
          Option.bind (h_insert pick (k, v) (ht_degree t * 2 - 1) (ht_less t) computeIndex root2 st2) (\<lambda>(r, st3).
            Some (t\<lparr>ht_root := Some root2\<rparr>, r, st3)))))"

text \<open>A root without items is replaced by its only child.\<close>

definition h_collapse :: "nat \<Rightarrow> nat \<Rightarrow> ('k, 'v) store \<Rightarrow> (nat \<times> ('k, 'v) store) option" where
  "h_collapse cow root st =
     Option.bind (st_heap st root) (\<lambda>x.
       if c_items x = [] \<and> c_children x \<noteq> []
       then Option.bind (h_freeNode (Some cow) root st) (\<lambda>st1. Some (c_children x ! 0, st1))
       else Some (root, st))"

definition h_deleteItem ::
  "(nat list \<Rightarrow> nat option) \<Rightarrow> 'k option \<Rightarrow> toRemove \<Rightarrow> 'k htree \<Rightarrow> ('k, 'v) store
   \<Rightarrow> ('k htree \<times> (('k, 'v) item option \<times> bool) \<times> ('k, 'v) store) option" where
  "h_deleteItem pick key ty t st =
     (case ht_root t of
        None \<Rightarrow> Some (t, (None, False), st)
      | Some root \<Rightarrow>
          Option.bind (st_heap st root) (\<lambda>x0.
          if c_items x0 = [] then Some (t, (None, False), st)
          else
          Option.bind (h_mutableFor pick (Some (ht_cow t)) root st) (\<lambda>(root1, st1).
          Option.bind (h_remove pick key (ht_degree t - 1) ty (ht_less t) root1 st1) (\<lambda>(r, st2).
          Option.bind (h_collapse (ht_cow t) root1 st2) (\<lambda>(root2, st3).
            Some (t\<lparr>ht_root := Some root2\<rparr>, r, st3))))))"

definition h_apply ::
  "(nat list \<Rightarrow> nat option) \<Rightarrow> ('k, 'v) tree_op \<Rightarrow> 'k htree \<Rightarrow> ('k, 'v) store \<Rightarrow> ('k htree \<times> ('k, 'v) tree_answer \<times> ('k, 'v) store) option" where
  "h_apply pick p t st =
     (case p of
        OpSet k v \<Rightarrow> map_option (\<lambda>(t', (old, present, _), st'). (t', Previous old present, st')) (h_set pick k v False t st)
      | OpSetWithIndex k v \<Rightarrow> map_option (\<lambda>(t', (old, present, idx), st'). (t', PreviousAt old present idx, st')) (h_set pick k v True t st)
      | OpDelete k \<Rightarrow>
          map_option (\<lambda>(t', (m, removed), st'). (t', Previous (map_option snd m) removed, st')) (h_deleteItem pick (Some k) removeItem t st)
      | OpDeleteMin \<Rightarrow> map_option (\<lambda>(t', (m, _), st'). (t', Extreme m, st')) (h_deleteItem pick None removeMin t st)
      | OpDeleteMax \<Rightarrow> map_option (\<lambda>(t', (m, _), st'). (t', Extreme m, st')) (h_deleteItem pick None removeMax t st))"

fun h_run ::
  "(nat list \<Rightarrow> nat option) \<Rightarrow> ('k, 'v) tree_op list \<Rightarrow> 'k htree \<Rightarrow> ('k, 'v) store
   \<Rightarrow> ('k htree \<times> ('k, 'v) tree_answer list \<times> ('k, 'v) store) option" where
  "h_run pick [] t st = Some (t, [], st)"
| "h_run pick (p # ps) t st =
     (case h_apply pick p t st of
        None \<Rightarrow> None
      | Some (t1, a, st1) \<Rightarrow> map_option (\<lambda>(t2, as, st2). (t2, a # as, st2)) (h_run pick ps t1 st1))"

section \<open>Writes stay within the contexts of a tree\<close>

text \<open>A store in order: freed nodes have no owner, and addresses that have not been given out are free.\<close>

definition store_ok :: "('k, 'v) store \<Rightarrow> bool" where
  "store_ok st \<longleftrightarrow>
     (\<forall>a\<in>set (st_pool st). \<exists>x. st_heap st a = Some x \<and> c_cow x = None) \<and> (\<forall>a. st_next st \<le> a \<longrightarrow> st_heap st a = None)"

definition owned :: "nat option set \<Rightarrow> ('k, 'v) store \<Rightarrow> nat \<Rightarrow> bool" where
  "owned C st a \<longleftrightarrow> (\<exists>x. st_heap st a = Some x \<and> c_cow x \<in> C)"

text \<open>What an operation of owners \<open>C\<close> may do: nodes of other owners stay as they are, and its own do not change hands.\<close>

definition within_owners :: "nat option set \<Rightarrow> ('k, 'v) store \<Rightarrow> ('k, 'v) store \<Rightarrow> bool" where
  "within_owners C st st' \<longleftrightarrow>
     store_ok st' \<and> (\<forall>a x. st_heap st a = Some x \<and> c_cow x \<notin> C \<longrightarrow> st_heap st' a = Some x) \<and> (\<forall>a. owned C st a \<longrightarrow> owned C st' a)"

lemma within_refl: "store_ok st \<Longrightarrow> within_owners C st st"
  by (simp add: within_owners_def)

lemma within_trans: "within_owners C a b \<Longrightarrow> within_owners C b c \<Longrightarrow> within_owners C a c"
  unfolding within_owners_def by blast

lemma within_ok: "within_owners C st st' \<Longrightarrow> store_ok st'"
  by (simp add: within_owners_def)

lemma within_owned: "within_owners C st st' \<Longrightarrow> owned C st a \<Longrightarrow> owned C st' a"
  by (simp add: within_owners_def)

lemma upd_within:
  assumes "upd a f st = Some st'" "store_ok st" "owned C st a"
  shows "within_owners C st st'"
proof -
  obtain x where x: "st_heap st a = Some x" "st' = put a ((f x)\<lparr>c_cow := c_cow x\<rparr>) st" "c_cow x \<in> C"
    using assms(1,3) by (auto simp: upd_def owned_def bind_eq_Some_conv)
  have "store_ok st'" using assms(2) x by (auto simp: store_ok_def put_def)
  with x show ?thesis by (auto simp: within_owners_def put_def owned_def)
qed

lemma newNode_within:
  assumes "h_newNode pick c st = Some (b, st')" "store_ok st" "c \<in> C" "None \<in> C"
  shows "within_owners C st st' \<and> owned C st' b"
proof (cases "pick (st_pool st)")
  case None
  then have b: "b = st_next st" "st' = (put b \<lparr>c_items = [], c_children = [], c_size = 0, c_cow = c\<rparr> st)\<lparr>st_next := Suc b\<rparr>"
    using assms(1) by (auto simp: h_newNode_def)
  have fresh: "st_heap st b = None" using assms(2) b(1) by (simp add: store_ok_def)
  have "store_ok st'" using assms(2) fresh b by (force simp: store_ok_def put_def)
  then show ?thesis using fresh assms(3) b by (auto simp: within_owners_def owned_def put_def)
next
  case (Some a)
  then obtain x where a: "a \<in> set (st_pool st)" "st_heap st a = Some x" "b = a"
    "st' = (put a (x\<lparr>c_cow := c\<rparr>) st)\<lparr>st_pool := removeAll a (st_pool st)\<rparr>"
    using assms(1) by (auto simp: h_newNode_def upd_def bind_eq_Some_conv split: if_splits)
  have none: "c_cow x = None" using assms(2) a(1,2) by (auto simp: store_ok_def)
  have "store_ok st'" using assms(2) a by (auto simp: store_ok_def put_def)
  then show ?thesis using none assms(3,4) a by (auto simp: within_owners_def owned_def put_def)
qed

lemma freeNode_within:
  assumes "h_freeNode c a st = Some st'" "store_ok st" "c \<in> C" "None \<in> C"
  shows "within_owners C st st'"
proof -
  obtain x where x: "st_heap st a = Some x"
    "st' = (if c_cow x = c then (put a (x\<lparr>c_items := [], c_children := [], c_cow := None\<rparr>) st)\<lparr>st_pool := a # st_pool st\<rparr> else st)"
    using assms(1) by (auto simp: h_freeNode_def bind_eq_Some_conv split: if_splits)
  have "store_ok st'" using assms(2) x by (auto simp: store_ok_def put_def)
  then show ?thesis using x assms(3,4) by (auto simp: within_owners_def owned_def put_def)
qed

text \<open>Sequencing: a step after some others, on a node that was owned at any time before.\<close>

lemma then_within: "within_owners C a b \<Longrightarrow> (store_ok b \<Longrightarrow> within_owners C b c) \<Longrightarrow> within_owners C a c"
  using within_trans within_ok by blast

lemma then_upd:
  assumes "within_owners C st0 st" "upd a f st = Some st'" "owned C st a"
  shows "within_owners C st0 st'" "within_owners C st st'"
proof -
  show w: "within_owners C st st'" by (rule upd_within [OF assms(2) within_ok [OF assms(1)] assms(3)])
  show "within_owners C st0 st'" by (rule within_trans [OF assms(1) w])
qed

lemma owned_cow: "owned C st n \<Longrightarrow> st_heap st n = Some x \<Longrightarrow> c_cow x \<in> C"
  by (auto simp: owned_def)

lemma mutableFor_within:
  assumes "h_mutableFor pick c n st = Some (b, st')" "store_ok st" "c \<in> C" "None \<in> C"
  shows "within_owners C st st' \<and> owned C st' b"
proof -
  obtain x where x: "st_heap st n = Some x"
    "(if c_cow x = c then Some (n, st)
      else Option.bind (h_newNode pick c st) (\<lambda>(out, st1).
           Option.bind (upd out (\<lambda>y. y\<lparr>c_items := c_items x, c_children := c_children x, c_size := c_size x\<rparr>) st1) (\<lambda>st2. Some (out, st2))))
      = Some (b, st')"
    using assms(1) by (auto simp: h_mutableFor_def bind_eq_Some_conv)
  show ?thesis
  proof (cases "c_cow x = c")
    case True
    then show ?thesis using x assms(2,3) by (auto simp: owned_def intro: within_refl)
  next
    case False
    then obtain st1 where s: "h_newNode pick c st = Some (b, st1)"
      "upd b (\<lambda>y. y\<lparr>c_items := c_items x, c_children := c_children x, c_size := c_size x\<rparr>) st1 = Some st'"
      using x(2) by (auto simp: bind_eq_Some_conv)
    from newNode_within [OF s(1) assms(2-4)] have w: "within_owners C st st1" "owned C st1 b" by simp_all
    from then_upd [OF w(1) s(2) w(2)] show ?thesis using within_owned w(2) by auto
  qed
qed

lemma mutableChild_within:
  assumes "h_mutableChild pick i n st = Some (c, st')" "store_ok st" "owned C st n" "None \<in> C"
  shows "within_owners C st st' \<and> owned C st' c"
proof -
  obtain x st1 where s: "st_heap st n = Some x" "h_mutableFor pick (c_cow x) (c_children x ! i) st = Some (c, st1)"
    "upd n (\<lambda>y. y\<lparr>c_children := (c_children y)[i := c]\<rparr>) st1 = Some st'"
    using assms(1) by (auto simp: h_mutableChild_def bind_eq_Some_conv split: if_splits)
  from mutableFor_within [OF s(2) assms(2) owned_cow [OF assms(3) s(1)] assms(4)]
  have w: "within_owners C st st1" "owned C st1 c" by simp_all
  from then_upd [OF w(1) s(3) within_owned [OF w(1) assms(3)]] show ?thesis using within_owned w(2) by auto
qed

lemma resize_within: "h_resize n st = Some st' \<Longrightarrow> store_ok st \<Longrightarrow> owned C st n \<Longrightarrow> within_owners C st st'"
  by (auto simp: h_resize_def bind_eq_Some_conv intro: upd_within)

lemma split_within:
  assumes "h_split pick i n st = Some (it, b, st')" "store_ok st" "owned C st n" "None \<in> C"
  shows "within_owners C st st' \<and> owned C st' b"
proof -
  obtain x st1 st2 st3 st4 st5 where s: "st_heap st n = Some x" "h_newNode pick (c_cow x) st = Some (b, st1)"
    "upd b (\<lambda>y. y\<lparr>c_items := c_items y @ drop (Suc i) (c_items x)\<rparr>) st1 = Some st2"
    "upd n (\<lambda>y. y\<lparr>c_items := items_truncate i (c_items y)\<rparr>) st2 = Some st3"
    "h_split_children i (c_children x) n b st3 = Some st4"
    "h_resize n st4 = Some st5" "h_resize b st5 = Some st'"
    using assms(1) by (auto simp: h_split_def bind_eq_Some_conv split: if_splits)
  from newNode_within [OF s(2) assms(2) owned_cow [OF assms(3) s(1)] assms(4)]
  have w1: "within_owners C st st1" "owned C st1 b" by simp_all
  from then_upd [OF w1(1) s(3) w1(2)] have w2: "within_owners C st st2" "within_owners C st1 st2" by simp_all
  from then_upd [OF w2(1) s(4) within_owned [OF w2(1) assms(3)]] have w3: "within_owners C st st3" "within_owners C st2 st3" by simp_all
  have b3: "owned C st3 b" using w1(2) w2(2) w3(2) within_owned by blast
  have w4: "within_owners C st3 st4"
  proof (cases "c_children x = []")
    case True
    then show ?thesis using s(5) within_refl [OF within_ok [OF w3(1)]] by (simp add: h_split_children_def)
  next
    case False
    then obtain u where u: "upd b (\<lambda>y. y\<lparr>c_children := c_children y @ drop (Suc i) (c_children x)\<rparr>) st3 = Some u"
      "upd n (\<lambda>y. y\<lparr>c_children := children_truncate (Suc i) (c_children y)\<rparr>) u = Some st4"
      using s(5) by (auto simp: h_split_children_def bind_eq_Some_conv)
    have b: "within_owners C st3 u" by (rule upd_within [OF u(1) within_ok [OF w3(1)] b3])
    from then_upd [OF b u(2) within_owned [OF b within_owned [OF w3(1) assms(3)]]] show ?thesis by simp
  qed
  note w04 = within_trans [OF w3(1) w4]
  have w5: "within_owners C st4 st5" by (rule resize_within [OF s(6) within_ok [OF w04] within_owned [OF w04 assms(3)]])
  have b5: "owned C st5 b" using b3 w4 w5 within_owned by blast
  have w6: "within_owners C st5 st'" by (rule resize_within [OF s(7) within_ok [OF w5] b5])
  show ?thesis using within_trans [OF within_trans [OF w04 w5] w6] within_owned [OF w6 b5] by simp
qed

lemma maybeSplit_within:
  assumes "h_maybeSplitChild pick i m n st = Some (r, st')" "store_ok st" "owned C st n" "None \<in> C"
  shows "within_owners C st st'"
proof (cases r)
  case False
  then have "st' = st" using assms(1) by (auto simp: h_maybeSplitChild_def bind_eq_Some_conv split: if_splits)
  then show ?thesis using within_refl [OF assms(2)] by simp
next
  case True
  then obtain first st1 it second st2 where s: "h_mutableChild pick i n st = Some (first, st1)"
    "h_split pick (m div 2) first st1 = Some (it, second, st2)"
    "upd n (\<lambda>y. y\<lparr>c_items := items_insertAt i it (c_items y), c_children := children_insertAt (Suc i) second (c_children y)\<rparr>) st2 = Some st'"
    using assms(1) by (auto simp: h_maybeSplitChild_def bind_eq_Some_conv split: if_splits)
  from mutableChild_within [OF s(1) assms(2-4)] have w1: "within_owners C st st1" "owned C st1 first" by simp_all
  from split_within [OF s(2) within_ok [OF w1(1)] w1(2) assms(4)] have w2: "within_owners C st st2" using within_trans [OF w1(1)] by simp
  from then_upd [OF w2 s(3) within_owned [OF w2 assms(3)]] show ?thesis by simp
qed

lemma replace_within: "h_replace i m ci n st = Some (r, st') \<Longrightarrow> store_ok st \<Longrightarrow> owned C st n \<Longrightarrow> within_owners C st st'"
  by (auto simp: h_replace_def bind_eq_Some_conv intro: upd_within)

lemma insert_step_within:
  assumes "h_insert_step pick m mx lt ci n st = Some (r, st')" "store_ok st" "owned C st n" "None \<in> C"
  shows "within_owners C st st'"
proof -
  obtain x where x: "st_heap st n = Some x" using assms(3) by (auto simp: owned_def)
  obtain i found where f: "items_find lt (fst m) (c_items x) = (i, found)" by (cases "items_find lt (fst m) (c_items x)")
  consider "found" | "\<not> found" "c_children x = []" | "\<not> found" "c_children x \<noteq> []" by blast
  then show ?thesis
  proof cases
    case 1
    then show ?thesis using assms x f replace_within by (fastforce simp: h_insert_step_def)
  next
    case 2
    then show ?thesis using assms x f by (auto simp: h_insert_step_def bind_eq_Some_conv intro: upd_within)
  next
    case 3
    then obtain b st1 where s: "h_maybeSplitChild pick i mx n st = Some (b, st1)"
      using assms(1) x f by (auto simp: h_insert_step_def bind_eq_Some_conv)
    have w: "within_owners C st st1" by (rule maybeSplit_within [OF s assms(2-4)])
    note o1 = within_owned [OF w assms(3)]
    have "st' = st1 \<or> (\<exists>q. h_replace i m ci n st1 = Some (q, st'))"
      using assms(1) x f 3 s by (auto simp: h_insert_step_def bind_eq_Some_conv Let_def split: if_splits)
    then show ?thesis using w replace_within [OF _ within_ok [OF w] o1] within_trans by blast
  qed
qed

lemma insert_within:
  assumes "h_insert pick m mx lt ci n st = Some (r, st')" "store_ok st" "owned C st n" "None \<in> C"
  shows "within_owners C st st'"
  using assms
proof (induction pick m mx lt ci n st "(r, st')" arbitrary: r st' rule: h_insert.raw_induct [rotated, consumes 1])
  case (1 rec pick m mx lt ci n st)
  from 1(2) obtain q st1 where s: "h_insert_step pick m mx lt ci n st = Some (q, st1)" by (auto simp: bind_eq_Some_conv)
  have w1: "within_owners C st st1" by (rule insert_step_within [OF s 1(3-5)])
  show ?case
  proof (cases q)
    case (Inl result)
    then show ?thesis using 1(2) s w1 by simp
  next
    case (Inr i)
    with 1(2) s obtain c st2 old present idx st3 where t: "h_mutableChild pick i n st1 = Some (c, st2)"
      "rec pick m mx lt ci c st2 = Some ((old, present, idx), st3)"
      "(if \<not> present then upd n (\<lambda>y. y\<lparr>c_size := c_size y + 1\<rparr>) st3 else Some st3) = Some st'"
      by (auto simp: bind_eq_Some_conv)
    from mutableChild_within [OF t(1) within_ok [OF w1] within_owned [OF w1 1(4)] 1(5)]
    have w2: "within_owners C st1 st2" "owned C st2 c" by simp_all
    have w3: "within_owners C st2 st3" by (rule 1(1) [OF t(2) within_ok [OF w2(1)] w2(2) 1(5)])
    note w = within_trans [OF within_trans [OF w1 w2(1)] w3]
    show ?thesis
    proof (cases present)
      case False
      then show ?thesis using then_upd(1) [OF w _ within_owned [OF w 1(4)]] t(3) by fastforce
    qed (use t(3) w in simp)
  qed
qed

lemma three_upds:
  assumes "store_ok st" "upd a f st = Some st1" "upd b g st1 = Some st2" "upd c h st2 = Some st3"
    "owned C st a" "owned C st b" "owned C st c"
  shows "within_owners C st st3"
proof -
  have w1: "within_owners C st st1" by (rule upd_within [OF assms(2,1,5)])
  from then_upd [OF w1 assms(3) within_owned [OF w1 assms(6)]] have w2: "within_owners C st st2" by simp
  from then_upd [OF w2 assms(4) within_owned [OF w2 assms(7)]] show ?thesis by simp
qed

lemma move_within:
  assumes "h_move_child a b add r st = Some st'" "store_ok st" "owned C st a" "owned C st b"
  shows "within_owners C st st'"
proof (cases r)
  case None
  then show ?thesis using assms(1) within_refl [OF assms(2)] by (simp add: h_move_child_def)
next
  case (Some p)
  with assms(1) obtain f g st1 where u: "upd a f st = Some st1" "upd b g st1 = Some st'"
    by (cases p) (auto simp: h_move_child_def bind_eq_Some_conv)
  have w: "within_owners C st st1" by (rule upd_within [OF u(1) assms(2,3)])
  from then_upd(1) [OF w u(2) within_owned [OF w assms(4)]] show ?thesis by simp
qed

lemma steal_left_within:
  assumes "h_steal_left pick i n st = Some st'" "store_ok st" "owned C st n" "None \<in> C"
  shows "within_owners C st st'"
proof -
  obtain child st1 stealFrom st2 st3 st4 st5 f g h k r where s: "h_mutableChild pick i n st = Some (child, st1)"
    "h_mutableChild pick (i - 1) n st1 = Some (stealFrom, st2)"
    "upd stealFrom f st2 = Some st3"
    "upd child g st3 = Some st4"
    "upd n h st4 = Some st5"
    "h_move_child stealFrom child k r st5 = Some st'"
    using assms(1) by (auto simp: h_steal_left_def bind_eq_Some_conv)
  from mutableChild_within [OF s(1) assms(2-4)] have w1: "within_owners C st st1" "owned C st1 child" by simp_all
  from mutableChild_within [OF s(2) within_ok [OF w1(1)] within_owned [OF w1(1) assms(3)] assms(4)]
  have w2: "within_owners C st1 st2" "owned C st2 stealFrom" by simp_all
  have o2: "owned C st2 n" "owned C st2 child"
    using within_owned [OF within_trans [OF w1(1) w2(1)] assms(3)] within_owned [OF w2(1) w1(2)] by simp_all
  have w5: "within_owners C st2 st5"
    by (rule three_upds [OF within_ok [OF w2(1)] s(3,4,5) w2(2) o2(2,1)])
  have "within_owners C st5 st'"
    by (rule move_within [OF s(6) within_ok [OF w5] within_owned [OF w5 w2(2)] within_owned [OF w5 o2(2)]])
  then show ?thesis using within_trans [OF within_trans [OF within_trans [OF w1(1) w2(1)] w5]] by blast
qed

lemma steal_right_within:
  assumes "h_steal_right pick i n st = Some st'" "store_ok st" "owned C st n" "None \<in> C"
  shows "within_owners C st st'"
proof -
  obtain child st1 stealFrom st2 st3 st4 st5 f g h k r where s: "h_mutableChild pick i n st = Some (child, st1)"
    "h_mutableChild pick (Suc i) n st1 = Some (stealFrom, st2)"
    "upd stealFrom f st2 = Some st3"
    "upd child g st3 = Some st4"
    "upd n h st4 = Some st5"
    "h_move_child stealFrom child k r st5 = Some st'"
    using assms(1) by (auto simp: h_steal_right_def bind_eq_Some_conv)
  from mutableChild_within [OF s(1) assms(2-4)] have w1: "within_owners C st st1" "owned C st1 child" by simp_all
  from mutableChild_within [OF s(2) within_ok [OF w1(1)] within_owned [OF w1(1) assms(3)] assms(4)]
  have w2: "within_owners C st1 st2" "owned C st2 stealFrom" by simp_all
  have o2: "owned C st2 n" "owned C st2 child"
    using within_owned [OF within_trans [OF w1(1) w2(1)] assms(3)] within_owned [OF w2(1) w1(2)] by simp_all
  have w5: "within_owners C st2 st5"
    by (rule three_upds [OF within_ok [OF w2(1)] s(3,4,5) w2(2) o2(2,1)])
  have "within_owners C st5 st'"
    by (rule move_within [OF s(6) within_ok [OF w5] within_owned [OF w5 w2(2)] within_owned [OF w5 o2(2)]])
  then show ?thesis using within_trans [OF within_trans [OF within_trans [OF w1(1) w2(1)] w5]] by blast
qed

lemma merge_within:
  assumes "h_merge_child pick i n st = Some st'" "store_ok st" "owned C st n" "None \<in> C"
  shows "within_owners C st st'"
proof -
  obtain child st1 nx f st2 g st3 st4 merge where s: "h_mutableChild pick i n st = Some (child, st1)"
    "st_heap st1 n = Some nx"
    "upd n f st1 = Some st2"
    "upd child g st2 = Some st3"
    "h_resize child st3 = Some st4" "h_freeNode (c_cow nx) merge st4 = Some st'"
    using assms(1) by (auto simp: h_merge_child_def bind_eq_Some_conv)
  from mutableChild_within [OF s(1) assms(2-4)] have w1: "within_owners C st st1" "owned C st1 child" by simp_all
  note n1 = within_owned [OF w1(1) assms(3)]
  have w2: "within_owners C st1 st2" by (rule upd_within [OF s(3) within_ok [OF w1(1)] n1])
  from then_upd [OF w2 s(4) within_owned [OF w2 w1(2)]] have w3: "within_owners C st1 st3" by simp
  have w4: "within_owners C st1 st4"
    by (rule within_trans [OF w3 resize_within [OF s(5) within_ok [OF w3] within_owned [OF w3 w1(2)]]])
  have "within_owners C st4 st'" by (rule freeNode_within [OF s(6) within_ok [OF w4] owned_cow [OF n1 s(2)] assms(4)])
  then show ?thesis using within_trans [OF within_trans [OF w1(1) w4]] by blast
qed

lemma grow_within:
  assumes "h_growChild pick i mn n st = Some st'" "store_ok st" "owned C st n" "None \<in> C"
  shows "within_owners C st st'"
proof -
  have "h_steal_left pick i n st = Some st' \<or> h_steal_right pick i n st = Some st' \<or> (\<exists>j. h_merge_child pick j n st = Some st')"
    using assms(1) by (auto simp: h_growChild_def bind_eq_Some_conv split: if_splits)
  then show ?thesis using steal_left_within steal_right_within merge_within assms(2-4) by blast
qed

lemma leaf_within: "h_leaf_result n r st = Some (q, st') \<Longrightarrow> store_ok st \<Longrightarrow> owned C st n \<Longrightarrow> within_owners C st st'"
  by (auto simp: h_leaf_result_def bind_eq_Some_conv intro: upd_within)

lemma remove_step_within:
  assumes "h_remove_step key ty lt n st = Some (q, st')" "store_ok st" "owned C st n"
  shows "within_owners C st st'"
proof -
  obtain x where x: "st_heap st n = Some x" using assms(3) by (auto simp: owned_def)
  have "st' = st \<or> (\<exists>r. h_leaf_result n r st = Some (q, st'))"
  proof (cases ty)
    case removeItem
    then obtain k where k: "key = Some k" using assms(1) x by (auto simp: h_remove_step_def bind_eq_Some_conv)
    obtain i found where "items_find lt k (c_items x) = (i, found)" by (cases "items_find lt k (c_items x)")
    then show ?thesis using assms(1) x k removeItem by (auto simp: h_remove_step_def split: if_splits)
  qed (use assms(1) x in \<open>auto simp: h_remove_step_def split: if_splits\<close>)
  then show ?thesis using leaf_within assms(2,3) within_refl by blast
qed

lemma remove_within:
  assumes "h_remove pick key mn ty lt n st = Some (r, st')" "store_ok st" "owned C st n" "None \<in> C"
  shows "within_owners C st st'"
  using assms
proof (induction pick key mn ty lt n st "(r, st')" arbitrary: r st' rule: h_remove.raw_induct [rotated, consumes 1])
  case (1 rec pick key mn ty lt n st)
  from 1(2) obtain q st1 where s: "h_remove_step key ty lt n st = Some (q, st1)" by (auto simp: bind_eq_Some_conv)
  have w1: "within_owners C st st1" by (rule remove_step_within [OF s 1(3,4)])
  note n1 = within_owned [OF w1 1(4)] and ok1 = within_ok [OF w1]
  show ?case
  proof (cases q)
    case (Inl result)
    then show ?thesis using 1(2) s w1 by simp
  next
    case (Inr p)
    obtain i found where p: "p = (i, found)" by (cases p)
    consider (grow) st2 where "h_growChild pick i mn n st1 = Some st2" "rec pick key mn ty lt n st2 = Some (r, st')"
      | (found) child st2 o' b st3 f where "h_mutableChild pick i n st1 = Some (child, st2)" "rec pick None mn removeMax lt child st2 = Some ((o', b), st3)"
          "upd n f st3 = Some st'"
      | (child) child st2 out removed st3 where "h_mutableChild pick i n st1 = Some (child, st2)" "rec pick key mn ty lt child st2 = Some ((out, removed), st3)"
          "(if removed then upd n (\<lambda>y. y\<lparr>c_size := c_size y - 1\<rparr>) st3 else Some st3) = Some st'"
      using 1(2) s by (auto simp: Inr p bind_eq_Some_conv split: if_splits)
    then show ?thesis
    proof cases
      case grow
      have w2: "within_owners C st1 st2" by (rule grow_within [OF grow(1) ok1 n1 1(5)])
      have "within_owners C st2 st'" by (rule 1(1) [OF grow(2) within_ok [OF w2] within_owned [OF w2 n1] 1(5)])
      then show ?thesis using within_trans [OF within_trans [OF w1 w2]] by blast
    next
      case found
      from mutableChild_within [OF found(1) ok1 n1 1(5)] have w2: "within_owners C st1 st2" "owned C st2 child" by simp_all
      have "within_owners C st2 st3" by (rule 1(1) [OF found(2) within_ok [OF w2(1)] w2(2) 1(5)])
      note w = within_trans [OF within_trans [OF w1 w2(1)] this]
      from then_upd(1) [OF w found(3) within_owned [OF w 1(4)]] show ?thesis by simp
    next
      case child
      from mutableChild_within [OF child(1) ok1 n1 1(5)] have w2: "within_owners C st1 st2" "owned C st2 child" by simp_all
      have "within_owners C st2 st3" by (rule 1(1) [OF child(2) within_ok [OF w2(1)] w2(2) 1(5)])
      note w = within_trans [OF within_trans [OF w1 w2(1)] this]
      show ?thesis
      proof (cases removed)
        case True
        then show ?thesis using then_upd(1) [OF w _ within_owned [OF w 1(4)]] child(3) by fastforce
      qed (use child(3) w in simp)
    qed
  qed
qed

section \<open>Isolation of clones\<close>

text \<open>The contexts a tree may use.\<close>

definition owners :: "'k htree \<Rightarrow> nat option set" where
  "owners t = {None, Some (ht_cow t)}"

lemma split_root_within:
  assumes "h_split_root pick c mx root st = Some (r, st')" "store_ok st" "owned C st root" "Some c \<in> C" "None \<in> C"
  shows "within_owners C st st' \<and> owned C st' r"
proof -
  obtain x where x: "st_heap st root = Some x" using assms(3) by (auto simp: owned_def)
  show ?thesis
  proof (cases "length (c_items x) \<ge> mx")
    case True
    then obtain it second st1 st2 f where s: "h_split pick (mx div 2) root st = Some (it, second, st1)"
      "h_newNode pick (Some c) st1 = Some (r, st2)" "upd r f st2 = Some st'"
      using assms(1) x by (auto simp: h_split_root_def bind_eq_Some_conv)
    from split_within [OF s(1) assms(2,3,5)] have w1: "within_owners C st st1" by simp
    from newNode_within [OF s(2) within_ok [OF w1] assms(4,5)] have w2: "within_owners C st1 st2" "owned C st2 r" by simp_all
    from then_upd [OF w2(1) s(3) w2(2)] show ?thesis using within_trans [OF w1] within_owned [OF _ w2(2)] by auto
  qed (use assms(1-3) x in \<open>auto simp: h_split_root_def intro: within_refl\<close>)
qed

lemma set_within:
  assumes "h_set pick k v ci t st = Some (t', r, st')" "store_ok st"
  shows "within_owners (owners t) st st' \<and> owners t' = owners t"
proof -
  have C: "Some (ht_cow t) \<in> owners t" "None \<in> owners t" by (simp_all add: owners_def)
  show ?thesis
  proof (cases "ht_root t")
    case None
    then obtain n f st1 where s: "h_newNode pick (Some (ht_cow t)) st = Some (n, st1)" "upd n f st1 = Some st'" "t' = t\<lparr>ht_root := Some n\<rparr>"
      using assms(1) by (auto simp: h_set_def bind_eq_Some_conv)
    from newNode_within [OF s(1) assms(2) C] have w: "within_owners (owners t) st st1" "owned (owners t) st1 n" by simp_all
    from then_upd(1) [OF w(1) s(2) w(2)] show ?thesis by (simp add: s(3) owners_def)
  next
    case (Some root)
    then obtain root1 st1 root2 st2 where s: "h_mutableFor pick (Some (ht_cow t)) root st = Some (root1, st1)"
      "h_split_root pick (ht_cow t) (ht_degree t * 2 - 1) root1 st1 = Some (root2, st2)"
      "h_insert pick (k, v) (ht_degree t * 2 - 1) (ht_less t) ci root2 st2 = Some (r, st')" "t' = t\<lparr>ht_root := Some root2\<rparr>"
      using assms(1) by (auto simp: h_set_def bind_eq_Some_conv)
    from mutableFor_within [OF s(1) assms(2) C] have w1: "within_owners (owners t) st st1" "owned (owners t) st1 root1" by simp_all
    from split_root_within [OF s(2) within_ok [OF w1(1)] w1(2) C] have w2: "within_owners (owners t) st1 st2" "owned (owners t) st2 root2" by simp_all
    have "within_owners (owners t) st2 st'" by (rule insert_within [OF s(3) within_ok [OF w2(1)] w2(2) C(2)])
    then show ?thesis using within_trans [OF within_trans [OF w1(1) w2(1)]] s(4) by (auto simp: owners_def)
  qed
qed

lemma deleteItem_within:
  assumes "h_deleteItem pick key ty t st = Some (t', r, st')" "store_ok st"
  shows "within_owners (owners t) st st' \<and> owners t' = owners t"
proof -
  have C: "Some (ht_cow t) \<in> owners t" "None \<in> owners t" by (simp_all add: owners_def)
  show ?thesis
  proof (cases "\<exists>root x. ht_root t = Some root \<and> st_heap st root = Some x \<and> c_items x \<noteq> []")
    case False
    then have "t' = t" "st' = st" using assms(1) by (auto simp: h_deleteItem_def bind_eq_Some_conv split: option.splits)
    then show ?thesis using within_refl [OF assms(2)] by simp
  next
    case True
    then obtain root x0 where root: "ht_root t = Some root" "st_heap st root = Some x0" "c_items x0 \<noteq> []" by blast
    from assms(1) root obtain root1 st1 st2 root2 where s: "h_mutableFor pick (Some (ht_cow t)) root st = Some (root1, st1)"
      "h_remove pick key (ht_degree t - 1) ty (ht_less t) root1 st1 = Some (r, st2)"
      "h_collapse (ht_cow t) root1 st2 = Some (root2, st')" "t' = t\<lparr>ht_root := Some root2\<rparr>"
      by (auto simp: h_deleteItem_def bind_eq_Some_conv)
    from s(3,4) have fin: "ht_cow t' = ht_cow t" "st' = st2 \<or> h_freeNode (Some (ht_cow t)) root1 st2 = Some st'"
      by (auto simp: h_collapse_def bind_eq_Some_conv split: if_splits)
    from mutableFor_within [OF s(1) assms(2) C] have w1: "within_owners (owners t) st st1" "owned (owners t) st1 root1" by simp_all
    have w2: "within_owners (owners t) st1 st2" by (rule remove_within [OF s(2) within_ok [OF w1(1)] w1(2) C(2)])
    note w = within_trans [OF w1(1) w2]
    have "within_owners (owners t) st st'" using fin(2) freeNode_within [OF _ within_ok [OF w] C] within_trans [OF w] w by blast
    then show ?thesis using fin(1) by (simp add: owners_def)
  qed
qed

lemma apply_within:
  assumes "h_apply pick p t st = Some (t', a, st')" "store_ok st"
  shows "within_owners (owners t) st st' \<and> owners t' = owners t"
  using assms set_within [OF _ assms(2)] deleteItem_within [OF _ assms(2)]
  by (cases p) (fastforce simp: h_apply_def)+

lemma run_within:
  "h_run pick ps t st = Some (t', as, st') \<Longrightarrow> store_ok st \<Longrightarrow> within_owners (owners t) st st'"
proof (induction pick ps t st arbitrary: as rule: h_run.induct)
  case (1 pick t st)
  then show ?case by (simp add: within_refl)
next
  case (2 pick p ps t st)
  then obtain t1 a st1 as' where s: "h_apply pick p t st = Some (t1, a, st1)" "h_run pick ps t1 st1 = Some (t', as', st')"
    by (auto split: option.splits)
  from apply_within [OF s(1) 2(3)] have w: "within_owners (owners t) st st1" "owners t1 = owners t" by simp_all
  from 2(1) [OF s(1) refl refl s(2) within_ok [OF w(1)]] w show ?case using within_trans by metis
qed

text \<open>The value of the tree at an address, and the contexts of its nodes.\<close>

fun rep :: "(nat \<Rightarrow> ('k, 'v) cell option) \<Rightarrow> nat \<Rightarrow> ('k, 'v) node \<Rightarrow> bool" where
  "rep h a (Node its cs sz cow) =
     (case h a of
        None \<Rightarrow> False
      | Some x \<Rightarrow> c_items x = its \<and> c_size x = sz \<and> c_cow x = Some cow \<and> list_all2 (rep h) (c_children x) cs)"

fun cows :: "('k, 'v) node \<Rightarrow> nat set" where
  "cows (Node its cs sz cow) = insert cow (\<Union> (cows ` set cs))"

lemma rep_frame:
  assumes "\<And>b x. h b = Some x \<Longrightarrow> c_cow x \<notin> C \<Longrightarrow> h' b = Some x"
  shows "rep h a n \<Longrightarrow> Some ` cows n \<inter> C = {} \<Longrightarrow> rep h' a n"
proof (induction n arbitrary: a)
  case (Node its cs sz cow)
  from Node.prems(1) obtain x where x: "h a = Some x" "c_items x = its" "c_size x = sz" "c_cow x = Some cow" "list_all2 (rep h) (c_children x) cs"
    by (auto split: option.splits)
  have "h' a = Some x" by (rule assms [OF x(1)]) (use x(4) Node.prems(2) in auto)
  moreover have "list_all2 (rep h') (c_children x) cs"
  proof (rule list.rel_mono_strong [OF x(5)])
    fix b c assume "c \<in> set cs" "rep h b c"
    moreover have "Some ` cows c \<inter> C = {}" using Node.prems(2) \<open>c \<in> set cs\<close> by auto
    ultimately show "rep h' b c" by (rule Node.IH)
  qed
  ultimately show ?case using x(2-4) by simp
qed

text \<open>C13: Clones are isolated.  \<^verbatim>\<open>Clone\<close> shares all nodes between a tree and its clone; whatever is then done to one of the two, with nodes
  modified in place, copied, freed and reused from the pool in any way, the other still holds the very same tree.  The contexts
  that \<^verbatim>\<open>Clone\<close> makes are new: no node has one of them.\<close>

theorem clone_isolation:
  assumes "store_ok st" "ht_root t = Some r" "rep (st_heap st) r n" "cow1 \<notin> cows n" "cow2 \<notin> cows n"
    and "h_Clone cow1 cow2 t = (t', out)"
  shows "(h_run pick ps out st = Some (u, as, st') \<longrightarrow> ht_root t' = Some r \<and> rep (st_heap st') r n \<and> store_ok st')
    \<and> (h_run pick ps t' st = Some (u, as, st') \<longrightarrow> ht_root out = Some r \<and> rep (st_heap st') r n \<and> store_ok st')"
proof -
  have t: "ht_root t' = Some r" "ht_root out = Some r" "owners t' = {None, Some cow1}" "owners out = {None, Some cow2}"
    using assms(2,6) by (auto simp: h_Clone_def owners_def)
  have "rep (st_heap st') r n \<and> store_ok st'" if "within_owners C st st'" "Some ` cows n \<inter> C = {}" for C
    using that rep_frame [OF _ assms(3) that(2), of "st_heap st'"] by (auto simp: within_owners_def)
  then show ?thesis using run_within [OF _ assms(1), of pick ps] t assms(4,5) by fastforce
qed

text \<open>A tree with a full leaf as its root, and an insertion into its clone.\<close>

definition sample_store :: "(int, string) store" where
  "sample_store = \<lparr>st_heap = [0 \<mapsto> \<lparr>c_items = [(1, ''a''), (3, ''c'')], c_children = [], c_size = 2, c_cow = Some 0\<rparr>], st_pool = [], st_next = 1\<rparr>"

theorem clone_isolation_witness:
  "\<exists>st'. h_run (\<lambda>_. None) [OpSet 2 ''b'', OpDelete 1] \<lparr>ht_degree = 2, ht_less = (<), ht_root = Some 0, ht_cow = 2\<rparr> sample_store
      = Some (\<lparr>ht_degree = 2, ht_less = (<), ht_root = Some 1, ht_cow = 2\<rparr>, [Previous None False, Previous (Some ''a'') True], st')
    \<and> st_heap st' 1 = Some \<lparr>c_items = [(2, ''b''), (3, ''c'')], c_children = [], c_size = 2, c_cow = Some 2\<rparr>
    \<and> rep (st_heap st') 0 (Node [(1, ''a''), (3, ''c'')] [] 2 0)"
proof -
  let ?t = "\<lparr>ht_degree = 2, ht_less = (<), ht_root = Some 0, ht_cow = 0\<rparr> :: int htree"
  let ?c = "\<lambda>its sz. \<lparr>c_items = its, c_children = [], c_size = sz, c_cow = Some 2\<rparr> :: (int, string) cell"
  let ?st = "\<lambda>x. \<lparr>st_heap = (st_heap sample_store)(1 \<mapsto> x), st_pool = [], st_next = 2\<rparr>"
  have f: "items_find (<) (2 :: int) [(1, ''a''), (3, ''c'')] = (1, False)" "items_find (<) (1 :: int) [(1, ''a''), (2, ''b''), (3, ''c'')] = (0, True)"
    by code_simp+
  have ins: "h_insert (\<lambda>_. None) (2, ''b'') 3 (<) False 1 (?st (?c [(1, ''a''), (3, ''c'')] 2))
      = Some ((None, False, 1), ?st (?c [(1, ''a''), (2, ''b''), (3, ''c'')] 3))"
    by (subst h_insert.simps) (simp add: h_insert_step_def upd_def put_def f items_insertAt_def)
  have set: "h_set (\<lambda>_. None) 2 ''b'' False \<lparr>ht_degree = 2, ht_less = (<), ht_root = Some 0, ht_cow = 2\<rparr> sample_store
      = Some (\<lparr>ht_degree = 2, ht_less = (<), ht_root = Some 1, ht_cow = 2\<rparr>, (None, False, 1), ?st (?c [(1, ''a''), (2, ''b''), (3, ''c'')] 3))"
    using ins by (simp add: h_set_def h_mutableFor_def h_newNode_def h_split_root_def upd_def put_def sample_store_def flip: numeral_2_eq_2)
  have rem: "h_remove (\<lambda>_. None) (Some 1) 1 removeItem (<) 1 (?st (?c [(1, ''a''), (2, ''b''), (3, ''c'')] 3))
      = Some ((Some (1, ''a''), True), ?st (?c [(2, ''b''), (3, ''c'')] 2))"
    by (subst h_remove.simps) (simp add: h_remove_step_def h_leaf_result_def upd_def put_def f items_removeAt_def)
  have run: "h_run (\<lambda>_. None) [OpSet 2 ''b'', OpDelete 1] \<lparr>ht_degree = 2, ht_less = (<), ht_root = Some 0, ht_cow = 2\<rparr> sample_store
      = Some (\<lparr>ht_degree = 2, ht_less = (<), ht_root = Some 1, ht_cow = 2\<rparr>, [Previous None False, Previous (Some ''a'') True],
              ?st (?c [(2, ''b''), (3, ''c'')] 2))"
    using set rem by (simp add: h_apply_def h_deleteItem_def h_collapse_def h_mutableFor_def)
  have "store_ok sample_store" "rep (st_heap sample_store) 0 (Node [(1, ''a''), (3, ''c'')] [] 2 0)"
    by (auto simp: store_ok_def sample_store_def)
  note ok = this
  have cl: "h_Clone 1 2 ?t = (?t\<lparr>ht_cow := 1\<rparr>, \<lparr>ht_degree = 2, ht_less = (<), ht_root = Some 0, ht_cow = 2\<rparr>)" by (simp add: h_Clone_def)
  have "rep (st_heap (?st (?c [(2, ''b''), (3, ''c'')] 2))) 0 (Node [(1, ''a''), (3, ''c'')] [] 2 0)"
    by (rule clone_isolation [OF ok(1) _ ok(2) _ _ cl, THEN conjunct1, rule_format, OF _ _ _ run, THEN conjunct2, THEN conjunct1]) simp_all
  with run show ?thesis by (intro exI [of _ "?st (?c [(2, ''b''), (3, ''c'')] 2)"]) (simp del: h_run.simps rep.simps)
qed

end
