(* ===== verification/Firestore_Order.thy ===== *)
theory Firestore_Order
  imports Btree_Run Complex_Main "HOL-Library.List_Lexorder" "HOL-Library.Char_ord"
begin

text \<open>
  Firestore's order of values (\<^verbatim>\<open>firestore/order.go\<close>).  Values are the cases of the \<^verbatim>\<open>Value\<close> message; a map is an
  association list, of which only the sorted keys and the values found under them matter.  A \<^verbatim>\<open>float64\<close> is a
  rational number, an infinity or NaN (the two zeros are equal).  The theorem: without NaN in a geographical
  point the comparison is a total preorder.
\<close>

section \<open>Values\<close>

datatype float64 = NaN | NegInf | Finite rat | PosInf

definition IsNaN :: "float64 \<Rightarrow> bool" where
  "IsNaN a \<longleftrightarrow> a = NaN"

text \<open>Go's \<^verbatim>\<open><\<close> and \<^verbatim>\<open>!=\<close> on floating-point numbers.\<close>

fun float_less :: "float64 \<Rightarrow> float64 \<Rightarrow> bool" where
  "float_less NaN b = False"
| "float_less a NaN = False"
| "float_less NegInf b = (b \<noteq> NegInf)"
| "float_less (Finite x) (Finite y) = (x < y)"
| "float_less (Finite x) b = (b = PosInf)"
| "float_less PosInf b = False"

definition float_neq :: "float64 \<Rightarrow> float64 \<Rightarrow> bool" where
  "float_neq a b \<longleftrightarrow> a \<noteq> b \<or> a = NaN"

datatype fvalue =
    NullValue
  | BooleanValue bool
  | IntegerValue int
  | DoubleValue float64
  | TimestampValue int int
  | StringValue string
  | BytesValue string
  | ReferenceValue string
  | GeoPointValue float64 float64
  | ArrayValue "fvalue list"
  | MapValue "(string \<times> fvalue) list"

text \<open>The getters of the message return the zero value for another case.\<close>

definition GetBooleanValue :: "fvalue \<Rightarrow> bool" where
  "GetBooleanValue v = (case v of BooleanValue b \<Rightarrow> b | _ \<Rightarrow> False)"

definition GetDoubleValue :: "fvalue \<Rightarrow> float64" where
  "GetDoubleValue v = (case v of DoubleValue d \<Rightarrow> d | _ \<Rightarrow> Finite 0)"

definition GetTimestampValue :: "fvalue \<Rightarrow> int \<times> int" where
  "GetTimestampValue v = (case v of TimestampValue s n \<Rightarrow> (s, n) | _ \<Rightarrow> (0, 0))"

definition GetStringValue :: "fvalue \<Rightarrow> string" where
  "GetStringValue v = (case v of StringValue s \<Rightarrow> s | _ \<Rightarrow> [])"

definition GetBytesValue :: "fvalue \<Rightarrow> string" where
  "GetBytesValue v = (case v of BytesValue s \<Rightarrow> s | _ \<Rightarrow> [])"

definition GetReferenceValue :: "fvalue \<Rightarrow> string" where
  "GetReferenceValue v = (case v of ReferenceValue s \<Rightarrow> s | _ \<Rightarrow> [])"

definition GetGeoPointValue :: "fvalue \<Rightarrow> float64 \<times> float64" where
  "GetGeoPointValue v = (case v of GeoPointValue a b \<Rightarrow> (a, b) | _ \<Rightarrow> (Finite 0, Finite 0))"

definition GetArrayValue :: "fvalue \<Rightarrow> fvalue list" where
  "GetArrayValue v = (case v of ArrayValue vs \<Rightarrow> vs | _ \<Rightarrow> [])"

definition GetMapValue :: "fvalue \<Rightarrow> (string \<times> fvalue) list" where
  "GetMapValue v = (case v of MapValue m \<Rightarrow> m | _ \<Rightarrow> [])"

lemmas getter_defs = GetBooleanValue_def GetDoubleValue_def GetTimestampValue_def GetStringValue_def GetBytesValue_def
  GetReferenceValue_def GetGeoPointValue_def GetArrayValue_def GetMapValue_def

section \<open>Comparisons\<close>

definition compareInt64s :: "int \<Rightarrow> int \<Rightarrow> int" where
  "compareInt64s a b = (if a < b then -1 else if a > b then 1 else 0)"

definition compareFloat64s :: "float64 \<Rightarrow> float64 \<Rightarrow> int" where
  "compareFloat64s a b = (if float_less a b then -1 else if float_less b a then 1 else 0)"

definition compareNumbers :: "float64 \<Rightarrow> float64 \<Rightarrow> int" where
  "compareNumbers a b =
     (if IsNaN a then (if IsNaN b then 0 else -1)
      else if IsNaN b then 1
      else compareFloat64s a b)"

definition toFloat :: "fvalue \<Rightarrow> float64" where
  "toFloat v = (case v of IntegerValue x \<Rightarrow> Finite (of_int (float64_of_int64 x)) | _ \<Rightarrow> GetDoubleValue v)"

definition compareTimestamps :: "int \<times> int \<Rightarrow> int \<times> int \<Rightarrow> int" where
  "compareTimestamps a b =
     (let c = compareInt64s (fst a) (fst b) in if c \<noteq> 0 then c else compareInt64s (snd a) (snd b))"

text \<open>\<^verbatim>\<open>strings.Compare\<close> and \<^verbatim>\<open>bytes.Compare\<close>: lexicographic on bytes.\<close>

definition strings_Compare :: "string \<Rightarrow> string \<Rightarrow> int" where
  "strings_Compare a b = (if a = b then 0 else if a < b then -1 else 1)"

text \<open>The loop of \<^verbatim>\<open>compareSequences\<close> from the index \<open>i\<close>.\<close>

function compareSequences_from :: "nat \<Rightarrow> nat \<Rightarrow> nat \<Rightarrow> (nat \<Rightarrow> int) \<Rightarrow> int" where
  "compareSequences_from i len1 len2 compare =
     (if i < len1 \<and> i < len2
      then let c = compare i in if c \<noteq> 0 then c else compareSequences_from (Suc i) len1 len2 compare
      else compareInt64s (int len1) (int len2))"
  by pat_completeness auto
termination by (relation "measure (\<lambda>(i, len1, len2, _). len1 - i)") auto

declare compareSequences_from.simps [simp del]

definition compareSequences :: "nat \<Rightarrow> nat \<Rightarrow> (nat \<Rightarrow> int) \<Rightarrow> int" where
  "compareSequences len1 len2 compare = compareSequences_from 0 len1 len2 compare"

lemma compareSequences_cong [fundef_cong]:
  assumes "len1 = len1'" "len2 = len2'" "\<And>i. i < len1' \<Longrightarrow> i < len2' \<Longrightarrow> f i = g i"
  shows "compareSequences len1 len2 f = compareSequences len1' len2' g"
proof -
  have "compareSequences_from i len1' len2' f = compareSequences_from i len1' len2' g" for i
    using assms(3)
  proof (induction "len1' - i" arbitrary: i)
    case 0
    then show ?case by (simp add: compareSequences_from.simps)
  next
    case (Suc n)
    then show ?case by (subst (1 2) compareSequences_from.simps) (simp add: Let_def)
  qed
  then show ?thesis by (simp add: compareSequences_def assms(1,2))
qed

text \<open>\<^verbatim>\<open>strings.Split(s, "/")\<close>.\<close>

fun split_slash :: "string \<Rightarrow> string list" where
  "split_slash [] = [[]]"
| "split_slash (c # cs) =
     (if c = CHR ''/'' then [] # split_slash cs
      else case split_slash cs of [] \<Rightarrow> [[c]] | p # ps \<Rightarrow> (c # p) # ps)"

definition compareReferences :: "string \<Rightarrow> string \<Rightarrow> int" where
  "compareReferences a b =
     (let pa = split_slash a; pb = split_slash b
      in compareSequences (length pa) (length pb) (\<lambda>i. strings_Compare (pa ! i) (pb ! i)))"

definition typeOrder :: "fvalue \<Rightarrow> int" where
  "typeOrder v =
     (case v of NullValue \<Rightarrow> 0 | BooleanValue _ \<Rightarrow> 1 | IntegerValue _ \<Rightarrow> 2 | DoubleValue _ \<Rightarrow> 2 | TimestampValue _ _ \<Rightarrow> 3
      | StringValue _ \<Rightarrow> 4 | BytesValue _ \<Rightarrow> 5 | ReferenceValue _ \<Rightarrow> 6 | GeoPointValue _ _ \<Rightarrow> 7 | ArrayValue _ \<Rightarrow> 8
      | MapValue _ \<Rightarrow> 9)"

definition sortedKeys :: "(string \<times> fvalue) list \<Rightarrow> string list" where
  "sortedKeys m = sort (map fst m)"

text \<open>\<open>m[k]\<close> for a key of the map.\<close>

definition field :: "(string \<times> fvalue) list \<Rightarrow> string \<Rightarrow> fvalue" where
  "field m k = (case map_of m k of Some v \<Rightarrow> v | None \<Rightarrow> NullValue)"

lemma field_size [termination_simp]: "size (field m k) < Suc (size_list (\<lambda>x. Suc (size (snd x))) m)"
proof (cases "map_of m k")
  case (Some v)
  then have "(k, v) \<in> set m" by (rule map_of_SomeD)
  then have "size v \<le> size_list (\<lambda>x. Suc (size (snd x))) m" by (induction m) auto
  with Some show ?thesis by (simp add: field_def)
qed (simp add: field_def)

lemma array_size [termination_simp]: "i < length vs \<Longrightarrow> size (vs ! i) < Suc (size_list size vs)" for vs :: "fvalue list"
  using nth_size_less [of i vs 0] by simp

fun compareValues :: "fvalue \<Rightarrow> fvalue \<Rightarrow> int" where
  "compareValues a b =
     (if typeOrder a \<noteq> typeOrder b then compareInt64s (typeOrder a) (typeOrder b)
      else case a of
        NullValue \<Rightarrow> 0
      | BooleanValue av \<Rightarrow> (let bv = GetBooleanValue b in if av \<and> \<not> bv then 1 else if bv \<and> \<not> av then -1 else 0)
      | IntegerValue x \<Rightarrow> compareNumbers (Finite (of_int (float64_of_int64 x))) (toFloat b)
      | DoubleValue d \<Rightarrow> compareNumbers d (toFloat b)
      | TimestampValue s n \<Rightarrow> compareTimestamps (s, n) (GetTimestampValue b)
      | StringValue s \<Rightarrow> strings_Compare s (GetStringValue b)
      | BytesValue s \<Rightarrow> strings_Compare s (GetBytesValue b)
      | ReferenceValue s \<Rightarrow> compareReferences s (GetReferenceValue b)
      | GeoPointValue lat lng \<Rightarrow>
          (let (blat, blng) = GetGeoPointValue b
           in if float_neq lat blat then compareFloat64s lat blat else compareFloat64s lng blng)
      | ArrayValue as \<Rightarrow>
          compareSequences (length as) (length (GetArrayValue b)) (\<lambda>i. compareValues (as ! i) (GetArrayValue b ! i))
      | MapValue am \<Rightarrow>
          (let aks = sortedKeys am; bks = sortedKeys (GetMapValue b)
           in compareSequences (length aks) (length bks)
                (\<lambda>i. let c = strings_Compare (aks ! i) (bks ! i)
                     in if c \<noteq> 0 then c else compareValues (field am (aks ! i)) (field (GetMapValue b) (aks ! i)))))"

declare compareValues.simps [simp del]

section \<open>Comparison functions\<close>

definition comparator_on :: "'a set \<Rightarrow> ('a \<Rightarrow> 'a \<Rightarrow> int) \<Rightarrow> bool" where
  "comparator_on S cmp \<longleftrightarrow>
     (\<forall>a\<in>S. \<forall>b\<in>S. cmp b a = - cmp a b)
   \<and> (\<forall>a\<in>S. \<forall>b\<in>S. \<forall>c\<in>S. cmp a b \<le> 0 \<longrightarrow> cmp b c \<le> 0 \<longrightarrow> cmp a c \<le> 0)"

lemma comparator_onD:
  assumes "comparator_on S cmp"
  shows "a \<in> S \<Longrightarrow> b \<in> S \<Longrightarrow> cmp b a = - cmp a b"
    and "a \<in> S \<Longrightarrow> b \<in> S \<Longrightarrow> c \<in> S \<Longrightarrow> cmp a b \<le> 0 \<Longrightarrow> cmp b c \<le> 0 \<Longrightarrow> cmp a c \<le> 0"
    and "a \<in> S \<Longrightarrow> cmp a a = 0"
proof -
  show anti: "a \<in> S \<Longrightarrow> b \<in> S \<Longrightarrow> cmp b a = - cmp a b" for a b using assms unfolding comparator_on_def by blast
  show "a \<in> S \<Longrightarrow> b \<in> S \<Longrightarrow> c \<in> S \<Longrightarrow> cmp a b \<le> 0 \<Longrightarrow> cmp b c \<le> 0 \<Longrightarrow> cmp a c \<le> 0"
    using assms unfolding comparator_on_def by blast
  show "a \<in> S \<Longrightarrow> cmp a a = 0" using anti [of a a] by simp
qed

text \<open>Equality is a congruence, and a strict step is not undone.\<close>

lemma comparator_on_trans:
  assumes "comparator_on S cmp" "a \<in> S" "b \<in> S" "c \<in> S" "cmp a b \<le> 0" "cmp b c \<le> 0"
  shows "cmp a c \<le> 0" "cmp a c = 0 \<Longrightarrow> cmp a b = 0 \<and> cmp b c = 0"
proof -
  note d = comparator_onD [OF assms(1)]
  show "cmp a c \<le> 0" by (rule d(2) [OF assms(2-6)])
  assume e: "cmp a c = 0"
  then have ca: "cmp c a \<le> 0" using d(1) [OF assms(2,4)] by simp
  have "cmp b a \<le> 0" by (rule d(2) [OF assms(3,4,2) assms(6) ca])
  moreover have "cmp c b \<le> 0" by (rule d(2) [OF assms(4,2,3) ca assms(5)])
  ultimately show "cmp a b = 0 \<and> cmp b c = 0" using d(1) [OF assms(2,3)] d(1) [OF assms(3,4)] assms(5,6) by simp
qed

lemma comparator_order: "comparator_on S cmp \<Longrightarrow> order_on S (\<lambda>a b. cmp a b < 0)"
proof -
  assume c: "comparator_on S cmp"
  note d = comparator_onD [OF c]
  show ?thesis
    unfolding order_on_def
  proof (intro conjI ballI impI)
    fix a assume "a \<in> S" then show "\<not> cmp a a < 0" using d(3) by simp
  next
    fix a b c' assume s: "a \<in> S" "b \<in> S" "c' \<in> S" "cmp a b < 0" "cmp b c' < 0"
    then have le: "cmp a b \<le> 0" "cmp b c' \<le> 0" by simp_all
    from comparator_on_trans [OF c s(1-3) le] s(4) show "cmp a c' < 0" by linarith
  next
    fix a b c' assume s: "a \<in> S" "b \<in> S" "c' \<in> S" "\<not> cmp a b < 0" "\<not> cmp b c' < 0"
    then have "cmp c' b \<le> 0" "cmp b a \<le> 0" using d(1) [OF s(2,3)] d(1) [OF s(1,2)] by linarith+
    from d(2) [OF s(3,2,1) this] d(1) [OF s(1,3)] show "\<not> cmp a c' < 0" by simp
  qed
qed

lemma comparator_on_subset: "comparator_on S cmp \<Longrightarrow> T \<subseteq> S \<Longrightarrow> comparator_on T cmp"
  unfolding comparator_on_def by blast

lemma comparator_on_image:
  "comparator_on T cmp \<Longrightarrow> \<forall>a\<in>S. f a \<in> T \<Longrightarrow> \<forall>a\<in>S. \<forall>b\<in>S. cmp' a b = cmp (f a) (f b) \<Longrightarrow> comparator_on S cmp'"
  unfolding comparator_on_def by (intro conjI ballI impI) (metis, metis)

text \<open>First one comparison, then another.\<close>

definition then_compare :: "('a \<Rightarrow> 'a \<Rightarrow> int) \<Rightarrow> ('a \<Rightarrow> 'a \<Rightarrow> int) \<Rightarrow> 'a \<Rightarrow> 'a \<Rightarrow> int" where
  "then_compare f g a b = (if f a b \<noteq> 0 then f a b else g a b)"

lemma comparator_on_then:
  assumes "comparator_on S f" "\<And>r. r \<in> S \<Longrightarrow> comparator_on {a \<in> S. f r a = 0} g"
  shows "comparator_on S (then_compare f g)"
  unfolding comparator_on_def
proof (intro conjI ballI impI)
  note f = comparator_onD [OF assms(1)]
  have eq: "f c a = 0 \<Longrightarrow> f a c = 0" if "a \<in> S" "c \<in> S" for a c using f(1) [OF that] by simp
  fix a b assume ab: "a \<in> S" "b \<in> S"
  show "then_compare f g b a = - then_compare f g a b"
    using f(1) [OF ab] f(3) [OF ab(1)] comparator_onD(1) [OF assms(2) [OF ab(1)], of a b] ab by (auto simp: then_compare_def)
  fix c assume c: "c \<in> S" "then_compare f g a b \<le> 0" "then_compare f g b c \<le> 0"
  then have le: "f a b \<le> 0" "f b c \<le> 0" by (auto simp: then_compare_def split: if_splits)
  note t = comparator_on_trans [OF assms(1) ab c(1) le]
  show "then_compare f g a c \<le> 0"
  proof (cases "f a c = 0")
    case True
    with t(2) have "f a b = 0" "f b c = 0" by auto
    with c(2,3) comparator_onD(2) [OF assms(2) [OF ab(1)], of a b c] ab c(1) f(3) [OF ab(1)] True
    show ?thesis by (simp add: then_compare_def)
  qed (use t(1) in \<open>simp add: then_compare_def\<close>)
qed

section \<open>Sequences\<close>

fun seq_compare :: "('a \<Rightarrow> 'a \<Rightarrow> int) \<Rightarrow> 'a list \<Rightarrow> 'a list \<Rightarrow> int" where
  "seq_compare f [] [] = 0"
| "seq_compare f [] (y # ys) = -1"
| "seq_compare f (x # xs) [] = 1"
| "seq_compare f (x # xs) (y # ys) = (if f x y \<noteq> 0 then f x y else seq_compare f xs ys)"

lemma compareSequences_lists:
  "compareSequences (length xs) (length ys) (\<lambda>i. f (xs ! i) (ys ! i)) = seq_compare f xs ys"
proof -
  have "compareSequences_from i (length xs) (length ys) (\<lambda>i. f (xs ! i) (ys ! i)) = seq_compare f (drop i xs) (drop i ys)" 
    if "i \<le> length xs" "i \<le> length ys" for i
    using that
  proof (induction "length xs - i" arbitrary: i)
    case 0
    then show ?case by (cases "drop i ys") (auto simp: compareSequences_from.simps compareInt64s_def)
  next
    case (Suc n)
    show ?case
    proof (cases "i < length ys")
      case True
      moreover have "i < length xs" using Suc by simp
      ultimately show ?thesis
        using Suc by (subst compareSequences_from.simps)
          (simp add: Let_def Cons_nth_drop_Suc [symmetric] del: drop_Suc_Cons)
    next
      case False
      then have "drop i ys = []" "drop i xs \<noteq> []" using Suc by auto
      then show ?thesis using False Suc by (cases "drop i xs") (auto simp: compareSequences_from.simps compareInt64s_def)
    qed
  qed
  from this [of 0] show ?thesis by (simp add: compareSequences_def)
qed

lemma seq_anti:
  assumes "comparator_on S f"
  shows "xs \<in> lists S \<Longrightarrow> ys \<in> lists S \<Longrightarrow> seq_compare f ys xs = - seq_compare f xs ys"
proof (induction xs arbitrary: ys)
  case Nil
  then show ?case by (cases ys) simp_all
next
  case (Cons x xs)
  show ?case
  proof (cases ys)
    case ys: (Cons y ys')
    have "x \<in> S" "y \<in> S" "xs \<in> lists S" "ys' \<in> lists S" using Cons.prems ys by auto
    with Cons.IH [of ys'] comparator_onD(1) [OF assms, of x y] show ?thesis by (simp add: ys)
  qed simp
qed

lemma seq_comparator:
  assumes "comparator_on S f"
  shows "comparator_on (lists S) (seq_compare f)"
proof -
  have "seq_compare f xs zs \<le> 0"
    if "xs \<in> lists S" "ys \<in> lists S" "zs \<in> lists S" "seq_compare f xs ys \<le> 0" "seq_compare f ys zs \<le> 0" for xs ys zs
    using that
  proof (induction xs arbitrary: ys zs rule: list.induct)
    case Nil
    then show ?case by (cases zs) auto
  next
    case (Cons x xs)
    then obtain y ys' where ys: "ys = y # ys'" by (cases ys) auto
    with Cons obtain z zs' where zs: "zs = z # zs'" by (cases zs) auto
    have s: "x \<in> S" "y \<in> S" "z \<in> S" using Cons.prems by (auto simp: ys zs)
    have le: "f x y \<le> 0" "f y z \<le> 0" using Cons.prems by (auto simp: ys zs split: if_splits)
    note t = comparator_on_trans [OF assms s le]
    show ?case
    proof (cases "f x z = 0")
      case True
      with t(2) have "f x y = 0" "f y z = 0" by auto
      with True Cons.IH [of ys' zs'] Cons.prems show ?thesis by (simp add: ys zs)
    qed (use t(1) in \<open>simp add: zs\<close>)
  qed
  with seq_anti [OF assms] show ?thesis unfolding comparator_on_def by blast
qed

section \<open>Every comparison is a comparator\<close>

lemma comparator_int: "comparator_on UNIV compareInt64s"
  by (auto simp: comparator_on_def compareInt64s_def split: if_splits)

lemma compareInt64s_zero [simp]: "compareInt64s a b = 0 \<longleftrightarrow> a = b"
  by (auto simp: compareInt64s_def)

lemma comparator_string: "comparator_on UNIV strings_Compare"
  by (auto simp: comparator_on_def strings_Compare_def split: if_splits)

lemma strings_Compare_zero [simp]: "strings_Compare a b = 0 \<longleftrightarrow> a = b"
  by (auto simp: strings_Compare_def)

lemma comparator_float: "comparator_on {a. a \<noteq> NaN} compareFloat64s"
proof -
  have anti: "compareFloat64s b a = - compareFloat64s a b" for a b
    by (cases a; cases b) (auto simp: compareFloat64s_def)
  have "compareFloat64s a c \<le> 0"
    if "a \<noteq> NaN" "b \<noteq> NaN" "c \<noteq> NaN" "compareFloat64s a b \<le> 0" "compareFloat64s b c \<le> 0" for a b c
    using that by (cases a; cases b; cases c) (auto simp: compareFloat64s_def split: if_splits)
  with anti show ?thesis unfolding comparator_on_def by blast
qed

lemma compareFloat64s_zero: "a \<noteq> NaN \<Longrightarrow> b \<noteq> NaN \<Longrightarrow> compareFloat64s a b = 0 \<longleftrightarrow> a = b"
  by (cases a; cases b) (auto simp: compareFloat64s_def)

lemma comparator_number: "comparator_on UNIV compareNumbers"
proof -
  note d = comparator_onD [OF comparator_float]
  have anti: "compareNumbers b a = - compareNumbers a b" for a b
    using d(1) [of a b] by (cases "a = NaN"; cases "b = NaN") (simp_all add: compareNumbers_def IsNaN_def)
  have "compareNumbers a c \<le> 0" if "compareNumbers a b \<le> 0" "compareNumbers b c \<le> 0" for a b c
    using that d(2) [of a b c] by (cases "a = NaN"; cases "b = NaN"; cases "c = NaN") (simp_all add: compareNumbers_def IsNaN_def)
  with anti show ?thesis unfolding comparator_on_def by blast
qed

lemma comparator_timestamp: "comparator_on UNIV compareTimestamps"
proof (rule comparator_on_image [where f = id])
  show "comparator_on UNIV (then_compare (\<lambda>a b. compareInt64s (fst a) (fst b)) (\<lambda>a b. compareInt64s (snd a) (snd b)))"
    by (rule comparator_on_then)
       (rule comparator_on_image [OF comparator_int, where f = fst], simp_all,
        rule comparator_on_image [OF comparator_int, where f = snd], simp_all)
qed (auto simp: compareTimestamps_def then_compare_def Let_def)

lemma comparator_reference: "comparator_on UNIV compareReferences"
  by (rule comparator_on_image [OF seq_comparator [OF comparator_string], where f = split_slash])
     (auto simp: compareReferences_def Let_def compareSequences_lists)

definition compareGeo :: "float64 \<times> float64 \<Rightarrow> float64 \<times> float64 \<Rightarrow> int" where
  "compareGeo a b = (if float_neq (fst a) (fst b) then compareFloat64s (fst a) (fst b) else compareFloat64s (snd a) (snd b))"

lemma comparator_geo: "comparator_on {p. fst p \<noteq> NaN \<and> snd p \<noteq> NaN} compareGeo"
proof (rule comparator_on_image [where f = id])
  show "comparator_on {p. fst p \<noteq> NaN \<and> snd p \<noteq> NaN}
      (then_compare (\<lambda>a b. compareFloat64s (fst a) (fst b)) (\<lambda>a b. compareFloat64s (snd a) (snd b)))"
    by (rule comparator_on_then)
       (rule comparator_on_image [OF comparator_float, where f = fst], simp_all,
        rule comparator_on_image [OF comparator_float, where f = snd], simp_all)
qed (auto simp: compareGeo_def then_compare_def float_neq_def compareFloat64s_zero)

text \<open>Values whose geographical points are numbers.\<close>

fun geo_ok :: "fvalue \<Rightarrow> bool" where
  "geo_ok (GeoPointValue lat lng) = (lat \<noteq> NaN \<and> lng \<noteq> NaN)"
| "geo_ok (ArrayValue vs) = (\<forall>v\<in>set vs. geo_ok v)"
| "geo_ok (MapValue m) = (\<forall>p\<in>set m. geo_ok (snd p))"
| "geo_ok v = True"

definition fields_of :: "(string \<times> fvalue) list \<Rightarrow> (string \<times> fvalue) list" where
  "fields_of m = map (\<lambda>k. (k, field m k)) (sortedKeys m)"

definition compareField :: "string \<times> fvalue \<Rightarrow> string \<times> fvalue \<Rightarrow> int" where
  "compareField = then_compare (\<lambda>x y. strings_Compare (fst x) (fst y)) (\<lambda>x y. compareValues (snd x) (snd y))"

lemma field_cases: "field m k = NullValue \<or> (k, field m k) \<in> set m"
  by (auto simp: field_def dest: map_of_SomeD split: option.split)

lemma compareValues_types: "typeOrder a \<noteq> typeOrder b \<Longrightarrow> compareValues a b = compareInt64s (typeOrder a) (typeOrder b)"
  by (simp add: compareValues.simps)

lemma compareValues_map:
  "compareValues (MapValue am) (MapValue bm) = seq_compare compareField (fields_of am) (fields_of bm)"
proof -
  have "compareValues (MapValue am) (MapValue bm)
    = compareSequences (length (fields_of am)) (length (fields_of bm)) (\<lambda>i. compareField (fields_of am ! i) (fields_of bm ! i))"
    unfolding compareValues.simps [of "MapValue am"]
    by (simp add: typeOrder_def GetMapValue_def Let_def)
       (auto simp: fields_of_def compareField_def then_compare_def GetMapValue_def intro!: compareSequences_cong)
  then show ?thesis by (simp add: compareSequences_lists)
qed

lemma compareValues_array: "compareValues (ArrayValue as) (ArrayValue bs) = seq_compare compareValues as bs"
  unfolding compareValues.simps [of "ArrayValue as"]
  by (simp add: typeOrder_def GetArrayValue_def compareSequences_lists)

text \<open>One class of values at a time.\<close>

lemma comparator_class:
  assumes "comparator_on {v. geo_ok v \<and> size v < n} compareValues"
  shows "comparator_on {v. geo_ok v \<and> size v < Suc n \<and> typeOrder v = typeOrder r} compareValues"
proof (cases r)
  case NullValue
  show ?thesis
    by (rule comparator_on_image [OF comparator_int, where f = "\<lambda>_. 0"])
       (auto simp: NullValue compareValues.simps typeOrder_def split: fvalue.splits)
next
  case (BooleanValue x)
  show ?thesis
    by (rule comparator_on_image [OF comparator_int, where f = "\<lambda>v. if GetBooleanValue v then 1 else 0"])
       (auto simp: BooleanValue compareValues.simps typeOrder_def GetBooleanValue_def compareInt64s_def split: fvalue.splits)
next
  case (IntegerValue x)
  show ?thesis
    by (rule comparator_on_image [OF comparator_number, where f = toFloat])
       (auto simp: IntegerValue compareValues.simps typeOrder_def toFloat_def GetDoubleValue_def split: fvalue.splits)
next
  case (DoubleValue x)
  show ?thesis
    by (rule comparator_on_image [OF comparator_number, where f = toFloat])
       (auto simp: DoubleValue compareValues.simps typeOrder_def toFloat_def GetDoubleValue_def split: fvalue.splits)
next
  case (TimestampValue x y)
  show ?thesis
    by (rule comparator_on_image [OF comparator_timestamp, where f = GetTimestampValue])
       (auto simp: TimestampValue compareValues.simps typeOrder_def GetTimestampValue_def split: fvalue.splits)
next
  case (StringValue x)
  show ?thesis
    by (rule comparator_on_image [OF comparator_string, where f = GetStringValue])
       (auto simp: StringValue compareValues.simps typeOrder_def GetStringValue_def split: fvalue.splits)
next
  case (BytesValue x)
  show ?thesis
    by (rule comparator_on_image [OF comparator_string, where f = GetBytesValue])
       (auto simp: BytesValue compareValues.simps typeOrder_def GetBytesValue_def split: fvalue.splits)
next
  case (ReferenceValue x)
  show ?thesis
    by (rule comparator_on_image [OF comparator_reference, where f = GetReferenceValue])
       (auto simp: ReferenceValue compareValues.simps typeOrder_def GetReferenceValue_def split: fvalue.splits)
next
  case (GeoPointValue x y)
  show ?thesis
    by (rule comparator_on_image [OF comparator_geo, where f = GetGeoPointValue])
       (auto simp: GeoPointValue compareValues.simps typeOrder_def GetGeoPointValue_def compareGeo_def split: fvalue.splits)
next
  case (ArrayValue x)
  have "size v \<le> size_list size vs" if "v \<in> set vs" for v :: fvalue and vs using that by (induction vs) auto
  then have small: "size v < n" if "v \<in> set vs" "size (ArrayValue vs) < Suc n" for v vs
    using that(2) that(1) by (fastforce simp: less_Suc_eq_le)
  show ?thesis
    by (rule comparator_on_image [OF seq_comparator [OF assms], where f = GetArrayValue])
       (auto simp: ArrayValue typeOrder_def GetArrayValue_def compareValues_array intro: small split: fvalue.splits)
next
  case (MapValue x)
  have small: "geo_ok (field m k) \<and> size (field m k) < n" if "\<forall>p\<in>set m. geo_ok (snd p)" "size_list (size_prod (\<lambda>_. 0) size) m < n" for m k
  proof -
    have "size_prod (\<lambda>_. 0) size = (\<lambda>x :: string \<times> fvalue. Suc (size (snd x)))" by (auto simp: size_prod_simp)
    then show ?thesis using field_size [of m k] field_cases [of m k] that by auto
  qed
  have "comparator_on {p. geo_ok (snd p) \<and> size (snd p) < n} compareField"
    unfolding compareField_def
    by (rule comparator_on_then)
       (rule comparator_on_image [OF comparator_string, where f = fst], simp_all,
        rule comparator_on_image [OF assms, where f = snd], simp_all)
  note c = seq_comparator [OF this]
  show ?thesis
    by (rule comparator_on_image [OF c, where f = "\<lambda>v. fields_of (GetMapValue v)"])
       (auto simp: MapValue typeOrder_def GetMapValue_def compareValues_map fields_of_def small split: fvalue.splits)
qed

lemma comparator_values: "comparator_on {v. geo_ok v} compareValues"
proof -
  have bounded: "comparator_on {v. geo_ok v \<and> size v < n} compareValues" for n
  proof (induction n)
    case 0
    then show ?case by (simp add: comparator_on_def)
  next
    case (Suc n)
    have "comparator_on {v. geo_ok v \<and> size v < Suc n}
        (then_compare (\<lambda>a b. compareInt64s (typeOrder a) (typeOrder b)) compareValues)"
    proof (rule comparator_on_then)
      show "comparator_on {v. geo_ok v \<and> size v < Suc n} (\<lambda>a b. compareInt64s (typeOrder a) (typeOrder b))"
        by (rule comparator_on_image [OF comparator_int, where f = typeOrder]) simp_all
      show "comparator_on {a \<in> {v. geo_ok v \<and> size v < Suc n}. compareInt64s (typeOrder r) (typeOrder a) = 0} compareValues" for r
        by (rule comparator_on_subset [OF comparator_class [OF Suc.IH, of r]]) auto
    qed
    then show ?case
      by (rule comparator_on_image [where f = id]) (auto simp: then_compare_def compareValues_types)
  qed
  let ?S = "{v. geo_ok v}"
  have anti: "compareValues b a = - compareValues a b" if "a \<in> ?S" "b \<in> ?S" for a b
    by (rule comparator_onD(1) [OF bounded [of "Suc (size a + size b)"]]) (use that in auto)
  have "compareValues a c \<le> 0" if "a \<in> ?S" "b \<in> ?S" "c \<in> ?S" "compareValues a b \<le> 0" "compareValues b c \<le> 0" for a b c
    by (rule comparator_onD(2) [OF bounded [of "Suc (size a + size b + size c)"], of a b c]) (use that in auto)
  with anti show ?thesis unfolding comparator_on_def by blast
qed

section \<open>Properties\<close>

text \<open>C30: \<^verbatim>\<open>compareValues\<close> is a total preorder.  On values whose geographical points hold no NaN (arrays and maps nested to any
  depth, NaN as a number included), the comparison returns; exchanging the arguments negates the result, \<open>\<le>\<close> is
  transitive, and values of different types are ordered by their type.\<close>

theorem compareValues_total_preorder:
  assumes "geo_ok a" "geo_ok b" "geo_ok c"
  shows "compareValues b a = - compareValues a b
    \<and> (compareValues a b \<le> 0 \<and> compareValues b c \<le> 0 \<longrightarrow> compareValues a c \<le> 0)
    \<and> (typeOrder a < typeOrder b \<longrightarrow> compareValues a b = -1)"
proof -
  note d = comparator_onD [OF comparator_values]
  have "compareValues b a = - compareValues a b" by (rule d(1)) (use assms in simp_all)
  moreover have "compareValues a c \<le> 0" if "compareValues a b \<le> 0" "compareValues b c \<le> 0"
    by (rule d(2) [of a b c]) (use assms that in simp_all)
  moreover have "compareValues a b = -1" if "typeOrder a < typeOrder b"
    using compareValues_types [of a b] that by (simp add: compareInt64s_def)
  ultimately show ?thesis by blast
qed

theorem compareValues_total_preorder_witness:
  "compareValues (MapValue [(''b'', DoubleValue NaN), (''a'', IntegerValue 1)]) (MapValue [(''a'', IntegerValue 1), (''b'', IntegerValue 0)]) = -1
   \<and> compareValues (MapValue [(''a'', IntegerValue 1), (''b'', IntegerValue 0)]) (MapValue [(''b'', DoubleValue NaN), (''a'', IntegerValue 1)]) = 1
   \<and> compareValues (GeoPointValue (Finite 1) PosInf) (ArrayValue []) = -1"
proof -
  let ?a = "MapValue [(''b'', DoubleValue NaN), (''a'', IntegerValue 1)]" and ?b = "MapValue [(''a'', IntegerValue 1), (''b'', IntegerValue 0)]"
  have "compareValues ?a ?b = -1"
    by (simp add: compareValues_map fields_of_def sortedKeys_def field_def compareField_def then_compare_def
        compareValues.simps [of "IntegerValue _"] compareValues.simps [of "DoubleValue _"] typeOrder_def toFloat_def
        compareNumbers_def IsNaN_def compareFloat64s_def)
  with compareValues_total_preorder [of ?a ?b ?b] compareValues_total_preorder [of "GeoPointValue (Finite 1) PosInf" "ArrayValue []" ?a]
  show ?thesis by (simp add: typeOrder_def)
qed

lemma compare_integers:
  "compareValues (IntegerValue x) (IntegerValue y) = compareInt64s (float64_of_int64 x) (float64_of_int64 y)"
  by (simp add: compareValues.simps typeOrder_def toFloat_def compareNumbers_def IsNaN_def compareFloat64s_def compareInt64s_def)

lemma float64_of_int64_tie: "float64_of_int64 9007199254740993 = 9007199254740992" "float64_of_int64 9007199254740992 = 9007199254740992"
proof -
  have "bit_length n = 54" if "2 ^ 53 \<le> n" "n < 2 ^ 54" for n
  proof -
    have "53 < bit_length n" using bit_length_bounds(1) [of n] that(1)
      by (meson le_less_trans not_less one_le_numeral power_increasing)
    with bit_length_le [OF that(2)] show ?thesis by simp
  qed
  from this [of 9007199254740993] this [of 9007199254740992]
  show "float64_of_int64 9007199254740993 = 9007199254740992" "float64_of_int64 9007199254740992 = 9007199254740992"
    by (simp_all add: float64_of_int64_def)
qed

text \<open>C31: The order of integers is that of their conversions to \<^verbatim>\<open>float64\<close>: it is exact below \<open>2\<^sup>5\<^sup>3\<close> in absolute value and never inverts
  the order of two integers, but beyond it different integers compare as equal, \<open>2\<^sup>5\<^sup>3\<close> and its successor for example.\<close>

theorem integer_order_precision:
  "(\<bar>x\<bar> < 2 ^ 53 \<and> \<bar>y\<bar> < 2 ^ 53 \<longrightarrow> compareValues (IntegerValue x) (IntegerValue y) = compareInt64s x y)
   \<and> (x \<le> y \<longrightarrow> compareValues (IntegerValue x) (IntegerValue y) \<le> 0)
   \<and> compareValues (IntegerValue (2 ^ 53)) (IntegerValue (2 ^ 53 + 1)) = 0"
  using float64_of_int64_mono [of x y]
  by (auto simp: compare_integers float64_of_int64_small float64_of_int64_tie compareInt64s_def)

theorem integer_order_precision_witness:
  "compareValues (IntegerValue 3) (IntegerValue (-4)) = 1
   \<and> compareValues (IntegerValue (2 ^ 60)) (IntegerValue (2 ^ 60 + 7)) \<le> 0"
  using integer_order_precision [of 3 "-4"] integer_order_precision [of "2 ^ 60" "2 ^ 60 + 7"] by (simp add: compareInt64s_def)

end
