(* ===== verification/Firestore_Compare.thy ===== *)
theory Firestore_Compare
  imports Firestore_Order
begin

text \<open>
  The order of the documents of a query: \<^verbatim>\<open>valueAtPath\<close> (\<^verbatim>\<open>firestore/document.go\<close>) and \<^verbatim>\<open>Query.compareFunc\<close>
  (\<^verbatim>\<open>firestore/query.go\<close>).  On documents that have every field the query orders by, the comparison returns no
  error, is a comparator, and only a document of the same name is equal to a document.
\<close>

section \<open>Documents\<close>

type_synonym fields = "(string \<times> fvalue) list"

record DocumentSnapshot =
  ds_path :: string
  ds_fields :: fields
  ds_createTime :: int
  ds_updateTime :: int
  ds_readTime :: int

datatype fs_error = noField string | notMap string | emptyPath

fun valueAtPath :: "string list \<Rightarrow> fields \<Rightarrow> fs_error + fvalue" where
  "valueAtPath [] m = Inl emptyPath"
| "valueAtPath [k] m = (case map_of m k of None \<Rightarrow> Inl (noField k) | Some v \<Rightarrow> Inr v)"
| "valueAtPath (k # k2 # ks) m =
     (case map_of m k of
        None \<Rightarrow> Inl (noField k)
      | Some v \<Rightarrow> (case v of MapValue m' \<Rightarrow> valueAtPath (k2 # ks) m' | _ \<Rightarrow> Inl (notMap k)))"

section \<open>The comparison of a query\<close>

datatype Direction = Asc | Desc

record order =
  o_fieldPath :: "string list"
  o_dir :: Direction

definition DocumentID :: string where
  "DocumentID = ''__name__''"

text \<open>The orders of a query with the implicit order by name, in the last direction given.\<close>

definition compare_orders :: "order list \<Rightarrow> order list" where
  "compare_orders orders =
     (let lastDir = (if length orders > 0 then o_dir (orders ! (length orders - 1)) else Asc)
      in orders @ [\<lparr>o_fieldPath = [DocumentID], o_dir = lastDir\<rparr>])"

definition compare_one :: "order \<Rightarrow> DocumentSnapshot \<Rightarrow> DocumentSnapshot \<Rightarrow> fs_error + int" where
  "compare_one ord d1 d2 =
     (if o_fieldPath ord = [DocumentID] then Inr (compareReferences (ds_path d1) (ds_path d2))
      else case valueAtPath (o_fieldPath ord) (ds_fields d1) of
             Inl e \<Rightarrow> Inl e
           | Inr v1 \<Rightarrow>
               (case valueAtPath (o_fieldPath ord) (ds_fields d2) of
                  Inl e \<Rightarrow> Inl e
                | Inr v2 \<Rightarrow> Inr (compareValues v1 v2)))"

fun compare_loop :: "order list \<Rightarrow> DocumentSnapshot \<Rightarrow> DocumentSnapshot \<Rightarrow> fs_error + int" where
  "compare_loop [] d1 d2 = Inr 0"
| "compare_loop (ord # orders) d1 d2 =
     (case compare_one ord d1 d2 of
        Inl e \<Rightarrow> Inl e
      | Inr cmp \<Rightarrow>
          if cmp \<noteq> 0 then Inr (if o_dir ord = Desc then - cmp else cmp)
          else compare_loop orders d1 d2)"

definition compareFunc :: "order list \<Rightarrow> DocumentSnapshot \<Rightarrow> DocumentSnapshot \<Rightarrow> fs_error + int" where
  "compareFunc orders d1 d2 = compare_loop (compare_orders orders) d1 d2"

text \<open>\<^verbatim>\<open>watchStream.less\<close>: an error is kept by the stream, and the documents are not less.\<close>

definition watch_less ::
  "(DocumentSnapshot \<Rightarrow> DocumentSnapshot \<Rightarrow> fs_error + int) \<Rightarrow> DocumentSnapshot \<Rightarrow> DocumentSnapshot \<Rightarrow> bool" where
  "watch_less compare a b = (case compare a b of Inl _ \<Rightarrow> False | Inr c \<Rightarrow> c < 0)"

section \<open>Documents a query can order\<close>

fun isOk :: "'e + 'a \<Rightarrow> bool" where
  "isOk (Inr _) = True"
| "isOk (Inl _) = False"

definition orderable :: "order list \<Rightarrow> DocumentSnapshot set" where
  "orderable orders =
     {d. \<forall>ord\<in>set orders. o_fieldPath ord = [DocumentID]
           \<or> (\<exists>v. valueAtPath (o_fieldPath ord) (ds_fields d) = Inr v \<and> geo_ok v)}"

definition compare_key :: "order \<Rightarrow> DocumentSnapshot \<Rightarrow> fvalue" where
  "compare_key ord d =
     (if o_fieldPath ord = [DocumentID] then ReferenceValue (ds_path d) else projr (valueAtPath (o_fieldPath ord) (ds_fields d)))"

lemma compare_one_key:
  assumes "a \<in> orderable orders" "b \<in> orderable orders" "ord \<in> set orders"
  shows "compare_one ord a b = Inr (compareValues (compare_key ord a) (compare_key ord b))"
    and "geo_ok (compare_key ord a)"
proof -
  show "geo_ok (compare_key ord a)" using assms(1,3) by (force simp: orderable_def compare_key_def)
  show "compare_one ord a b = Inr (compareValues (compare_key ord a) (compare_key ord b))"
  proof (cases "o_fieldPath ord = [DocumentID]")
    case True
    then show ?thesis
      by (simp add: compare_one_def compare_key_def compareValues.simps [of "ReferenceValue _"] typeOrder_def GetReferenceValue_def)
  next
    case False
    then obtain v w where "valueAtPath (o_fieldPath ord) (ds_fields a) = Inr v" "valueAtPath (o_fieldPath ord) (ds_fields b) = Inr w"
      using assms by (force simp: orderable_def)
    with False show ?thesis by (simp add: compare_one_def compare_key_def)
  qed
qed

lemma comparator_neg: "comparator_on S cmp \<Longrightarrow> comparator_on S (\<lambda>a b. - cmp a b)"
proof -
  assume c: "comparator_on S cmp"
  note d = comparator_onD [OF c]
  have "- cmp a c' \<le> 0" if "a \<in> S" "b \<in> S" "c' \<in> S" "- cmp a b \<le> 0" "- cmp b c' \<le> 0" for a b c'
  proof -
    have "cmp c' b \<le> 0" "cmp b a \<le> 0" using that d(1) [OF that(2,3)] d(1) [OF that(1,2)] by linarith+
    from d(2) [OF that(3,2,1) this] d(1) [OF that(1,3)] show ?thesis by simp
  qed
  moreover have "- cmp b a = - (- cmp a b)" if "a \<in> S" "b \<in> S" for a b using d(1) [OF that] by simp
  ultimately show ?thesis unfolding comparator_on_def by blast
qed

definition signed_compare :: "order \<Rightarrow> DocumentSnapshot \<Rightarrow> DocumentSnapshot \<Rightarrow> int" where
  "signed_compare ord a b =
     (let c = compareValues (compare_key ord a) (compare_key ord b) in if o_dir ord = Desc then - c else c)"

lemma comparator_signed:
  assumes "ord \<in> set orders"
  shows "comparator_on (orderable orders) (signed_compare ord)"
proof -
  have c: "comparator_on (orderable orders) (\<lambda>a b. compareValues (compare_key ord a) (compare_key ord b))"
    by (rule comparator_on_image [OF comparator_values, where f = "compare_key ord"]) (use compare_one_key(2) assms in auto)
  show ?thesis
  proof (cases "o_dir ord = Desc")
    case True
    then show ?thesis using comparator_neg [OF c] by (simp add: signed_compare_def [abs_def] Let_def)
  next
    case False
    then show ?thesis using c by (simp add: signed_compare_def [abs_def] Let_def)
  qed
qed

fun chain_compare :: "order list \<Rightarrow> DocumentSnapshot \<Rightarrow> DocumentSnapshot \<Rightarrow> int" where
  "chain_compare [] a b = 0"
| "chain_compare (ord # orders) a b = then_compare (signed_compare ord) (chain_compare orders) a b"

lemma compare_loop_chain:
  "set os \<subseteq> set orders \<Longrightarrow> a \<in> orderable orders \<Longrightarrow> b \<in> orderable orders \<Longrightarrow> compare_loop os a b = Inr (chain_compare os a b)"
  by (induction os) (auto simp: compare_one_key(1) [where orders = orders] then_compare_def signed_compare_def Let_def)

lemma comparator_chain: "set os \<subseteq> set orders \<Longrightarrow> comparator_on (orderable orders) (chain_compare os)"
proof (induction os)
  case Nil
  then show ?case by (simp add: comparator_on_def)
next
  case (Cons ord os)
  have "comparator_on (orderable orders) (then_compare (signed_compare ord) (chain_compare os))"
  proof (rule comparator_on_then)
    show "comparator_on (orderable orders) (signed_compare ord)" using comparator_signed Cons.prems by simp
    show "comparator_on {a \<in> orderable orders. signed_compare ord r a = 0} (chain_compare os)" for r
      by (rule comparator_on_subset [of "orderable orders"]) (use Cons in auto)
  qed
  moreover have "chain_compare (ord # os) = then_compare (signed_compare ord) (chain_compare os)" by (simp add: fun_eq_iff)
  ultimately show ?case by simp
qed

text \<open>The name decides last.\<close>

fun join_slash :: "string list \<Rightarrow> string" where
  "join_slash [] = []"
| "join_slash [p] = p"
| "join_slash (p # q # ps) = p @ CHR ''/'' # join_slash (q # ps)"

lemma split_nonempty: "split_slash s \<noteq> []"
  by (induction s) (auto split: list.split)

lemma join_split: "join_slash (split_slash s) = s"
proof (induction s)
  case (Cons c s)
  obtain p ps where "split_slash s = p # ps" using split_nonempty [of s] by (cases "split_slash s") auto
  with Cons show ?case by (cases ps) auto
qed simp

lemma compareReferences_zero: "compareReferences a b = 0 \<longleftrightarrow> a = b"
proof -
  have "seq_compare strings_Compare xs ys = 0 \<longleftrightarrow> xs = ys" for xs ys
    by (induction strings_Compare xs ys rule: seq_compare.induct) auto
  then have "compareReferences a b = 0 \<longleftrightarrow> split_slash a = split_slash b"
    by (simp add: compareReferences_def Let_def compareSequences_lists)
  also have "\<dots> \<longleftrightarrow> a = b" by (metis join_split)
  finally show ?thesis .
qed

lemma chain_zero: "ord \<in> set os \<Longrightarrow> chain_compare os a b = 0 \<Longrightarrow> signed_compare ord a b = 0"
  by (induction os) (auto simp: then_compare_def split: if_splits)

lemma chain_same_name:
  assumes "chain_compare (compare_orders orders) a b = 0"
  shows "ds_path a = ds_path b"
proof -
  obtain dir where "\<lparr>o_fieldPath = [DocumentID], o_dir = dir\<rparr> \<in> set (compare_orders orders)" by (auto simp: compare_orders_def Let_def)
  from chain_zero [OF this assms] show ?thesis
    by (auto simp: signed_compare_def compare_key_def compareValues.simps [of "ReferenceValue _"] typeOrder_def
        GetReferenceValue_def compareReferences_zero Let_def split: if_splits)
qed

lemma query_order:
  "order_on (orderable (compare_orders orders)) (watch_less (compareFunc orders))"
proof -
  let ?K = "orderable (compare_orders orders)" and ?c = "chain_compare (compare_orders orders)"
  have "same_on ?K (\<lambda>a b. ?c a b < 0) (watch_less (compareFunc orders))"
    unfolding same_on_def using compare_loop_chain [OF subset_refl] by (simp add: watch_less_def compareFunc_def)
  then show ?thesis
    by (rule order_on_same) (rule comparator_order [OF comparator_chain [OF subset_refl]])
qed

end
