(* ===== verification/Firestore_Watch.thy ===== *)
theory Firestore_Watch
  imports Firestore_Compare Wire_Errors "HOL-Library.AList"
begin

text \<open>
  Realtime updates (\<^verbatim>\<open>firestore/watch.go\<close>): the messages of the listen stream are collected in a change map; in a
  consistent state the changes are applied to the document tree and the document map, and the
  snapshot is the new tree with the list of changes that leads to it.  A Go map is an association list:
  its order is the order of an iteration, which the theorems leave open.  The calls on the gRPC stream and on the clock
  are inputs.  \<open>None\<close> stands for a panic, or for inputs that have run out.
\<close>

section \<open>State\<close>

datatype DocumentChangeKind = DocumentAdded | DocumentRemoved | DocumentModified

record DocumentChange =
  dc_Kind :: DocumentChangeKind
  dc_Doc :: DocumentSnapshot
  dc_OldIndex :: int
  dc_NewIndex :: int

type_synonym docTree = "(DocumentSnapshot, unit) BTree"
type_synonym docMap = "(string \<times> DocumentSnapshot) list"
type_synonym changeMap = "(string \<times> DocumentSnapshot option) list"

datatype watch_error =
    watchEOF
  | watchStatus grpc_code
  | watchOther nat
  | unexpectedTargetID
  | unknownTargetChange
  | unknownResponse
  | malformedPath string
  | collectionPath string
  | badTimestamp

record watchStream =
  ws_open :: bool
  ws_resumeToken :: "string option"
  ws_backoff :: nat
  ws_err :: "watch_error option"
  ws_readTime :: int
  ws_current :: bool
  ws_hasReturned :: bool
  ws_docTree :: docTree
  ws_docMap :: docMap
  ws_changeMap :: changeMap

definition watchTargetID :: int where
  "watchTargetID = 103 + 111"

definition hasWatchTargetID :: "int list \<Rightarrow> bool" where
  "hasWatchTargetID ids = list_ex (\<lambda>i. i = watchTargetID) ids"

definition btreeDegree :: nat where
  "btreeDegree = 4"

text \<open>\<open>ws_backoff\<close> counts the pauses since the backoff was last the default one.\<close>

definition newWatchStream :: "nat \<Rightarrow> (DocumentSnapshot \<Rightarrow> DocumentSnapshot \<Rightarrow> fs_error + int) \<Rightarrow> watchStream option" where
  "newWatchStream cow compare =
     (case New cow btreeDegree (watch_less compare) of
        None \<Rightarrow> None
      | Some t \<Rightarrow>
          Some \<lparr>ws_open = False, ws_resumeToken = None, ws_backoff = 0, ws_err = None, ws_readTime = 0, ws_current = False,
                ws_hasReturned = False, ws_docTree = t, ws_docMap = [], ws_changeMap = []\<rparr>)"

section \<open>Changes\<close>

fun extractChanges :: "docMap \<Rightarrow> changeMap \<Rightarrow> DocumentSnapshot list \<times> DocumentSnapshot list \<times> string list" where
  "extractChanges docMap [] = ([], [], [])"
| "extractChanges docMap ((name, doc) # rest) =
     (case extractChanges docMap rest of (updates, adds, deletes) \<Rightarrow>
        (case doc of
           None \<Rightarrow> (if map_of docMap name \<noteq> None then (updates, adds, name # deletes) else (updates, adds, deletes))
         | Some d \<Rightarrow> (if map_of docMap name \<noteq> None then (d # updates, adds, deletes) else (updates, d # adds, deletes))))"

definition currentSize :: "watchStream \<Rightarrow> int" where
  "currentSize s =
     (case extractChanges (ws_docMap s) (ws_changeMap s) of (_, adds, deletes) \<Rightarrow>
        int (length (ws_docMap s)) + int (length adds) - int (length deletes))"

text \<open>\<^verbatim>\<open>sort.Sort\<close> with \<^verbatim>\<open>byLess\<close>.\<close>

fun insert_less :: "('a \<Rightarrow> 'a \<Rightarrow> bool) \<Rightarrow> 'a \<Rightarrow> 'a list \<Rightarrow> 'a list" where
  "insert_less lt x [] = [x]"
| "insert_less lt x (y # ys) = (if lt x y then x # y # ys else y # insert_less lt x ys)"

definition sort_less :: "('a \<Rightarrow> 'a \<Rightarrow> bool) \<Rightarrow> 'a list \<Rightarrow> 'a list" where
  "sort_less lt xs = foldr (insert_less lt) xs []"

text \<open>The loops of \<^verbatim>\<open>computeSnapshot\<close>.  \<open>sn_cloned\<close> tells whether \<open>sn_tree\<close> is a clone of the tree of the stream.\<close>

record snapshot =
  sn_tree :: docTree
  sn_cloned :: bool
  sn_docMap :: docMap
  sn_changes :: "DocumentChange list"

definition delete_step :: "DocumentSnapshot \<Rightarrow> snapshot \<Rightarrow> snapshot option" where
  "delete_step oldDoc sn =
     Option.bind (GetWithIndex oldDoc (sn_tree sn)) (\<lambda>(_, oldi).
     Option.bind (BTree_Delete oldDoc (sn_tree sn)) (\<lambda>(tree, _, found).
       if found
       then Some (sn\<lparr>sn_tree := tree, sn_docMap := AList.delete (ds_path oldDoc) (sn_docMap sn),
                    sn_changes := sn_changes sn @
                      [\<lparr>dc_Kind = DocumentRemoved, dc_Doc = oldDoc, dc_OldIndex = oldi, dc_NewIndex = -1\<rparr>]\<rparr>)
       else None))"

definition add_step :: "int \<Rightarrow> DocumentSnapshot \<Rightarrow> snapshot \<Rightarrow> snapshot option" where
  "add_step readTime doc sn =
     (let newDoc = doc\<lparr>ds_readTime := readTime\<rparr>; name = ds_path newDoc
      in if map_of (sn_docMap sn) name \<noteq> None then None
         else Option.bind (BTree_Set newDoc () (sn_tree sn)) (\<lambda>(tree, _, _).
              Option.bind (GetWithIndex newDoc tree) (\<lambda>(_, newi).
                Some (sn\<lparr>sn_tree := tree, sn_docMap := AList.update name newDoc (sn_docMap sn),
                         sn_changes := sn_changes sn @
                           [\<lparr>dc_Kind = DocumentAdded, dc_Doc = newDoc, dc_OldIndex = -1, dc_NewIndex = newi\<rparr>]\<rparr>))))"

text \<open>\<open>cow1\<close> and \<open>cow2\<close> are the contexts that \<^verbatim>\<open>Clone\<close> makes.\<close>

definition update_step :: "nat \<Rightarrow> nat \<Rightarrow> int \<Rightarrow> DocumentSnapshot \<Rightarrow> snapshot \<Rightarrow> snapshot option" where
  "update_step cow1 cow2 readTime doc sn =
     (let name = ds_path doc
      in case map_of (sn_docMap sn) name of
           None \<Rightarrow> None
         | Some oldDoc \<Rightarrow>
             if ds_updateTime doc = ds_updateTime oldDoc then Some sn
             else let tree0 = (if sn_cloned sn then sn_tree sn else snd (Clone cow1 cow2 (sn_tree sn)));
                      newDoc = doc\<lparr>ds_readTime := readTime\<rparr>
                  in Option.bind (GetWithIndex oldDoc tree0) (\<lambda>(_, oldi).
                     Option.bind (BTree_Delete oldDoc tree0) (\<lambda>(tree1, _, _).
                     Option.bind (BTree_Set newDoc () tree1) (\<lambda>(tree2, _, _).
                     Option.bind (GetWithIndex newDoc tree2) (\<lambda>(_, newi).
                       Some \<lparr>sn_tree = tree2, sn_cloned = True, sn_docMap = AList.update name newDoc (sn_docMap sn),
                             sn_changes = sn_changes sn @
                               [\<lparr>dc_Kind = DocumentModified, dc_Doc = newDoc, dc_OldIndex = oldi, dc_NewIndex = newi\<rparr>]\<rparr>)))))"

fun each :: "('a \<Rightarrow> 's \<Rightarrow> 's option) \<Rightarrow> 'a list \<Rightarrow> 's \<Rightarrow> 's option" where
  "each f [] s = Some s"
| "each f (x # xs) s = Option.bind (f x s) (each f xs)"

definition computeSnapshot :: "nat \<Rightarrow> nat \<Rightarrow> docTree \<Rightarrow> docMap \<Rightarrow> changeMap \<Rightarrow> int \<Rightarrow> snapshot option" where
  "computeSnapshot cow1 cow2 docTree docMap changeMap readTime =
     (if BTree_Len docTree \<noteq> int (length docMap) then None
      else case extractChanges docMap changeMap of (updates, adds, deletes) \<Rightarrow>
        let less = bt_less docTree;
            cloned = (adds \<noteq> [] \<or> deletes \<noteq> []);
            sn0 = \<lparr>sn_tree = (if cloned then snd (Clone cow1 cow2 docTree) else docTree), sn_cloned = cloned,
                   sn_docMap = docMap, sn_changes = []\<rparr>;
            deldocs = map (\<lambda>d. the (map_of docMap d)) deletes
        in Option.bind (each delete_step (sort_less less deldocs) sn0) (\<lambda>sn1.
           Option.bind (each (add_step readTime) (sort_less less adds) sn1) (\<lambda>sn2.
           Option.bind (each (update_step cow1 cow2 readTime) (sort_less less updates) sn2) (\<lambda>sn3.
             if BTree_Len (sn_tree sn3) = int (length (sn_docMap sn3)) then Some sn3 else None))))"

end
