(* ===== verification/Firestore_Snapshot.thy ===== *)
theory Firestore_Snapshot
  imports Firestore_Watch Btree_Store
begin

text \<open>
  A snapshot is right: \<^verbatim>\<open>computeSnapshot\<close> does not panic, its tree and its map hold the old documents with the changes
  merged in, the tree is in the order of the query, and its list of changes, applied one after the other
  by the indices it gives, leads from the old sequence of documents to the new one.
\<close>

section \<open>What a client does with a change\<close>

definition docs :: "docTree \<Rightarrow> DocumentSnapshot list" where
  "docs t = map fst (elems t)"

definition apply_change :: "DocumentChange \<Rightarrow> DocumentSnapshot list \<Rightarrow> DocumentSnapshot list" where
  "apply_change c xs =
     (let ys = (if dc_OldIndex c \<ge> 0 then take (nat (dc_OldIndex c)) xs @ drop (Suc (nat (dc_OldIndex c))) xs else xs)
      in if dc_NewIndex c \<ge> 0 then take (nat (dc_NewIndex c)) ys @ dc_Doc c # drop (nat (dc_NewIndex c)) ys else ys)"

section \<open>Clones\<close>

lemma Clone_keys: "keys_ok K (snd (Clone cow1 cow2 t)) = keys_ok K t" "elems (snd (Clone cow1 cow2 t)) = elems t"
  "bt_less (snd (Clone cow1 cow2 t)) = bt_less t"
  by (simp_all add: Clone_def keys_ok_def tree_ok_def elems_def split: option.split)

section \<open>The invariant\<close>

text \<open>The keys are documents that \<open>lt\<close> orders, and equal only under the same name; the time of reading does not
  matter to the order.\<close>

definition good_docs :: "DocumentSnapshot set \<Rightarrow> (DocumentSnapshot \<Rightarrow> DocumentSnapshot \<Rightarrow> bool) \<Rightarrow> bool" where
  "good_docs K lt \<longleftrightarrow>
     order_on K lt \<and> (\<forall>a\<in>K. \<forall>b\<in>K. eqv lt a b \<longrightarrow> ds_path a = ds_path b)
   \<and> (\<forall>a\<in>K. \<forall>r. a\<lparr>ds_readTime := r\<rparr> \<in> K)"

text \<open>Tree and map hold the same documents.\<close>

definition same_docs :: "DocumentSnapshot set \<Rightarrow> docTree \<Rightarrow> docMap \<Rightarrow> bool" where
  "same_docs K t m \<longleftrightarrow>
     keys_ok K t \<and> good_docs K (bt_less t) \<and> distinct (map fst m) \<and> (\<forall>p\<in>set m. fst p = ds_path (snd p))
   \<and> set (docs t) = snd ` set m"

lemma same_docs_lookup:
  assumes "same_docs K t m"
  shows "map_of m n = Some d \<longleftrightarrow> d \<in> set (docs t) \<and> ds_path d = n"
proof -
  have m: "distinct (map fst m)" "\<forall>p\<in>set m. fst p = ds_path (snd p)" "set (docs t) = snd ` set m"
    using assms by (simp_all add: same_docs_def)
  have "(n, d) \<in> set m \<longleftrightarrow> d \<in> snd ` set m \<and> ds_path d = n"
  proof
    assume "(n, d) \<in> set m"
    with m(2) show "d \<in> snd ` set m \<and> ds_path d = n" by (metis fst_conv image_eqI snd_conv)
  next
    assume "d \<in> snd ` set m \<and> ds_path d = n"
    then obtain p where "p \<in> set m" "d = snd p" "ds_path d = n" by auto
    with m(2) show "(n, d) \<in> set m" by (metis prod.collapse)
  qed
  then show ?thesis using m(1,3) by (simp add: map_of_eq_Some_iff)
qed

lemma same_docs_cong:
  assumes "same_docs K t m" "map_of m = map_of m'" "distinct (map fst m')"
  shows "same_docs K t m'"
proof -
  have "set m = set m'" using assms by (simp add: same_docs_def flip: map_of_inject_set)
  with assms(1,3) show ?thesis by (simp add: same_docs_def)
qed

lemma docs_distinct: "keys_ok K t \<Longrightarrow> distinct (docs t)"
proof -
  assume k: "keys_ok K t"
  have "sorted_items (extend_order K (bt_less t)) (elems t)"
    using keys_okD(1) [OF k] by (auto simp: tree_ok_def elems_def sorted_items_def split: option.splits)
  then have sorted: "sorted_wrt (extend_order K (bt_less t)) (docs t)" by (simp add: sorted_items_def docs_def sorted_wrt_map)
  have "sorted_wrt P xs \<Longrightarrow> (\<And>x. \<not> P x x) \<Longrightarrow> distinct xs" for P and xs :: "DocumentSnapshot list"
    by (induction xs) auto
  from this [OF sorted ext.irrefl] show ?thesis .
qed

lemma same_docs_length:
  assumes "same_docs K t m"
  shows "BTree_Len t = int (length m)"
proof -
  have k: "keys_ok K t" "distinct (map fst m)" "\<forall>p\<in>set m. fst p = ds_path (snd p)" "set (docs t) = snd ` set m"
    using assms by (auto simp: same_docs_def)
  have "inj_on snd (set m)" using k(3) by (metis inj_onI prod.collapse)
  then have "distinct (map snd m)" using k(2) by (simp add: distinct_map)
  then have "length m = card (snd ` set m)" by (metis distinct_card length_map list.set_map)
  moreover have "length (docs t) = card (set (docs t))" by (metis distinct_card docs_distinct [OF k(1)])
  ultimately show ?thesis using k(4) tree_ok_Len [of t] k(1) by (simp add: docs_def keys_ok_def)
qed

lemma docs_split:
  assumes "same_docs K t m" "d \<in> set (docs t)"
  obtains l r where "elems t = l @ (d, ()) # r" "d \<notin> fst ` set (l @ r)"
proof -
  obtain l r where lr: "elems t = l @ (d, ()) # r" using assms(2) by (auto simp: docs_def in_set_conv_decomp)
  have "distinct (docs t)" using docs_distinct assms(1) by (auto simp: same_docs_def)
  with lr that show thesis by (auto simp: docs_def)
qed

lemma absent_name:
  assumes "same_docs K t m" "d \<in> K" "\<forall>x\<in>set (docs t). ds_path x \<noteq> ds_path d"
  shows "spec_find (bt_less t) d (elems t) = None"
proof -
  have "\<not> eqv (bt_less t) d (fst x)" if "x \<in> set (elems t)" for x
  proof
    assume e: "eqv (bt_less t) d (fst x)"
    have "fst x \<in> K" using assms(1) that by (auto simp: same_docs_def keys_ok_def list_all_iff)
    with e assms(1,2) have "ds_path d = ds_path (fst x)" unfolding same_docs_def good_docs_def by blast
    with assms(3) that show False by (auto simp: docs_def)
  qed
  then show ?thesis unfolding spec_find_def find_None_iff by blast
qed

section \<open>One change\<close>

text \<open>From one snapshot to the next: the invariant holds, and the changes added lead from the old sequence to the new
  one.\<close>

definition snap_ok :: "DocumentSnapshot set \<Rightarrow> snapshot \<Rightarrow> bool" where
  "snap_ok K sn \<longleftrightarrow> same_docs K (sn_tree sn) (sn_docMap sn)"

definition leads :: "DocumentSnapshot set \<Rightarrow> snapshot \<Rightarrow> snapshot \<Rightarrow> bool" where
  "leads K sn sn' \<longleftrightarrow>
     snap_ok K sn' \<and> bt_less (sn_tree sn') = bt_less (sn_tree sn)
   \<and> (\<exists>cs. sn_changes sn' = sn_changes sn @ cs \<and> docs (sn_tree sn') = fold apply_change cs (docs (sn_tree sn)))"

lemma leads_trans: "leads K a b \<Longrightarrow> leads K b c \<Longrightarrow> leads K a c"
  by (auto simp: leads_def)

lemma leads_refl: "snap_ok K a \<Longrightarrow> leads K a a"
  by (simp add: leads_def)

lemma same_docs_delete:
  assumes "same_docs K t m" "elems t = l @ (d, ()) # r" "keys_ok K t'" "elems t' = l @ r" "bt_less t' = bt_less t"
  shows "same_docs K t' (AList.delete (ds_path d) m)"
proof -
  have "distinct (docs t)" using docs_distinct assms(1) by (auto simp: same_docs_def)
  then have set: "set (docs t') = set (docs t) - {d}" using assms(2,4) by (auto simp: docs_def)
  have m: "\<forall>p\<in>set m. fst p = ds_path (snd p)" "set (docs t) = snd ` set m" using assms(1) by (simp_all add: same_docs_def)
  have iff: "ds_path d \<noteq> fst p \<longleftrightarrow> snd p \<noteq> d" if "p \<in> set m" for p
  proof -
    have "d \<in> set (docs t)" "snd p \<in> set (docs t)" using assms(2) m(2) that by (auto simp: docs_def)
    with same_docs_lookup [OF assms(1), of "ds_path d"] m(1) that show ?thesis by (metis option.inject)
  qed
  have "set (AList.delete (ds_path d) m) = {p \<in> set m. ds_path d \<noteq> fst p}" by (auto simp: AList.delete_eq)
  also have "\<dots> = {p \<in> set m. snd p \<noteq> d}" by (rule Collect_cong) (use iff in blast)
  finally have "snd ` set (AList.delete (ds_path d) m) = snd ` set m - {d}" by auto
  with m(2) have "set (docs t') = snd ` set (AList.delete (ds_path d) m)" using set by simp
  moreover have "distinct (map fst (AList.delete (ds_path d) m))" using assms(1) by (simp add: same_docs_def distinct_delete)
  moreover have "\<forall>p\<in>set (AList.delete (ds_path d) m). fst p = ds_path (snd p)" using m(1) by (simp add: AList.delete_eq)
  ultimately show ?thesis using assms(1,3,5) by (simp add: same_docs_def)
qed

lemma delete_step_ok:
  assumes "snap_ok K sn" "d \<in> set (docs (sn_tree sn))"
  obtains sn' where "delete_step d sn = Some sn'" "leads K sn sn'" "sn_docMap sn' = AList.delete (ds_path d) (sn_docMap sn)"
    "sn_cloned sn' = sn_cloned sn"
proof -
  have s: "same_docs K (sn_tree sn) (sn_docMap sn)" using assms(1) by (simp add: snap_ok_def)
  obtain l r where lr: "elems (sn_tree sn) = l @ (d, ()) # r" "d \<notin> fst ` set (l @ r)" by (rule docs_split [OF s assms(2)])
  have k: "keys_ok K (sn_tree sn)" using s by (simp add: same_docs_def)
  note t = btree.split_at [OF k lr(1)]
  from t(2) obtain t' where t': "BTree_Delete d (sn_tree sn) = Some (t', Some (), True)" "keys_ok K t'" "elems t' = l @ r"
    "bt_less t' = bt_less (sn_tree sn)" by auto
  let ?c = "\<lparr>dc_Kind = DocumentRemoved, dc_Doc = d, dc_OldIndex = int (length l), dc_NewIndex = -1\<rparr>"
  let ?sn = "sn\<lparr>sn_tree := t', sn_docMap := AList.delete (ds_path d) (sn_docMap sn), sn_changes := sn_changes sn @ [?c]\<rparr>"
  have "delete_step d sn = Some ?sn" using t(1) t'(1) by (simp add: delete_step_def)
  moreover have "docs t' = apply_change ?c (docs (sn_tree sn))" using lr(1) t'(3) by (simp add: docs_def apply_change_def)
  moreover have "snap_ok K ?sn" using same_docs_delete [OF s lr(1) t'(2-4)] by (simp add: snap_ok_def)
  ultimately show thesis using that [of ?sn] t'(4) by (simp add: leads_def)
qed

lemma same_docs_add:
  assumes "same_docs K t m" "elems t = l @ r" "keys_ok K t'" "elems t' = l @ (d, ()) # r" "bt_less t' = bt_less t"
    and "map_of m (ds_path d) = None"
  shows "same_docs K t' (AList.update (ds_path d) d m)"
proof -
  have m: "\<forall>p\<in>set m. fst p = ds_path (snd p)" "set (docs t) = snd ` set m" "distinct (map fst m)"
    using assms(1) by (simp_all add: same_docs_def)
  have new: "ds_path d \<notin> fst ` set m" using assms(6) by (simp add: map_of_eq_None_iff)
  then have "AList.update (ds_path d) d m = m @ [(ds_path d, d)]" by (induction m) auto
  moreover have "set (docs t') = insert d (set (docs t))" using assms(2,4) by (auto simp: docs_def)
  ultimately show ?thesis using assms(1,3,5) m new by (auto simp: same_docs_def)
qed

text \<open>A document under a new name goes into its place.\<close>

lemma set_new:
  assumes "same_docs K t m" "d \<in> K" "map_of m (ds_path d) = None"
  obtains t' l r where "BTree_Set d () t = Some (t', None, False)" "GetWithIndex d t' = Some (Some (), int (length l))"
    "elems t = l @ r" "elems t' = l @ (d, ()) # r" "same_docs K t' (AList.update (ds_path d) d m)" "bt_less t' = bt_less t"
proof -
  have "ds_path x \<noteq> ds_path d" if "x \<in> set (docs t)" for x
    using same_docs_lookup [OF assms(1), of "ds_path d" x] assms(3) that by auto
  then have n: "spec_find (bt_less t) d (elems t) = None" using absent_name [OF assms(1,2)] by blast
  have k: "keys_ok K t" using assms(1) by (simp add: same_docs_def)
  obtain t' l r where t: "BTree_Set d () t = Some (t', None, False)" "keys_ok K t'" "elems t = l @ r" "elems t' = l @ (d, ()) # r"
    "bt_less t' = bt_less t" using btree.set_absent [OF k assms(2) n, of "()"] by blast
  from btree.split_at(1) [OF t(2,4)] have "GetWithIndex d t' = Some (Some (), int (length l))" by simp
  with that t same_docs_add [OF assms(1) t(3,2,4,5) assms(3)] show thesis by blast
qed

lemma add_step_ok:
  assumes "snap_ok K sn" "d \<in> K" "map_of (sn_docMap sn) (ds_path d) = None"
  obtains sn' where "add_step rt d sn = Some sn'" "leads K sn sn'"
    "sn_docMap sn' = AList.update (ds_path d) (d\<lparr>ds_readTime := rt\<rparr>) (sn_docMap sn)" "sn_cloned sn' = sn_cloned sn"
proof -
  let ?d = "d\<lparr>ds_readTime := rt\<rparr>"
  have s: "same_docs K (sn_tree sn) (sn_docMap sn)" using assms(1) by (simp add: snap_ok_def)
  have d: "?d \<in> K" "map_of (sn_docMap sn) (ds_path ?d) = None" using s assms(2,3) by (simp_all add: same_docs_def good_docs_def)
  obtain t' l r where t: "BTree_Set ?d () (sn_tree sn) = Some (t', None, False)" "GetWithIndex ?d t' = Some (Some (), int (length l))"
    "elems (sn_tree sn) = l @ r" "elems t' = l @ (?d, ()) # r" "same_docs K t' (AList.update (ds_path ?d) ?d (sn_docMap sn))"
    "bt_less t' = bt_less (sn_tree sn)" by (rule set_new [OF s d])
  let ?c = "\<lparr>dc_Kind = DocumentAdded, dc_Doc = ?d, dc_OldIndex = -1, dc_NewIndex = int (length l)\<rparr>"
  let ?sn = "sn\<lparr>sn_tree := t', sn_docMap := AList.update (ds_path ?d) ?d (sn_docMap sn), sn_changes := sn_changes sn @ [?c]\<rparr>"
  have "add_step rt d sn = Some ?sn" using t(1,2) assms(3) by (simp add: add_step_def Let_def)
  moreover have "docs t' = apply_change ?c (docs (sn_tree sn))" using t(3,4) by (simp add: docs_def apply_change_def)
  ultimately show thesis using that [of ?sn] t(5,6) by (simp add: leads_def snap_ok_def)
qed

lemma apply_modified:
  "a @ c = b @ e \<Longrightarrow> dc_OldIndex ch = int (length a) \<Longrightarrow> dc_NewIndex ch = int (length b) \<Longrightarrow>
   apply_change ch (a @ x # c) = b @ dc_Doc ch # e"
  by (simp add: apply_change_def)

lemma update_step_skip:
  "map_of (sn_docMap sn) (ds_path d) = Some old \<Longrightarrow> ds_updateTime d = ds_updateTime old \<Longrightarrow> update_step c1 c2 rt d sn = Some sn"
  by (simp add: update_step_def)

lemma update_step_ok:
  assumes "snap_ok K sn" "d \<in> K" "map_of (sn_docMap sn) (ds_path d) = Some old" "ds_updateTime d \<noteq> ds_updateTime old"
  obtains sn' where "update_step c1 c2 rt d sn = Some sn'" "leads K sn sn'" "sn_cloned sn'"
    "map_of (sn_docMap sn') = (map_of (sn_docMap sn))(ds_path d \<mapsto> d\<lparr>ds_readTime := rt\<rparr>)"
proof -
  let ?d = "d\<lparr>ds_readTime := rt\<rparr>"
  let ?t0 = "if sn_cloned sn then sn_tree sn else snd (Clone c1 c2 (sn_tree sn))"
  let ?m1 = "AList.delete (ds_path old) (sn_docMap sn)"
  have s0: "same_docs K (sn_tree sn) (sn_docMap sn)" using assms(1) by (simp add: snap_ok_def)
  then have s: "same_docs K ?t0 (sn_docMap sn)" and d0: "docs ?t0 = docs (sn_tree sn)" "bt_less ?t0 = bt_less (sn_tree sn)"
    by (simp_all add: same_docs_def docs_def Clone_keys)
  have old: "old \<in> set (docs ?t0)" "ds_path old = ds_path d" using same_docs_lookup [OF s] assms(3) by auto
  obtain l r where lr: "elems ?t0 = l @ (old, ()) # r" "old \<notin> fst ` set (l @ r)" by (rule docs_split [OF s old(1)])
  have k: "keys_ok K ?t0" using s by (simp add: same_docs_def)
  note t = btree.split_at [OF k lr(1)]
  from t(2) obtain t1 where t1: "BTree_Delete old ?t0 = Some (t1, Some (), True)" "keys_ok K t1" "elems t1 = l @ r" "bt_less t1 = bt_less ?t0"
    by auto
  have s1: "same_docs K t1 ?m1" by (rule same_docs_delete [OF s lr(1) t1(2-4)])
  have d: "?d \<in> K" "map_of ?m1 (ds_path ?d) = None" using s assms(2) old(2) by (simp_all add: same_docs_def good_docs_def delete_conv)
  obtain t2 l' r' where t2: "BTree_Set ?d () t1 = Some (t2, None, False)" "GetWithIndex ?d t2 = Some (Some (), int (length l'))"
    "elems t1 = l' @ r'" "elems t2 = l' @ (?d, ()) # r'" "same_docs K t2 (AList.update (ds_path ?d) ?d ?m1)" "bt_less t2 = bt_less t1"
    by (rule set_new [OF s1 d])
  let ?c = "\<lparr>dc_Kind = DocumentModified, dc_Doc = ?d, dc_OldIndex = int (length l), dc_NewIndex = int (length l')\<rparr>"
  let ?sn = "\<lparr>sn_tree = t2, sn_cloned = True, sn_docMap = AList.update (ds_path d) ?d (sn_docMap sn), sn_changes = sn_changes sn @ [?c]\<rparr>"
  have eq: "update_step c1 c2 rt d sn = Some ?sn"
    using t(1) t1(1) t2(1,2) assms(3,4) by (simp add: update_step_def Let_def)
  have s2: "same_docs K t2 (AList.update (ds_path d) ?d (sn_docMap sn))"
    by (rule same_docs_cong [OF t2(5)]) (use s old(2) in \<open>auto simp: update_conv' delete_conv' same_docs_def distinct_update fun_eq_iff\<close>)
  have ds: "docs (sn_tree sn) = map fst l @ old # map fst r" using d0(1) lr(1) by (simp add: docs_def)
  have mid: "map fst l @ map fst r = map fst l' @ map fst r'" using t1(3) t2(3) by (metis map_append)
  have "docs t2 = apply_change ?c (docs (sn_tree sn))" unfolding ds by (subst apply_modified [OF mid]) (simp_all add: docs_def t2(4))
  then have "leads K sn ?sn" using s2 t2(6) t1(4) d0(2) by (simp add: leads_def snap_ok_def)
  with that eq show thesis by (simp add: update_conv')
qed

section \<open>The loops\<close>

lemma delete_loop_ok:
  assumes "snap_ok K sn" "set ds \<subseteq> set (docs (sn_tree sn))" "distinct ds"
  obtains sn' where "each delete_step ds sn = Some sn'" "leads K sn sn'" "sn_cloned sn' = sn_cloned sn"
    "map_of (sn_docMap sn') = (\<lambda>n. if n \<in> ds_path ` set ds then None else map_of (sn_docMap sn) n)"
  using assms
proof (induction ds arbitrary: sn thesis)
  case Nil
  show ?case by (rule Nil.prems(1) [of sn]) (use Nil.prems(2) in \<open>simp_all add: leads_refl\<close>)
next
  case (Cons d ds)
  have d: "d \<in> set (docs (sn_tree sn))" using Cons.prems(3) by simp
  obtain sn1 where s1: "delete_step d sn = Some sn1" "leads K sn sn1" "sn_docMap sn1 = AList.delete (ds_path d) (sn_docMap sn)"
    "sn_cloned sn1 = sn_cloned sn" by (rule delete_step_ok [OF Cons.prems(2) d])
  have ok: "snap_ok K sn1" using s1(2) by (simp add: leads_def)
  have sd: "same_docs K (sn_tree sn) (sn_docMap sn)" "same_docs K (sn_tree sn1) (sn_docMap sn1)"
    using Cons.prems(2) ok by (simp_all add: snap_ok_def)
  have "x \<in> set (docs (sn_tree sn1))" if "x \<in> set ds" for x
  proof -
    have x: "x \<in> set (docs (sn_tree sn))" "x \<noteq> d" using that Cons.prems(3,4) by auto
    then have "map_of (sn_docMap sn) (ds_path x) = Some x" using same_docs_lookup [OF sd(1)] by blast
    moreover have "ds_path x \<noteq> ds_path d" using x d same_docs_lookup [OF sd(1), of "ds_path d"] by (metis option.inject)
    ultimately have "map_of (sn_docMap sn1) (ds_path x) = Some x" by (simp add: s1(3) delete_conv')
    then show ?thesis using same_docs_lookup [OF sd(2)] by blast
  qed
  then have sub: "set ds \<subseteq> set (docs (sn_tree sn1))" by blast
  have dist: "distinct ds" using Cons.prems(4) by simp
  obtain sn2 where s2: "each delete_step ds sn1 = Some sn2" "leads K sn1 sn2" "sn_cloned sn2 = sn_cloned sn1"
    "map_of (sn_docMap sn2) = (\<lambda>n. if n \<in> ds_path ` set ds then None else map_of (sn_docMap sn1) n)"
    by (rule Cons.IH [OF _ ok sub dist])
  show ?case
    by (rule Cons.prems(1) [of sn2])
       (use s1 s2 leads_trans [OF s1(2) s2(2)] in \<open>auto simp: delete_conv' fun_eq_iff\<close>)
qed

lemma add_loop_ok:
  assumes "snap_ok K sn" "set ds \<subseteq> K" "distinct (map ds_path ds)" "\<forall>d\<in>set ds. map_of (sn_docMap sn) (ds_path d) = None"
  obtains sn' where "each (add_step rt) ds sn = Some sn'" "leads K sn sn'" "sn_cloned sn' = sn_cloned sn"
    "\<forall>d\<in>set ds. map_of (sn_docMap sn') (ds_path d) = Some (d\<lparr>ds_readTime := rt\<rparr>)"
    "\<forall>n. n \<notin> ds_path ` set ds \<longrightarrow> map_of (sn_docMap sn') n = map_of (sn_docMap sn) n"
  using assms
proof (induction ds arbitrary: sn thesis)
  case Nil
  show ?case by (rule Nil.prems(1) [of sn]) (use Nil.prems(2) in \<open>simp_all add: leads_refl\<close>)
next
  case (Cons d ds)
  have d: "d \<in> K" "map_of (sn_docMap sn) (ds_path d) = None" using Cons.prems by simp_all
  obtain sn1 where s1: "add_step rt d sn = Some sn1" "leads K sn sn1"
    "sn_docMap sn1 = AList.update (ds_path d) (d\<lparr>ds_readTime := rt\<rparr>) (sn_docMap sn)" "sn_cloned sn1 = sn_cloned sn"
    by (rule add_step_ok [OF Cons.prems(2) d, of rt])
  have ok: "snap_ok K sn1" using s1(2) by (simp add: leads_def)
  have sub: "set ds \<subseteq> K" and dist: "distinct (map ds_path ds)" using Cons.prems(3,4) by simp_all
  have new: "ds_path d \<notin> ds_path ` set ds" using Cons.prems(4) by simp
  have none: "\<forall>x\<in>set ds. map_of (sn_docMap sn1) (ds_path x) = None"
  proof
    fix x assume x: "x \<in> set ds"
    with new have "ds_path x \<noteq> ds_path d" by (metis imageI)
    with x Cons.prems(5) show "map_of (sn_docMap sn1) (ds_path x) = None" by (simp add: s1(3) update_conv')
  qed
  obtain sn2 where s2: "each (add_step rt) ds sn1 = Some sn2" "leads K sn1 sn2" "sn_cloned sn2 = sn_cloned sn1"
    "\<forall>d\<in>set ds. map_of (sn_docMap sn2) (ds_path d) = Some (d\<lparr>ds_readTime := rt\<rparr>)"
    "\<forall>n. n \<notin> ds_path ` set ds \<longrightarrow> map_of (sn_docMap sn2) n = map_of (sn_docMap sn1) n"
    by (rule Cons.IH [OF _ ok sub dist none])
  from new s2(5) have "map_of (sn_docMap sn2) (ds_path d) = Some (d\<lparr>ds_readTime := rt\<rparr>)" by (simp add: s1(3) update_conv')
  with s2(4) have all: "\<forall>d\<in>set (d # ds). map_of (sn_docMap sn2) (ds_path d) = Some (d\<lparr>ds_readTime := rt\<rparr>)" by simp
  have rest: "\<forall>n. n \<notin> ds_path ` set (d # ds) \<longrightarrow> map_of (sn_docMap sn2) n = map_of (sn_docMap sn) n"
    using s2(5) by (simp add: s1(3) update_conv')
  show ?case
    by (rule Cons.prems(1) [OF _ leads_trans [OF s1(2) s2(2)] _ all rest]) (use s1 s2 in simp_all)
qed

text \<open>What an update makes of the old version of a document.\<close>

definition merge_doc :: "int \<Rightarrow> DocumentSnapshot \<Rightarrow> DocumentSnapshot \<Rightarrow> DocumentSnapshot" where
  "merge_doc rt d old = (if ds_updateTime d = ds_updateTime old then old else d\<lparr>ds_readTime := rt\<rparr>)"

lemma update_loop_ok:
  assumes "snap_ok K sn" "set ds \<subseteq> K" "distinct (map ds_path ds)" "\<forall>d\<in>set ds. map_of (sn_docMap sn) (ds_path d) \<noteq> None"
  obtains sn' where "each (update_step c1 c2 rt) ds sn = Some sn'" "leads K sn sn'"
    "\<forall>d\<in>set ds. map_of (sn_docMap sn') (ds_path d) = map_option (merge_doc rt d) (map_of (sn_docMap sn) (ds_path d))"
    "\<forall>n. n \<notin> ds_path ` set ds \<longrightarrow> map_of (sn_docMap sn') n = map_of (sn_docMap sn) n"
    "sn_cloned sn' \<longleftrightarrow> sn_cloned sn \<or> (\<exists>d\<in>set ds. \<exists>old. map_of (sn_docMap sn) (ds_path d) = Some old \<and> ds_updateTime d \<noteq> ds_updateTime old)"
    "\<not> sn_cloned sn' \<longrightarrow> sn' = sn"
  using assms
proof (induction ds arbitrary: sn thesis)
  case Nil
  show ?case by (rule Nil.prems(1) [of sn]) (use Nil.prems(2) in \<open>simp_all add: leads_refl\<close>)
next
  case (Cons d ds)
  obtain old where old: "map_of (sn_docMap sn) (ds_path d) = Some old" and dK: "d \<in> K" using Cons.prems(3,5) by auto
  obtain sn1 where s1: "update_step c1 c2 rt d sn = Some sn1" "leads K sn sn1"
    "map_of (sn_docMap sn1) = (map_of (sn_docMap sn))(ds_path d \<mapsto> merge_doc rt d old)"
    "sn_cloned sn1 \<longleftrightarrow> sn_cloned sn \<or> ds_updateTime d \<noteq> ds_updateTime old" "\<not> sn_cloned sn1 \<longrightarrow> sn1 = sn"
  proof (cases "ds_updateTime d = ds_updateTime old")
    case True
    with that [of sn] update_step_skip [OF old True] Cons.prems(2) old show thesis
      by (simp add: leads_refl merge_doc_def map_upd_triv)
  next
    case False
    obtain sn1 where "update_step c1 c2 rt d sn = Some sn1" "leads K sn sn1" "sn_cloned sn1"
      "map_of (sn_docMap sn1) = (map_of (sn_docMap sn))(ds_path d \<mapsto> d\<lparr>ds_readTime := rt\<rparr>)"
      by (rule update_step_ok [OF Cons.prems(2) dK old False, of c1 c2 rt])
    with that [of sn1] False show thesis by (simp add: merge_doc_def)
  qed
  have ok: "snap_ok K sn1" using s1(2) by (simp add: leads_def)
  have sub: "set ds \<subseteq> K" and dist: "distinct (map ds_path ds)" and new: "ds_path d \<notin> ds_path ` set ds"
    using Cons.prems(3,4) by auto
  have same: "map_of (sn_docMap sn1) (ds_path x) = map_of (sn_docMap sn) (ds_path x)" if "x \<in> set ds" for x
  proof -
    have "ds_path x \<noteq> ds_path d" using new that by (metis imageI)
    then show ?thesis by (simp add: s1(3))
  qed
  have present: "\<forall>d\<in>set ds. map_of (sn_docMap sn1) (ds_path d) \<noteq> None" using Cons.prems(5) same by simp
  obtain sn2 where s2: "each (update_step c1 c2 rt) ds sn1 = Some sn2" "leads K sn1 sn2"
    "\<forall>d\<in>set ds. map_of (sn_docMap sn2) (ds_path d) = map_option (merge_doc rt d) (map_of (sn_docMap sn1) (ds_path d))"
    "\<forall>n. n \<notin> ds_path ` set ds \<longrightarrow> map_of (sn_docMap sn2) n = map_of (sn_docMap sn1) n"
    "sn_cloned sn2 \<longleftrightarrow> sn_cloned sn1 \<or> (\<exists>d\<in>set ds. \<exists>old. map_of (sn_docMap sn1) (ds_path d) = Some old \<and> ds_updateTime d \<noteq> ds_updateTime old)"
    "\<not> sn_cloned sn2 \<longrightarrow> sn2 = sn1"
    by (rule Cons.IH [OF _ ok sub dist present])
  have all: "\<forall>x\<in>set (d # ds). map_of (sn_docMap sn2) (ds_path x) = map_option (merge_doc rt x) (map_of (sn_docMap sn) (ds_path x))"
    using s2(3,4) same new old by (simp add: s1(3))
  have rest: "\<forall>n. n \<notin> ds_path ` set (d # ds) \<longrightarrow> map_of (sn_docMap sn2) n = map_of (sn_docMap sn) n"
    using s2(4) by (simp add: s1(3))
  have cl: "sn_cloned sn2 \<longleftrightarrow> sn_cloned sn
      \<or> (\<exists>x\<in>set (d # ds). \<exists>old. map_of (sn_docMap sn) (ds_path x) = Some old \<and> ds_updateTime x \<noteq> ds_updateTime old)"
  proof -
    have "(\<exists>x\<in>set ds. \<exists>old. map_of (sn_docMap sn1) (ds_path x) = Some old \<and> ds_updateTime x \<noteq> ds_updateTime old)
      = (\<exists>x\<in>set ds. \<exists>old. map_of (sn_docMap sn) (ds_path x) = Some old \<and> ds_updateTime x \<noteq> ds_updateTime old)"
      by (rule bex_cong) (simp_all add: same)
    with s2(5) s1(4) old show ?thesis by simp
  qed
  have e: "each (update_step c1 c2 rt) (d # ds) sn = Some sn2" using s1(1) s2(1) by simp
  have final: "\<not> sn_cloned sn2 \<longrightarrow> sn2 = sn" using s1(5) s2(5,6) by blast
  show ?case by (rule Cons.prems(1) [OF e leads_trans [OF s1(2) s2(2)] all rest cl final])
qed

section \<open>The snapshot\<close>

lemma set_insert_less [simp]: "set (insert_less lt x ys) = insert x (set ys)"
  by (induction ys) auto

lemma set_sort_less [simp]: "set (sort_less lt xs) = set xs"
  by (induction xs) (simp_all add: sort_less_def)

lemma distinct_insert_less: "distinct (map f (insert_less lt x ys)) = distinct (map f (x # ys))"
  by (induction ys) auto

lemma distinct_sort_less [simp]: "distinct (map f (sort_less lt xs)) = distinct (map f xs)"
proof (induction xs)
  case (Cons x xs)
  have "sort_less lt (x # xs) = insert_less lt x (sort_less lt xs)" by (simp add: sort_less_def)
  with Cons show ?case by (simp add: distinct_insert_less)
qed (simp add: sort_less_def)

definition changes_ok :: "DocumentSnapshot set \<Rightarrow> changeMap \<Rightarrow> bool" where
  "changes_ok K cm \<longleftrightarrow>
     distinct (map fst cm) \<and> (\<forall>p\<in>set cm. case snd p of None \<Rightarrow> True | Some d \<Rightarrow> ds_path d = fst p \<and> d \<in> K)"

text \<open>The documents under each name once the changes are merged in.\<close>

definition merged :: "int \<Rightarrow> docMap \<Rightarrow> changeMap \<Rightarrow> string \<Rightarrow> DocumentSnapshot option" where
  "merged rt dm cm name =
     (case map_of cm name of
        None \<Rightarrow> map_of dm name
      | Some None \<Rightarrow> None
      | Some (Some d) \<Rightarrow>
          (case map_of dm name of None \<Rightarrow> Some (d\<lparr>ds_readTime := rt\<rparr>) | Some old \<Rightarrow> Some (merge_doc rt d old)))"

lemma extract_ok:
  assumes "changes_ok K cm" "extractChanges dm cm = (updates, adds, deletes)"
  shows "\<forall>d. d \<in> set updates \<longleftrightarrow> map_of cm (ds_path d) = Some (Some d) \<and> map_of dm (ds_path d) \<noteq> None"
    and "\<forall>d. d \<in> set adds \<longleftrightarrow> map_of cm (ds_path d) = Some (Some d) \<and> map_of dm (ds_path d) = None"
    and "\<forall>n. n \<in> set deletes \<longleftrightarrow> map_of cm n = Some None \<and> map_of dm n \<noteq> None"
    and "distinct (map ds_path updates)" "distinct (map ds_path adds)" "distinct deletes" "set updates \<subseteq> K" "set adds \<subseteq> K"
proof -
  have "(\<forall>d. d \<in> set updates \<longleftrightarrow> map_of cm (ds_path d) = Some (Some d) \<and> map_of dm (ds_path d) \<noteq> None)
    \<and> (\<forall>d. d \<in> set adds \<longleftrightarrow> map_of cm (ds_path d) = Some (Some d) \<and> map_of dm (ds_path d) = None)
    \<and> (\<forall>n. n \<in> set deletes \<longleftrightarrow> map_of cm n = Some None \<and> map_of dm n \<noteq> None)
    \<and> distinct (map ds_path updates) \<and> distinct (map ds_path adds) \<and> distinct deletes \<and> set updates \<subseteq> K \<and> set adds \<subseteq> K"
    using assms
  proof (induction dm cm arbitrary: updates adds deletes rule: extractChanges.induct)
    case (1 dm)
    then show ?case by auto
  next
    case (2 dm name doc rest)
    obtain u a del where r: "extractChanges dm rest = (u, a, del)" by (cases "extractChanges dm rest") auto
    have ok: "changes_ok K rest" and new: "map_of rest name = None" and doc: "\<And>d. doc = Some d \<Longrightarrow> ds_path d = name \<and> d \<in> K"
      using 2(2) by (auto simp: changes_ok_def map_of_eq_None_iff split: option.splits)
    note IH = 2(1) [OF ok r]
    show ?case
    proof (cases doc)
      case None
      then show ?thesis using IH 2(3) r new by (auto split: if_splits)
    next
      case (Some d)
      with doc have d: "ds_path d = name" "d \<in> K" by simp_all
      have "name \<notin> ds_path ` set u" "name \<notin> ds_path ` set a" using IH new by auto
      with IH 2(3) r new Some d show ?thesis by (cases "map_of dm name") (auto split: if_splits)
    qed
  qed
  then show "\<forall>d. d \<in> set updates \<longleftrightarrow> map_of cm (ds_path d) = Some (Some d) \<and> map_of dm (ds_path d) \<noteq> None"
    "\<forall>d. d \<in> set adds \<longleftrightarrow> map_of cm (ds_path d) = Some (Some d) \<and> map_of dm (ds_path d) = None"
    "\<forall>n. n \<in> set deletes \<longleftrightarrow> map_of cm n = Some None \<and> map_of dm n \<noteq> None"
    "distinct (map ds_path updates)" "distinct (map ds_path adds)" "distinct deletes" "set updates \<subseteq> K" "set adds \<subseteq> K"
    by simp_all
qed

lemma lookup_docs:
  assumes "same_docs K t m" "\<forall>n\<in>set ns. map_of m n \<noteq> None" "distinct ns"
  shows "set (map (\<lambda>n. the (map_of m n)) ns) \<subseteq> set (docs t)" "ds_path ` set (map (\<lambda>n. the (map_of m n)) ns) = set ns"
    "distinct (map (\<lambda>n. the (map_of m n)) ns)"
proof -
  have p: "the (map_of m n) \<in> set (docs t)" "ds_path (the (map_of m n)) = n" if "n \<in> set ns" for n
    using assms(2) that same_docs_lookup [OF assms(1), of n "the (map_of m n)"] by auto
  then show "set (map (\<lambda>n. the (map_of m n)) ns) \<subseteq> set (docs t)" "ds_path ` set (map (\<lambda>n. the (map_of m n)) ns) = set ns"
    by (auto simp: image_iff)
  have "inj_on (\<lambda>n. the (map_of m n)) (set ns)" by (rule inj_on_inverseI [of _ ds_path]) (rule p(2))
  with assms(3) show "distinct (map (\<lambda>n. the (map_of m n)) ns)" by (simp add: distinct_map)
qed

lemma merged_phases:
  assumes "changes_ok K cm" "extractChanges m cm = (updates, adds, deletes)"
    and "\<And>n. f1 n = (if n \<in> set deletes then None else map_of m n)"
    and "\<forall>d\<in>set adds. f2 (ds_path d) = Some (d\<lparr>ds_readTime := rt\<rparr>)" "\<forall>n. n \<notin> ds_path ` set adds \<longrightarrow> f2 n = f1 n"
    and "\<forall>d\<in>set updates. f3 (ds_path d) = map_option (merge_doc rt d) (f2 (ds_path d))"
    and "\<forall>n. n \<notin> ds_path ` set updates \<longrightarrow> f3 n = f2 n"
  shows "f3 n = merged rt m cm n"
proof -
  note e = extract_ok [OF assms(1,2)]
  have u: "n \<in> ds_path ` set updates \<Longrightarrow> (\<exists>d. map_of cm n = Some (Some d)) \<and> map_of m n \<noteq> None"
    and a: "n \<in> ds_path ` set adds \<Longrightarrow> (\<exists>d. map_of cm n = Some (Some d)) \<and> map_of m n = None"
    using e(1,2) by blast+
  have keep: "n \<notin> ds_path ` set updates \<Longrightarrow> n \<notin> ds_path ` set adds \<Longrightarrow> f3 n = f1 n" using assms(5,7) by simp
  show ?thesis
  proof (cases "map_of cm n")
    case None
    then have "f3 n = f1 n" using keep u a by auto
    then show ?thesis using assms(3) [of n] e(3) None by (simp add: merged_def)
  next
    case (Some c)
    show ?thesis
    proof (cases c)
      case None
      then have "f3 n = f1 n" using keep u a Some by auto
      then show ?thesis using assms(3) [of n] e(3) None Some by (simp add: merged_def)
    next
      case d: (Some d)
      have "(n, Some d) \<in> set cm" using Some d by (simp add: map_of_SomeD)
      then have p: "ds_path d = n" using assms(1) by (force simp: changes_ok_def)
      have nd: "n \<notin> set deletes" using e(3) Some d by simp
      show ?thesis
      proof (cases "map_of m n")
        case None
        then have "d \<in> set adds" using e(2) Some d p by simp
        then have "f2 n = Some (d\<lparr>ds_readTime := rt\<rparr>)" using assms(4) p by auto
        moreover have "f3 n = f2 n" using assms(7) u None by blast
        ultimately show ?thesis by (simp add: merged_def Some d None)
      next
        case old: (Some old)
        then have "d \<in> set updates" using e(1) Some d p by simp
        moreover have "n \<notin> ds_path ` set adds" using a old by auto
        then have "f2 n = Some old" using assms(3) [of n] assms(5) nd old by simp
        ultimately have "f3 n = Some (merge_doc rt d old)" using assms(6) p by auto
        then show ?thesis by (simp add: merged_def Some d old)
      qed
    qed
  qed
qed

lemma computeSnapshot_ok:
  assumes "same_docs K t m" "changes_ok K cm"
  obtains sn where "computeSnapshot c1 c2 t m cm rt = Some sn" "same_docs K (sn_tree sn) (sn_docMap sn)"
    "bt_less (sn_tree sn) = bt_less t" "map_of (sn_docMap sn) = merged rt m cm"
    "docs (sn_tree sn) = fold apply_change (sn_changes sn) (docs t)"
    "\<not> sn_cloned sn \<longrightarrow> sn_tree sn = t \<and> sn_changes sn = []"
proof -
  obtain updates adds deletes where ex: "extractChanges m cm = (updates, adds, deletes)" by (cases "extractChanges m cm") auto
  note e = extract_ok [OF assms(2) ex]
  let ?lt = "bt_less t"
  define cloned where "cloned = (adds \<noteq> [] \<or> deletes \<noteq> [])"
  define sn0 where "sn0 = \<lparr>sn_tree = (if cloned then snd (Clone c1 c2 t) else t), sn_cloned = cloned, sn_docMap = m, sn_changes = []\<rparr>"
  let ?dl = "map (\<lambda>d. the (map_of m d)) deletes"
  have ok0: "snap_ok K sn0" and d0: "docs (sn_tree sn0) = docs t" "bt_less (sn_tree sn0) = ?lt"
    using assms(1) by (simp_all add: sn0_def snap_ok_def same_docs_def docs_def Clone_keys)
  have present: "\<forall>n\<in>set deletes. map_of m n \<noteq> None" using e(3) by blast
  note l = lookup_docs [OF assms(1) present e(6)]
  have sub: "set (sort_less ?lt ?dl) \<subseteq> set (docs (sn_tree sn0))" and dist: "distinct (sort_less ?lt ?dl)"
    using l(1,3) d0 distinct_sort_less [of id ?lt ?dl] by auto
  obtain sn1 where s1: "each delete_step (sort_less ?lt ?dl) sn0 = Some sn1" "leads K sn0 sn1" "sn_cloned sn1 = sn_cloned sn0"
    "map_of (sn_docMap sn1) = (\<lambda>n. if n \<in> ds_path ` set (sort_less ?lt ?dl) then None else map_of (sn_docMap sn0) n)"
    by (rule delete_loop_ok [OF ok0 sub dist])
  have m1: "map_of (sn_docMap sn1) n = (if n \<in> set deletes then None else map_of m n)" for n
    using s1(4) l(2) by (simp add: sn0_def)
  have ok1: "snap_ok K sn1" using s1(2) by (simp add: leads_def)
  have aK: "set (sort_less ?lt adds) \<subseteq> K" and ad: "distinct (map ds_path (sort_less ?lt adds))"
    and an: "\<forall>d\<in>set (sort_less ?lt adds). map_of (sn_docMap sn1) (ds_path d) = None"
    using e(2,5,8) m1 by auto
  obtain sn2 where s2: "each (add_step rt) (sort_less ?lt adds) sn1 = Some sn2" "leads K sn1 sn2" "sn_cloned sn2 = sn_cloned sn1"
    "\<forall>d\<in>set (sort_less ?lt adds). map_of (sn_docMap sn2) (ds_path d) = Some (d\<lparr>ds_readTime := rt\<rparr>)"
    "\<forall>n. n \<notin> ds_path ` set (sort_less ?lt adds) \<longrightarrow> map_of (sn_docMap sn2) n = map_of (sn_docMap sn1) n"
    by (rule add_loop_ok [OF ok1 aK ad an])
  have ok2: "snap_ok K sn2" using s2(2) by (simp add: leads_def)
  have m2u: "map_of (sn_docMap sn2) (ds_path d) = map_of m (ds_path d)" if "d \<in> set updates" for d
  proof -
    have c: "map_of cm (ds_path d) = Some (Some d)" "map_of m (ds_path d) \<noteq> None" using e(1) that by auto
    have "ds_path d \<notin> ds_path ` set adds"
    proof
      assume "ds_path d \<in> ds_path ` set adds"
      then obtain x where "x \<in> set adds" "ds_path x = ds_path d" by auto
      with e(2) c(2) show False by metis
    qed
    moreover have "ds_path d \<notin> set deletes" using e(3) c(1) by auto
    ultimately show ?thesis using s2(5) m1 by simp
  qed
  have uK: "set (sort_less ?lt updates) \<subseteq> K" and ud: "distinct (map ds_path (sort_less ?lt updates))" using e(4,7) by simp_all
  have un: "\<forall>d\<in>set (sort_less ?lt updates). map_of (sn_docMap sn2) (ds_path d) \<noteq> None" using m2u e(1) by simp
  obtain sn3 where s3: "each (update_step c1 c2 rt) (sort_less ?lt updates) sn2 = Some sn3" "leads K sn2 sn3"
    "\<forall>d\<in>set (sort_less ?lt updates). map_of (sn_docMap sn3) (ds_path d) = map_option (merge_doc rt d) (map_of (sn_docMap sn2) (ds_path d))"
    "\<forall>n. n \<notin> ds_path ` set (sort_less ?lt updates) \<longrightarrow> map_of (sn_docMap sn3) n = map_of (sn_docMap sn2) n"
    "sn_cloned sn3 \<longleftrightarrow> sn_cloned sn2 \<or> (\<exists>d\<in>set (sort_less ?lt updates). \<exists>old. map_of (sn_docMap sn2) (ds_path d) = Some old \<and> ds_updateTime d \<noteq> ds_updateTime old)"
    "\<not> sn_cloned sn3 \<longrightarrow> sn3 = sn2"
    by (rule update_loop_ok [OF ok2 uK ud un])
  have lead: "leads K sn0 sn3" using leads_trans [OF leads_trans [OF s1(2) s2(2)] s3(2)] .
  then have fin: "same_docs K (sn_tree sn3) (sn_docMap sn3)" "bt_less (sn_tree sn3) = ?lt"
    "docs (sn_tree sn3) = fold apply_change (sn_changes sn3) (docs t)"
    using d0 by (auto simp: leads_def snap_ok_def sn0_def)
  have len: "BTree_Len t = int (length m)" "BTree_Len (sn_tree sn3) = int (length (sn_docMap sn3))"
    using same_docs_length [OF assms(1)] same_docs_length [OF fin(1)] by simp_all
  have comp: "computeSnapshot c1 c2 t m cm rt = Some sn3"
    using s1(1) s2(1) s3(1) len ex by (simp add: computeSnapshot_def Let_def sn0_def cloned_def)
  have "map_of (sn_docMap sn3) n = merged rt m cm n" for n
    using merged_phases [OF assms(2) ex m1, of "map_of (sn_docMap sn2)" rt "map_of (sn_docMap sn3)" n] s2(4,5) s3(3,4) by simp
  then have merged: "map_of (sn_docMap sn3) = merged rt m cm" by (rule ext)
  have "\<not> sn_cloned sn3 \<longrightarrow> sn_tree sn3 = t \<and> sn_changes sn3 = []"
  proof
    assume nc: "\<not> sn_cloned sn3"
    then have eq: "sn3 = sn2" by (rule s3(6) [rule_format])
    have nc0: "\<not> cloned" using nc s3(5) s2(3) s1(3) unfolding sn0_def by simp
    then have "sn1 = sn0" "sn2 = sn1" using s1(1) s2(1) by (simp_all add: cloned_def sort_less_def)
    with eq nc0 show "sn_tree sn3 = t \<and> sn_changes sn3 = []" by (simp add: sn0_def)
  qed
  from that [OF comp fin(1,2) merged fin(3) this] show thesis .
qed

section \<open>The documents of a query\<close>

lemma query_docs: "good_docs (orderable (compare_orders orders)) (watch_less (compareFunc orders))"
proof -
  let ?K = "orderable (compare_orders orders)" and ?lt = "watch_less (compareFunc orders)"
  have "ds_path a = ds_path b" if ab: "a \<in> ?K" "b \<in> ?K" "eqv ?lt a b" for a b
  proof (rule chain_same_name [of orders])
    let ?c = "chain_compare (compare_orders orders)"
    have "?lt a b \<longleftrightarrow> ?c a b < 0" "?lt b a \<longleftrightarrow> ?c b a < 0"
      using compare_loop_chain [OF subset_refl, of _ "compare_orders orders"] ab by (simp_all add: watch_less_def compareFunc_def)
    moreover have "?c b a = - ?c a b" using comparator_onD(1) [OF comparator_chain [OF subset_refl] ab(1,2)] .
    ultimately show "?c a b = 0" using ab(3) by (simp add: eqv_def)
  qed
  moreover have "a\<lparr>ds_readTime := r\<rparr> \<in> ?K" if "a \<in> ?K" for a r using that by (simp add: orderable_def)
  ultimately show ?thesis using query_order [of orders] by (simp add: good_docs_def)
qed

lemma empty_same_docs:
  assumes "New cow degree (watch_less (compareFunc orders)) = Some t"
  shows "same_docs (orderable (compare_orders orders)) t []"
proof -
  have "tree_ok t" "elems t = []" "bt_less t = watch_less (compareFunc orders)"
    using tree_ok_New [OF assms] assms by (auto simp: New_def split: if_splits)
  with query_order [of orders] query_docs [of orders] show ?thesis by (simp add: same_docs_def keys_ok_def docs_def)
qed

text \<open>C3: A snapshot is the old documents with the changes merged in.  If tree and map hold the same documents, \<^verbatim>\<open>computeSnapshot\<close>
  passes its assertions and returns a tree in the order of the query and a map that again hold the same documents: those
  that were deleted are gone, those that were added or updated are new (an update with the old update time is
  ignored), all others stay.  The list of changes, applied one after the other with its indices as a client does, leads from the old
  sequence of documents to the new one; without a change the tree is returned as it is.\<close>

theorem computeSnapshot_correct:
  assumes "same_docs K t m" "changes_ok K cm"
  shows "\<exists>sn. computeSnapshot c1 c2 t m cm rt = Some sn \<and> same_docs K (sn_tree sn) (sn_docMap sn)
    \<and> map_of (sn_docMap sn) = merged rt m cm
    \<and> docs (sn_tree sn) = fold apply_change (sn_changes sn) (docs t)
    \<and> (\<not> sn_cloned sn \<longrightarrow> sn_tree sn = t \<and> sn_changes sn = [])"
  by (rule computeSnapshot_ok [OF assms, of c1 c2 rt]) blast

theorem computeSnapshot_correct_witness:
  "\<exists>sn. computeSnapshot 1 2 \<lparr>bt_degree = 4, bt_less = watch_less (compareFunc []), bt_root = None, bt_cow = 0\<rparr> []
      [(''c/a'', Some \<lparr>ds_path = ''c/a'', ds_fields = [(''f'', NullValue)], ds_createTime = 1, ds_updateTime = 2, ds_readTime = 0\<rparr>), (''c/b'', None)] 9
      = Some sn
    \<and> map_of (sn_docMap sn) ''c/a''
      = Some \<lparr>ds_path = ''c/a'', ds_fields = [(''f'', NullValue)], ds_createTime = 1, ds_updateTime = 2, ds_readTime = 9\<rparr>
    \<and> map_of (sn_docMap sn) ''c/b'' = None
    \<and> docs (sn_tree sn) = fold apply_change (sn_changes sn) []"
proof -
  let ?t = "\<lparr>bt_degree = 4, bt_less = watch_less (compareFunc []), bt_root = None, bt_cow = 0\<rparr> :: docTree"
  let ?d = "\<lparr>ds_path = ''c/a'', ds_fields = [(''f'', NullValue)], ds_createTime = 1, ds_updateTime = 2, ds_readTime = 0\<rparr>"
  let ?cm = "[(''c/a'', Some ?d), (''c/b'', None)]"
  have "same_docs (orderable (compare_orders [])) ?t []" by (rule empty_same_docs [of 0 4]) (simp add: New_def)
  moreover have "changes_ok (orderable (compare_orders [])) ?cm" by (simp add: changes_ok_def orderable_def compare_orders_def)
  ultimately obtain sn where "computeSnapshot 1 2 ?t [] ?cm 9 = Some sn" "map_of (sn_docMap sn) = merged 9 [] ?cm"
    "docs (sn_tree sn) = fold apply_change (sn_changes sn) (docs ?t)"
    using computeSnapshot_correct [of "orderable (compare_orders [])" ?t "[]" ?cm 1 2 9] by blast
  then show ?thesis by (intro exI [of _ sn]) (simp add: merged_def docs_def elems_def)
qed

end
