(* ===== verification/Firestore_Listen.thy ===== *)
theory Firestore_Listen
  imports Firestore_Snapshot
begin

text \<open>
  The listen stream of \<^verbatim>\<open>firestore/watch.go\<close>: receiving with retries, the handling of messages, and \<^verbatim>\<open>nextSnapshot\<close>; with the
  document references of \<^verbatim>\<open>firestore/from_value.go\<close> and \<^verbatim>\<open>firestore/client.go\<close> that a message's name is turned into.
  Results of calls on the stream and of sleeping are a list of inputs.  Times of the protocol go through \<^verbatim>\<open>ptypes.Timestamp\<close>,
  an argument \<open>ts\<close> (\<open>None\<close> for an invalid one).  An error of a comparison, which the code keeps in \<^verbatim>\<open>s.err\<close> while the tree works
  on, is not part of the state: the documents of the theorems can be ordered.
\<close>

section \<open>Document references\<close>

text \<open>References are modelled by their \<^verbatim>\<open>Path\<close>.\<close>

definition newTopLevelCollRef :: "string \<Rightarrow> string \<Rightarrow> string" where
  "newTopLevelCollRef dbPath ident = dbPath @ ''/documents/'' @ ident"

definition newCollRefWithParent :: "string \<Rightarrow> string \<Rightarrow> string" where
  "newCollRefWithParent parentPath ident = parentPath @ ''/'' @ ident"

definition newDocRef :: "string \<Rightarrow> string \<Rightarrow> string" where
  "newDocRef parentPath ident = parentPath @ ''/'' @ ident"

text \<open>The loop of \<^verbatim>\<open>idsToRef\<close> from a collection; the second result is the document reference.\<close>

fun idsToRef_loop :: "string \<Rightarrow> string list \<Rightarrow> string option \<times> string option" where
  "idsToRef_loop coll [] = (Some coll, None)"
| "idsToRef_loop coll [d] = (None, Some (newDocRef coll d))"
| "idsToRef_loop coll (d # c # ids) = idsToRef_loop (newCollRefWithParent (newDocRef coll d) c) ids"

definition idsToRef :: "string list \<Rightarrow> string \<Rightarrow> string option \<times> string option" where
  "idsToRef ids dbPath =
     (case ids of
        [] \<Rightarrow> (None, None)
      | c # rest \<Rightarrow> if [] \<in> set ids then (None, None) else idsToRef_loop (newTopLevelCollRef dbPath c) rest)"

definition parseDocumentPath :: "string \<Rightarrow> watch_error + string \<times> string \<times> string list" where
  "parseDocumentPath path =
     (let parts = split_slash path
      in if length parts < 6 \<or> parts ! 0 \<noteq> ''projects'' \<or> parts ! 2 \<noteq> ''databases'' \<or> parts ! 4 \<noteq> ''documents''
         then Inl (malformedPath path)
         else let docp = drop 5 parts
              in if length docp mod 2 \<noteq> 0 then Inl (collectionPath path)
                 else Inr (parts ! 1, parts ! 3, docp))"

text \<open>\<open>Inr None\<close> is a nil reference without an error.\<close>

definition pathToDoc :: "string \<Rightarrow> watch_error + string option" where
  "pathToDoc docPath =
     (case parseDocumentPath docPath of
        Inl e \<Rightarrow> Inl e
      | Inr (projID, dbID, docIDs) \<Rightarrow>
          Inr (snd (idsToRef docIDs (''projects/'' @ projID @ ''/databases/'' @ dbID))))"

section \<open>Messages\<close>

type_synonym timestamp = "int \<times> int"

record document =
  doc_name :: string
  doc_fields :: fields
  doc_createTime :: timestamp
  doc_updateTime :: timestamp

datatype TargetChangeType = NO_CHANGE | ADD | REMOVE | CURRENT | RESET | unknownTargetChangeType

record TargetChange =
  tc_TargetChangeType :: TargetChangeType
  tc_TargetIds :: "int list"
  tc_Cause :: "grpc_code option"
  tc_ResumeToken :: "string option"
  tc_ReadTime :: "timestamp option"

datatype ListenResponse =
    ListenResponse_TargetChange TargetChange
  | ListenResponse_DocumentChange document "int list" "int list"
  | ListenResponse_DocumentDelete string
  | ListenResponse_DocumentRemove string
  | ListenResponse_Filter int
  | otherResponse

text \<open>\<^verbatim>\<open>newDocumentSnapshot\<close> for a document that exists, without a time of reading.\<close>

definition newDocumentSnapshot :: "(timestamp \<Rightarrow> int option) \<Rightarrow> string \<Rightarrow> document \<Rightarrow> watch_error + DocumentSnapshot" where
  "newDocumentSnapshot ts ref proto =
     (case ts (doc_createTime proto) of
        None \<Rightarrow> Inl badTimestamp
      | Some create \<Rightarrow>
          (case ts (doc_updateTime proto) of
             None \<Rightarrow> Inl badTimestamp
           | Some update \<Rightarrow>
               Inr \<lparr>ds_path = ref, ds_fields = doc_fields proto, ds_createTime = create, ds_updateTime = update, ds_readTime = 0\<rparr>))"

section \<open>Handling a message\<close>

text \<open>The loop of \<^verbatim>\<open>resetDocs\<close> over the documents of the tree.\<close>

partial_function (option) reset_loop :: "(DocumentSnapshot, unit) Iterator \<Rightarrow> changeMap \<Rightarrow> changeMap option" where
  "reset_loop it cm =
     Option.bind (it_Next it) (\<lambda>(it', ok).
       if ok then Option.bind (it_Item it') (\<lambda>m. reset_loop it' (AList.update (ds_path (fst m)) None cm))
       else Some cm)"

declare reset_loop.simps [code]

definition resetDocs :: "watchStream \<Rightarrow> watchStream option" where
  "resetDocs s =
     Option.bind (BeforeIndex 0 (ws_docTree s)) (\<lambda>it.
     Option.bind (reset_loop it []) (\<lambda>cm.
       Some (s\<lparr>ws_resumeToken := None, ws_current := False, ws_changeMap := cm\<rparr>)))"

text \<open>\<^verbatim>\<open>status.Error\<close> returns nil for the code \<^verbatim>\<open>OK\<close>.\<close>

definition status_Error :: "grpc_code \<Rightarrow> watch_error option" where
  "status_Error code = (if code = OK then None else Some (watchStatus code))"

definition handleTargetChange :: "(timestamp \<Rightarrow> int option) \<Rightarrow> TargetChange \<Rightarrow> watchStream \<Rightarrow> (watchStream \<times> bool) option" where
  "handleTargetChange ts tc s =
     (let continue = (\<lambda>s1. Some (if tc_ResumeToken tc \<noteq> None \<and> (tc_TargetIds tc = [] \<or> hasWatchTargetID (tc_TargetIds tc))
                                 then s1\<lparr>ws_backoff := 0\<rparr> else s1, False))
      in case tc_TargetChangeType tc of
           NO_CHANGE \<Rightarrow>
             (case tc_ReadTime tc of
                Some readTime \<Rightarrow>
                  if tc_TargetIds tc = [] \<and> ws_current s
                  then (case ts readTime of
                          None \<Rightarrow> Some (s\<lparr>ws_err := Some badTimestamp\<rparr>, True)
                        | Some rt \<Rightarrow> Some (s\<lparr>ws_readTime := rt, ws_resumeToken := tc_ResumeToken tc\<rparr>, True))
                  else continue s
              | None \<Rightarrow> continue s)
         | ADD \<Rightarrow>
             (case tc_TargetIds tc of
                [] \<Rightarrow> None
              | i # _ \<Rightarrow> if i \<noteq> watchTargetID then Some (s\<lparr>ws_err := Some unexpectedTargetID\<rparr>, True) else continue s)
         | REMOVE \<Rightarrow>
             Some (s\<lparr>ws_err := (case tc_Cause tc of Some code \<Rightarrow> status_Error code | None \<Rightarrow> status_Error Internal)\<rparr>, True)
         | CURRENT \<Rightarrow> continue (s\<lparr>ws_current := True\<rparr>)
         | RESET \<Rightarrow> Option.bind (resetDocs s) continue
         | unknownTargetChangeType \<Rightarrow> Some (s\<lparr>ws_err := Some unknownTargetChange\<rparr>, True))"

text \<open>\<^verbatim>\<open>pathToDoc\<close> returns a nil reference without an error for a path that names no document.  The model panics on such a message at once; the
  code stores the snapshot and panics when \<^verbatim>\<open>computeSnapshot\<close> looks at its reference, unless a later message replaces it before.\<close>

definition handleResponse :: "(timestamp \<Rightarrow> int option) \<Rightarrow> ListenResponse \<Rightarrow> watchStream \<Rightarrow> (watchStream \<times> bool) option" where
  "handleResponse ts res s =
     (case res of
        ListenResponse_TargetChange tc \<Rightarrow> handleTargetChange ts tc s
      | ListenResponse_DocumentChange doc targetIds removedTargetIds \<Rightarrow>
          if hasWatchTargetID targetIds
          then (case pathToDoc (doc_name doc) of
                  Inl e \<Rightarrow> Some (s\<lparr>ws_err := Some e\<rparr>, True)
                | Inr None \<Rightarrow> None
                | Inr (Some ref) \<Rightarrow>
                    (case newDocumentSnapshot ts ref doc of
                       Inl e \<Rightarrow> Some (s\<lparr>ws_changeMap := AList.update (doc_name doc) None (ws_changeMap s), ws_err := Some e\<rparr>, True)
                     | Inr d \<Rightarrow> Some (s\<lparr>ws_changeMap := AList.update (doc_name doc) (Some d) (ws_changeMap s)\<rparr>, False)))
          else if hasWatchTargetID removedTargetIds
          then Some (s\<lparr>ws_changeMap := AList.update (doc_name doc) None (ws_changeMap s)\<rparr>, False)
          else Some (s, False)
      | ListenResponse_DocumentDelete name \<Rightarrow> Some (s\<lparr>ws_changeMap := AList.update name None (ws_changeMap s)\<rparr>, False)
      | ListenResponse_DocumentRemove name \<Rightarrow> Some (s\<lparr>ws_changeMap := AList.update name None (ws_changeMap s)\<rparr>, False)
      | ListenResponse_Filter count \<Rightarrow>
          if count \<noteq> currentSize s
          then Option.bind (resetDocs s) (\<lambda>s1. Some (s1\<lparr>ws_open := False\<rparr>, False))
          else Some (s, False)
      | otherResponse \<Rightarrow> Some (s\<lparr>ws_err := Some unknownResponse\<rparr>, True))"

section \<open>Receiving\<close>

datatype io =
    opened
  | openFailed watch_error
  | received ListenResponse
  | recvFailed watch_error
  | slept
  | sleepFailed watch_error

definition status_Code :: "watch_error \<Rightarrow> grpc_code" where
  "status_Code err = (case err of watchStatus c \<Rightarrow> c | _ \<Rightarrow> Unknown)"

definition isPermanentWatchError :: "watch_error \<Rightarrow> bool" where
  "isPermanentWatchError err =
     (if err = watchEOF then False
      else case status_Code err of
             Unknown \<Rightarrow> False | DeadlineExceeded \<Rightarrow> False | ResourceExhausted \<Rightarrow> False | Internal \<Rightarrow> False
           | Unavailable \<Rightarrow> False | Unauthenticated \<Rightarrow> False
           | _ \<Rightarrow> True)"

text \<open>\<^verbatim>\<open>recv\<close>: the loop opens the stream if necessary and retries after an error that is not permanent.\<close>

function recv :: "io list \<Rightarrow> watchStream \<Rightarrow> (io list \<times> watchStream \<times> (watch_error + ListenResponse)) option"
  and recv_open :: "io list \<Rightarrow> watchStream \<Rightarrow> (io list \<times> watchStream \<times> (watch_error + ListenResponse)) option" where
  "recv ios s =
     (if ws_open s then recv_open ios s
      else case ios of
             opened # rest \<Rightarrow> recv_open rest (s\<lparr>ws_open := True\<rparr>)
           | openFailed e # rest \<Rightarrow> Some (rest, s, Inl e)
           | _ \<Rightarrow> None)"
| "recv_open ios s =
     (case ios of
        received r # rest \<Rightarrow> Some (rest, s, Inr r)
      | recvFailed e # rest \<Rightarrow>
          if isPermanentWatchError e then Some (rest, s, Inl e)
          else let s1 = s\<lparr>ws_changeMap := [], ws_backoff := Suc (ws_backoff s)\<rparr>
               in (case rest of
                     slept # rest' \<Rightarrow> recv rest' (s1\<lparr>ws_open := False\<rparr>)
                   | sleepFailed e' # rest' \<Rightarrow> Some (rest', s1, Inl e')
                   | _ \<Rightarrow> None)
      | _ \<Rightarrow> None)"
  by pat_completeness auto
termination
  by (relation "measure (\<lambda>x. case x of Inl (ios, s) \<Rightarrow> 2 * length ios + 1 | Inr (ios, s) \<Rightarrow> 2 * length ios)") auto

declare recv.simps [simp del] recv_open.simps [simp del]

definition handleNextMessage :: "(timestamp \<Rightarrow> int option) \<Rightarrow> io list \<Rightarrow> watchStream \<Rightarrow> (io list \<times> watchStream \<times> bool) option" where
  "handleNextMessage ts ios s =
     Option.bind (recv ios s) (\<lambda>(ios1, s1, r).
       case r of
         Inl e \<Rightarrow> Some (ios1, s1\<lparr>ws_err := Some e\<rparr>, True)
       | Inr res \<Rightarrow> Option.bind (handleResponse ts res s1) (\<lambda>(s2, consistent). Some (ios1, s2, consistent)))"

partial_function (option) handle_loop :: "(timestamp \<Rightarrow> int option) \<Rightarrow> io list \<Rightarrow> watchStream \<Rightarrow> (io list \<times> watchStream) option" where
  "handle_loop ts ios s =
     Option.bind (handleNextMessage ts ios s) (\<lambda>(ios1, s1, consistent).
       if consistent then Some (ios1, s1) else handle_loop ts ios1 s1)"

declare handle_loop.simps [code]

section \<open>Snapshots\<close>

text \<open>The loop of \<^verbatim>\<open>nextSnapshot\<close>.  Closing the stream with \<^verbatim>\<open>CloseSend\<close> does not change the state.  The contexts of a clone are new
  numbers, counted by \<open>cow\<close>.\<close>

partial_function (option) nextSnapshot_loop ::
  "(timestamp \<Rightarrow> int option) \<Rightarrow> nat \<Rightarrow> io list \<Rightarrow> watchStream
   \<Rightarrow> (io list \<times> watchStream \<times> (watch_error + docTree \<times> DocumentChange list \<times> int)) option" where
  "nextSnapshot_loop ts cow ios s =
     Option.bind (handle_loop ts ios s) (\<lambda>(ios1, s1).
       case ws_err s1 of
         Some e \<Rightarrow> Some (ios1, s1, Inl e)
       | None \<Rightarrow>
           Option.bind (computeSnapshot cow (Suc cow) (ws_docTree s1) (ws_docMap s1) (ws_changeMap s1) (ws_readTime s1)) (\<lambda>sn.
             let s2 = s1\<lparr>ws_docMap := sn_docMap sn\<rparr>
             in if \<not> ws_hasReturned s2 \<or> sn_cloned sn
                then Some (ios1, s2\<lparr>ws_docTree := sn_tree sn, ws_changeMap := [], ws_hasReturned := True\<rparr>,
                           Inr (sn_tree sn, sn_changes sn, ws_readTime s2))
                else nextSnapshot_loop ts (cow + 2) ios1 s2))"

declare nextSnapshot_loop.simps [code]

definition nextSnapshot ::
  "(timestamp \<Rightarrow> int option) \<Rightarrow> nat \<Rightarrow> io list \<Rightarrow> watchStream
   \<Rightarrow> (io list \<times> watchStream \<times> (watch_error + docTree \<times> DocumentChange list \<times> int)) option" where
  "nextSnapshot ts cow ios s =
     (case ws_err s of Some e \<Rightarrow> Some (ios, s, Inl e) | None \<Rightarrow> nextSnapshot_loop ts cow ios s)"

text \<open>\<^verbatim>\<open>stop\<close>, with the result of closing the stream if it is open.\<close>

definition watchStream_close :: "watch_error option \<Rightarrow> watchStream \<Rightarrow> watch_error option" where
  "watchStream_close closeSend s = (if \<not> ws_open s then None else closeSend)"

definition watchStream_stop :: "watch_error option \<Rightarrow> watchStream \<Rightarrow> watchStream" where
  "watchStream_stop closeSend s =
     (let err = watchStream_close closeSend s
      in if ws_err s \<noteq> None then s
         else if err \<noteq> None then s\<lparr>ws_err := err\<rparr>
         else s\<lparr>ws_err := Some watchEOF\<rparr>)"

section \<open>Document names\<close>

lemma join_cons: "xs \<noteq> [] \<Longrightarrow> join_slash (x # xs) = x @ CHR ''/'' # join_slash xs"
  by (cases xs) auto

lemma idsToRef_loop_path: "odd (length ids) \<Longrightarrow> idsToRef_loop coll ids = (None, Some (coll @ CHR ''/'' # join_slash ids))"
proof (induction coll ids rule: idsToRef_loop.induct)
  case (3 coll d c ids)
  then have "ids \<noteq> []" by auto
  with 3 show ?case by (simp add: join_cons newCollRefWithParent_def newDocRef_def)
qed (simp_all add: newDocRef_def)

lemma drop_five: "6 \<le> length xs \<Longrightarrow> xs = xs ! 0 # xs ! 1 # xs ! 2 # xs ! 3 # xs ! 4 # drop 5 xs"
  by (cases xs rule: list.exhaust; cases "tl xs"; cases "tl (tl xs)"; cases "tl (tl (tl xs))"; cases "tl (tl (tl (tl xs)))") auto

text \<open>A document's reference has the document's name as its path.\<close>

lemma pathToDoc_name:
  assumes "pathToDoc name = Inr (Some ref)"
  shows "ref = name"
proof -
  define parts where "parts = split_slash name"
  obtain p db docIDs where parse: "parseDocumentPath name = Inr (p, db, docIDs)"
    and ref: "snd (idsToRef docIDs (''projects/'' @ p @ ''/databases/'' @ db)) = Some ref"
    using assms by (auto simp: pathToDoc_def split: sum.splits)
  from parse have len: "6 \<le> length parts" and ps: "parts ! 0 = ''projects''" "parts ! 2 = ''databases''" "parts ! 4 = ''documents''"
    "p = parts ! 1" "db = parts ! 3" "docIDs = drop 5 parts" "even (length docIDs)"
    by (auto simp: parseDocumentPath_def parts_def [symmetric] Let_def split: if_splits)
  have "docIDs \<noteq> []" using ps(6) len by simp
  then obtain c rest where ids: "docIDs = c # rest" by (cases docIDs) auto
  have odd: "odd (length rest)" using ps(7) ids by simp
  have "ref = ''projects/'' @ p @ ''/databases/'' @ db @ ''/documents/'' @ c @ CHR ''/'' # join_slash rest"
    using ref idsToRef_loop_path [OF odd] by (auto simp: idsToRef_def ids newTopLevelCollRef_def split: if_splits)
  moreover have "name = join_slash (''projects'' # p # ''databases'' # db # ''documents'' # c # rest)"
    using join_split [of name] drop_five [OF len] ps ids by (metis parts_def)
  moreover have "rest \<noteq> []" using odd by auto
  ultimately show ?thesis by (simp add: join_cons)
qed

section \<open>Resetting\<close>

lemma reset_loop_ok:
  assumes "iter_ok d it" "\<not> it_descending it"
  shows "reset_loop it cm = Some (fold (\<lambda>m. AList.update (ds_path (fst m)) None) (ahead it) cm)"
  using assms
proof (induction "length (ahead it)" arbitrary: it cm)
  case 0
  then have e: "ahead it = []" by simp
  show ?case
  proof (cases "it_cursors it = []")
    case True
    then show ?thesis by (subst reset_loop.simps) (simp add: it_Next_def e)
  next
    case False
    have "\<not> it_stay it"
    proof
      assume "it_stay it"
      from Next_stay [OF 0(2) this False] e show False by simp
    qed
    from Next_inc [OF 0(2) this 0(3) False] obtain it' where "it_Next it = Some (it', False)" using e by auto
    then show ?thesis by (subst reset_loop.simps) (simp add: e)
  qed
next
  case (Suc n)
  then have ne: "it_cursors it \<noteq> []" "ahead it \<noteq> []" by (auto simp: ahead_def)
  obtain it' x where n: "it_Next it = Some (it', True)" "iter_ok d it'" "\<not> it_descending it'" "it_Item it' = Some x" "ahead it = x # ahead it'"
  proof (cases "it_stay it")
    case True
    obtain m where "it_Next it = Some (it\<lparr>it_stay := False, it_Item := Some m\<rparr>, True)"
      "ahead it = m # ahead (it\<lparr>it_stay := False, it_Item := Some m\<rparr>)"
      "behind it = m # behind (it\<lparr>it_stay := False, it_Item := Some m\<rparr>)"
      "iter_ok d (it\<lparr>it_stay := False, it_Item := Some m\<rparr>)"
      by (rule Next_stay [OF Suc.prems(1) True ne(1)])
    with Suc.prems(2) show thesis by (intro that [of "it\<lparr>it_stay := False, it_Item := Some m\<rparr>" m]) simp_all
  next
    case False
    obtain it' where i: "it_Next it = Some (it', ahead it \<noteq> [])" "iter_ok d it'" "takes (ahead it) (ahead it') it' (ahead it \<noteq> [])"
      "\<not> it_descending it'" "it_Index it' = it_Index it + 1" "\<not> it_stay it'"
      by (rule Next_inc [OF Suc.prems(1) False Suc.prems(2) ne(1)])
    with ne(2) show thesis by (intro that [of it' "hd (ahead it)"]) (simp_all add: takes_def)
  qed
  have "n = length (ahead it')" using Suc.hyps(2) n(5) by simp
  from Suc.hyps(1) [OF this n(2,3)] n(1,4) show ?case unfolding n(5) by (subst reset_loop.simps) simp
qed

lemma reset_marks:
  "map_of (fold (\<lambda>m. AList.update (ds_path (fst m)) None) xs cm) n
     = (if n \<in> (ds_path \<circ> fst) ` set xs then Some None else map_of cm n)"
  "distinct (map fst cm) \<Longrightarrow> distinct (map fst (fold (\<lambda>m. AList.update (ds_path (fst m)) None) xs cm))"
  by (induction xs arbitrary: cm) (auto simp: update_conv' distinct_update)

lemma changes_ok_marks:
  assumes "distinct (map fst cm)" "\<forall>n. map_of cm n = None \<or> map_of cm n = Some None"
  shows "changes_ok K cm"
proof -
  have "snd p = None" if "p \<in> set cm" for p using assms that by (metis map_of_eq_Some_iff option.distinct(1) option.inject prod.collapse)
  with assms(1) show ?thesis by (simp add: changes_ok_def)
qed

lemma resetDocs_ok:
  assumes "same_docs K (ws_docTree s) (ws_docMap s)"
  obtains cm where "resetDocs s = Some (s\<lparr>ws_resumeToken := None, ws_current := False, ws_changeMap := cm\<rparr>)" "changes_ok K cm"
    "\<forall>n. map_of cm n = (if map_of (ws_docMap s) n = None then None else Some None)"
proof -
  let ?t = "ws_docTree s"
  have t: "tree_ok ?t" using assms by (simp add: same_docs_def keys_ok_def)
  obtain it where i: "indexIterator 0 False ?t = Some it" "iter_ok (bt_degree ?t) it" "ahead it = drop (nat 0) (elems ?t)"
    "behind it = (if 0 = int (length (elems ?t)) then [] else rev (take (Suc (nat 0)) (elems ?t)))"
    "0 < int (length (elems ?t)) \<longrightarrow> it_stay it \<and> it_Index it = 0 \<and> it_descending it = False"
    "0 = int (length (elems ?t)) \<longrightarrow> it = empty_Iterator"
    by (rule index_iterator [OF t, of 0 False]) simp_all
  have "\<not> it_descending it" using i(5,6) by (cases "elems ?t") (auto simp: empty_Iterator_def)
  from reset_loop_ok [OF i(2) this, of "[]"] i(3)
  have r: "reset_loop it [] = Some (fold (\<lambda>m. AList.update (ds_path (fst m)) None) (elems ?t) [])" by simp
  let ?cm = "fold (\<lambda>m. AList.update (ds_path (fst m)) None) (elems ?t) ([] :: changeMap)"
  have lookup: "map_of ?cm n = (if map_of (ws_docMap s) n = None then None else Some None)" for n
  proof -
    have "n \<in> (ds_path \<circ> fst) ` set (elems ?t) \<longleftrightarrow> map_of (ws_docMap s) n \<noteq> None"
      using same_docs_lookup [OF assms, of n] by (force simp: docs_def)
    then show ?thesis by (simp add: reset_marks(1))
  qed
  have "changes_ok K ?cm" by (rule changes_ok_marks) (simp_all add: reset_marks(2) lookup)
  with that [of ?cm] lookup i(1) r show thesis by (simp add: resetDocs_def BeforeIndex_def)
qed

section \<open>The invariant of the stream\<close>

definition watch_ok :: "DocumentSnapshot set \<Rightarrow> watchStream \<Rightarrow> bool" where
  "watch_ok K s \<longleftrightarrow> same_docs K (ws_docTree s) (ws_docMap s) \<and> changes_ok K (ws_changeMap s)"

text \<open>What is expected of the messages: documents can be ordered, their names have no empty part, and a target that is added has
  an identifier.\<close>

definition response_ok :: "DocumentSnapshot set \<Rightarrow> (timestamp \<Rightarrow> int option) \<Rightarrow> ListenResponse \<Rightarrow> bool" where
  "response_ok K ts res =
     (case res of
        ListenResponse_DocumentChange doc targetIds removedTargetIds \<Rightarrow>
          hasWatchTargetID targetIds \<longrightarrow>
            pathToDoc (doc_name doc) \<noteq> Inr None
          \<and> (case newDocumentSnapshot ts (doc_name doc) doc of Inl _ \<Rightarrow> True | Inr d \<Rightarrow> d \<in> K)
      | ListenResponse_TargetChange tc \<Rightarrow> tc_TargetChangeType tc = ADD \<longrightarrow> tc_TargetIds tc \<noteq> []
      | _ \<Rightarrow> True)"

definition ios_ok :: "DocumentSnapshot set \<Rightarrow> (timestamp \<Rightarrow> int option) \<Rightarrow> io list \<Rightarrow> bool" where
  "ios_ok K ts ios = list_all (\<lambda>i. case i of received r \<Rightarrow> response_ok K ts r | _ \<Rightarrow> True) ios"

text \<open>The parts of the state that messages do not change.\<close>

definition keeps :: "DocumentSnapshot set \<Rightarrow> watchStream \<Rightarrow> watchStream \<Rightarrow> bool" where
  "keeps K s s' \<longleftrightarrow>
     watch_ok K s' \<and> ws_docTree s' = ws_docTree s \<and> ws_docMap s' = ws_docMap s \<and> ws_hasReturned s' = ws_hasReturned s"

definition safe :: "DocumentSnapshot set \<Rightarrow> watchStream \<Rightarrow> (watchStream \<times> bool) option \<Rightarrow> bool" where
  "safe K s r = (case r of None \<Rightarrow> False | Some (s', _) \<Rightarrow> keeps K s s')"

lemma safe_Some [simp]: "safe K s (Some (s', b)) = keeps K s s'"
  by (simp add: safe_def)

lemma safeE: "safe K s r \<Longrightarrow> (\<And>s' b. r = Some (s', b) \<Longrightarrow> keeps K s s' \<Longrightarrow> P) \<Longrightarrow> P"
  by (auto simp: safe_def split: option.splits)

lemma keeps_trans: "keeps K a b \<Longrightarrow> keeps K b c \<Longrightarrow> keeps K a c"
  by (simp add: keeps_def)

lemma set_alist_update: "p \<in> set (AList.update k v al) \<Longrightarrow> p = (k, v) \<or> p \<in> set al"
  by (induction al) (auto split: if_splits)

lemma changes_ok_update:
  assumes "changes_ok K cm" "case v of None \<Rightarrow> True | Some d \<Rightarrow> ds_path d = n \<and> d \<in> K"
  shows "changes_ok K (AList.update n v cm)"
proof -
  have "distinct (map fst (AList.update n v cm))" using assms(1) by (simp add: changes_ok_def distinct_update)
  moreover have "case snd p of None \<Rightarrow> True | Some d \<Rightarrow> ds_path d = fst p \<and> d \<in> K" if "p \<in> set (AList.update n v cm)" for p
    using set_alist_update [OF that] assms by (auto simp: changes_ok_def split: option.splits)
  ultimately show ?thesis by (simp add: changes_ok_def)
qed

lemma snapshot_path: "newDocumentSnapshot ts ref doc = Inr d \<Longrightarrow> ds_path d = ref"
  by (auto simp: newDocumentSnapshot_def split: option.splits)

lemma handleTargetChange_ok:
  assumes "watch_ok K s" "tc_TargetChangeType tc = ADD \<longrightarrow> tc_TargetIds tc \<noteq> []"
  shows "safe K s (handleTargetChange ts tc s)"
proof -
  have w: "same_docs K (ws_docTree s) (ws_docMap s)" "changes_ok K (ws_changeMap s)" using assms(1) by (simp_all add: watch_ok_def)
  obtain cm where r: "resetDocs s = Some (s\<lparr>ws_resumeToken := None, ws_current := False, ws_changeMap := cm\<rparr>)" "changes_ok K cm"
    "\<forall>n. map_of cm n = (if map_of (ws_docMap s) n = None then None else Some None)"
    by (rule resetDocs_ok [OF w(1)])
  show ?thesis
    using w r(1,2) assms(2)
    by (cases "tc_TargetChangeType tc"; cases "tc_ReadTime tc"; cases "tc_TargetIds tc"; cases "ts (the (tc_ReadTime tc))")
       (simp_all add: handleTargetChange_def Let_def keeps_def watch_ok_def)
qed

lemma handleResponse_ok:
  assumes "watch_ok K s" "response_ok K ts res"
  shows "safe K s (handleResponse ts res s)"
proof -
  have w: "same_docs K (ws_docTree s) (ws_docMap s)" "changes_ok K (ws_changeMap s)" using assms(1) by (simp_all add: watch_ok_def)
  have removed: "changes_ok K (AList.update n None (ws_changeMap s))" for n using changes_ok_update [OF w(2)] by simp
  show ?thesis
  proof (cases res)
    case (ListenResponse_TargetChange tc)
    then show ?thesis using handleTargetChange_ok [OF assms(1)] assms(2) by (simp add: handleResponse_def response_ok_def)
  next
    case (ListenResponse_DocumentChange doc ids removed_ids)
    show ?thesis
    proof (cases "hasWatchTargetID ids")
      case True
      show ?thesis
      proof (cases "pathToDoc (doc_name doc)")
        case (Inl e)
        then show ?thesis using True w by (simp add: handleResponse_def ListenResponse_DocumentChange keeps_def watch_ok_def)
      next
        case (Inr r)
        then obtain ref where ref: "pathToDoc (doc_name doc) = Inr (Some ref)"
          using assms(2) True by (cases r) (auto simp: response_ok_def ListenResponse_DocumentChange)
        have "ref = doc_name doc" by (rule pathToDoc_name [OF ref])
        then show ?thesis
          using True ref w removed assms(2) changes_ok_update [OF w(2)] snapshot_path [of ts ref doc]
          by (cases "newDocumentSnapshot ts ref doc")
             (simp_all add: handleResponse_def ListenResponse_DocumentChange keeps_def watch_ok_def response_ok_def)
      qed
    next
      case False
      then show ?thesis using w removed by (simp add: handleResponse_def ListenResponse_DocumentChange keeps_def watch_ok_def)
    qed
  next
    case (ListenResponse_Filter n)
    obtain cm where "resetDocs s = Some (s\<lparr>ws_resumeToken := None, ws_current := False, ws_changeMap := cm\<rparr>)" "changes_ok K cm"
      "\<forall>n. map_of cm n = (if map_of (ws_docMap s) n = None then None else Some None)"
      by (rule resetDocs_ok [OF w(1)])
    with w show ?thesis by (simp add: handleResponse_def ListenResponse_Filter keeps_def watch_ok_def)
  qed (use w removed in \<open>simp_all add: handleResponse_def keeps_def watch_ok_def\<close>)
qed

lemma recv_ok:
  "recv ios s = Some (ios', s', r) \<Longrightarrow> ios_ok K ts ios \<Longrightarrow> watch_ok K s \<Longrightarrow>
     keeps K s s' \<and> ios_ok K ts ios' \<and> (\<forall>res. r = Inr res \<longrightarrow> response_ok K ts res)"
  "recv_open ios s = Some (ios', s', r) \<Longrightarrow> ios_ok K ts ios \<Longrightarrow> watch_ok K s \<Longrightarrow>
     keeps K s s' \<and> ios_ok K ts ios' \<and> (\<forall>res. r = Inr res \<longrightarrow> response_ok K ts res)"
proof (induction ios s and ios s arbitrary: ios' s' r and ios' s' r rule: recv_recv_open.induct)
  case (1 ios s)
  show ?case
  proof (cases "ws_open s")
    case True
    then show ?thesis using 1(1) [OF True] 1(3-5) by (simp add: recv.simps)
  next
    case False
    then obtain i rest where ios: "ios = i # rest" using 1(3) by (cases ios) (auto simp: recv.simps)
    have rest: "ios_ok K ts rest" using 1(4) by (simp add: ios_ok_def ios)
    show ?thesis
    proof (cases i)
      case opened
      have "watch_ok K (s\<lparr>ws_open := True\<rparr>)" using 1(5) by (simp add: watch_ok_def)
      from 1(2) [OF False ios opened _ rest this] 1(3) False show ?thesis by (simp add: recv.simps ios opened keeps_def)
    qed (use 1(3,5) False rest in \<open>auto simp: recv.simps ios keeps_def\<close>)
  qed
next
  case (2 ios s)
  then obtain i rest where ios: "ios = i # rest" by (cases ios) (auto simp: recv_open.simps)
  have rest: "ios_ok K ts rest" using 2(3) by (simp add: ios_ok_def ios)
  show ?case
  proof (cases i)
    case (received res)
    then show ?thesis using 2(2-4) rest by (auto simp: recv_open.simps ios keeps_def ios_ok_def)
  next
    case (recvFailed e)
    let ?s1 = "s\<lparr>ws_changeMap := [], ws_backoff := Suc (ws_backoff s)\<rparr>"
    have s1: "watch_ok K ?s1" "watch_ok K (?s1\<lparr>ws_open := False\<rparr>)" using 2(4) by (simp_all add: watch_ok_def changes_ok_def)
    show ?thesis
    proof (cases "isPermanentWatchError e")
      case True
      then show ?thesis using 2(2,4) rest by (auto simp: recv_open.simps ios recvFailed keeps_def)
    next
      case False
      then obtain j rest' where r: "rest = j # rest'" using 2(2) by (cases rest) (auto simp: recv_open.simps ios recvFailed Let_def)
      have rest': "ios_ok K ts rest'" using rest by (simp add: ios_ok_def r)
      show ?thesis
      proof (cases j)
        case slept
        from 2(1) [OF ios recvFailed False refl r slept _ rest' s1(2)] 2(2) False show ?thesis
          by (simp add: recv_open.simps ios recvFailed r slept Let_def keeps_def)
      qed (use 2(2) False rest' s1(1) in \<open>auto simp: recv_open.simps ios recvFailed r Let_def keeps_def\<close>)
    qed
  qed (use 2(2) in \<open>simp_all add: recv_open.simps ios\<close>)
qed

section \<open>Snapshots in sequence\<close>

lemma handleNextMessage_ok:
  assumes "handleNextMessage ts ios s = Some (ios', s', b)" "ios_ok K ts ios" "watch_ok K s"
  shows "keeps K s s' \<and> ios_ok K ts ios'"
proof -
  from assms(1) obtain ios1 s1 r where r: "recv ios s = Some (ios1, s1, r)"
    "(case r of Inl e \<Rightarrow> Some (ios1, s1\<lparr>ws_err := Some e\<rparr>, True)
      | Inr res \<Rightarrow> Option.bind (handleResponse ts res s1) (\<lambda>(s2, consistent). Some (ios1, s2, consistent))) = Some (ios', s', b)"
    unfolding handleNextMessage_def bind_eq_Some_conv by force
  note k = recv_ok(1) [OF r(1) assms(2,3)]
  then have w: "watch_ok K s1" by (simp add: keeps_def)
  show ?thesis
  proof (cases r)
    case (Inl e)
    then show ?thesis using r(2) k by (auto simp: keeps_def watch_ok_def)
  next
    case (Inr res)
    from handleResponse_ok [OF w, of ts res] k Inr have "safe K s1 (handleResponse ts res s1)" by simp
    then obtain s2 b2 where "handleResponse ts res s1 = Some (s2, b2)" "keeps K s1 s2" by (rule safeE)
    then show ?thesis using r(2) k Inr keeps_trans by auto
  qed
qed

lemma handle_loop_ok:
  assumes "handle_loop ts ios s = Some (ios', s')" "ios_ok K ts ios" "watch_ok K s"
  shows "keeps K s s' \<and> ios_ok K ts ios'"
  using assms
proof (induction ts ios s "(ios', s')" arbitrary: ios' s' rule: handle_loop.raw_induct [rotated, consumes 1])
  case (1 rec ts ios s)
  from 1(2) obtain ios1 s1 b where h: "handleNextMessage ts ios s = Some (ios1, s1, b)"
    "(if b then Some (ios1, s1) else rec ts ios1 s1) = Some (ios', s')" by (auto simp: bind_eq_Some_conv)
  note k = handleNextMessage_ok [OF h(1) 1(3,4)]
  then have w: "watch_ok K s1" "ios_ok K ts ios1" by (simp_all add: keeps_def)
  show ?case
  proof (cases b)
    case True
    then show ?thesis using h(2) k by simp
  next
    case False
    then have "rec ts ios1 s1 = Some (ios', s')" using h(2) by simp
    from 1(1) [OF this w(2,1)] k keeps_trans show ?thesis by blast
  qed
qed

text \<open>What a call of \<^verbatim>\<open>nextSnapshot\<close> that returns leaves behind.\<close>

definition snapshot_result ::
  "DocumentSnapshot set \<Rightarrow> watchStream \<Rightarrow> watchStream \<Rightarrow> (watch_error + docTree \<times> DocumentChange list \<times> int) \<Rightarrow> bool" where
  "snapshot_result K s s' r \<longleftrightarrow>
     watch_ok K s' \<and> bt_less (ws_docTree s') = bt_less (ws_docTree s)
   \<and> (case r of
        Inl e \<Rightarrow> ws_err s' = Some e
      | Inr (tree, changes, rt) \<Rightarrow>
          tree = ws_docTree s' \<and> rt = ws_readTime s' \<and> ws_changeMap s' = [] \<and> ws_hasReturned s'
        \<and> docs tree = fold apply_change changes (docs (ws_docTree s)))"

lemma nextSnapshot_loop_ok:
  assumes "nextSnapshot_loop ts cow ios s = Some (ios', s', r)" "ios_ok K ts ios" "watch_ok K s"
  shows "snapshot_result K s s' r"
  using assms
proof (induction ts cow ios s "(ios', s', r)" arbitrary: ios' s' r rule: nextSnapshot_loop.raw_induct [rotated, consumes 1])
  case (1 rec ts cow ios s)
  from 1(2) obtain ios1 s1 where h: "handle_loop ts ios s = Some (ios1, s1)"
    "(case ws_err s1 of Some e \<Rightarrow> Some (ios1, s1, Inl e)
      | None \<Rightarrow> Option.bind (computeSnapshot cow (Suc cow) (ws_docTree s1) (ws_docMap s1) (ws_changeMap s1) (ws_readTime s1)) (\<lambda>sn.
             let s2 = s1\<lparr>ws_docMap := sn_docMap sn\<rparr>
             in if \<not> ws_hasReturned s2 \<or> sn_cloned sn
                then Some (ios1, s2\<lparr>ws_docTree := sn_tree sn, ws_changeMap := [], ws_hasReturned := True\<rparr>,
                           Inr (sn_tree sn, sn_changes sn, ws_readTime s2))
                else rec ts (cow + 2) ios1 s2)) = Some (ios', s', r)"
    by (auto simp: bind_eq_Some_conv)
  note k = handle_loop_ok [OF h(1) 1(3,4)]
  then have same: "ws_docTree s1 = ws_docTree s" "ws_hasReturned s1 = ws_hasReturned s" "watch_ok K s1" and ios1: "ios_ok K ts ios1"
    by (simp_all add: keeps_def)
  then have w: "same_docs K (ws_docTree s1) (ws_docMap s1)" "changes_ok K (ws_changeMap s1)" "ios_ok K ts ios1"
    unfolding watch_ok_def by blast+
  show ?case
  proof (cases "ws_err s1")
    case (Some e)
    then show ?thesis using h(2) same(1,3) by (auto simp: snapshot_result_def)
  next
    case None
    obtain sn where sn: "computeSnapshot cow (Suc cow) (ws_docTree s1) (ws_docMap s1) (ws_changeMap s1) (ws_readTime s1) = Some sn"
      "same_docs K (sn_tree sn) (sn_docMap sn)" "bt_less (sn_tree sn) = bt_less (ws_docTree s1)"
      "map_of (sn_docMap sn) = merged (ws_readTime s1) (ws_docMap s1) (ws_changeMap s1)"
      "docs (sn_tree sn) = fold apply_change (sn_changes sn) (docs (ws_docTree s1))"
      "\<not> sn_cloned sn \<longrightarrow> sn_tree sn = ws_docTree s1 \<and> sn_changes sn = []"
      by (rule computeSnapshot_ok [OF w(1,2)])
    have none: "changes_ok K []" by (simp add: changes_ok_def)
    show ?thesis
    proof (cases "\<not> ws_hasReturned s1 \<or> sn_cloned sn")
      case True
      then show ?thesis using h(2) None sn none same by (auto simp: snapshot_result_def watch_ok_def Let_def)
    next
      case False
      then have "sn_tree sn = ws_docTree s1" using sn(6) by simp
      then have w2: "watch_ok K (s1\<lparr>ws_docMap := sn_docMap sn\<rparr>)" using sn(2) w(2) by (simp add: watch_ok_def)
      have again: "rec ts (cow + 2) ios1 (s1\<lparr>ws_docMap := sn_docMap sn\<rparr>) = Some (ios', s', r)" using h(2) None sn(1) False by simp
      have "snapshot_result K (s1\<lparr>ws_docMap := sn_docMap sn\<rparr>) s' r" by (rule 1(1) [OF again w(3) w2])
      moreover have "ws_docTree (s1\<lparr>ws_docMap := sn_docMap sn\<rparr>) = ws_docTree s" using same(1) by simp
      ultimately show ?thesis by (simp only: snapshot_result_def)
    qed
  qed
qed

section \<open>The watch of a query\<close>

lemma newWatchStream_ok:
  assumes "newWatchStream cow (compareFunc orders) = Some s"
  shows "watch_ok (orderable (compare_orders orders)) s" "docs (ws_docTree s) = []" "ws_err s = None"
    and "bt_less (ws_docTree s) = watch_less (compareFunc orders)" "ws_docMap s = []" "ws_changeMap s = []" "\<not> ws_hasReturned s" "\<not> ws_open s"
proof -
  let ?lt = "watch_less (compareFunc orders)"
  obtain t where t: "New cow btreeDegree ?lt = Some t" "ws_docTree s = t" "ws_docMap s = []" "ws_changeMap s = []" "ws_err s = None"
    using assms by (auto simp: newWatchStream_def split: option.splits)
  have e: "elems t = []" "bt_less t = ?lt" using tree_ok_New [OF t(1)] t(1) by (auto simp: New_def split: if_splits)
  have "same_docs (orderable (compare_orders orders)) t []" by (rule empty_same_docs [OF t(1)])
  then show "watch_ok (orderable (compare_orders orders)) s" by (simp add: watch_ok_def t changes_ok_def)
  show "docs (ws_docTree s) = []" "ws_err s = None" "bt_less (ws_docTree s) = ?lt" "ws_docMap s = []" "ws_changeMap s = []"
    using e t by (simp_all add: docs_def)
  show "\<not> ws_hasReturned s" "\<not> ws_open s" using assms by (auto simp: newWatchStream_def split: option.splits)
qed

text \<open>Successive calls of \<^verbatim>\<open>nextSnapshot\<close>, with the inputs of each.\<close>

fun snapshots ::
  "(timestamp \<Rightarrow> int option) \<Rightarrow> nat \<Rightarrow> io list list \<Rightarrow> watchStream
   \<Rightarrow> (watchStream \<times> (docTree \<times> DocumentChange list \<times> int) list \<times> watch_error option) option" where
  "snapshots ts cow [] s = Some (s, [], None)"
| "snapshots ts cow (ios # rest) s =
     (case nextSnapshot ts cow ios s of
        None \<Rightarrow> None
      | Some (_, s1, Inl e) \<Rightarrow> Some (s1, [], Some e)
      | Some (_, s1, Inr r) \<Rightarrow>
          (case snapshots ts (cow + 2 * length ios + 2) rest s1 of
             None \<Rightarrow> None
           | Some (s2, rs, e) \<Rightarrow> Some (s2, r # rs, e)))"

text \<open>Each snapshot's changes lead from the documents of the one before to its own, which are those the tree enumerates.\<close>

fun chained :: "DocumentSnapshot list \<Rightarrow> (docTree \<times> DocumentChange list \<times> int) list \<Rightarrow> bool" where
  "chained xs [] = True"
| "chained xs ((tree, changes, rt) # rest) = (docs tree = fold apply_change changes xs \<and> chained (docs tree) rest)"

lemma nextSnapshot_ok:
  assumes "nextSnapshot ts cow ios s = Some (ios', s', r)" "ios_ok K ts ios" "watch_ok K s"
  shows "snapshot_result K s s' r"
proof (cases "ws_err s")
  case (Some e)
  then show ?thesis using assms(1,3) by (auto simp: nextSnapshot_def snapshot_result_def)
next
  case None
  then show ?thesis using assms nextSnapshot_loop_ok by (simp add: nextSnapshot_def)
qed

lemma docs_sorted: "watch_ok K s \<Longrightarrow> sorted_wrt (bt_less (ws_docTree s)) (docs (ws_docTree s))"
  using tree_ok_sorted [of "ws_docTree s"]
  by (simp add: watch_ok_def same_docs_def keys_ok_def sorted_items_def docs_def sorted_wrt_map)

lemma snapshots_chained:
  assumes "snapshots ts cow ioss s = Some (s', rs, e)" "\<forall>ios\<in>set ioss. ios_ok K ts ios" "watch_ok K s"
  shows "chained (docs (ws_docTree s)) rs \<and> watch_ok K s'
    \<and> (\<forall>r\<in>set rs. sorted_wrt (bt_less (ws_docTree s)) (docs (fst r)))"
  using assms
proof (induction ts cow ioss s arbitrary: rs rule: snapshots.induct)
  case (1 ts cow s)
  then show ?case by simp
next
  case (2 ts cow ios rest s)
  from 2(2) obtain ios1 s1 r where n: "nextSnapshot ts cow ios s = Some (ios1, s1, r)" by (auto split: option.splits)
  have ok: "ios_ok K ts ios" "\<forall>ios\<in>set rest. ios_ok K ts ios" using 2(3) by simp_all
  note res = nextSnapshot_ok [OF n ok(1) 2(4)]
  then have w: "watch_ok K s1" by (simp add: snapshot_result_def)
  show ?case
  proof (cases r)
    case (Inl e)
    then show ?thesis using 2(2) n w by simp
  next
    case (Inr p)
    obtain tree changes rt where p: "p = (tree, changes, rt)" by (cases p)
    obtain rs' where rest: "snapshots ts (cow + 2 * length ios + 2) rest s1 = Some (s', rs', e)" "rs = p # rs'"
      using 2(2) n Inr by (auto split: option.splits)
    have "chained (docs (ws_docTree s1)) rs' \<and> watch_ok K s'
        \<and> (\<forall>r\<in>set rs'. sorted_wrt (bt_less (ws_docTree s1)) (docs (fst r)))"
      by (rule 2(1) [OF n refl refl Inr rest(1) ok(2) w])
    moreover have "bt_less (ws_docTree s1) = bt_less (ws_docTree s)" using res by (simp add: snapshot_result_def)
    moreover have "tree = ws_docTree s1" "docs tree = fold apply_change changes (docs (ws_docTree s))"
      using res unfolding Inr p snapshot_result_def sum.case prod.case by blast+
    ultimately show ?thesis using docs_sorted [OF w] by (simp add: p rest(2))
  qed
qed

section \<open>A stream of document messages\<close>

text \<open>Messages about documents that the handling accepts, and what they do to the change map.\<close>

definition doc_message :: "DocumentSnapshot set \<Rightarrow> (timestamp \<Rightarrow> int option) \<Rightarrow> ListenResponse \<Rightarrow> bool" where
  "doc_message K ts res =
     (case res of
        ListenResponse_DocumentChange doc targetIds removedTargetIds \<Rightarrow>
          hasWatchTargetID targetIds \<longrightarrow>
            pathToDoc (doc_name doc) = Inr (Some (doc_name doc))
          \<and> (case newDocumentSnapshot ts (doc_name doc) doc of Inl _ \<Rightarrow> False | Inr d \<Rightarrow> d \<in> K)
      | ListenResponse_DocumentDelete name \<Rightarrow> True
      | ListenResponse_DocumentRemove name \<Rightarrow> True
      | _ \<Rightarrow> False)"

definition record_change :: "(timestamp \<Rightarrow> int option) \<Rightarrow> ListenResponse \<Rightarrow> changeMap \<Rightarrow> changeMap" where
  "record_change ts res cm =
     (case res of
        ListenResponse_DocumentChange doc targetIds removedTargetIds \<Rightarrow>
          if hasWatchTargetID targetIds
          then (case newDocumentSnapshot ts (doc_name doc) doc of Inl _ \<Rightarrow> cm | Inr d \<Rightarrow> AList.update (doc_name doc) (Some d) cm)
          else if hasWatchTargetID removedTargetIds then AList.update (doc_name doc) None cm
          else cm
      | ListenResponse_DocumentDelete name \<Rightarrow> AList.update name None cm
      | ListenResponse_DocumentRemove name \<Rightarrow> AList.update name None cm
      | _ \<Rightarrow> cm)"

lemma handle_doc_message:
  "doc_message K ts res \<Longrightarrow> handleResponse ts res s = Some (s\<lparr>ws_changeMap := record_change ts res (ws_changeMap s)\<rparr>, False)"
  by (auto simp: doc_message_def handleResponse_def record_change_def split: ListenResponse.splits sum.splits)

lemma record_change_ok:
  assumes "doc_message K ts res" "changes_ok K cm"
  shows "changes_ok K (record_change ts res cm)"
proof -
  have removed: "changes_ok K (AList.update n None cm)" for n using changes_ok_update [OF assms(2)] by simp
  have "changes_ok K (AList.update (doc_name doc) (Some d) cm)"
    if "newDocumentSnapshot ts (doc_name doc) doc = Inr d" "d \<in> K" for doc d
    using changes_ok_update [OF assms(2), of "doc_name doc" "Some d"] snapshot_path [OF that(1)] that(2) by simp
  with removed assms show ?thesis
    by (auto simp: doc_message_def record_change_def split: ListenResponse.splits sum.splits)
qed

lemma record_changes_ok: "list_all (doc_message K ts) msgs \<Longrightarrow> changes_ok K cm \<Longrightarrow> changes_ok K (fold (record_change ts) msgs cm)"
  by (induction msgs arbitrary: cm) (simp_all add: record_change_ok)

text \<open>One message on an open stream.\<close>

lemma handle_received:
  assumes "ws_open s" "handleResponse ts res s = Some (s', b)"
  shows "handle_loop ts (received res # rest) s = (if b then Some (rest, s') else handle_loop ts rest s')"
  using assms by (subst handle_loop.simps) (simp add: handleNextMessage_def recv.simps recv_open.simps)

lemma handle_documents:
  "ws_open s \<Longrightarrow> list_all (doc_message K ts) msgs \<Longrightarrow>
     handle_loop ts (map received msgs @ rest) s = handle_loop ts rest (s\<lparr>ws_changeMap := fold (record_change ts) msgs (ws_changeMap s)\<rparr>)"
proof (induction msgs arbitrary: s)
  case (Cons res msgs)
  then have "doc_message K ts res" by simp
  from handle_received [OF Cons.prems(1) handle_doc_message [OF this]]
  have "handle_loop ts (map received (res # msgs) @ rest) s
      = handle_loop ts (map received msgs @ rest) (s\<lparr>ws_changeMap := record_change ts res (ws_changeMap s)\<rparr>)" by simp
  also have "\<dots> = handle_loop ts rest (s\<lparr>ws_changeMap := fold (record_change ts) (res # msgs) (ws_changeMap s)\<rparr>)"
    using Cons.IH [of "s\<lparr>ws_changeMap := record_change ts res (ws_changeMap s)\<rparr>"] Cons.prems by simp
  finally show ?case .
qed simp

text \<open>The target is current, and the server has nothing more to report up to a time of reading.\<close>

definition up_to_date :: "(timestamp \<Rightarrow> int option) \<Rightarrow> int \<Rightarrow> TargetChange \<Rightarrow> TargetChange \<Rightarrow> bool" where
  "up_to_date ts rt tc tc' \<longleftrightarrow>
     tc_TargetChangeType tc = CURRENT \<and> tc_TargetChangeType tc' = NO_CHANGE \<and> tc_TargetIds tc' = []
   \<and> (case tc_ReadTime tc' of None \<Rightarrow> False | Some t \<Rightarrow> ts t = Some rt)"

lemma handle_up_to_date:
  assumes "ws_open s" "up_to_date ts rt tc tc'"
  obtains s' where
    "handle_loop ts (received (ListenResponse_TargetChange tc) # received (ListenResponse_TargetChange tc') # rest) s = Some (rest, s')"
    "ws_changeMap s' = ws_changeMap s" "ws_docMap s' = ws_docMap s" "ws_docTree s' = ws_docTree s" "ws_err s' = ws_err s"
    "ws_hasReturned s' = ws_hasReturned s" "ws_readTime s' = rt"
proof -
  obtain t where tc: "tc_TargetChangeType tc = CURRENT" "tc_TargetChangeType tc' = NO_CHANGE" "tc_TargetIds tc' = []"
    "tc_ReadTime tc' = Some t" "ts t = Some rt"
    using assms(2) by (auto simp: up_to_date_def split: option.splits)
  define s1 where "s1 = (if tc_ResumeToken tc \<noteq> None \<and> (tc_TargetIds tc = [] \<or> hasWatchTargetID (tc_TargetIds tc))
    then s\<lparr>ws_current := True, ws_backoff := 0\<rparr> else s\<lparr>ws_current := True\<rparr>)"
  have f: "ws_open s1" "ws_current s1" "ws_changeMap s1 = ws_changeMap s" "ws_docMap s1 = ws_docMap s" "ws_docTree s1 = ws_docTree s"
    "ws_err s1 = ws_err s" "ws_hasReturned s1 = ws_hasReturned s"
    using assms(1) by (simp_all add: s1_def)
  have r: "handleResponse ts (ListenResponse_TargetChange tc) s = Some (s1, False)"
    by (simp add: handleResponse_def handleTargetChange_def tc s1_def)
  have r': "handleResponse ts (ListenResponse_TargetChange tc') s1 = Some (s1\<lparr>ws_readTime := rt, ws_resumeToken := tc_ResumeToken tc'\<rparr>, True)"
    by (simp add: handleResponse_def handleTargetChange_def tc f(2))
  show thesis
    by (intro that [of "s1\<lparr>ws_readTime := rt, ws_resumeToken := tc_ResumeToken tc'\<rparr>"])
       (simp_all add: handle_received [OF assms(1) r] handle_received [OF f(1) r'] f)
qed

lemma handle_opened: "\<not> ws_open s \<Longrightarrow> handle_loop ts (opened # ios) s = handle_loop ts ios (s\<lparr>ws_open := True\<rparr>)"
  by (subst (1 2) handle_loop.simps) (simp add: handleNextMessage_def recv.simps)

text \<open>The first snapshot of a stream.\<close>

lemma first_snapshot:
  assumes "watch_ok K s" "ws_err s = None" "\<not> ws_hasReturned s" "\<not> ws_open s"
    and "list_all (doc_message K ts) msgs" "up_to_date ts rt tc tc'"
  obtains s' tree changes where
    "nextSnapshot ts cow (opened # map received msgs @ received (ListenResponse_TargetChange tc) # received (ListenResponse_TargetChange tc') # rest) s
       = Some (rest, s', Inr (tree, changes, rt))"
    "same_docs K tree (ws_docMap s')" "map_of (ws_docMap s') = merged rt (ws_docMap s) (fold (record_change ts) msgs (ws_changeMap s))"
proof -
  let ?cm = "fold (record_change ts) msgs (ws_changeMap s)"
  define s0 where "s0 = s\<lparr>ws_open := True, ws_changeMap := ?cm\<rparr>"
  have open0: "ws_open s0" by (simp add: s0_def)
  obtain s1 where s1:
    "handle_loop ts (received (ListenResponse_TargetChange tc) # received (ListenResponse_TargetChange tc') # rest) s0 = Some (rest, s1)"
    "ws_changeMap s1 = ws_changeMap s0" "ws_docMap s1 = ws_docMap s0" "ws_docTree s1 = ws_docTree s0" "ws_err s1 = ws_err s0"
    "ws_hasReturned s1 = ws_hasReturned s0" "ws_readTime s1 = rt"
    by (rule handle_up_to_date [OF open0 assms(6), where rest = rest])
  have loop: "handle_loop ts (opened # map received msgs @ received (ListenResponse_TargetChange tc) # received (ListenResponse_TargetChange tc') # rest) s
      = Some (rest, s1)"
    using handle_opened [OF assms(4)] handle_documents [of "s\<lparr>ws_open := True\<rparr>" K ts msgs] assms(5) s1(1) by (simp add: s0_def)
  have ok: "same_docs K (ws_docTree s) (ws_docMap s)" "changes_ok K ?cm"
    using assms(1) record_changes_ok [OF assms(5)] by (simp_all add: watch_ok_def)
  obtain sn where sn: "computeSnapshot cow (Suc cow) (ws_docTree s) (ws_docMap s) ?cm rt = Some sn"
    "same_docs K (sn_tree sn) (sn_docMap sn)" "bt_less (sn_tree sn) = bt_less (ws_docTree s)"
    "map_of (sn_docMap sn) = merged rt (ws_docMap s) ?cm"
    "docs (sn_tree sn) = fold apply_change (sn_changes sn) (docs (ws_docTree s))"
    "\<not> sn_cloned sn \<longrightarrow> sn_tree sn = ws_docTree s \<and> sn_changes sn = []"
    by (rule computeSnapshot_ok [OF ok])
  let ?s' = "s1\<lparr>ws_docMap := sn_docMap sn, ws_docTree := sn_tree sn, ws_changeMap := [], ws_hasReturned := True\<rparr>"
  have "nextSnapshot ts cow (opened # map received msgs @ received (ListenResponse_TargetChange tc) # received (ListenResponse_TargetChange tc') # rest) s
      = Some (rest, ?s', Inr (sn_tree sn, sn_changes sn, rt))"
    using assms(2,3) sn(1) s1 loop by (simp add: nextSnapshot_def s0_def) (subst nextSnapshot_loop.simps, simp add: Let_def)
  with sn(2,4) show thesis by (intro that [of ?s' "sn_tree sn" "sn_changes sn"]) simp_all
qed

section \<open>Properties\<close>

text \<open>C6: Snapshots of a query follow from each other.  Whatever the listen stream delivers (changes, resets, filters, broken
  connections), as long as its documents can be ordered by the query: each snapshot's list of changes, applied to the documents of the
  snapshot before it (at first to none), gives the documents of the snapshot, and these are in the order of the query.\<close>

theorem query_snapshots_chained:
  assumes "newWatchStream cow (compareFunc orders) = Some s" "snapshots ts cow' ioss s = Some (s', rs, e)"
    and "\<forall>ios\<in>set ioss. ios_ok (orderable (compare_orders orders)) ts ios"
  shows "chained [] rs \<and> (\<forall>r\<in>set rs. sorted_wrt (watch_less (compareFunc orders)) (docs (fst r)))"
  using snapshots_chained [OF assms(2,3) newWatchStream_ok(1) [OF assms(1)]] newWatchStream_ok(2,4) [OF assms(1)] by simp

text \<open>C32: A stream that is up to date returns a snapshot.  If the stream of a query can be opened and the server sends any well-formed
  messages about documents, then \<^verbatim>\<open>CURRENT\<close>, then a \<^verbatim>\<open>NO_CHANGE\<close> for all targets with a time of reading, the first call
  of \<^verbatim>\<open>nextSnapshot\<close> returns, with this time and exactly the documents that the messages have left, each under its name.\<close>

theorem first_snapshot_returned:
  assumes "newWatchStream cow (compareFunc orders) = Some s"
    and "list_all (doc_message (orderable (compare_orders orders)) ts) msgs" "up_to_date ts rt tc tc'"
  shows "\<exists>s' tree changes.
      nextSnapshot ts cow' (opened # map received msgs @ received (ListenResponse_TargetChange tc) # received (ListenResponse_TargetChange tc') # rest) s
        = Some (rest, s', Inr (tree, changes, rt))
    \<and> (\<forall>d. d \<in> set (docs tree) \<longleftrightarrow>
          (\<exists>e. map_of (fold (record_change ts) msgs []) (ds_path d) = Some (Some e) \<and> d = e\<lparr>ds_readTime := rt\<rparr>))"
proof -
  note n = newWatchStream_ok [OF assms(1)]
  obtain s' tree changes where r:
    "nextSnapshot ts cow' (opened # map received msgs @ received (ListenResponse_TargetChange tc) # received (ListenResponse_TargetChange tc') # rest) s
       = Some (rest, s', Inr (tree, changes, rt))"
    "same_docs (orderable (compare_orders orders)) tree (ws_docMap s')"
    "map_of (ws_docMap s') = merged rt (ws_docMap s) (fold (record_change ts) msgs (ws_changeMap s))"
    by (rule first_snapshot [OF n(1,3,7,8) assms(2,3), where rest = rest and cow = cow'])
  have "d \<in> set (docs tree) \<longleftrightarrow> map_of (ws_docMap s') (ds_path d) = Some d" for d
    using same_docs_lookup [OF r(2)] by simp
  then have "d \<in> set (docs tree) \<longleftrightarrow>
      (\<exists>e. map_of (fold (record_change ts) msgs []) (ds_path d) = Some (Some e) \<and> d = e\<lparr>ds_readTime := rt\<rparr>)" for d
    by (auto simp: r(3) merged_def n(5,6) split: option.splits)
  with r(1) show ?thesis by blast
qed

text \<open>A document and two messages.\<close>

definition sample_doc :: document where
  "sample_doc = \<lparr>doc_name = ''projects/p/databases/d/documents/c/x'', doc_fields = [], doc_createTime = (1, 0), doc_updateTime = (2, 0)\<rparr>"

definition sample_current :: TargetChange where
  "sample_current = \<lparr>tc_TargetChangeType = CURRENT, tc_TargetIds = [214], tc_Cause = None, tc_ResumeToken = Some ''t'', tc_ReadTime = None\<rparr>"

definition sample_no_change :: TargetChange where
  "sample_no_change = \<lparr>tc_TargetChangeType = NO_CHANGE, tc_TargetIds = [], tc_Cause = None, tc_ResumeToken = Some ''t'', tc_ReadTime = Some (7, 0)\<rparr>"

lemma sample_messages:
  "doc_message (orderable (compare_orders [])) (\<lambda>t. Some (fst t)) (ListenResponse_DocumentChange sample_doc [214] [])"
  "up_to_date (\<lambda>t. Some (fst t)) 7 sample_current sample_no_change"
  by (simp_all add: doc_message_def sample_doc_def pathToDoc_def parseDocumentPath_def idsToRef_def newDocRef_def newTopLevelCollRef_def
      newDocumentSnapshot_def hasWatchTargetID_def watchTargetID_def orderable_def compare_orders_def up_to_date_def
      sample_current_def sample_no_change_def eval_nat_numeral)

definition sample_stream :: watchStream where
  "sample_stream = \<lparr>ws_open = False, ws_resumeToken = None, ws_backoff = 0, ws_err = None, ws_readTime = 0, ws_current = False,
     ws_hasReturned = False, ws_docTree = \<lparr>bt_degree = 4, bt_less = watch_less (compareFunc []), bt_root = None, bt_cow = 0\<rparr>,
     ws_docMap = [], ws_changeMap = []\<rparr>"

lemma sample_stream_new: "newWatchStream 0 (compareFunc []) = Some sample_stream"
  by (simp add: newWatchStream_def New_def btreeDegree_def sample_stream_def)

theorem first_snapshot_returned_witness:
  "\<exists>s' tree changes. nextSnapshot (\<lambda>t. Some (fst t)) 1
      [opened, received (ListenResponse_DocumentChange sample_doc [214] []),
       received (ListenResponse_TargetChange sample_current), received (ListenResponse_TargetChange sample_no_change)] sample_stream
        = Some ([], s', Inr (tree, changes, 7))
    \<and> \<lparr>ds_path = ''projects/p/databases/d/documents/c/x'', ds_fields = [], ds_createTime = 1, ds_updateTime = 2, ds_readTime = 7\<rparr> \<in> set (docs tree)"
proof -
  have "list_all (doc_message (orderable (compare_orders [])) (\<lambda>t. Some (fst t))) [ListenResponse_DocumentChange sample_doc [214] []]"
    using sample_messages(1) by simp
  from first_snapshot_returned [OF sample_stream_new this sample_messages(2), of 1 "[]"]
  show ?thesis
    by (fastforce simp: record_change_def hasWatchTargetID_def watchTargetID_def newDocumentSnapshot_def sample_doc_def)
qed

theorem query_snapshots_chained_witness:
  "\<exists>s' tree changes. snapshots (\<lambda>t. Some (fst t)) 1
      [[opened, received (ListenResponse_DocumentChange sample_doc [214] []),
        received (ListenResponse_TargetChange sample_current), received (ListenResponse_TargetChange sample_no_change)]] sample_stream
        = Some (s', [(tree, changes, 7)], None)
    \<and> docs tree = fold apply_change changes []"
proof -
  let ?ts = "\<lambda>t :: timestamp. Some (fst t)"
  let ?ios = "[opened, received (ListenResponse_DocumentChange sample_doc [214] []),
        received (ListenResponse_TargetChange sample_current), received (ListenResponse_TargetChange sample_no_change)]"
  note n = newWatchStream_ok [OF sample_stream_new]
  have m: "list_all (doc_message (orderable (compare_orders [])) ?ts) [ListenResponse_DocumentChange sample_doc [214] []]"
    using sample_messages(1) by simp
  obtain s' tree changes where "nextSnapshot ?ts 1 (opened # map received [ListenResponse_DocumentChange sample_doc [214] []] @
      received (ListenResponse_TargetChange sample_current) # received (ListenResponse_TargetChange sample_no_change) # []) sample_stream
      = Some ([], s', Inr (tree, changes, 7))"
    by (rule first_snapshot [OF n(1,3,7,8) m sample_messages(2)])
  then have r: "snapshots ?ts 1 [?ios] sample_stream = Some (s', [(tree, changes, 7)], None)" by simp
  have "\<forall>ios\<in>set [?ios]. ios_ok (orderable (compare_orders [])) ?ts ios"
    using sample_messages(1) by (auto simp: ios_ok_def response_ok_def doc_message_def sample_current_def sample_no_change_def split: sum.splits)
  from query_snapshots_chained [OF sample_stream_new r this] r show ?thesis by auto
qed

lemma nextSnapshot_loop_err:
  assumes "nextSnapshot_loop ts cow ios s = Some (ios', s', Inl e)"
  shows "ws_err s' = Some e"
  using assms
proof (induction ts cow ios s "(ios', s', Inl e :: watch_error + docTree \<times> DocumentChange list \<times> int)" arbitrary: ios' s'
    rule: nextSnapshot_loop.raw_induct [rotated, consumes 1])
  case (1 rec ts cow ios s)
  then show ?case by (auto simp: bind_eq_Some_conv Let_def split: option.splits if_splits)
qed

text \<open>C33: Errors are sticky.  Once \<^verbatim>\<open>nextSnapshot\<close> has returned an error, every later call returns the same error and receives nothing,
  also after the stream has been stopped; and a call after \<^verbatim>\<open>stop\<close> always returns an error: the earlier one, the one of closing the
  stream, or \<^verbatim>\<open>io.EOF\<close>.\<close>

theorem nextSnapshot_error_sticky:
  "(nextSnapshot ts cow ios s = Some (ios', s', Inl e) \<longrightarrow>
      nextSnapshot ts2 cow2 ios2 s' = Some (ios2, s', Inl e)
    \<and> nextSnapshot ts2 cow2 ios2 (watchStream_stop c s') = Some (ios2, s', Inl e))
   \<and> (ws_err s = None \<longrightarrow>
      nextSnapshot ts2 cow2 ios2 (watchStream_stop c s)
        = Some (ios2, watchStream_stop c s, Inl (case c of Some err \<Rightarrow> if ws_open s then err else watchEOF | None \<Rightarrow> watchEOF)))"
proof -
  have "ws_err s' = Some e" if "nextSnapshot ts cow ios s = Some (ios', s', Inl e)"
    using that nextSnapshot_loop_err by (auto simp: nextSnapshot_def split: option.splits)
  then show ?thesis
    by (auto simp: nextSnapshot_def watchStream_stop_def watchStream_close_def split: option.splits)
qed

theorem nextSnapshot_error_sticky_witness:
  "nextSnapshot (\<lambda>t. None) 5 [opened] (watchStream_stop None (sample_stream\<lparr>ws_err := Some unknownResponse\<rparr>))
     = Some ([opened], sample_stream\<lparr>ws_err := Some unknownResponse\<rparr>, Inl unknownResponse)
   \<and> nextSnapshot (\<lambda>t. None) 5 [opened] (watchStream_stop None sample_stream) = Some ([opened], watchStream_stop None sample_stream, Inl watchEOF)"
proof -
  have "nextSnapshot (\<lambda>t. None) 1 [] (sample_stream\<lparr>ws_err := Some unknownResponse\<rparr>)
    = Some ([], sample_stream\<lparr>ws_err := Some unknownResponse\<rparr>, Inl unknownResponse)" by (simp add: nextSnapshot_def)
  moreover have "ws_err sample_stream = None" by (simp add: sample_stream_def)
  ultimately show ?thesis
    using nextSnapshot_error_sticky [of "\<lambda>t. None" 1 "[]" "sample_stream\<lparr>ws_err := Some unknownResponse\<rparr>" "[]"
        "sample_stream\<lparr>ws_err := Some unknownResponse\<rparr>" unknownResponse "\<lambda>t. None" 5 "[opened]" None]
      nextSnapshot_error_sticky [of "\<lambda>t. None" 1 "[]" sample_stream "[]" sample_stream unknownResponse "\<lambda>t. None" 5 "[opened]" None] by simp
qed

lemma handle_transient:
  assumes "ws_open s" "\<not> isPermanentWatchError e"
  shows "handle_loop ts (recvFailed e # slept # opened # ios) s
    = handle_loop ts ios (s\<lparr>ws_changeMap := [], ws_backoff := Suc (ws_backoff s), ws_open := True\<rparr>)"
proof -
  have "recv (recvFailed e # slept # opened # ios) s = recv ios (s\<lparr>ws_changeMap := [], ws_backoff := Suc (ws_backoff s), ws_open := True\<rparr>)"
    using assms by (simp add: recv.simps [of "_ # _"] recv_open.simps [of "_ # _"] recv.simps [of ios] Let_def)
  then show ?thesis by (subst (1 2) handle_loop.simps) (simp add: handleNextMessage_def)
qed

text \<open>The changes that messages record on top of others.\<close>

lemma record_change_map:
  "map_of (record_change ts res cm) n = (case map_of (record_change ts res []) n of None \<Rightarrow> map_of cm n | Some c \<Rightarrow> Some c)"
  by (auto simp: record_change_def update_conv' split: ListenResponse.split sum.split)

lemma record_changes_map:
  "map_of (fold (record_change ts) msgs cm) n = (case map_of (fold (record_change ts) msgs []) n of None \<Rightarrow> map_of cm n | Some c \<Rightarrow> Some c)"
proof (induction msgs arbitrary: cm)
  case (Cons res msgs)
  show ?case
    using Cons [of "record_change ts res cm"] Cons [of "record_change ts res []"] record_change_map [of ts res cm n]
    by (simp split: option.splits)
qed simp

lemma snapshot_names:
  assumes "same_docs K t m" "map_of m = merged rt dm cm"
  shows "n \<in> ds_path ` set (docs t) \<longleftrightarrow>
      (case map_of cm n of None \<Rightarrow> map_of dm n \<noteq> None | Some c \<Rightarrow> c \<noteq> None)"
proof -
  have "n \<in> ds_path ` set (docs t) \<longleftrightarrow> map_of m n \<noteq> None"
    using same_docs_lookup [OF assms(1), of n] by (auto simp: image_iff)
  then show ?thesis by (simp add: assms(2) merged_def split: option.split)
qed

text \<open>The snapshot that \<^verbatim>\<open>nextSnapshot\<close> computes when it is up to date after some messages about documents.\<close>

lemma snapshot_after_messages:
  assumes "watch_ok K s" "ws_open s" "list_all (doc_message K ts) msgs" "up_to_date ts rt tc tc'"
  obtains s' sn where
    "handle_loop ts (map received msgs @ [received (ListenResponse_TargetChange tc), received (ListenResponse_TargetChange tc')]) s = Some ([], s')"
    "computeSnapshot c1 c2 (ws_docTree s') (ws_docMap s') (ws_changeMap s') (ws_readTime s') = Some sn"
    "\<And>n. n \<in> ds_path ` set (docs (sn_tree sn)) \<longleftrightarrow>
       (case map_of (fold (record_change ts) msgs (ws_changeMap s)) n of None \<Rightarrow> map_of (ws_docMap s) n \<noteq> None | Some c \<Rightarrow> c \<noteq> None)"
proof -
  let ?cm = "fold (record_change ts) msgs (ws_changeMap s)"
  let ?s = "s\<lparr>ws_changeMap := ?cm\<rparr>"
  have "ws_open ?s" using assms(2) by simp
  from handle_up_to_date [OF this assms(4), where rest = "[]"] obtain s' where s':
    "handle_loop ts [received (ListenResponse_TargetChange tc), received (ListenResponse_TargetChange tc')] ?s = Some ([], s')"
    "ws_changeMap s' = ?cm" "ws_docMap s' = ws_docMap s" "ws_docTree s' = ws_docTree s" by auto
  have ok: "same_docs K (ws_docTree s) (ws_docMap s)" "changes_ok K ?cm"
    using assms(1) record_changes_ok [OF assms(3)] by (simp_all add: watch_ok_def)
  obtain sn where sn: "computeSnapshot c1 c2 (ws_docTree s) (ws_docMap s) ?cm (ws_readTime s') = Some sn"
    "same_docs K (sn_tree sn) (sn_docMap sn)" "map_of (sn_docMap sn) = merged (ws_readTime s') (ws_docMap s) ?cm"
    by (rule computeSnapshot_ok [OF ok]) blast
  show thesis
    by (rule that [of s' sn]) (use handle_documents [OF assms(2,3)] s' sn(1) snapshot_names [OF sn(2,3)] in simp_all)
qed


text \<open>An open stream that has returned one document.\<close>

definition sample_watching :: watchStream where
  "sample_watching =
     (let d = \<lparr>ds_path = ''projects/p/databases/d/documents/c/x'', ds_fields = [], ds_createTime = 1, ds_updateTime = 2, ds_readTime = 7\<rparr>
      in sample_stream\<lparr>ws_open := True, ws_hasReturned := True, ws_docMap := [(ds_path d, d)],
           ws_docTree := (ws_docTree sample_stream)\<lparr>bt_root := Some (Node [(d, ())] [] 1 0)\<rparr>\<rparr>)"

lemma sample_watching_docs: "same_docs (orderable (compare_orders [])) (ws_docTree sample_watching) (ws_docMap sample_watching)"
proof -
  have "tree_ok (ws_docTree sample_watching)"
    by (auto simp: sample_watching_def sample_stream_def tree_ok_def sorted_items_def Let_def intro!: exI [of _ 0])
  then show ?thesis
    using query_order [of "[]"] query_docs [of "[]"]
    by (simp add: same_docs_def keys_ok_def sample_watching_def sample_stream_def Let_def elems_def docs_def orderable_def compare_orders_def)
qed


end
