(* ===== verification/Bigtable_Reader.thy ===== *)
theory Bigtable_Reader
  imports Main "HOL-Library.AList" "HOL-Library.List_Lexorder" "HOL-Library.Char_ord"
begin

text \<open>
  The reader of Bigtable rows (\<^verbatim>\<open>bigtable/reader.go\<close>): a state machine that assembles rows from the cell chunks of a response
  stream.  Byte strings are strings of characters in byte order; a slice that the code tests against nil is an
  option.  A row maps column families to items: an association list in the order in which families were first seen, which
  nothing depends on.  \<open>None\<close> as a result is a panic (a write to a nil map).
\<close>

section \<open>Rows and chunks\<close>

record ReadItem =
  ri_Row :: string
  ri_Column :: string
  ri_Timestamp :: int
  ri_Value :: "string option"
  ri_Labels :: "string list"

type_synonym Row = "(string \<times> ReadItem list) list"

fun Row_Key :: "Row \<Rightarrow> string" where
  "Row_Key [] = []"
| "Row_Key ((fam, its) # r) = (case its of [] \<Rightarrow> Row_Key r | ri # _ \<Rightarrow> ri_Row ri)"

text \<open>\<^verbatim>\<open>RowStatus\<close> is a oneof: nothing, or a reset or commit flag.\<close>

datatype RowStatus = noStatus | ResetRow bool | CommitRow bool

record CellChunk =
  cc_RowKey :: "string option"
  cc_FamilyName :: "string option"
  cc_Qualifier :: "string option"
  cc_TimestampMicros :: int
  cc_Labels :: "string list"
  cc_Value :: "string option"
  cc_ValueSize :: int
  cc_RowStatus :: RowStatus

definition GetResetRow :: "CellChunk \<Rightarrow> bool" where
  "GetResetRow cc = (case cc_RowStatus cc of ResetRow b \<Rightarrow> b | _ \<Rightarrow> False)"

definition GetCommitRow :: "CellChunk \<Rightarrow> bool" where
  "GetCommitRow cc = (case cc_RowStatus cc of CommitRow b \<Rightarrow> b | _ \<Rightarrow> False)"

section \<open>The reader\<close>

datatype rrState = newRow | rowInProgress | cellInProgress

record chunkReader =
  cr_state :: rrState
  cr_curKey :: "string option"
  cr_curLabels :: "string list"
  cr_curFam :: string
  cr_curQual :: "string option"
  cr_curTS :: int
  cr_curVal :: "string option"
  cr_curRow :: "Row option"
  cr_lastKey :: string

definition newChunkReader :: chunkReader where
  "newChunkReader = \<lparr>cr_state = newRow, cr_curKey = None, cr_curLabels = [], cr_curFam = [], cr_curQual = None, cr_curTS = 0,
     cr_curVal = None, cr_curRow = None, cr_lastKey = []\<rparr>"

datatype chunk_error =
    resetBetweenRows | missingKeyField | outOfOrderRowKey | newRowKeyInRow | familyWithoutQualifier | noCachedCell
  | cellKeyInCell | resetWithOtherFields | commitInCell | invalidStateAtEnd

definition isAnyKeyPresent :: "CellChunk \<Rightarrow> bool" where
  "isAnyKeyPresent cc \<longleftrightarrow>
     cc_RowKey cc \<noteq> None \<or> cc_FamilyName cc \<noteq> None \<or> cc_Qualifier cc \<noteq> None \<or> cc_TimestampMicros cc \<noteq> 0"

definition validateRowStatus :: "CellChunk \<Rightarrow> chunk_error option" where
  "validateRowStatus cc =
     (if GetResetRow cc \<and> (isAnyKeyPresent cc \<or> cc_Value cc \<noteq> None \<or> cc_ValueSize cc \<noteq> 0 \<or> cc_Labels cc \<noteq> [])
      then Some resetWithOtherFields
      else if GetCommitRow cc \<and> cc_ValueSize cc > 0 then Some commitInCell
      else None)"

definition validateNewRow :: "CellChunk \<Rightarrow> chunkReader \<Rightarrow> chunk_error option" where
  "validateNewRow cc cr =
     (if GetResetRow cc then Some resetBetweenRows
      else if cc_RowKey cc = None \<or> cc_FamilyName cc = None \<or> cc_Qualifier cc = None then Some missingKeyField
      else if cr_lastKey cr \<noteq> [] \<and> cr_lastKey cr \<ge> the (cc_RowKey cc) then Some outOfOrderRowKey
      else None)"

definition validateRowInProgress :: "CellChunk \<Rightarrow> chunkReader \<Rightarrow> chunk_error option" where
  "validateRowInProgress cc cr =
     (case validateRowStatus cc of
        Some e \<Rightarrow> Some e
      | None \<Rightarrow>
          if cc_RowKey cc \<noteq> None \<and> cc_RowKey cc \<noteq> cr_curKey cr then Some newRowKeyInRow
          else if cc_FamilyName cc \<noteq> None \<and> cc_Qualifier cc = None then Some familyWithoutQualifier
          else None)"

definition validateCellInProgress :: "CellChunk \<Rightarrow> chunkReader \<Rightarrow> chunk_error option" where
  "validateCellInProgress cc cr =
     (case validateRowStatus cc of
        Some e \<Rightarrow> Some e
      | None \<Rightarrow>
          if cr_curVal cr = None then Some noCachedCell
          else if \<not> GetResetRow cc \<and> isAnyKeyPresent cc then Some cellKeyInCell
          else None)"

text \<open>Conversion of a byte slice to a string, and \<^verbatim>\<open>append\<close>: nil is empty.\<close>

definition go_string :: "string option \<Rightarrow> string" where
  "go_string b = (case b of None \<Rightarrow> [] | Some s \<Rightarrow> s)"

definition resetToNewRow :: "chunkReader \<Rightarrow> chunkReader" where
  "resetToNewRow cr = cr\<lparr>cr_curKey := None, cr_curFam := [], cr_curQual := None, cr_curVal := None, cr_curRow := None,
     cr_curTS := 0, cr_state := newRow\<rparr>"

definition finishCell :: "chunkReader \<Rightarrow> chunkReader option" where
  "finishCell cr =
     (let ri = \<lparr>ri_Row = go_string (cr_curKey cr), ri_Column = cr_curFam cr @ '':'' @ go_string (cr_curQual cr),
                ri_Timestamp = cr_curTS cr, ri_Value = cr_curVal cr, ri_Labels = cr_curLabels cr\<rparr>
      in case cr_curRow cr of
           None \<Rightarrow> None
         | Some row \<Rightarrow>
             Some (cr\<lparr>cr_curRow := Some (AList.update (cr_curFam cr)
                        ((case map_of row (cr_curFam cr) of None \<Rightarrow> [] | Some its \<Rightarrow> its) @ [ri]) row),
                      cr_curVal := None, cr_curLabels := []\<rparr>))"

definition commitRow :: "chunkReader \<Rightarrow> Row option \<times> chunkReader" where
  "commitRow cr =
     (let row = cr_curRow cr
      in (row, resetToNewRow (cr\<lparr>cr_lastKey := Row_Key (case row of None \<Rightarrow> [] | Some r \<Rightarrow> r)\<rparr>)))"

definition handleCellValue :: "CellChunk \<Rightarrow> chunkReader \<Rightarrow> (Row option \<times> chunkReader) option" where
  "handleCellValue cc cr =
     (if cc_ValueSize cc > 0
      then let cr1 = (if cr_curVal cr = None then cr\<lparr>cr_curVal := Some [], cr_curLabels := cc_Labels cc\<rparr> else cr)
           in Some (None, cr1\<lparr>cr_curVal := Some (go_string (cr_curVal cr1) @ go_string (cc_Value cc)), cr_state := cellInProgress\<rparr>)
      else let cr1 = (if cr_curVal cr = None then cr\<lparr>cr_curVal := cc_Value cc, cr_curLabels := cc_Labels cc\<rparr>
                      else cr\<lparr>cr_curVal := Some (go_string (cr_curVal cr) @ go_string (cc_Value cc))\<rparr>)
           in case finishCell cr1 of
                None \<Rightarrow> None
              | Some cr2 \<Rightarrow> if GetCommitRow cc then Some (commitRow cr2) else Some (None, cr2\<lparr>cr_state := rowInProgress\<rparr>))"

definition Process :: "CellChunk \<Rightarrow> chunkReader \<Rightarrow> ((chunk_error + Row option) \<times> chunkReader) option" where
  "Process cc cr =
     (case cr_state cr of
        newRow \<Rightarrow>
          (case validateNewRow cc cr of
             Some e \<Rightarrow> Some (Inl e, cr)
           | None \<Rightarrow>
               map_option (\<lambda>(row, cr'). (Inr row, cr'))
                 (handleCellValue cc (cr\<lparr>cr_curRow := Some [], cr_curKey := cc_RowKey cc, cr_curFam := the (cc_FamilyName cc),
                    cr_curQual := cc_Qualifier cc, cr_curTS := cc_TimestampMicros cc\<rparr>)))
      | rowInProgress \<Rightarrow>
          (case validateRowInProgress cc cr of
             Some e \<Rightarrow> Some (Inl e, cr)
           | None \<Rightarrow>
               if GetResetRow cc then Some (Inr None, resetToNewRow cr)
               else let cr1 = (case cc_FamilyName cc of Some fam \<Rightarrow> cr\<lparr>cr_curFam := fam\<rparr> | None \<Rightarrow> cr);
                        cr2 = (case cc_Qualifier cc of Some q \<Rightarrow> cr1\<lparr>cr_curQual := Some q\<rparr> | None \<Rightarrow> cr1)
                    in map_option (\<lambda>(row, cr'). (Inr row, cr')) (handleCellValue cc (cr2\<lparr>cr_curTS := cc_TimestampMicros cc\<rparr>)))
      | cellInProgress \<Rightarrow>
          (case validateCellInProgress cc cr of
             Some e \<Rightarrow> Some (Inl e, cr)
           | None \<Rightarrow>
               if GetResetRow cc then Some (Inr None, resetToNewRow cr)
               else map_option (\<lambda>(row, cr'). (Inr row, cr')) (handleCellValue cc cr)))"

definition chunkReader_Close :: "chunkReader \<Rightarrow> chunk_error option" where
  "chunkReader_Close cr = (if cr_state cr \<noteq> newRow then Some invalidStateAtEnd else None)"

text \<open>The chunks of a response, one after the other, up to the first error; the rows that are completed.\<close>

fun process_all :: "CellChunk list \<Rightarrow> chunkReader \<Rightarrow> (chunk_error option \<times> Row list \<times> chunkReader) option" where
  "process_all [] cr = Some (None, [], cr)"
| "process_all (cc # ccs) cr =
     (case Process cc cr of
        None \<Rightarrow> None
      | Some (Inl e, cr1) \<Rightarrow> Some (Some e, [], cr1)
      | Some (Inr None, cr1) \<Rightarrow> process_all ccs cr1
      | Some (Inr (Some row), cr1) \<Rightarrow>
          (case process_all ccs cr1 of None \<Rightarrow> None | Some (e, rows, cr2) \<Rightarrow> Some (e, row # rows, cr2)))"

section \<open>The invariant\<close>

text \<open>A row in progress has a key and holds only items of this row; it has an item when no cell is open.\<close>

definition row_of_key :: "string \<Rightarrow> Row \<Rightarrow> bool" where
  "row_of_key k r \<longleftrightarrow> (\<forall>p\<in>set r. snd p \<noteq> [] \<and> (\<forall>ri\<in>set (snd p). ri_Row ri = k))"

definition reader_ok :: "chunkReader \<Rightarrow> bool" where
  "reader_ok cr \<longleftrightarrow>
     (case cr_state cr of
        newRow \<Rightarrow> cr_curVal cr = None
      | rowInProgress \<Rightarrow>
          cr_curVal cr = None \<and> (\<exists>k r. cr_curKey cr = Some k \<and> cr_curRow cr = Some r \<and> r \<noteq> [] \<and> row_of_key k r
            \<and> (cr_lastKey cr \<noteq> [] \<longrightarrow> cr_lastKey cr < k))
      | cellInProgress \<Rightarrow>
          cr_curVal cr \<noteq> None \<and> (\<exists>k r. cr_curKey cr = Some k \<and> cr_curRow cr = Some r \<and> row_of_key k r
            \<and> (cr_lastKey cr \<noteq> [] \<longrightarrow> cr_lastKey cr < k)))"

lemma Row_Key_row: "row_of_key k r \<Longrightarrow> r \<noteq> [] \<Longrightarrow> Row_Key r = k"
  by (cases r) (auto simp: row_of_key_def split: list.split)

lemma row_of_key_update:
  assumes "row_of_key k r" "ri_Row ri = k"
  shows "row_of_key k (AList.update fam ((case map_of r fam of None \<Rightarrow> [] | Some its \<Rightarrow> its) @ [ri]) r)"
    and "AList.update fam v r \<noteq> []"
proof -
  have upd: "p \<in> set (AList.update fam v r) \<Longrightarrow> p = (fam, v) \<or> p \<in> set r" for p v
    by (induction r) (auto split: if_splits)
  have "\<forall>x\<in>set its. ri_Row x = k" if "map_of r fam = Some its" for its
    using map_of_SomeD [OF that] assms(1) by (auto simp: row_of_key_def)
  with assms upd show "row_of_key k (AList.update fam ((case map_of r fam of None \<Rightarrow> [] | Some its \<Rightarrow> its) @ [ri]) r)"
    unfolding row_of_key_def by (fastforce split: option.splits)
  show "AList.update fam v r \<noteq> []" by (cases r) auto
qed

text \<open>A reader in the middle of a row.\<close>

definition in_row :: "string \<Rightarrow> Row \<Rightarrow> chunkReader \<Rightarrow> bool" where
  "in_row k r cr \<longleftrightarrow> cr_curKey cr = Some k \<and> cr_curRow cr = Some r \<and> row_of_key k r \<and> (cr_lastKey cr \<noteq> [] \<longrightarrow> cr_lastKey cr < k)"

text \<open>What a completed row has to satisfy.\<close>

definition completes :: "chunkReader \<Rightarrow> Row option \<Rightarrow> chunkReader \<Rightarrow> bool" where
  "completes cr res cr' \<longleftrightarrow>
     reader_ok cr'
   \<and> (case res of
        None \<Rightarrow> cr_lastKey cr' = cr_lastKey cr
      | Some row \<Rightarrow> row \<noteq> [] \<and> row_of_key (Row_Key row) row \<and> cr_lastKey cr' = Row_Key row \<and> cr_state cr' = newRow
          \<and> (cr_lastKey cr \<noteq> [] \<longrightarrow> cr_lastKey cr < Row_Key row))"

lemma completes_cong: "completes a res cr' \<Longrightarrow> cr_lastKey a = cr_lastKey b \<Longrightarrow> completes b res cr'"
  by (simp only: completes_def)

lemma finishCell_ok:
  assumes "in_row k r cr"
  obtains r' where "finishCell cr = Some (cr\<lparr>cr_curRow := Some r', cr_curVal := None, cr_curLabels := []\<rparr>)" "row_of_key k r'" "r' \<noteq> []"
proof -
  let ?ri = "\<lparr>ri_Row = go_string (cr_curKey cr), ri_Column = cr_curFam cr @ '':'' @ go_string (cr_curQual cr),
                ri_Timestamp = cr_curTS cr, ri_Value = cr_curVal cr, ri_Labels = cr_curLabels cr\<rparr>"
  let ?r = "AList.update (cr_curFam cr) ((case map_of r (cr_curFam cr) of None \<Rightarrow> [] | Some its \<Rightarrow> its) @ [?ri]) r"
  have "ri_Row ?ri = k" using assms by (simp add: in_row_def go_string_def)
  with assms row_of_key_update [of k r ?ri] have "row_of_key k ?r" "?r \<noteq> []" by (auto simp: in_row_def)
  moreover have "finishCell cr = Some (cr\<lparr>cr_curRow := Some ?r, cr_curVal := None, cr_curLabels := []\<rparr>)"
    using assms by (simp add: finishCell_def in_row_def Let_def)
  ultimately show thesis using that by blast
qed

lemma handleCellValue_ok:
  assumes "in_row k r cr"
  obtains res cr' where "handleCellValue cc cr = Some (res, cr')" "completes cr res cr'"
proof (cases "cc_ValueSize cc > 0")
  case True
  then show thesis
    using assms by (intro that) (auto simp: handleCellValue_def Let_def completes_def reader_ok_def in_row_def)
next
  case False
  define cr1 where "cr1 = (if cr_curVal cr = None then cr\<lparr>cr_curVal := cc_Value cc, cr_curLabels := cc_Labels cc\<rparr>
                      else cr\<lparr>cr_curVal := Some (go_string (cr_curVal cr) @ go_string (cc_Value cc))\<rparr>)"
  have "in_row k r cr1" using assms by (simp add: in_row_def cr1_def)
  then obtain r' where f: "finishCell cr1 = Some (cr1\<lparr>cr_curRow := Some r', cr_curVal := None, cr_curLabels := []\<rparr>)"
    "row_of_key k r'" "r' \<noteq> []" by (rule finishCell_ok)
  have same: "cr_lastKey cr1 = cr_lastKey cr" "cr_curKey cr1 = cr_curKey cr" by (simp_all add: cr1_def)
  note key = Row_Key_row [OF f(2,3)]
  have h: "handleCellValue cc cr = (if GetCommitRow cc then Some (commitRow (cr1\<lparr>cr_curRow := Some r', cr_curVal := None, cr_curLabels := []\<rparr>))
      else Some (None, cr1\<lparr>cr_curRow := Some r', cr_curVal := None, cr_curLabels := [], cr_state := rowInProgress\<rparr>))"
    using False f(1) by (simp add: handleCellValue_def cr1_def [symmetric] Let_def)
  show thesis
  proof (cases "GetCommitRow cc")
    case True
    have "completes cr (Some r') (snd (commitRow (cr1\<lparr>cr_curRow := Some r', cr_curVal := None, cr_curLabels := []\<rparr>)))"
      using assms f(2,3) key by (simp add: completes_def reader_ok_def commitRow_def resetToNewRow_def in_row_def Let_def)
    then show thesis using that h True by (simp add: commitRow_def Let_def)
  next
    case False
    have "completes cr None (cr1\<lparr>cr_curRow := Some r', cr_curVal := None, cr_curLabels := [], cr_state := rowInProgress\<rparr>)"
      using assms f(2,3) same by (simp add: completes_def reader_ok_def in_row_def)
    then show thesis using that h False by simp
  qed
qed

lemma reset_ok: "completes cr None (resetToNewRow cr)"
  by (simp add: completes_def reader_ok_def resetToNewRow_def)

lemma Process_ok:
  assumes "reader_ok cr"
  obtains (err) e where "Process cc cr = Some (Inl e, cr)"
    | (ok) res cr' where "Process cc cr = Some (Inr res, cr')" "completes cr res cr'"
proof (cases "cr_state cr")
  case newRow
  show thesis
  proof (cases "validateNewRow cc cr")
    case None
    let ?cr = "cr\<lparr>cr_curRow := Some [], cr_curKey := cc_RowKey cc, cr_curFam := the (cc_FamilyName cc),
                    cr_curQual := cc_Qualifier cc, cr_curTS := cc_TimestampMicros cc\<rparr>"
    have "in_row (the (cc_RowKey cc)) [] ?cr"
      using None by (auto simp: validateNewRow_def in_row_def row_of_key_def split: if_splits)
    then obtain res cr' where h: "handleCellValue cc ?cr = Some (res, cr')" "completes ?cr res cr'" by (rule handleCellValue_ok)
    have "completes cr res cr'" by (rule completes_cong [OF h(2)]) simp
    then show thesis using ok [of res cr'] newRow None h(1) by (simp add: Process_def)
  qed (use newRow err in \<open>simp add: Process_def\<close>)
next
  case rowInProgress
  then obtain k r where r: "in_row k r cr" using assms by (auto simp: reader_ok_def in_row_def)
  show thesis
  proof (cases "validateRowInProgress cc cr")
    case None
    define cr2 where "cr2 = (let cr1 = (case cc_FamilyName cc of Some fam \<Rightarrow> cr\<lparr>cr_curFam := fam\<rparr> | None \<Rightarrow> cr)
      in (case cc_Qualifier cc of Some q \<Rightarrow> cr1\<lparr>cr_curQual := Some q\<rparr> | None \<Rightarrow> cr1))\<lparr>cr_curTS := cc_TimestampMicros cc\<rparr>"
    have "in_row k r cr2" "cr_lastKey cr2 = cr_lastKey cr" using r by (simp_all add: in_row_def cr2_def Let_def split: option.split)
    then obtain res cr' where h: "handleCellValue cc cr2 = Some (res, cr')" "completes cr2 res cr'" by (metis handleCellValue_ok)
    then have "completes cr res cr'" using completes_cong \<open>cr_lastKey cr2 = cr_lastKey cr\<close> by blast
    moreover have "Process cc cr = (if GetResetRow cc then Some (Inr None, resetToNewRow cr)
        else map_option (\<lambda>(row, cr'). (Inr row, cr')) (handleCellValue cc cr2))"
      using rowInProgress None by (simp add: Process_def cr2_def Let_def)
    ultimately show thesis
      using ok [of res cr'] ok [of None "resetToNewRow cr"] reset_ok [of cr] h(1) by (cases "GetResetRow cc") simp_all
  qed (use rowInProgress err in \<open>simp add: Process_def\<close>)
next
  case cellInProgress
  then obtain k r where r: "in_row k r cr" using assms by (auto simp: reader_ok_def in_row_def)
  then obtain res cr' where h: "handleCellValue cc cr = Some (res, cr')" "completes cr res cr'" by (rule handleCellValue_ok)
  show thesis
  proof (cases "validateCellInProgress cc cr")
    case None
    then show thesis
      using ok [of res cr'] ok [of None "resetToNewRow cr"] reset_ok [of cr] cellInProgress h
      by (cases "GetResetRow cc") (simp_all add: Process_def)
  qed (use cellInProgress err in \<open>simp add: Process_def\<close>)
qed

text \<open>Keys come in ascending order; only the empty key may repeat, at the start.\<close>

definition key_before :: "Row \<Rightarrow> Row \<Rightarrow> bool" where
  "key_before a b \<longleftrightarrow> Row_Key a < Row_Key b \<or> Row_Key b = []"

lemma process_all_ok:
  assumes "reader_ok cr"
  obtains e rows cr' where "process_all ccs cr = Some (e, rows, cr')" "reader_ok cr'"
    "\<forall>row\<in>set rows. row \<noteq> [] \<and> row_of_key (Row_Key row) row" "sorted_wrt key_before rows"
    "\<forall>row\<in>set rows. cr_lastKey cr \<noteq> [] \<longrightarrow> cr_lastKey cr < Row_Key row"
proof -
  have "\<exists>e rows cr'. process_all ccs cr = Some (e, rows, cr') \<and> reader_ok cr'
      \<and> (\<forall>row\<in>set rows. row \<noteq> [] \<and> row_of_key (Row_Key row) row) \<and> sorted_wrt key_before rows
      \<and> (\<forall>row\<in>set rows. cr_lastKey cr \<noteq> [] \<longrightarrow> cr_lastKey cr < Row_Key row)"
    using assms
  proof (induction ccs arbitrary: cr)
    case (Cons cc ccs)
    from Cons.prems show ?case
    proof (cases rule: Process_ok [of cr cc])
      case (err e)
      then show ?thesis using Cons.prems by simp
    next
      case (ok res cr')
      have r: "reader_ok cr'" using ok(2) by (simp add: completes_def)
      from Cons.IH [OF r] obtain e rows cr2 where p: "process_all ccs cr' = Some (e, rows, cr2)" "reader_ok cr2"
        "\<forall>row\<in>set rows. row \<noteq> [] \<and> row_of_key (Row_Key row) row" "sorted_wrt key_before rows"
        "\<forall>row\<in>set rows. cr_lastKey cr' \<noteq> [] \<longrightarrow> cr_lastKey cr' < Row_Key row" by blast
      show ?thesis
      proof (cases res)
        case None
        then show ?thesis using ok p by (auto simp: completes_def)
      next
        case (Some row)
        have c: "row \<noteq> []" "row_of_key (Row_Key row) row" "cr_lastKey cr' = Row_Key row" "cr_lastKey cr \<noteq> [] \<longrightarrow> cr_lastKey cr < Row_Key row"
          using ok(2) Some by (simp_all add: completes_def)
        have "key_before row x" if "x \<in> set rows" for x
          using p(5) c(3) that by (cases "Row_Key row = []"; cases "Row_Key x") (auto simp: key_before_def)
        moreover have "\<forall>x\<in>set rows. cr_lastKey cr \<noteq> [] \<longrightarrow> cr_lastKey cr < Row_Key x"
          using p(5) c(3,4) by (metis less_trans not_less_Nil)
        ultimately show ?thesis using ok(1) p c Some by (auto simp del: Row_Key.simps)
      qed
    qed
  qed simp
  then show thesis using that by blast
qed

section \<open>Rows as they are sent\<close>

text \<open>A cell of a row with the choices of the server: the pieces its value is split into (with the size announced), whether the row key is repeated,
  and whether family and qualifier are given or those of the cell before hold.\<close>

record sent_cell =
  cl_fam :: string
  cl_qual :: string
  cl_ts :: int
  cl_labels :: "string list"
  cl_pieces :: "string list"
  cl_size :: int
  cl_key_given :: bool
  cl_fam_given :: bool
  cl_qual_given :: bool

definition part :: "int \<Rightarrow> RowStatus \<Rightarrow> string \<Rightarrow> CellChunk" where
  "part sz st p = \<lparr>cc_RowKey = None, cc_FamilyName = None, cc_Qualifier = None, cc_TimestampMicros = 0, cc_Labels = [],
     cc_Value = Some p, cc_ValueSize = sz, cc_RowStatus = st\<rparr>"

definition head_part :: "string \<Rightarrow> sent_cell \<Rightarrow> int \<Rightarrow> RowStatus \<Rightarrow> string \<Rightarrow> CellChunk" where
  "head_part key c sz st p = \<lparr>cc_RowKey = (if cl_key_given c then Some key else None),
     cc_FamilyName = (if cl_fam_given c then Some (cl_fam c) else None), cc_Qualifier = (if cl_qual_given c then Some (cl_qual c) else None),
     cc_TimestampMicros = cl_ts c, cc_Labels = cl_labels c, cc_Value = Some p, cc_ValueSize = sz, cc_RowStatus = st\<rparr>"

fun rest_chunks :: "int \<Rightarrow> RowStatus \<Rightarrow> string list \<Rightarrow> CellChunk list" where
  "rest_chunks sz st [] = []"
| "rest_chunks sz st [p] = [part 0 st p]"
| "rest_chunks sz st (p # q # ps) = part sz noStatus p # rest_chunks sz st (q # ps)"

definition cell_chunks :: "string \<Rightarrow> RowStatus \<Rightarrow> sent_cell \<Rightarrow> CellChunk list" where
  "cell_chunks key st c =
     (case cl_pieces c of
        [] \<Rightarrow> []
      | p # ps \<Rightarrow>
          if ps = [] then [head_part key c 0 st p]
          else head_part key c (cl_size c) noStatus p # rest_chunks (cl_size c) st ps)"

fun row_chunks :: "string \<Rightarrow> RowStatus \<Rightarrow> sent_cell list \<Rightarrow> CellChunk list" where
  "row_chunks key st [] = []"
| "row_chunks key st [c] = cell_chunks key st c"
| "row_chunks key st (c # d # cs) = cell_chunks key noStatus c @ row_chunks key st (d # cs)"

text \<open>What may be left out: in the first cell nothing, later what has not changed; a family comes with a qualifier.\<close>

fun cells_ok :: "(string \<times> string) option \<Rightarrow> sent_cell list \<Rightarrow> bool" where
  "cells_ok prev [] = True"
| "cells_ok prev (c # cs) =
     ((cl_fam_given c \<longrightarrow> cl_qual_given c) \<and> cl_pieces c \<noteq> [] \<and> cl_size c > 0
    \<and> (case prev of
         None \<Rightarrow> cl_key_given c \<and> cl_fam_given c \<and> cl_qual_given c
       | Some (fam, qual) \<Rightarrow> (cl_fam_given c \<or> cl_fam c = fam) \<and> (cl_qual_given c \<or> cl_qual c = qual))
    \<and> cells_ok (Some (cl_fam c, cl_qual c)) cs)"

text \<open>The row that is meant.\<close>

definition add_cell :: "string \<Rightarrow> sent_cell \<Rightarrow> Row \<Rightarrow> Row" where
  "add_cell key c r =
     AList.update (cl_fam c)
       ((case map_of r (cl_fam c) of None \<Rightarrow> [] | Some its \<Rightarrow> its)
        @ [\<lparr>ri_Row = key, ri_Column = cl_fam c @ '':'' @ cl_qual c, ri_Timestamp = cl_ts c,
            ri_Value = Some (concat (cl_pieces c)), ri_Labels = cl_labels c\<rparr>]) r"

definition row_value :: "string \<Rightarrow> sent_cell list \<Rightarrow> Row" where
  "row_value key cs = fold (add_cell key) cs []"

section \<open>Reading them\<close>

lemma process_append:
  "process_all xs cr = Some (None, rows, cr1) \<Longrightarrow>
     process_all (xs @ ys) cr = map_option (\<lambda>(e, rows', cr2). (e, rows @ rows', cr2)) (process_all ys cr1)"
proof (induction xs arbitrary: cr rows)
  case Nil
  then show ?case by (cases "process_all ys cr1") auto
next
  case (Cons x xs)
  then obtain res cr0 where p: "Process x cr = Some (Inr res, cr0)" by (auto split: option.splits sum.splits)
  show ?case
  proof (cases res)
    case None
    then show ?thesis using Cons p by simp
  next
    case (Some row)
    then obtain rows0 where "process_all xs cr0 = Some (None, rows0, cr1)" "rows = row # rows0"
      using Cons.prems p by (auto split: option.splits)
    then show ?thesis using Cons.IH [of cr0 rows0] p Some by (cases "process_all ys cr1") auto
  qed
qed

text \<open>The end of a cell whose value is complete.\<close>

definition cell_done :: "RowStatus \<Rightarrow> chunkReader \<Rightarrow> (chunk_error option \<times> Row list \<times> chunkReader) option" where
  "cell_done st cr =
     (case finishCell cr of
        None \<Rightarrow> None
      | Some cr2 \<Rightarrow>
          if st = CommitRow True then (case commitRow cr2 of (row, cr3) \<Rightarrow> Some (None, (case row of None \<Rightarrow> [] | Some r \<Rightarrow> [r]), cr3))
          else Some (None, [], cr2\<lparr>cr_state := rowInProgress\<rparr>))"

lemma cell_done_state: "cell_done st (cr\<lparr>cr_state := x\<rparr>) = cell_done st cr"
  by (cases cr) (auto simp: cell_done_def finishCell_def commitRow_def resetToNewRow_def Let_def split: option.splits)

definition plain :: "RowStatus \<Rightarrow> bool" where
  "plain st \<longleftrightarrow> st = noStatus \<or> st = CommitRow True"

lemma handle_last:
  assumes "cc_ValueSize cc = 0" "plain (cc_RowStatus cc)" "cr_curVal cr = None \<longrightarrow> cc_Value cc \<noteq> None"
  shows "(case handleCellValue cc cr of None \<Rightarrow> None | Some (row, cr') \<Rightarrow> Some (None :: chunk_error option, (case row of None \<Rightarrow> [] | Some r \<Rightarrow> [r]), cr'))
    = cell_done (cc_RowStatus cc)
        (if cr_curVal cr = None then cr\<lparr>cr_curVal := cc_Value cc, cr_curLabels := cc_Labels cc\<rparr>
         else cr\<lparr>cr_curVal := Some (go_string (cr_curVal cr) @ go_string (cc_Value cc))\<rparr>)"
  using assms by (auto simp: handleCellValue_def cell_done_def GetCommitRow_def plain_def Let_def split: option.splits prod.splits)

lemma process_one:
  assumes "Process cc cr = map_option (\<lambda>(row, cr'). (Inr row, cr')) (handleCellValue cc cr1)"
  shows "process_all [cc] cr
    = (case handleCellValue cc cr1 of None \<Rightarrow> None | Some (row, cr') \<Rightarrow> Some (None, (case row of None \<Rightarrow> [] | Some r \<Rightarrow> [r]), cr'))"
  using assms by (cases "handleCellValue cc cr1") (auto split: option.splits)

lemma rest_run:
  assumes "ps \<noteq> []" "plain st" "sz > 0"
  shows "cr_state cr = cellInProgress \<Longrightarrow> cr_curVal cr = Some v \<Longrightarrow>
    process_all (rest_chunks sz st ps) cr = cell_done st (cr\<lparr>cr_curVal := Some (v @ concat ps)\<rparr>)"
  using assms
proof (induction sz st ps arbitrary: cr v rule: rest_chunks.induct)
  case (2 sz st p)
  have "Process (part 0 st p) cr = map_option (\<lambda>(row, cr'). (Inr row, cr')) (handleCellValue (part 0 st p) cr)"
    using 2 by (auto simp: Process_def validateCellInProgress_def validateRowStatus_def part_def GetResetRow_def GetCommitRow_def
        isAnyKeyPresent_def plain_def)
  from process_one [OF this] handle_last [of "part 0 st p" cr] 2 show ?case by (simp add: part_def go_string_def)
next
  case (3 sz st p q ps)
  let ?cr = "cr\<lparr>cr_curVal := Some (v @ p), cr_state := cellInProgress\<rparr>"
  have "Process (part sz noStatus p) cr = Some (Inr None, ?cr)"
    using 3 by (simp add: Process_def validateCellInProgress_def validateRowStatus_def part_def GetResetRow_def GetCommitRow_def
        isAnyKeyPresent_def handleCellValue_def go_string_def Let_def)
  then have "process_all (rest_chunks sz st (p # q # ps)) cr = process_all (rest_chunks sz st (q # ps)) ?cr" by simp
  also have "\<dots> = cell_done st (?cr\<lparr>cr_curVal := Some ((v @ p) @ concat (q # ps))\<rparr>)"
    by (rule 3(1)) (use 3 in simp_all)
  also have "\<dots> = cell_done st ((cr\<lparr>cr_curVal := Some (v @ concat (p # q # ps))\<rparr>)\<lparr>cr_state := cellInProgress\<rparr>)" by (cases cr) simp
  also have "\<dots> = cell_done st (cr\<lparr>cr_curVal := Some (v @ concat (p # q # ps))\<rparr>)" by (rule cell_done_state)
  finally show ?case .
qed simp

text \<open>A whole cell, once its first chunk is accepted.\<close>

lemma cell_run:
  assumes "cl_pieces c \<noteq> []" "cl_size c > 0" "plain st" "cr_curVal cr1 = None"
    and "\<And>sz st p. plain st \<Longrightarrow> (st = CommitRow True \<longrightarrow> sz = 0) \<Longrightarrow> Process (head_part key c sz st p) cr
          = map_option (\<lambda>(row, cr'). (Inr row, cr')) (handleCellValue (head_part key c sz st p) cr1)"
  shows "process_all (cell_chunks key st c) cr = cell_done st (cr1\<lparr>cr_curVal := Some (concat (cl_pieces c)), cr_curLabels := cl_labels c\<rparr>)"
proof -
  obtain p ps where ps: "cl_pieces c = p # ps" using assms(1) by (cases "cl_pieces c") auto
  show ?thesis
  proof (cases "ps = []")
    case True
    from process_one [OF assms(5) [of st 0 p]] handle_last [of "head_part key c 0 st p" cr1] assms(3,4) True show ?thesis
      by (simp add: cell_chunks_def ps head_part_def)
  next
    case False
    let ?cr = "cr1\<lparr>cr_curVal := Some p, cr_curLabels := cl_labels c, cr_state := cellInProgress\<rparr>"
    have "Process (head_part key c (cl_size c) noStatus p) cr = Some (Inr None, ?cr)"
      using assms(2,4) assms(5) [of noStatus "cl_size c" p] by (simp add: plain_def handleCellValue_def head_part_def go_string_def Let_def)
    then have "process_all (cell_chunks key st c) cr = process_all (rest_chunks (cl_size c) st ps) ?cr"
      using False by (simp add: cell_chunks_def ps)
    also have "\<dots> = cell_done st (?cr\<lparr>cr_curVal := Some (p @ concat ps)\<rparr>)"
      by (rule rest_run) (use False assms(2,3) in simp_all)
    also have "\<dots> = cell_done st ((cr1\<lparr>cr_curVal := Some (concat (cl_pieces c)), cr_curLabels := cl_labels c\<rparr>)\<lparr>cr_state := cellInProgress\<rparr>)"
      by (cases cr1) (simp add: ps)
    finally show ?thesis by (simp only: cell_done_state)
  qed
qed


text \<open>Between rows, and in a row after a complete cell.\<close>

definition at_start :: "string \<Rightarrow> chunkReader \<Rightarrow> bool" where
  "at_start prev cr \<longleftrightarrow> cr_state cr = newRow \<and> cr_curVal cr = None \<and> cr_lastKey cr = prev"

definition entered :: "string \<Rightarrow> Row \<Rightarrow> string \<Rightarrow> string \<Rightarrow> string \<Rightarrow> chunkReader \<Rightarrow> bool" where
  "entered prev r key fam qual cr \<longleftrightarrow>
     cr_lastKey cr = prev \<and> cr_curRow cr = Some r \<and> row_of_key key r \<and> cr_curKey cr = Some key \<and> cr_curFam cr = fam
   \<and> go_string (cr_curQual cr) = qual \<and> cr_curVal cr = None"

lemma row_of_key_add: "row_of_key key r \<Longrightarrow> row_of_key key (add_cell key c r) \<and> add_cell key c r \<noteq> []"
  unfolding add_cell_def by (rule conjI, rule row_of_key_update(1)) simp_all

lemma cell_done_entered:
  assumes "entered prev r key (cl_fam c) (cl_qual c) cr" "cr_curTS cr = cl_ts c"
  shows "\<exists>cr'. cell_done noStatus (cr\<lparr>cr_curVal := Some (concat (cl_pieces c)), cr_curLabels := cl_labels c\<rparr>) = Some (None, [], cr')
      \<and> cr_state cr' = rowInProgress \<and> entered prev (add_cell key c r) key (cl_fam c) (cl_qual c) cr'"
    and "\<exists>cr'. cell_done (CommitRow True) (cr\<lparr>cr_curVal := Some (concat (cl_pieces c)), cr_curLabels := cl_labels c\<rparr>)
        = Some (None, [add_cell key c r], cr') \<and> at_start key cr'"
proof -
  let ?cr = "cr\<lparr>cr_curVal := Some (concat (cl_pieces c)), cr_curLabels := cl_labels c\<rparr>"
  let ?cr' = "?cr\<lparr>cr_curRow := Some (add_cell key c r), cr_curVal := None, cr_curLabels := []\<rparr>"
  have f: "finishCell ?cr = Some ?cr'"
    using assms by (simp add: finishCell_def entered_def add_cell_def go_string_def Let_def)
  have r: "row_of_key key (add_cell key c r)" "add_cell key c r \<noteq> []"
    using assms(1) row_of_key_add by (auto simp: entered_def)
  show "\<exists>cr'. cell_done noStatus ?cr = Some (None, [], cr') \<and> cr_state cr' = rowInProgress
      \<and> entered prev (add_cell key c r) key (cl_fam c) (cl_qual c) cr'"
    using assms(1) f r(1) by (simp add: cell_done_def entered_def)
  show "\<exists>cr'. cell_done (CommitRow True) ?cr = Some (None, [add_cell key c r], cr') \<and> at_start key cr'"
    using f Row_Key_row [OF r] by (simp add: cell_done_def commitRow_def resetToNewRow_def at_start_def Let_def)
qed

text \<open>The first cell of a row, and a later one.\<close>

lemma first_cell:
  assumes "at_start prev cr" "prev \<noteq> [] \<longrightarrow> prev < key" "cells_ok None (c # cs)" "plain st"
  shows "\<exists>cr1. entered prev [] key (cl_fam c) (cl_qual c) cr1 \<and> cr_curTS cr1 = cl_ts c
    \<and> process_all (cell_chunks key st c) cr = cell_done st (cr1\<lparr>cr_curVal := Some (concat (cl_pieces c)), cr_curLabels := cl_labels c\<rparr>)"
proof -
  let ?cr1 = "cr\<lparr>cr_curRow := Some [], cr_curKey := Some key, cr_curFam := cl_fam c, cr_curQual := Some (cl_qual c), cr_curTS := cl_ts c\<rparr>"
  have "Process (head_part key c sz st p) cr = map_option (\<lambda>(row, cr'). (Inr row, cr')) (handleCellValue (head_part key c sz st p) ?cr1)"
    if "plain st" for sz st p
    using assms(1-3) that
    by (auto simp: Process_def validateNewRow_def head_part_def at_start_def GetResetRow_def plain_def)
  then have "process_all (cell_chunks key st c) cr = cell_done st (?cr1\<lparr>cr_curVal := Some (concat (cl_pieces c)), cr_curLabels := cl_labels c\<rparr>)"
    using assms by (intro cell_run) (simp_all add: at_start_def)
  moreover have "entered prev [] key (cl_fam c) (cl_qual c) ?cr1" "cr_curTS ?cr1 = cl_ts c"
    using assms(1) by (simp_all add: at_start_def entered_def row_of_key_def go_string_def)
  ultimately show ?thesis by blast
qed

lemma later_cell:
  assumes "entered prev r key fam qual cr" "cr_state cr = rowInProgress" "cells_ok (Some (fam, qual)) (c # cs)" "plain st"
  shows "\<exists>cr1. entered prev r key (cl_fam c) (cl_qual c) cr1 \<and> cr_curTS cr1 = cl_ts c
    \<and> process_all (cell_chunks key st c) cr = cell_done st (cr1\<lparr>cr_curVal := Some (concat (cl_pieces c)), cr_curLabels := cl_labels c\<rparr>)"
proof -
  define cr1 where "cr1 = (let cr0 = (if cl_fam_given c then cr\<lparr>cr_curFam := cl_fam c\<rparr> else cr)
    in (if cl_qual_given c then cr0\<lparr>cr_curQual := Some (cl_qual c)\<rparr> else cr0)\<lparr>cr_curTS := cl_ts c\<rparr>)"
  have "Process (head_part key c sz st p) cr = map_option (\<lambda>(row, cr'). (Inr row, cr')) (handleCellValue (head_part key c sz st p) cr1)"
    if "plain st" "st = CommitRow True \<longrightarrow> sz = 0" for sz st p
    using assms(1-3) that
    by (auto simp: Process_def validateRowInProgress_def validateRowStatus_def head_part_def entered_def GetResetRow_def GetCommitRow_def
        plain_def cr1_def Let_def)
  moreover have e: "entered prev r key (cl_fam c) (cl_qual c) cr1" "cr_curTS cr1 = cl_ts c"
    using assms(1,3) by (auto simp: entered_def go_string_def cr1_def Let_def)
  ultimately have "process_all (cell_chunks key st c) cr = cell_done st (cr1\<lparr>cr_curVal := Some (concat (cl_pieces c)), cr_curLabels := cl_labels c\<rparr>)"
    using assms by (intro cell_run) (simp_all add: entered_def)
  with e show ?thesis by blast
qed

text \<open>The rest of a row, and a whole row.\<close>

lemma later_cells:
  "entered prev r key fam qual cr \<Longrightarrow> cr_state cr = rowInProgress \<Longrightarrow> cells_ok (Some (fam, qual)) (c # cs) \<Longrightarrow>
     \<exists>cr'. process_all (row_chunks key (CommitRow True) (c # cs)) cr = Some (None, [fold (add_cell key) (c # cs) r], cr') \<and> at_start key cr'"
proof (induction cs arbitrary: c r fam qual cr)
  case Nil
  from later_cell [OF Nil, of "CommitRow True"] cell_done_entered(2) show ?case by (fastforce simp: plain_def)
next
  case (Cons d cs)
  obtain cr0 where e: "entered prev r key (cl_fam c) (cl_qual c) cr0" "cr_curTS cr0 = cl_ts c"
    "process_all (cell_chunks key noStatus c) cr = cell_done noStatus (cr0\<lparr>cr_curVal := Some (concat (cl_pieces c)), cr_curLabels := cl_labels c\<rparr>)"
    using later_cell [OF Cons.prems, of noStatus] by (auto simp: plain_def)
  obtain cr1 where p: "process_all (cell_chunks key noStatus c) cr = Some (None, [], cr1)" "cr_state cr1 = rowInProgress"
    "entered prev (add_cell key c r) key (cl_fam c) (cl_qual c) cr1"
    using cell_done_entered(1) [OF e(1,2)] e(3) by auto
  have "cells_ok (Some (cl_fam c, cl_qual c)) (d # cs)" using Cons.prems(3) by (simp del: cells_ok.simps(2) add: cells_ok.simps(2) [of _ c])
  from Cons.IH [OF p(3,2) this] process_append [OF p(1)] show ?case by auto
qed

lemma row_run:
  assumes "at_start prev cr" "prev \<noteq> [] \<longrightarrow> prev < key" "cells_ok None cs" "cs \<noteq> []"
  shows "\<exists>cr'. process_all (row_chunks key (CommitRow True) cs) cr = Some (None, [row_value key cs], cr') \<and> at_start key cr'"
proof -
  obtain c cs' where cs: "cs = c # cs'" using assms(4) by (cases cs) auto
  show ?thesis
  proof (cases cs')
    case Nil
    from first_cell [OF assms(1,2) assms(3) [unfolded cs], of "CommitRow True"] cell_done_entered(2) show ?thesis
      by (fastforce simp: plain_def row_value_def cs Nil)
  next
    case (Cons d ds)
    obtain cr0 where e: "entered prev [] key (cl_fam c) (cl_qual c) cr0" "cr_curTS cr0 = cl_ts c"
      "process_all (cell_chunks key noStatus c) cr = cell_done noStatus (cr0\<lparr>cr_curVal := Some (concat (cl_pieces c)), cr_curLabels := cl_labels c\<rparr>)"
      using first_cell [OF assms(1,2) assms(3) [unfolded cs], of noStatus] by (auto simp: plain_def)
    obtain cr1 where p: "process_all (cell_chunks key noStatus c) cr = Some (None, [], cr1)" "cr_state cr1 = rowInProgress"
      "entered prev (add_cell key c []) key (cl_fam c) (cl_qual c) cr1"
      using cell_done_entered(1) [OF e(1,2)] e(3) by auto
    have "cells_ok (Some (cl_fam c, cl_qual c)) (d # ds)"
      using assms(3) by (simp del: cells_ok.simps(2) add: cells_ok.simps(2) [of _ c] cs Cons)
    from later_cells [OF p(3,2) this] process_append [OF p(1)] show ?thesis by (auto simp: row_value_def cs Cons)
  qed
qed


section \<open>Interrupted rows\<close>

lemma rest_butlast: "cc \<in> set (butlast (rest_chunks sz st ps)) \<Longrightarrow> cc_RowStatus cc = noStatus"
  by (induction sz st ps rule: rest_chunks.induct) (auto simp: part_def split: if_splits)

lemma rest_noStatus: "cc \<in> set (rest_chunks sz noStatus ps) \<Longrightarrow> cc_RowStatus cc = noStatus"
  by (induction sz "noStatus" ps rule: rest_chunks.induct) (auto simp: part_def)

lemma cell_butlast: "cc \<in> set (butlast (cell_chunks key st c)) \<Longrightarrow> cc_RowStatus cc = noStatus"
  by (auto simp: cell_chunks_def head_part_def dest: rest_butlast split: list.splits if_splits)

lemma cell_noStatus: "cc \<in> set (cell_chunks key noStatus c) \<Longrightarrow> cc_RowStatus cc = noStatus"
  by (auto simp: cell_chunks_def head_part_def dest: rest_noStatus split: list.splits if_splits)

text \<open>Only the last chunk of a row has a status.\<close>

lemma row_butlast: "cc \<in> set (butlast (row_chunks key st cs)) \<Longrightarrow> cc_RowStatus cc = noStatus"
  by (induction key st cs rule: row_chunks.induct)
    (auto simp: butlast_append dest: cell_butlast cell_noStatus in_set_butlastD split: if_splits)

text \<open>A chunk without a status leaves the reader inside the row.\<close>

lemma Process_noStatus:
  assumes "Process cc cr = Some (Inr res, cr')" "cc_RowStatus cc = noStatus"
  shows "res = None \<and> cr_state cr' \<noteq> newRow"
proof -
  have "res = None \<and> cr_state cr' \<noteq> newRow" if "handleCellValue cc cr1 = Some (res, cr')" for cr1
    using that assms(2) by (auto simp: handleCellValue_def GetCommitRow_def Let_def split: if_splits option.splits)
  then show ?thesis
    using assms by (cases "cr_state cr") (auto simp: Process_def GetResetRow_def Let_def split: option.splits)
qed

lemma process_noStatus:
  assumes "\<forall>cc\<in>set ccs. cc_RowStatus cc = noStatus" "process_all ccs cr = Some (None, rows, cr')" "reader_ok cr"
  shows "rows = [] \<and> reader_ok cr' \<and> cr_lastKey cr' = cr_lastKey cr \<and> (ccs \<noteq> [] \<longrightarrow> cr_state cr' \<noteq> newRow)"
  using assms
proof (induction ccs arbitrary: cr)
  case (Cons cc ccs)
  from \<open>reader_ok cr\<close> show ?case
  proof (cases rule: Process_ok [of cr cc])
    case (ok res cr1)
    then have r: "res = None" "cr_state cr1 \<noteq> newRow" using Process_noStatus [OF ok(1)] Cons.prems(1) by simp_all
    then have "process_all ccs cr1 = Some (None, rows, cr')" "reader_ok cr1" "cr_lastKey cr1 = cr_lastKey cr"
      using ok Cons.prems(2) by (simp_all add: completes_def)
    note p = this
    have "rows = [] \<and> reader_ok cr' \<and> cr_lastKey cr' = cr_lastKey cr1 \<and> (ccs \<noteq> [] \<longrightarrow> cr_state cr' \<noteq> newRow)"
      by (rule Cons.IH [OF _ p(1,2)]) (use Cons.prems(1) in simp)
    moreover have "ccs = [] \<Longrightarrow> cr' = cr1" using p(1) by simp
    ultimately show ?thesis using p(3) r(2) by metis
  qed (use Cons.prems in simp)
qed simp

lemma process_prefix:
  assumes "process_all (xs @ ys) cr = Some (None, rows, cr')"
  obtains rows1 cr1 where "process_all xs cr = Some (None, rows1, cr1)"
proof -
  have "\<exists>rows1 cr1. process_all xs cr = Some (None, rows1, cr1)"
    using assms
  proof (induction xs arbitrary: cr rows)
    case (Cons x xs)
    then obtain res cr0 where p: "Process x cr = Some (Inr res, cr0)" by (auto split: option.splits sum.splits)
    then obtain rows0 where "process_all (xs @ ys) cr0 = Some (None, rows0, cr')"
      using Cons.prems by (auto split: option.splits)
    from Cons.IH [OF this] p show ?case by (auto split: option.splits)
  qed simp
  then show thesis using that by blast
qed

text \<open>A row that breaks off leaves the reader inside a row: nothing is delivered.\<close>

lemma cut_run:
  assumes "at_start prev cr" "prev \<noteq> [] \<longrightarrow> prev < key" "cells_ok None cs" "0 < n" "n < length (row_chunks key (CommitRow True) cs)"
  obtains cr' where "process_all (take n (row_chunks key (CommitRow True) cs)) cr = Some (None, [], cr')"
    "reader_ok cr'" "cr_lastKey cr' = prev" "cr_state cr' \<noteq> newRow"
proof -
  let ?ccs = "row_chunks key (CommitRow True) cs"
  have "cs \<noteq> []" using assms(5) by auto
  then obtain cr1 where "process_all ?ccs cr = Some (None, [row_value key cs], cr1)" using row_run assms(1-3) by blast
  then have "process_all (take n ?ccs @ drop n ?ccs) cr = Some (None, [row_value key cs], cr1)" by simp
  then obtain rows cr' where p: "process_all (take n ?ccs) cr = Some (None, rows, cr')" by (rule process_prefix)
  have "set (take n ?ccs) \<subseteq> set (butlast ?ccs)"
    using assms(5) set_take_subset_set_take [of n "length ?ccs - 1" ?ccs] by (simp add: butlast_conv_take)
  then have "\<forall>cc\<in>set (take n ?ccs). cc_RowStatus cc = noStatus" using row_butlast by blast
  moreover have "reader_ok cr" using assms(1) by (simp add: at_start_def reader_ok_def)
  moreover have "take n ?ccs \<noteq> []" using assms(4,5) by auto
  ultimately show thesis using process_noStatus [OF _ p] p that assms(1) by (simp add: at_start_def)
qed

text \<open>The server starts over with a chunk that resets the row.\<close>

definition reset_chunk :: CellChunk where
  "reset_chunk = \<lparr>cc_RowKey = None, cc_FamilyName = None, cc_Qualifier = None, cc_TimestampMicros = 0, cc_Labels = [],
     cc_Value = None, cc_ValueSize = 0, cc_RowStatus = ResetRow True\<rparr>"

lemma Process_reset:
  assumes "reader_ok cr" "cr_state cr \<noteq> newRow"
  shows "Process reset_chunk cr = Some (Inr None, resetToNewRow cr)"
  using assms
  by (cases "cr_state cr")
    (auto simp: Process_def reset_chunk_def reader_ok_def validateRowInProgress_def validateCellInProgress_def validateRowStatus_def
      isAnyKeyPresent_def GetResetRow_def GetCommitRow_def)

text \<open>A row with the attempts to send it that were given up: another key or other cells, cut after some chunks.\<close>

record sent_row =
  sr_aborted :: "(string \<times> sent_cell list \<times> nat) list"
  sr_key :: string
  sr_cells :: "sent_cell list"

fun abort_chunks :: "string \<times> sent_cell list \<times> nat \<Rightarrow> CellChunk list" where
  "abort_chunks (key, cs, n) = take n (row_chunks key (CommitRow True) cs) @ [reset_chunk]"

fun abort_ok :: "string \<Rightarrow> string \<times> sent_cell list \<times> nat \<Rightarrow> bool" where
  "abort_ok prev (key, cs, n) \<longleftrightarrow>
     (prev \<noteq> [] \<longrightarrow> prev < key) \<and> cells_ok None cs \<and> 0 < n \<and> n < length (row_chunks key (CommitRow True) cs)"

definition sent_chunks :: "sent_row \<Rightarrow> CellChunk list" where
  "sent_chunks s = concat (map abort_chunks (sr_aborted s)) @ row_chunks (sr_key s) (CommitRow True) (sr_cells s)"

fun sent_ok :: "string \<Rightarrow> sent_row list \<Rightarrow> bool" where
  "sent_ok prev [] \<longleftrightarrow> True"
| "sent_ok prev (s # ss) \<longleftrightarrow>
     list_all (abort_ok prev) (sr_aborted s) \<and> (prev \<noteq> [] \<longrightarrow> prev < sr_key s) \<and> cells_ok None (sr_cells s) \<and> sr_cells s \<noteq> []
   \<and> sent_ok (sr_key s) ss"

lemma abort_run:
  assumes "at_start prev cr" "abort_ok prev a"
  obtains cr' where "process_all (abort_chunks a) cr = Some (None, [], cr')" "at_start prev cr'"
proof -
  obtain key cs n where a: "a = (key, cs, n)" by (cases a) auto
  then obtain cr1 where c: "process_all (take n (row_chunks key (CommitRow True) cs)) cr = Some (None, [], cr1)"
    "reader_ok cr1" "cr_lastKey cr1 = prev" "cr_state cr1 \<noteq> newRow"
    using cut_run assms by (metis abort_ok.simps)
  have "process_all (abort_chunks a) cr = Some (None, [], resetToNewRow cr1)"
    using process_append [OF c(1)] Process_reset [OF c(2,4)] by (simp add: a)
  moreover have "at_start prev (resetToNewRow cr1)" using c(3) by (simp add: at_start_def resetToNewRow_def)
  ultimately show thesis using that by blast
qed

lemma aborts_run:
  "at_start prev cr \<Longrightarrow> list_all (abort_ok prev) as \<Longrightarrow>
     \<exists>cr'. process_all (concat (map abort_chunks as)) cr = Some (None, [], cr') \<and> at_start prev cr'"
proof (induction as arbitrary: cr)
  case (Cons a as)
  then obtain cr1 where p: "process_all (abort_chunks a) cr = Some (None, [], cr1)" "at_start prev cr1"
    using abort_run by (metis list.pred_inject(2))
  with Cons obtain cr2 where "process_all (concat (map abort_chunks as)) cr1 = Some (None, [], cr2)" "at_start prev cr2" by auto
  with process_append [OF p(1)] show ?case by simp
qed simp

lemma sent_run:
  "at_start prev cr \<Longrightarrow> sent_ok prev ss \<Longrightarrow>
     \<exists>cr'. process_all (concat (map sent_chunks ss)) cr = Some (None, map (\<lambda>s. row_value (sr_key s) (sr_cells s)) ss, cr')
       \<and> at_start (case ss of [] \<Rightarrow> prev | _ \<Rightarrow> sr_key (last ss)) cr'"
proof (induction ss arbitrary: prev cr)
  case (Cons s ss)
  then obtain cr1 where a: "process_all (concat (map abort_chunks (sr_aborted s))) cr = Some (None, [], cr1)" "at_start prev cr1"
    using aborts_run by (metis sent_ok.simps(2))
  then obtain cr2 where r: "process_all (row_chunks (sr_key s) (CommitRow True) (sr_cells s)) cr1
      = Some (None, [row_value (sr_key s) (sr_cells s)], cr2)" "at_start (sr_key s) cr2"
    using row_run Cons.prems(2) by (metis sent_ok.simps(2))
  have s: "process_all (sent_chunks s) cr = Some (None, [row_value (sr_key s) (sr_cells s)], cr2)"
    using process_append [OF a(1)] r(1) by (simp add: sent_chunks_def)
  from Cons.IH [OF r(2)] Cons.prems(2) s process_append [OF s] r(2) show ?case by (cases ss) auto
qed simp

lemma sent_ok_append:
  "sent_ok prev (xs @ ys) \<longleftrightarrow> sent_ok prev xs \<and> sent_ok (case xs of [] \<Rightarrow> prev | _ \<Rightarrow> sr_key (last xs)) ys"
proof (induction xs arbitrary: prev)
  case (Cons x xs)
  then show ?case by (cases xs) simp_all
qed simp

lemma at_start_new: "at_start [] newChunkReader"
  by (simp add: at_start_def newChunkReader_def)

lemma at_start_Close: "at_start prev cr \<Longrightarrow> chunkReader_Close cr = None"
  by (simp add: at_start_def chunkReader_Close_def)


section \<open>What the reader guarantees\<close>

text \<open>C35: Whatever chunks a server sends, in whatever order, the reader of a new stream never panics, and every row it delivers has at
  least one item, consists of items of one key only, in lists that are not empty, and comes in ascending order of keys (only the empty key,
  which the code also uses for "no row yet", can come several times).  This also holds for the rows delivered before an error.\<close>

theorem reader_rows_well_formed:
  "\<exists>e rows cr. process_all ccs newChunkReader = Some (e, rows, cr)
     \<and> list_all (\<lambda>row. row \<noteq> [] \<and> row_of_key (Row_Key row) row) rows
     \<and> sorted_wrt key_before rows"
proof -
  have "reader_ok newChunkReader" by (simp add: reader_ok_def newChunkReader_def)
  then obtain e rows cr where "process_all ccs newChunkReader = Some (e, rows, cr)"
    "\<forall>row\<in>set rows. row \<noteq> [] \<and> row_of_key (Row_Key row) row" "sorted_wrt key_before rows" by (rule process_all_ok)
  then show ?thesis by (auto simp: list_all_iff)
qed

text \<open>C12: Any valid way of sending rows is read back exactly.  The server may split the value of a cell over several chunks, repeat the row key or
  not, leave out a family and a qualifier that have not changed, and give up a row in the middle (of a cell, too) any number of times with a reset and
  start over, even with another key.  For rows in ascending order of keys the reader delivers exactly the rows that were meant, in order, once
  each, without an error, and the end of the stream is accepted.\<close>

theorem chunk_roundtrip:
  assumes "sent_ok [] ss"
  shows "\<exists>cr. process_all (concat (map sent_chunks ss)) newChunkReader = Some (None, map (\<lambda>s. row_value (sr_key s) (sr_cells s)) ss, cr)
    \<and> chunkReader_Close cr = None"
  using sent_run [OF at_start_new assms] at_start_Close by blast

text \<open>Two rows: the first is given up once, in the middle of a split value, and its second cell leaves out its family and qualifier.\<close>

definition demo_cell :: "string \<Rightarrow> string list \<Rightarrow> bool \<Rightarrow> sent_cell" where
  "demo_cell qual ps given = \<lparr>cl_fam = ''f'', cl_qual = qual, cl_ts = 7, cl_labels = [], cl_pieces = ps, cl_size = 2, cl_key_given = given,
     cl_fam_given = given, cl_qual_given = given\<rparr>"

definition demo_rows :: "sent_row list" where
  "demo_rows =
    [\<lparr>sr_aborted = [(''a'', [demo_cell ''q'' [''x'', ''y''] True], 1)], sr_key = ''a'',
       sr_cells = [demo_cell ''q'' [''u'', ''v''] True, demo_cell ''q'' [''w''] False]\<rparr>,
     \<lparr>sr_aborted = [], sr_key = ''b'', sr_cells = [demo_cell ''p'' [''z''] True]\<rparr>]"

theorem chunk_roundtrip_witness:
  "sent_ok [] demo_rows
   \<and> (\<exists>cr. process_all (concat (map sent_chunks demo_rows)) newChunkReader
       = Some (None, map (\<lambda>s. row_value (sr_key s) (sr_cells s)) demo_rows, cr) \<and> chunkReader_Close cr = None)"
proof -
  have "sent_ok [] demo_rows" by code_simp
  with chunk_roundtrip [OF this] show ?thesis by blast
qed

text \<open>C36: A stream that breaks off in the middle of a row is detected: the complete rows before it are delivered, nothing of the
  incomplete row is, and the end of the stream is reported as an error.\<close>

theorem truncated_row_detected:
  assumes "sent_ok [] (ss @ [s])" "0 < n" "n < length (row_chunks (sr_key s) (CommitRow True) (sr_cells s))"
  shows "\<exists>cr. process_all (concat (map sent_chunks ss) @ take n (row_chunks (sr_key s) (CommitRow True) (sr_cells s))) newChunkReader
      = Some (None, map (\<lambda>s. row_value (sr_key s) (sr_cells s)) ss, cr)
    \<and> chunkReader_Close cr = Some invalidStateAtEnd"
proof -
  let ?prev = "case ss of [] \<Rightarrow> [] | _ \<Rightarrow> sr_key (last ss)"
  have ok: "sent_ok [] ss" "sent_ok ?prev [s]" using assms(1) by (simp_all only: sent_ok_append)
  from sent_run [OF at_start_new ok(1)] obtain cr1 where
    r: "process_all (concat (map sent_chunks ss)) newChunkReader = Some (None, map (\<lambda>s. row_value (sr_key s) (sr_cells s)) ss, cr1)"
       "at_start ?prev cr1" by blast
  obtain cr2 where c: "process_all (take n (row_chunks (sr_key s) (CommitRow True) (sr_cells s))) cr1 = Some (None, [], cr2)" "cr_state cr2 \<noteq> newRow"
    by (rule cut_run [OF r(2), of "sr_key s" "sr_cells s" n]) (use ok(2) assms(2,3) in auto)
  from process_append [OF r(1)] c show ?thesis by (simp add: chunkReader_Close_def)
qed

theorem truncated_row_detected_witness:
  "\<exists>cr. process_all (concat (map sent_chunks [demo_rows ! 1]) @ take 1 (row_chunks ''c'' (CommitRow True) [demo_cell ''q'' [''x'', ''y''] True]))
      newChunkReader = Some (None, map (\<lambda>s. row_value (sr_key s) (sr_cells s)) [demo_rows ! 1], cr)
    \<and> chunkReader_Close cr = Some invalidStateAtEnd"
proof -
  let ?s = "\<lparr>sr_aborted = [], sr_key = ''c'', sr_cells = [demo_cell ''q'' [''x'', ''y''] True]\<rparr>"
  have "sent_ok [] ([demo_rows ! 1] @ [?s])" "1 < length (row_chunks (sr_key ?s) (CommitRow True) (sr_cells ?s))" by code_simp+
  from truncated_row_detected [OF this(1) zero_less_one this(2)] show ?thesis by (simp only: sent_row.simps)
qed

end
