(* ===== verification/Gax_Invoke.thy ===== *)
theory Gax_Invoke
  imports Main
begin

text \<open>
  What the clients rely on of \<^verbatim>\<open>gax.Invoke\<close>, a function of a library, which is a parameter of their models.  It calls a function until the call
  returns no error or the error is not to be retried; a call changes the variables that the function shares with its caller.
\<close>

type_synonym ('s, 'e) invoke = "('s \<Rightarrow> 'e option \<times> 's) \<Rightarrow> 's \<Rightarrow> 'e option \<times> 's"

text \<open>It returns without an error when a call does; after an error it returns an error (that of the call, or of its context) or, if the error is
  \<open>retryable\<close>, calls again.\<close>

inductive runs :: "('e \<Rightarrow> bool) \<Rightarrow> ('s \<Rightarrow> 'e option \<times> 's) \<Rightarrow> 's \<Rightarrow> 'e option \<times> 's \<Rightarrow> bool" for retryable call where
  runs_nil: "call s = (None, s1) \<Longrightarrow> runs retryable call s (None, s1)"
| runs_give_up: "call s = (Some e, s1) \<Longrightarrow> runs retryable call s (Some e1, s1)"
| runs_retry: "call s = (Some e, s1) \<Longrightarrow> retryable e \<Longrightarrow> runs retryable call s1 r \<Longrightarrow> runs retryable call s r"

definition retrying :: "('e \<Rightarrow> bool) \<Rightarrow> ('s, 'e) invoke \<Rightarrow> bool" where
  "retrying retryable gax \<longleftrightarrow> (\<forall>call s. runs retryable call s (gax call s))"

lemma retrying_runs: "retrying retryable gax \<Longrightarrow> gax call s = r \<Longrightarrow> runs retryable call s r"
  by (auto simp: retrying_def)

text \<open>What calls that fail and are retried keep holds before the last call.\<close>

lemma runs_last_call:
  assumes "runs retryable call s r" "I s" "\<And>s e s1. I s \<Longrightarrow> call s = (Some e, s1) \<Longrightarrow> retryable e \<Longrightarrow> I s1"
  obtains s0 err where "I s0" "call s0 = (err, snd r)" "err = None \<longleftrightarrow> fst r = None"
proof -
  have "\<exists>s0 err. I s0 \<and> call s0 = (err, snd r) \<and> (err = None \<longleftrightarrow> fst r = None)"
    using assms by (induction rule: runs.induct) fastforce+
  then show thesis using that by metis
qed

text \<open>Retrying once is a policy of this kind.\<close>

definition retry_once :: "('e \<Rightarrow> bool) \<Rightarrow> ('s, 'e) invoke" where
  "retry_once retryable call s =
     (case call s of (None, s1) \<Rightarrow> (None, s1) | (Some e, s1) \<Rightarrow> if retryable e then call s1 else (Some e, s1))"

lemma retry_once_retrying: "retrying retryable (retry_once retryable :: ('s, 'e) invoke)"
proof -
  have "runs retryable call s (retry_once retryable call s)" for call :: "'s \<Rightarrow> 'e option \<times> 's" and s
  proof (cases "call s")
    case (Pair err s1)
    show ?thesis
    proof (cases err)
      case None
      then show ?thesis using Pair by (simp add: retry_once_def runs_nil)
    next
      case (Some e)
      obtain err2 s2 where c: "call s1 = (err2, s2)" by fastforce
      have "runs retryable call s1 (err2, s2)" using c by (cases err2) (auto intro: runs_nil runs_give_up)
      then show ?thesis using Pair Some c by (simp add: retry_once_def runs_retry runs_give_up)
    qed
  qed
  then show ?thesis by (simp add: retrying_def)
qed

end
