(* ===== verification/Bigtable_Rows.thy ===== *)
theory Bigtable_Rows
  imports Bigtable_Reader Gax_Invoke "HOL-Library.Sublist"
begin

text \<open>
  The row sets of Bigtable and \<^verbatim>\<open>Table.ReadRows\<close> (\<^verbatim>\<open>bigtable/bigtable.go\<close>), which reads the rows of a set and resumes after
  the last row delivered when a stream breaks.
\<close>

section \<open>Row sets\<close>

record RowRange =
  rr_start :: string
  rr_limit :: string

definition NewRange :: "string \<Rightarrow> string \<Rightarrow> RowRange" where
  "NewRange first limit = \<lparr>rr_start = first, rr_limit = limit\<rparr>"

definition Unbounded :: "RowRange \<Rightarrow> bool" where
  "Unbounded r \<longleftrightarrow> rr_limit r = []"

definition Contains :: "RowRange \<Rightarrow> string \<Rightarrow> bool" where
  "Contains r row \<longleftrightarrow> rr_start r \<le> row \<and> (rr_limit r = [] \<or> rr_limit r > row)"

definition InfiniteRange :: "string \<Rightarrow> RowRange" where
  "InfiniteRange start = \<lparr>rr_start = start, rr_limit = []\<rparr>"

text \<open>The loop of \<^verbatim>\<open>prefixSuccessor\<close> steps back over trailing bytes 0xff; it runs here on the reversed prefix.  The increment of a byte wraps.\<close>

fun skip_ff :: "string \<Rightarrow> string" where
  "skip_ff [] = []"
| "skip_ff (c # cs) = (if c = CHR 0xFF then skip_ff cs else c # cs)"

definition byte_inc :: "char \<Rightarrow> char" where
  "byte_inc c = char_of ((of_char c + 1) mod 256 :: nat)"

definition prefixSuccessor :: "string \<Rightarrow> string" where
  "prefixSuccessor pre =
     (if pre = [] then []
      else case skip_ff (rev pre) of [] \<Rightarrow> [] | c # cs \<Rightarrow> rev cs @ [byte_inc c])"

definition PrefixRange :: "string \<Rightarrow> RowRange" where
  "PrefixRange pre = \<lparr>rr_start = pre, rr_limit = prefixSuccessor pre\<rparr>"

datatype RowSet = RowList "string list" | OneRange RowRange | RowRangeList "RowRange list"

text \<open>The message sent: row keys, and ranges from a closed start key to an open end key, if there is one.\<close>

record btpb_RowSet =
  pb_RowKeys :: "string list"
  pb_RowRanges :: "(string \<times> string option) list"

definition RowRange_proto :: "RowRange \<Rightarrow> btpb_RowSet" where
  "RowRange_proto r = \<lparr>pb_RowKeys = [], pb_RowRanges = [(rr_start r, if \<not> Unbounded r then Some (rr_limit r) else None)]\<rparr>"

definition RowList_proto :: "string list \<Rightarrow> btpb_RowSet" where
  "RowList_proto r = \<lparr>pb_RowKeys = r, pb_RowRanges = []\<rparr>"

definition RowRangeList_proto :: "RowRange list \<Rightarrow> btpb_RowSet" where
  "RowRangeList_proto r = \<lparr>pb_RowKeys = [], pb_RowRanges = map (\<lambda>rr. hd (pb_RowRanges (RowRange_proto rr))) r\<rparr>"

definition RowList_retainRowsAfter :: "string list \<Rightarrow> string \<Rightarrow> string list" where
  "RowList_retainRowsAfter r lastRowKey = filter (\<lambda>key. key > lastRowKey) r"

definition RowRange_retainRowsAfter :: "RowRange \<Rightarrow> string \<Rightarrow> RowRange" where
  "RowRange_retainRowsAfter r lastRowKey =
     (if lastRowKey = [] \<or> lastRowKey < rr_start r then r
      else let start = lastRowKey @ [CHR 0x00]
           in if Unbounded r then InfiniteRange start else NewRange start (rr_limit r))"

definition RowList_valid :: "string list \<Rightarrow> bool" where
  "RowList_valid r \<longleftrightarrow> length r > 0"

definition RowRange_valid :: "RowRange \<Rightarrow> bool" where
  "RowRange_valid r \<longleftrightarrow> Unbounded r \<or> rr_start r < rr_limit r"

definition RowRangeList_retainRowsAfter :: "RowRange list \<Rightarrow> string \<Rightarrow> RowRange list" where
  "RowRangeList_retainRowsAfter r lastRowKey =
     (if lastRowKey = [] then r
      else filter RowRange_valid (map (\<lambda>rr. RowRange_retainRowsAfter rr lastRowKey) r))"

definition RowRangeList_valid :: "RowRange list \<Rightarrow> bool" where
  "RowRangeList_valid r \<longleftrightarrow> list_ex RowRange_valid r"

text \<open>The methods of the interface call those of the type.\<close>

fun RowSet_proto :: "RowSet \<Rightarrow> btpb_RowSet" where
  "RowSet_proto (RowList r) = RowList_proto r"
| "RowSet_proto (OneRange r) = RowRange_proto r"
| "RowSet_proto (RowRangeList r) = RowRangeList_proto r"

fun retainRowsAfter :: "RowSet \<Rightarrow> string \<Rightarrow> RowSet" where
  "retainRowsAfter (RowList r) lastRowKey = RowList (RowList_retainRowsAfter r lastRowKey)"
| "retainRowsAfter (OneRange r) lastRowKey = OneRange (RowRange_retainRowsAfter r lastRowKey)"
| "retainRowsAfter (RowRangeList r) lastRowKey = RowRangeList (RowRangeList_retainRowsAfter r lastRowKey)"

fun valid :: "RowSet \<Rightarrow> bool" where
  "valid (RowList r) \<longleftrightarrow> RowList_valid r"
| "valid (OneRange r) \<longleftrightarrow> RowRange_valid r"
| "valid (RowRangeList r) \<longleftrightarrow> RowRangeList_valid r"

definition SingleRow :: "string \<Rightarrow> RowSet" where
  "SingleRow row = RowList [row]"

section \<open>The contract of a row set\<close>

text \<open>The keys that a server selects for a message: all of them when it is empty, as the code notes.\<close>

definition selects :: "btpb_RowSet \<Rightarrow> string \<Rightarrow> bool" where
  "selects p k \<longleftrightarrow>
     (pb_RowKeys p = [] \<and> pb_RowRanges p = []) \<or> k \<in> set (pb_RowKeys p)
   \<or> list_ex (\<lambda>(s, e). s \<le> k \<and> (case e of None \<Rightarrow> True | Some l \<Rightarrow> k < l)) (pb_RowRanges p)"

text \<open>What an implementation of the interface promises of the keys it covers.\<close>

locale row_set =
  fixes covers_key :: "'s \<Rightarrow> string \<Rightarrow> bool"
    and to_proto :: "'s \<Rightarrow> btpb_RowSet"
    and retain :: "'s \<Rightarrow> string \<Rightarrow> 's"
    and is_valid :: "'s \<Rightarrow> bool"
  assumes retain_iff: "k \<noteq> [] \<Longrightarrow> covers_key (retain s l) k \<longleftrightarrow> covers_key s k \<and> l < k"
    and selects_iff: "is_valid s \<Longrightarrow> selects (to_proto s) k \<longleftrightarrow> covers_key s k"
    and not_valid: "\<not> is_valid s \<Longrightarrow> \<not> covers_key s k"
begin

text \<open>A set that is retained again and again covers what comes after the last key.\<close>

lemma retain_again:
  assumes "\<And>k. k \<noteq> [] \<Longrightarrow> covers_key s k \<longleftrightarrow> covers_key s0 k \<and> l < k" "l \<le> m" "k \<noteq> []"
  shows "covers_key (retain s m) k \<longleftrightarrow> covers_key s0 k \<and> m < k"
  using assms by (auto simp: retain_iff)

text \<open>Of rows with keys, an attempt gets those that the set covers.\<close>

lemma selected_rows: "is_valid s \<Longrightarrow> filter (\<lambda>row. selects (to_proto s) (key row)) rows = filter (\<lambda>row. covers_key s (key row)) rows"
  by (simp add: selects_iff)

lemma no_rows: "\<not> is_valid s \<Longrightarrow> filter (\<lambda>row. covers_key s (key row)) rows = []"
  by (simp add: not_valid)

end

lemma char_le_iff: "(a :: char) \<le> b \<longleftrightarrow> (of_char a :: nat) \<le> of_char b"
  by (simp add: less_eq_char_def)

lemma zero_char_least [simp]: "CHR 0x00 \<le> (c :: char)"
  by (simp add: less_eq_char_def)

text \<open>The string after \<open>k\<close> is \<open>k\<close> with a zero byte.\<close>

lemma append_zero_le_iff: "k @ [CHR 0x00] \<le> x \<longleftrightarrow> k < (x :: string)"
proof (induction k arbitrary: x)
  case Nil
  have "CHR 0x00 < c \<or> CHR 0x00 = c" for c :: char using zero_char_least [of c] by (simp add: order.order_iff_strict)
  then show ?case by (cases x) auto
next
  case (Cons c k)
  then show ?case by (cases x) auto
qed

lemma RowRange_retain_iff:
  "k \<noteq> [] \<Longrightarrow> Contains (RowRange_retainRowsAfter r l) k \<longleftrightarrow> Contains r k \<and> l < k"
  by (cases "l < rr_start r"; cases k)
    (auto simp: Contains_def RowRange_retainRowsAfter_def InfiniteRange_def NewRange_def Unbounded_def append_zero_le_iff Let_def
      not_less dest: less_le_trans le_less_trans)

lemma Contains_valid: "Contains r k \<Longrightarrow> RowRange_valid r"
  by (auto simp: Contains_def RowRange_valid_def Unbounded_def dest: le_less_trans)

text \<open>The three types keep the contract.\<close>

interpretation row_list: row_set "\<lambda>r k. k \<in> set r" RowList_proto RowList_retainRowsAfter RowList_valid
  by unfold_locales (auto simp: RowList_retainRowsAfter_def RowList_proto_def RowList_valid_def selects_def)

interpretation row_range: row_set Contains RowRange_proto RowRange_retainRowsAfter RowRange_valid
proof
  show "selects (RowRange_proto r) k \<longleftrightarrow> Contains r k" for r k
    by (auto simp: selects_def RowRange_proto_def Contains_def Unbounded_def)
qed (use Contains_valid in \<open>auto simp: RowRange_retain_iff\<close>)

lemma RowRangeList_retain_iff:
  assumes "k \<noteq> []"
  shows "list_ex (\<lambda>rr. Contains rr k) (RowRangeList_retainRowsAfter r l) \<longleftrightarrow> list_ex (\<lambda>rr. Contains rr k) r \<and> l < k"
proof -
  have "RowRange_valid (RowRange_retainRowsAfter rr l)" if "Contains rr k" "l < k" for rr
    using that row_range.retain_iff [OF assms] Contains_valid by blast
  with assms show ?thesis by (cases k) (auto simp: list_ex_iff row_range.retain_iff RowRangeList_retainRowsAfter_def)
qed

interpretation row_range_list: row_set "\<lambda>r k. list_ex (\<lambda>rr. Contains rr k) r" RowRangeList_proto RowRangeList_retainRowsAfter RowRangeList_valid
proof
  fix r :: "RowRange list" and k
  show "selects (RowRangeList_proto r) k \<longleftrightarrow> list_ex (\<lambda>rr. Contains rr k) r" if "RowRangeList_valid r"
  proof -
    have "r \<noteq> []" using that by (auto simp: RowRangeList_valid_def)
    then show ?thesis
      by (auto simp: selects_def RowRangeList_proto_def RowRange_proto_def Contains_def Unbounded_def list_ex_iff split: if_splits)
  qed
  show "\<not> list_ex (\<lambda>rr. Contains rr k) r" if "\<not> RowRangeList_valid r"
    using that by (auto simp: RowRangeList_valid_def list_ex_iff dest: Contains_valid)
qed (rule RowRangeList_retain_iff)

text \<open>So does the interface.\<close>

fun covers :: "RowSet \<Rightarrow> string \<Rightarrow> bool" where
  "covers (RowList r) k \<longleftrightarrow> k \<in> set r"
| "covers (OneRange r) k \<longleftrightarrow> Contains r k"
| "covers (RowRangeList r) k \<longleftrightarrow> list_ex (\<lambda>rr. Contains rr k) r"

interpretation rows: row_set covers RowSet_proto retainRowsAfter valid
proof
  fix s k l
  show "covers (retainRowsAfter s l) k \<longleftrightarrow> covers s k \<and> l < k" if "k \<noteq> []"
    using that row_list.retain_iff row_range.retain_iff row_range_list.retain_iff by (cases s) auto
  show "selects (RowSet_proto s) k \<longleftrightarrow> covers s k" if "valid s"
    using that row_list.selects_iff row_range.selects_iff row_range_list.selects_iff by (cases s) auto
  show "\<not> covers s k" if "\<not> valid s"
    using that row_list.not_valid row_range.not_valid row_range_list.not_valid by (cases s) auto
qed

section \<open>Prefix ranges\<close>

lemma of_char_le_255: "(of_char c :: nat) \<le> 255"
  using nat_of_char_less_256 [of c] by linarith

lemma char_le_ff [simp]: "(c :: char) \<le> CHR 0xFF"
  using of_char_le_255 by (simp add: less_eq_char_def)

lemma ffs_le_iff: "replicate m (CHR 0xFF) \<le> k \<longleftrightarrow> prefix (replicate m (CHR 0xFF)) k"
proof (induction m arbitrary: k)
  case (Suc m)
  have "\<not> CHR 0xFF < (c :: char)" for c using char_le_ff [of c] by (simp add: not_less)
  with Suc show ?case by (cases k) auto
qed simp

lemma of_byte_inc: "c \<noteq> CHR 0xFF \<Longrightarrow> (of_char (byte_inc c) :: nat) = of_char c + 1"
proof -
  assume "c \<noteq> CHR 0xFF"
  then have "(of_char c :: nat) \<noteq> of_char (CHR 0xFF)" by (simp only: of_char_eq_iff not_False_eq_True)
  with of_char_le_255 [of c] show ?thesis by (simp add: byte_inc_def)
qed

lemma less_byte_inc: "c \<noteq> CHR 0xFF \<Longrightarrow> d < byte_inc c \<longleftrightarrow> d \<le> c"
  using of_byte_inc [of c] by (simp add: less_char_def less_eq_char_def less_Suc_eq_le)

lemma between_iff_prefix:
  assumes "c \<noteq> CHR 0xFF"
  shows "q @ c # replicate m (CHR 0xFF) \<le> k \<and> k < q @ [byte_inc c] \<longleftrightarrow> prefix (q @ c # replicate m (CHR 0xFF)) k"
proof (induction q arbitrary: k)
  case Nil
  then show ?case
    using less_byte_inc [OF assms] ffs_le_iff by (cases k) (auto simp: not_less [symmetric])
next
  case (Cons a q)
  show ?case
  proof (cases k)
    case (Cons b ks)
    then show ?thesis using Cons.IH [of ks] by (cases "a = b") auto
  qed simp
qed

lemma skip_ff_split: "\<exists>m. xs = replicate m (CHR 0xFF) @ skip_ff xs" "skip_ff xs = c # cs \<Longrightarrow> c \<noteq> CHR 0xFF"
proof -
  show "\<exists>m. xs = replicate m (CHR 0xFF) @ skip_ff xs"
  proof (induction xs)
    case (Cons x xs)
    then obtain m where m: "xs = replicate m (CHR 0xFF) @ skip_ff xs" by blast
    show ?case
    proof (cases "x = CHR 0xFF")
      case True
      with m have "x # xs = replicate (Suc m) (CHR 0xFF) @ skip_ff (x # xs)" by simp
      then show ?thesis by blast
    qed (simp add: exI [of _ 0])
  qed simp
  show "skip_ff xs = c # cs \<Longrightarrow> c \<noteq> CHR 0xFF" by (induction xs) (auto split: if_splits)
qed

text \<open>C37: The range of a prefix holds exactly the keys that start with the prefix, for every prefix: the empty one, one of bytes 0xff only, for which there is
  no upper bound, and one that ends in bytes 0xff.\<close>

theorem PrefixRange_iff: "Contains (PrefixRange p) k \<longleftrightarrow> prefix p k"
proof -
  obtain m where m: "rev p = replicate m (CHR 0xFF) @ skip_ff (rev p)" using skip_ff_split(1) by blast
  show ?thesis
  proof (cases "skip_ff (rev p)")
    case Nil
    with m have "p = replicate m (CHR 0xFF)" by (metis append_Nil2 rev_replicate rev_rev_ident)
    then show ?thesis using Nil ffs_le_iff by (simp add: Contains_def PrefixRange_def prefixSuccessor_def)
  next
    case (Cons c cs)
    with m have p: "p = rev cs @ c # replicate m (CHR 0xFF)"
      by (metis append_Cons append_Nil append_assoc rev.simps(2) rev_append rev_replicate rev_rev_ident)
    have "prefixSuccessor p = rev cs @ [byte_inc c]" using Cons p by (simp add: prefixSuccessor_def)
    then show ?thesis
      using between_iff_prefix [OF skip_ff_split(2) [OF Cons], of "rev cs" m k] by (simp add: Contains_def PrefixRange_def p)
  qed
qed


section \<open>Reading rows\<close>

text \<open>A request holds the row set and what the options set; the table and application profile are the same in every request and left out.  A
  filter is opaque.\<close>

datatype 'f ReadOption = RowFilter 'f | LimitRows int

record 'f ReadRowsRequest =
  rq_Rows :: btpb_RowSet
  rq_Filter :: "'f option"
  rq_RowsLimit :: int

fun ReadOption_set :: "'f ReadOption \<Rightarrow> 'f ReadRowsRequest \<Rightarrow> 'f ReadRowsRequest" where
  "ReadOption_set (RowFilter f) req = req\<lparr>rq_Filter := Some f\<rparr>"
| "ReadOption_set (LimitRows limit) req = req\<lparr>rq_RowsLimit := limit\<rparr>"

text \<open>What a stream returns: responses, then the end (\<open>None\<close>) or an error with its code.  Opening a stream may fail, too.\<close>

record stream =
  st_responses :: "CellChunk list list"
  st_end :: "int option"

type_synonym 'f server = "nat \<Rightarrow> 'f ReadRowsRequest \<Rightarrow> int + stream"

datatype read_error = rpc_error int | chunk_failure chunk_error | nil_map_panic

text \<open>The variables that the attempts share, the rows that the callback has been given, and the number of requests made.  The
  callback decides with all rows it has been given.\<close>

record read_state =
  rs_arg :: RowSet
  rs_prevRowKey :: string
  rs_rows :: "Row list"
  rs_calls :: nat

definition deliver :: "Row \<Rightarrow> read_state \<Rightarrow> read_state" where
  "deliver row s = s\<lparr>rs_prevRowKey := Row_Key row, rs_rows := rs_rows s @ [row]\<rparr>"

datatype loop_result = Next chunkReader | Return "read_error option"

fun read_chunks :: "(Row list \<Rightarrow> bool) \<Rightarrow> CellChunk list \<Rightarrow> chunkReader \<Rightarrow> read_state \<Rightarrow> loop_result \<times> read_state" where
  "read_chunks f [] cr s = (Next cr, s)"
| "read_chunks f (cc # ccs) cr s =
     (case Process cc cr of
        None \<Rightarrow> (Return (Some nil_map_panic), s)
      | Some (Inl e, cr1) \<Rightarrow> (Return (Some (chunk_failure e)), s)
      | Some (Inr None, cr1) \<Rightarrow> read_chunks f ccs cr1 s
      | Some (Inr (Some row), cr1) \<Rightarrow>
          (let s1 = deliver row s
           in if \<not> f (rs_rows s1) then (Return None, s1) else read_chunks f ccs cr1 s1))"

text \<open>\<^verbatim>\<open>Close\<close> is called after every response.\<close>

fun read_responses :: "(Row list \<Rightarrow> bool) \<Rightarrow> CellChunk list list \<Rightarrow> int option \<Rightarrow> chunkReader \<Rightarrow> read_state \<Rightarrow> read_error option \<times> read_state" where
  "read_responses f [] fin cr s =
     (case fin of
        None \<Rightarrow> (None, s)
      | Some code \<Rightarrow> (Some (rpc_error code), s\<lparr>rs_arg := retainRowsAfter (rs_arg s) (rs_prevRowKey s)\<rparr>))"
| "read_responses f (ccs # rest) fin cr s =
     (case read_chunks f ccs cr s of
        (Return r, s1) \<Rightarrow> (r, s1)
      | (Next cr1, s1) \<Rightarrow>
          (case chunkReader_Close cr1 of
             Some e \<Rightarrow> (Some (chunk_failure e), s1)
           | None \<Rightarrow> read_responses f rest fin cr1 s1))"

definition read_request :: "'f ReadOption list \<Rightarrow> RowSet \<Rightarrow> 'f ReadRowsRequest" where
  "read_request opts arg = fold ReadOption_set opts \<lparr>rq_Rows = RowSet_proto arg, rq_Filter = None, rq_RowsLimit = 0\<rparr>"

definition read_attempt ::
  "(Row list \<Rightarrow> bool) \<Rightarrow> 'f ReadOption list \<Rightarrow> 'f server \<Rightarrow> read_state \<Rightarrow> read_error option \<times> read_state" where
  "read_attempt f opts srv s =
     (if \<not> valid (rs_arg s) then (None, s)
      else let s1 = s\<lparr>rs_calls := rs_calls s + 1\<rparr>
           in case srv (rs_calls s) (read_request opts (rs_arg s)) of
                Inl code \<Rightarrow> (Some (rpc_error code), s1)
              | Inr st \<Rightarrow> read_responses f (st_responses st) (st_end st) newChunkReader s1)"

text \<open>\<^verbatim>\<open>gax.Invoke\<close>, a library function, is a parameter.\<close>

definition ReadRows ::
  "(read_state, read_error) invoke \<Rightarrow> (Row list \<Rightarrow> bool) \<Rightarrow> 'f ReadOption list \<Rightarrow> 'f server \<Rightarrow> RowSet \<Rightarrow> read_error option \<times> read_state" where
  "ReadRows gax f opts srv arg =
     gax (read_attempt f opts srv) \<lparr>rs_arg = arg, rs_prevRowKey = [], rs_rows = [], rs_calls = 0\<rparr>"

definition ReadRow :: "(read_state, read_error) invoke \<Rightarrow> 'f ReadOption list \<Rightarrow> 'f server \<Rightarrow> string \<Rightarrow> Row \<times> read_error option" where
  "ReadRow gax opts srv row =
     (case ReadRows gax (\<lambda>_. True) opts srv (SingleRow row) of
        (err, s) \<Rightarrow> ((if rs_rows s = [] then [] else last (rs_rows s)), err))"

section \<open>The environment\<close>

text \<open>What is documented of the service: it answers with the rows of the table (as its filter leaves them) that the row set
  selects, in order of their keys, each as chunks; with a limit only that many.  The chunks come in responses, cut anywhere, also inside of a row or a value; a stream that
  breaks off has sent some of the chunks.\<close>

definition answer :: "('f option \<Rightarrow> Row list) \<Rightarrow> 'f ReadRowsRequest \<Rightarrow> Row list" where
  "answer table req =
     (let rows = filter (\<lambda>row. selects (rq_Rows req) (Row_Key row)) (table (rq_Filter req))
      in if rq_RowsLimit req > 0 then take (nat (rq_RowsLimit req)) rows else rows)"

definition meant :: "sent_row \<Rightarrow> Row" where
  "meant s = row_value (sr_key s) (sr_cells s)"

definition stream_of :: "sent_row list list \<Rightarrow> CellChunk list list" where
  "stream_of sss = map (\<lambda>ss. concat (map sent_chunks ss)) sss"

definition serves :: "('f option \<Rightarrow> Row list) \<Rightarrow> 'f server \<Rightarrow> bool" where
  "serves table srv \<longleftrightarrow>
     (\<forall>n req st. srv n req = Inr st \<longrightarrow>
        (\<exists>ss rest. sent_ok [] ss \<and> map meant ss = answer table req
           \<and> concat (map sent_chunks ss) = concat (st_responses st) @ rest \<and> (st_end st = None \<longrightarrow> rest = [])))"

text \<open>\<^verbatim>\<open>gax.OnCodes\<close> retries errors with a status, of some codes; which codes does not matter here.\<close>

definition status_error :: "read_error \<Rightarrow> bool" where
  "status_error e \<longleftrightarrow> (case e of rpc_error code \<Rightarrow> True | _ \<Rightarrow> False)"

definition ascending :: "Row list \<Rightarrow> bool" where
  "ascending rows \<longleftrightarrow> sorted_wrt (<) (map Row_Key rows) \<and> list_all (\<lambda>row. Row_Key row \<noteq> []) rows"

section \<open>One attempt\<close>

text \<open>What the callback takes of a sequence of rows.\<close>

fun consume :: "(Row list \<Rightarrow> bool) \<Rightarrow> Row list \<Rightarrow> read_state \<Rightarrow> bool \<times> read_state" where
  "consume f [] s = (True, s)"
| "consume f (row # rows) s = (let s1 = deliver row s in if \<not> f (rs_rows s1) then (False, s1) else consume f rows s1)"

lemma deliver_simps [simp]:
  "rs_rows (deliver row s) = rs_rows s @ [row]" "rs_prevRowKey (deliver row s) = Row_Key row" "rs_arg (deliver row s) = rs_arg s"
  by (simp_all add: deliver_def)

lemma consume_append:
  "consume f (xs @ ys) s = (case consume f xs s of (True, s1) \<Rightarrow> consume f ys s1 | (False, s1) \<Rightarrow> (False, s1))"
  by (induction xs arbitrary: s) (simp_all add: Let_def)

lemma consume_rows:
  assumes "consume f rows s = (b, s1)"
  obtains pre where "prefix pre rows" "rs_rows s1 = rs_rows s @ pre" "b \<Longrightarrow> pre = rows" "\<not> b \<Longrightarrow> \<not> f (rs_rows s1)"
    "rs_prevRowKey s1 = last (rs_prevRowKey s # map Row_Key pre)" "rs_arg s1 = rs_arg s"
proof -
  have "\<exists>pre. prefix pre rows \<and> rs_rows s1 = rs_rows s @ pre \<and> (b \<longrightarrow> pre = rows) \<and> (\<not> b \<longrightarrow> \<not> f (rs_rows s1))
      \<and> rs_prevRowKey s1 = last (rs_prevRowKey s # map Row_Key pre) \<and> rs_arg s1 = rs_arg s"
    using assms
  proof (induction rows arbitrary: s)
    case (Cons row rows)
    show ?case
    proof (cases "f (rs_rows (deliver row s))")
      case True
      then have "consume f rows (deliver row s) = (b, s1)" using Cons.prems by (simp add: Let_def)
      from Cons.IH [OF this] obtain pre where "prefix pre rows" "rs_rows s1 = rs_rows s @ row # pre" "b \<longrightarrow> pre = rows" "\<not> b \<longrightarrow> \<not> f (rs_rows s1)"
        "rs_prevRowKey s1 = last (Row_Key row # map Row_Key pre)" "rs_arg s1 = rs_arg s"
        by (auto simp del: last.simps)
      then show ?thesis by (intro exI [of _ "row # pre"]) auto
    next
      case False
      then show ?thesis using Cons.prems by (intro exI [of _ "[row]"]) (auto simp: Let_def)
    qed
  qed simp
  then show thesis using that by blast
qed

lemma read_chunks_consume:
  "process_all ccs cr = Some (None, rows, cr') \<Longrightarrow>
     read_chunks f ccs cr s = (case consume f rows s of (b, s1) \<Rightarrow> ((if b then Next cr' else Return None), s1))"
proof (induction ccs arbitrary: cr rows s)
  case (Cons cc ccs)
  then obtain res cr1 where p: "Process cc cr = Some (Inr res, cr1)" by (auto split: option.splits sum.splits)
  show ?case
  proof (cases res)
    case None
    then show ?thesis using Cons p by simp
  next
    case (Some row)
    then obtain rows1 where "process_all ccs cr1 = Some (None, rows1, cr')" "rows = row # rows1"
      using Cons.prems p by (auto split: option.splits)
    then show ?thesis using Cons.IH [of cr1 rows1 "deliver row s"] p Some by (simp add: Let_def)
  qed
qed simp


text \<open>The end of a stream whose responses have been read.\<close>

definition stream_end :: "int option \<Rightarrow> read_state \<Rightarrow> read_error option \<times> read_state" where
  "stream_end fin s =
     (case fin of
        None \<Rightarrow> (None, s)
      | Some code \<Rightarrow> (Some (rpc_error code), s\<lparr>rs_arg := retainRowsAfter (rs_arg s) (rs_prevRowKey s)\<rparr>))"

lemma responses_consume:
  "at_start prev cr \<Longrightarrow> sent_ok prev (concat sss) \<Longrightarrow>
     read_responses f (stream_of sss) fin cr s
     = (case consume f (map meant (concat sss)) s of (True, s1) \<Rightarrow> stream_end fin s1 | (False, s1) \<Rightarrow> (None, s1))"
proof (induction sss arbitrary: prev cr s)
  case Nil
  then show ?case by (simp add: stream_of_def stream_end_def)
next
  case (Cons ss sss)
  let ?prev = "case ss of [] \<Rightarrow> prev | _ \<Rightarrow> sr_key (last ss)"
  have ok: "sent_ok prev ss" "sent_ok ?prev (concat sss)" using Cons.prems(2) by (simp_all add: sent_ok_append)
  from sent_run [OF Cons.prems(1) ok(1)] obtain cr' where
    r: "process_all (concat (map sent_chunks ss)) cr = Some (None, map meant ss, cr')" "at_start ?prev cr'"
    by (auto simp: meant_def [abs_def])
  have IH: "read_responses f (stream_of sss) fin cr' s1
      = (case consume f (map meant (concat sss)) s1 of (True, s1) \<Rightarrow> stream_end fin s1 | (False, s1) \<Rightarrow> (None, s1))" for s1
    by (rule Cons.IH [OF r(2) ok(2)])
  obtain b s1 where c: "consume f (map meant ss) s = (b, s1)" by fastforce
  have "read_responses f (stream_of (ss # sss)) fin cr s = (if b then read_responses f (stream_of sss) fin cr' s1 else (None, s1))"
    using read_chunks_consume [OF r(1), of f s] at_start_Close [OF r(2)] c by (simp add: stream_of_def)
  then show ?case using IH c by (cases b) (simp_all add: consume_append)
qed

text \<open>However the chunks are cut into responses: the callback is given the first of the rows, and either a response has ended inside of a row, which
  is an error, or the callback has stopped, or all rows have been read.\<close>

lemma responses_any:
  assumes "process_all (concat rss) cr = Some (None, rows, cr')"
  shows "\<exists>pre b s1. prefix pre rows \<and> consume f pre s = (b, s1)
    \<and> (read_responses f rss fin cr s = (Some (chunk_failure invalidStateAtEnd), s1)
     \<or> \<not> b \<and> read_responses f rss fin cr s = (None, s1)
     \<or> b \<and> pre = rows \<and> read_responses f rss fin cr s = stream_end fin s1)"
  using assms
proof (induction rss arbitrary: cr rows s)
  case Nil
  then show ?case by (intro exI [of _ "[]"] exI [of _ True] exI [of _ s]) (simp add: stream_end_def)
next
  case (Cons ccs rss)
  from Cons.prems obtain rows1 cr1 where p: "process_all ccs cr = Some (None, rows1, cr1)"
    using process_prefix [of ccs "concat rss" cr rows cr'] by auto
  from process_append [OF p, of "concat rss"] Cons.prems obtain rows2 where
    q: "process_all (concat rss) cr1 = Some (None, rows2, cr')" "rows = rows1 @ rows2" by auto
  obtain b s1 where c: "consume f rows1 s = (b, s1)" by fastforce
  note ch = read_chunks_consume [OF p, of f s, unfolded c]
  show ?case
  proof (cases "b \<and> chunkReader_Close cr1 = None")
    case True
    from Cons.IH [OF q(1), of s1] obtain pre b2 s2 where i: "prefix pre rows2" "consume f pre s1 = (b2, s2)"
      "read_responses f rss fin cr1 s1 = (Some (chunk_failure invalidStateAtEnd), s2)
       \<or> \<not> b2 \<and> read_responses f rss fin cr1 s1 = (None, s2) \<or> b2 \<and> pre = rows2 \<and> read_responses f rss fin cr1 s1 = stream_end fin s2"
      by blast
    have "read_responses f (ccs # rss) fin cr s = read_responses f rss fin cr1 s1" using ch True by simp
    then show ?thesis
      using i c True q(2) by (intro exI [of _ "rows1 @ pre"] exI [of _ b2] exI [of _ s2]) (simp add: consume_append)
  next
    case False
    then have "read_responses f (ccs # rss) fin cr s = (Some (chunk_failure invalidStateAtEnd), s1)
      \<or> \<not> b \<and> read_responses f (ccs # rss) fin cr s = (None, s1)"
      using ch by (auto simp: chunkReader_Close_def split: if_splits)
    then show ?thesis using c q(2) by (intro exI [of _ rows1] exI [of _ b] exI [of _ s1]) auto
  qed
qed

section \<open>All attempts\<close>

text \<open>The rows asked for, and what holds between attempts: the rows delivered are the first of these, and the row set covers what comes after
  the last of them.\<close>

definition wanted :: "Row list \<Rightarrow> RowSet \<Rightarrow> Row list" where
  "wanted rows arg = filter (\<lambda>row. covers arg (Row_Key row)) rows"

definition last_key :: "Row list \<Rightarrow> string" where
  "last_key rows = last ([] # map Row_Key rows)"

definition reading :: "Row list \<Rightarrow> RowSet \<Rightarrow> read_state \<Rightarrow> bool" where
  "reading rows arg s \<longleftrightarrow>
     prefix (rs_rows s) (wanted rows arg) \<and> rs_prevRowKey s = last_key (rs_rows s)
   \<and> (\<forall>k. k \<noteq> [] \<longrightarrow> (covers (rs_arg s) k \<longleftrightarrow> covers arg k \<and> rs_prevRowKey s < k))"

lemma ascending_filter: "ascending rows \<Longrightarrow> ascending (filter P rows)"
  by (auto simp: ascending_def list_all_iff sorted_wrt_map intro: sorted_wrt_filter)

lemma ascending_prefix: "ascending rows \<Longrightarrow> prefix xs rows \<Longrightarrow> ascending xs"
  by (auto simp: ascending_def prefix_def sorted_wrt_append)

lemma last_key_append: "last_key (xs @ ys) = last (last_key xs # map Row_Key ys)"
  by (cases ys rule: rev_cases; cases xs rule: rev_cases) (simp_all add: last_key_def)

lemma ascending_last:
  assumes "ascending (xs @ ys)"
  shows "x \<in> set xs \<Longrightarrow> \<not> last_key xs < Row_Key x" "y \<in> set ys \<Longrightarrow> last_key xs < Row_Key y"
proof -
  show "\<not> last_key xs < Row_Key x" if "x \<in> set xs"
    using that assms by (cases xs rule: rev_cases) (auto simp: ascending_def last_key_def sorted_wrt_append not_less)
  show "last_key xs < Row_Key y" if "y \<in> set ys"
  proof (cases xs rule: rev_cases)
    case Nil
    have "Row_Key y \<noteq> []" using that assms by (auto simp: ascending_def list_all_iff)
    then show ?thesis by (cases "Row_Key y") (simp_all add: last_key_def Nil)
  qed (use that assms in \<open>auto simp: ascending_def last_key_def sorted_wrt_append\<close>)
qed

text \<open>What comes after the rows delivered.\<close>

lemma rest_wanted:
  assumes "ascending rows" "reading rows arg s"
  shows "wanted rows arg = rs_rows s @ wanted rows (rs_arg s)"
proof -
  have asc: "ascending (wanted rows arg)" using ascending_filter [OF assms(1)] by (simp add: wanted_def)
  obtain rest where rest: "wanted rows arg = rs_rows s @ rest" using assms(2) by (auto simp: reading_def prefix_def)
  note le = ascending_last [OF asc [unfolded rest]]
  have "covers (rs_arg s) (Row_Key x) \<longleftrightarrow> covers arg (Row_Key x) \<and> last_key (rs_rows s) < Row_Key x" if "x \<in> set rows" for x
    using assms that by (auto simp: reading_def ascending_def list_all_iff)
  then have "wanted rows (rs_arg s) = filter (\<lambda>row. last_key (rs_rows s) < Row_Key row) (wanted rows arg)"
    by (auto simp: wanted_def intro: filter_cong)
  also have "\<dots> = rest" using le by (simp add: rest filter_id_conv filter_empty_conv)
  finally show ?thesis using rest by simp
qed

lemma ascending_mono: "ascending (xs @ ys) \<Longrightarrow> last_key xs \<le> last_key (xs @ ys)"
  using ascending_last(2) [of xs ys] by (cases ys rule: rev_cases) (auto simp: last_key_append intro: less_imp_le)

text \<open>An attempt that breaks off leaves the right row set for the next.\<close>

lemma reading_consume:
  assumes "ascending rows" "reading rows arg s" "prefix got (wanted rows (rs_arg s))" "consume f got s = (b, s1)"
  shows "prefix (rs_rows s1) (wanted rows arg)"
    and "reading rows arg (s1\<lparr>rs_arg := retainRowsAfter (rs_arg s1) (rs_prevRowKey s1)\<rparr>)"
    and "\<not> b \<Longrightarrow> \<not> f (rs_rows s1)" and "b \<Longrightarrow> rs_rows s1 = rs_rows s @ got"
proof -
  from assms(4) obtain pre where p: "prefix pre got" "rs_rows s1 = rs_rows s @ pre" "b \<Longrightarrow> pre = got" "\<not> b \<Longrightarrow> \<not> f (rs_rows s1)"
    "rs_prevRowKey s1 = last (rs_prevRowKey s # map Row_Key pre)" "rs_arg s1 = rs_arg s" by (rule consume_rows) blast
  have key: "rs_prevRowKey s = last_key (rs_rows s)" using assms(2) by (simp add: reading_def)
  have key1: "rs_prevRowKey s1 = last_key (rs_rows s1)" using p(2,5) key by (simp add: last_key_append)
  show pre: "prefix (rs_rows s1) (wanted rows arg)"
    using rest_wanted [OF assms(1,2)] p(1,2) assms(3) by (simp add: prefix_order.trans)
  have "ascending (rs_rows s1)" using ascending_prefix ascending_filter [OF assms(1)] pre by (simp add: wanted_def) blast
  then have "last_key (rs_rows s) \<le> last_key (rs_rows s1)" using ascending_mono p(2) by simp
  then have "covers (retainRowsAfter (rs_arg s1) (rs_prevRowKey s1)) k \<longleftrightarrow> covers arg k \<and> rs_prevRowKey s1 < k" if "k \<noteq> []" for k
    using rows.retain_again [of "rs_arg s" arg "rs_prevRowKey s" "rs_prevRowKey s1" k] assms(2) that key key1 p(6) by (simp add: reading_def)
  then show "reading rows arg (s1\<lparr>rs_arg := retainRowsAfter (rs_arg s1) (rs_prevRowKey s1)\<rparr>)"
    using pre key1 by (simp add: reading_def)
  show "\<not> b \<Longrightarrow> \<not> f (rs_rows s1)" by (rule p(4))
  show "b \<Longrightarrow> rs_rows s1 = rs_rows s @ got" using p(2,3) by simp
qed

lemma request_fields:
  "rq_Rows (read_request opts arg) = RowSet_proto arg" "rq_Filter (read_request opts arg) = rq_Filter (read_request opts arg')"
  "rq_RowsLimit (read_request opts arg) = rq_RowsLimit (read_request opts arg')"
proof -
  have "rq_Rows (fold ReadOption_set opts req) = rq_Rows req" for req :: "'a ReadRowsRequest"
  proof (induction opts arbitrary: req)
    case (Cons opt opts)
    then show ?case by (cases opt) simp_all
  qed simp
  then show "rq_Rows (read_request opts arg) = RowSet_proto arg" by (simp add: read_request_def)
  have "rq_Filter r1 = rq_Filter r2 \<Longrightarrow> rq_RowsLimit r1 = rq_RowsLimit r2 \<Longrightarrow>
      rq_Filter (fold ReadOption_set opts r1) = rq_Filter (fold ReadOption_set opts r2)
      \<and> rq_RowsLimit (fold ReadOption_set opts r1) = rq_RowsLimit (fold ReadOption_set opts r2)" for r1 r2 :: "'a ReadRowsRequest"
  proof (induction opts arbitrary: r1 r2)
    case (Cons opt opts)
    then show ?case by (cases opt) simp_all
  qed simp
  then show "rq_Filter (read_request opts arg) = rq_Filter (read_request opts arg')"
    "rq_RowsLimit (read_request opts arg) = rq_RowsLimit (read_request opts arg')" by (simp_all add: read_request_def)
qed


text \<open>The rows that a client with these options can see.\<close>

definition visible :: "('f option \<Rightarrow> Row list) \<Rightarrow> 'f ReadOption list \<Rightarrow> Row list" where
  "visible table opts = table (rq_Filter (read_request opts (RowList [])))"

lemma answer_wanted:
  assumes "valid arg"
  shows "prefix (answer table (read_request opts arg)) (wanted (visible table opts) arg)"
    and "rq_RowsLimit (read_request opts arg) \<le> 0 \<Longrightarrow> answer table (read_request opts arg) = wanted (visible table opts) arg"
proof -
  have "filter (\<lambda>row. selects (RowSet_proto arg) (Row_Key row)) (visible table opts) = wanted (visible table opts) arg"
    using rows.selected_rows [OF assms] by (simp add: wanted_def)
  moreover have "table (rq_Filter (read_request opts arg)) = visible table opts"
    by (simp add: visible_def request_fields(2) [of opts arg "RowList []"])
  ultimately show "prefix (answer table (read_request opts arg)) (wanted (visible table opts) arg)"
    and "rq_RowsLimit (read_request opts arg) \<le> 0 \<Longrightarrow> answer table (read_request opts arg) = wanted (visible table opts) arg"
    by (simp_all add: answer_def request_fields(1) Let_def take_is_prefix)
qed

lemma sent_prefix:
  assumes "sent_ok [] ss" "map meant ss = rows" "concat (map sent_chunks ss) = xs @ rest" "fin = None \<longrightarrow> rest = []"
  obtains rows1 cr where "process_all xs newChunkReader = Some (None, rows1, cr)" "prefix rows1 rows" "fin = None \<longrightarrow> rows1 = rows"
proof -
  from sent_run [OF at_start_new assms(1)] obtain cr' where r: "process_all (xs @ rest) newChunkReader = Some (None, rows, cr')"
    using assms(2,3) by (auto simp: meant_def [abs_def])
  then obtain rows1 cr where p: "process_all xs newChunkReader = Some (None, rows1, cr)" by (rule process_prefix)
  have "prefix rows1 rows" using process_append [OF p, of rest] r by (cases "process_all rest cr") (auto simp: prefix_def)
  moreover have "fin = None \<longrightarrow> rows1 = rows" using r p assms(4) by auto
  ultimately show thesis using that p by blast
qed

lemma attempt_result:
  assumes "serves table srv" "ascending (visible table opts)" "reading (visible table opts) arg s" "read_attempt f opts srv s = (err, s1)"
  shows "prefix (rs_rows s1) (wanted (visible table opts) arg)"
    and "err = Some e \<Longrightarrow> status_error e \<Longrightarrow> reading (visible table opts) arg s1"
    and "err = None \<Longrightarrow> rq_RowsLimit (read_request opts arg) \<le> 0 \<Longrightarrow> rs_rows s1 = wanted (visible table opts) arg \<or> \<not> f (rs_rows s1)"
proof -
  let ?rows = "visible table opts" and ?req = "read_request opts (rs_arg s)"
  note rest = rest_wanted [OF assms(2,3)]
  have "prefix (rs_rows s1) (wanted ?rows arg) \<and> (\<forall>e. err = Some e \<and> status_error e \<longrightarrow> reading ?rows arg s1)
    \<and> (err = None \<longrightarrow> rq_RowsLimit ?req \<le> 0 \<longrightarrow> rs_rows s1 = wanted ?rows arg \<or> \<not> f (rs_rows s1))"
  proof (cases "valid (rs_arg s)")
    case False
    then have "wanted ?rows (rs_arg s) = []" using rows.no_rows by (simp add: wanted_def)
    then show ?thesis using rest assms(4) False by (simp add: read_attempt_def)
  next
    case True
    define s0 where "s0 = s\<lparr>rs_calls := rs_calls s + 1\<rparr>"
    have s0: "reading ?rows arg s0" "rs_arg s0 = rs_arg s" "rs_rows s0 = rs_rows s" using assms(3) by (simp_all add: reading_def s0_def)
    have a: "(err, s1) = (case srv (rs_calls s) ?req of Inl code \<Rightarrow> (Some (rpc_error code), s0)
        | Inr st \<Rightarrow> read_responses f (st_responses st) (st_end st) newChunkReader s0)"
      unfolding assms(4) [symmetric] using True by (simp add: read_attempt_def s0_def Let_def split: sum.split)
    show ?thesis
    proof (cases "srv (rs_calls s) ?req")
      case (Inl code)
      then show ?thesis using a s0(1) by (simp add: reading_def)
    next
      case (Inr st)
      then obtain ss rest' where ss: "sent_ok [] ss" "map meant ss = answer table ?req"
        "concat (map sent_chunks ss) = concat (st_responses st) @ rest'" "st_end st = None \<longrightarrow> rest' = []"
        using assms(1) unfolding serves_def by blast
      obtain rows cr where p: "process_all (concat (st_responses st)) newChunkReader = Some (None, rows, cr)"
        "prefix rows (answer table ?req)" "st_end st = None \<longrightarrow> rows = answer table ?req"
        by (rule sent_prefix [OF ss])
      from responses_any [OF p(1), of f s0 "st_end st"] obtain pre b s2 where c: "prefix pre rows" "consume f pre s0 = (b, s2)"
        "read_responses f (st_responses st) (st_end st) newChunkReader s0 = (Some (chunk_failure invalidStateAtEnd), s2)
         \<or> \<not> b \<and> read_responses f (st_responses st) (st_end st) newChunkReader s0 = (None, s2)
         \<or> b \<and> pre = rows \<and> read_responses f (st_responses st) (st_end st) newChunkReader s0 = stream_end (st_end st) s2"
        by blast
      have "prefix pre (wanted ?rows (rs_arg s0))"
        using prefix_order.trans [OF prefix_order.trans [OF c(1) p(2)] answer_wanted(1) [OF True]] s0(2) by simp
      note k = reading_consume [OF assms(2) s0(1) this c(2)]
      have "rs_rows s2 = wanted ?rows arg" if "b" "pre = rows" "st_end st = None" "rq_RowsLimit ?req \<le> 0"
        using that k(4) p(3) answer_wanted(2) [OF True that(4)] rest s0(3) by simp
      with a Inr c(3) k(1,2,3) show ?thesis by (auto simp: stream_end_def status_error_def split: option.splits)
    qed
  qed
  then show "prefix (rs_rows s1) (wanted ?rows arg)" "err = Some e \<Longrightarrow> status_error e \<Longrightarrow> reading ?rows arg s1"
    "err = None \<Longrightarrow> rq_RowsLimit (read_request opts arg) \<le> 0 \<Longrightarrow> rs_rows s1 = wanted ?rows arg \<or> \<not> f (rs_rows s1)"
    using request_fields(3) [of opts arg "rs_arg s"] by auto
qed

lemma reading_start:
  "reading rows arg \<lparr>rs_arg = arg, rs_prevRowKey = [], rs_rows = [], rs_calls = 0\<rparr>"
proof -
  have "[] < k" if "k \<noteq> []" for k :: string using that by (cases k) simp_all
  then show ?thesis by (simp add: reading_def last_key_def)
qed

section \<open>What ReadRows guarantees\<close>

lemma ReadRows_rows:
  assumes "retrying status_error gax" "serves table srv" "ascending (visible table opts)" "ReadRows gax f opts srv arg = (err, s)"
  shows "prefix (rs_rows s) (wanted (visible table opts) arg)
    \<and> (err = None \<and> rq_RowsLimit (read_request opts arg) \<le> 0 \<longrightarrow> rs_rows s = wanted (visible table opts) arg \<or> \<not> f (rs_rows s))"
proof -
  let ?s0 = "\<lparr>rs_arg = arg, rs_prevRowKey = [], rs_rows = [], rs_calls = 0\<rparr>"
  have "runs status_error (read_attempt f opts srv) ?s0 (err, s)" using assms(1,4) by (simp add: ReadRows_def retrying_runs)
  then obtain s' err' where "reading (visible table opts) arg s'" "read_attempt f opts srv s' = (err', s)" "err' = None \<longleftrightarrow> err = None"
    using runs_last_call [of status_error _ ?s0 "(err, s)" "reading (visible table opts) arg"] reading_start attempt_result(2) [OF assms(2,3)]
    by (metis fst_conv option.distinct(1) snd_conv)
  then show ?thesis using attempt_result(1,3) [OF assms(2,3)] by blast
qed

text \<open>A read of one row gives the row, or an empty one where there is none.\<close>

lemma ReadRow_correct:
  assumes "retrying status_error gax" "serves table srv" "ascending (visible table opts)" "rq_RowsLimit (read_request opts (SingleRow row)) \<le> 0"
    and "ReadRow gax opts srv row = (r, None)"
  shows "(if \<exists>x \<in> set (visible table opts). Row_Key x = row then r \<in> set (visible table opts) \<and> Row_Key r = row else r = [])"
proof -
  obtain s where s: "ReadRows gax (\<lambda>_. True) opts srv (SingleRow row) = (None, s)" "r = (if rs_rows s = [] then [] else last (rs_rows s))"
    using assms(5) by (auto simp: ReadRow_def split: prod.splits)
  have "rs_rows s = filter (\<lambda>x. Row_Key x = row) (visible table opts)"
    using ReadRows_rows [OF assms(1-3) s(1)] assms(4) by (simp add: SingleRow_def wanted_def)
  then have "set (rs_rows s) = {x \<in> set (visible table opts). Row_Key x = row}" by simp
  then show ?thesis using s(2) last_in_set [of "rs_rows s"] by (auto split: if_splits)
qed

text \<open>C11: Reading with retries.  Against a server that answers requests as documented, with the chunks of its rows cut into responses anywhere, whose streams may
  break at any point and any number of times, and with any policy that retries only errors with a status, the callback is given, in order of their
  keys and without repetition, the first rows of those that the row set covers: none is skipped and none is delivered twice, also when the read fails.  When the
  read succeeds without a limit, all rows have been delivered unless the callback has stopped it.  (A response that ends inside of a row makes the
  read fail, since \<^verbatim>\<open>Close\<close> is called after every response.)\<close>

theorem ReadRows_complete:
  assumes "retrying status_error gax" "serves table srv" "ascending (visible table opts)" "ReadRows gax f opts srv arg = (err, s)"
  shows "prefix (rs_rows s) (wanted (visible table opts) arg)
    \<and> (err = None \<and> rq_RowsLimit (read_request opts arg) \<le> 0 \<longrightarrow> rs_rows s = wanted (visible table opts) arg \<or> \<not> f (rs_rows s))"
  using assms by (rule ReadRows_rows)

text \<open>A server with a table of two rows, whose first stream breaks after a row; one retry.\<close>

definition demo_answer :: "unit ReadRowsRequest \<Rightarrow> sent_row list" where
  "demo_answer req =
     (let rows = filter (\<lambda>s. selects (rq_Rows req) (sr_key s)) demo_rows
      in if rq_RowsLimit req > 0 then take (nat (rq_RowsLimit req)) rows else rows)"

definition demo_server :: "unit server" where
  "demo_server n req =
     Inr (if n = 0 then \<lparr>st_responses = stream_of [take 1 (demo_answer req)], st_end = Some 14\<rparr>
          else \<lparr>st_responses = stream_of [demo_answer req], st_end = None\<rparr>)"

definition demo_table :: "unit option \<Rightarrow> Row list" where
  "demo_table flt = map meant demo_rows"

lemma demo_Row_Key: "s \<in> set demo_rows \<Longrightarrow> Row_Key (meant s) = sr_key s"
proof -
  have "list_all (\<lambda>s. Row_Key (meant s) = sr_key s) demo_rows" by code_simp
  then show "s \<in> set demo_rows \<Longrightarrow> Row_Key (meant s) = sr_key s" by (simp add: list_all_iff)
qed

lemma demo_sent_ok: "sent_ok [] (take n (filter P demo_rows))"
proof -
  have ok: "sent_ok [] demo_rows" "sent_ok [] [demo_rows ! 0]" "sent_ok [] [demo_rows ! 1]" by code_simp+
  obtain a b where ab: "demo_rows = [a, b]" by (simp add: demo_rows_def)
  have "filter P demo_rows \<in> {[], [a], [b], [a, b]}" by (simp add: ab)
  moreover have "take n xs \<in> {[], [a], [b], [a, b]}" if "xs \<in> {[], [a], [b], [a, b]}" for xs
    using that by (cases n; cases "n - 1") (auto simp: take_Cons split: nat.splits)
  moreover have "sent_ok [] xs" if "xs \<in> {[], [a], [b], [a, b]}" for xs using that ok by (auto simp: ab)
  ultimately show ?thesis by blast
qed

lemma demo_answer_meant: "map meant (demo_answer req) = answer demo_table req"
proof -
  have "filter (\<lambda>row. selects (rq_Rows req) (Row_Key row)) (map meant demo_rows)
      = map meant (filter (\<lambda>s. selects (rq_Rows req) (sr_key s)) demo_rows)"
    unfolding filter_map by (rule arg_cong [where f = "map meant"], rule filter_cong) (simp_all add: demo_Row_Key)
  then show ?thesis by (simp add: answer_def demo_table_def demo_answer_def take_map Let_def)
qed

lemma demo_answer_ok: "sent_ok [] (demo_answer req)"
proof -
  have "demo_answer req = take (if rq_RowsLimit req > 0 then nat (rq_RowsLimit req) else length demo_rows)
      (filter (\<lambda>s. selects (rq_Rows req) (sr_key s)) demo_rows)"
    by (simp add: demo_answer_def Let_def)
  then show ?thesis by (simp only: demo_sent_ok)
qed

lemma demo_serves: "serves demo_table demo_server"
proof -
  show ?thesis
    unfolding serves_def
  proof (intro allI impI)
    fix n req st
    assume st: "demo_server n req = Inr st"
    have "concat (map sent_chunks (demo_answer req))
        = concat (map sent_chunks (take 1 (demo_answer req))) @ concat (map sent_chunks (drop 1 (demo_answer req)))"
      by (simp only: flip: concat_append map_append) simp
    then show "\<exists>ss rest. sent_ok [] ss \<and> map meant ss = answer demo_table req
        \<and> concat (map sent_chunks ss) = concat (st_responses st) @ rest \<and> (st_end st = None \<longrightarrow> rest = [])"
      using st demo_answer_ok [of req] demo_answer_meant [of req]
      by (intro exI [of _ "demo_answer req"] exI [of _ "if n = 0 then concat (map sent_chunks (drop 1 (demo_answer req))) else []"])
        (auto simp: demo_server_def stream_of_def split: if_splits)
  qed
qed

theorem ReadRows_complete_witness:
  "\<exists>s. ReadRows (retry_once status_error) (\<lambda>_. True) [] demo_server (OneRange (InfiniteRange [])) = (None, s) \<and> rs_calls s = 2
     \<and> rs_rows s = wanted (visible demo_table []) (OneRange (InfiniteRange [])) \<and> length (rs_rows s) = 2"
proof -
  obtain err s where r: "ReadRows (retry_once status_error) (\<lambda>_. True) [] demo_server (OneRange (InfiniteRange [])) = (err, s)" by fastforce
  have "map_prod id rs_calls (ReadRows (retry_once status_error) (\<lambda>_. True) [] demo_server (OneRange (InfiniteRange []))) = (None, 2)" by code_simp
  moreover have "length (wanted (visible demo_table []) (OneRange (InfiniteRange []))) = 2" by code_simp
  moreover have "ascending (visible demo_table [])" by code_simp
  ultimately show ?thesis
    using ReadRows_complete [OF retry_once_retrying demo_serves _ r] r by (simp add: read_request_def)
qed

section \<open>Limits and retries\<close>

text \<open>A stream that has delivered the whole answer to its request, row by row.\<close>

definition answers :: "('f option \<Rightarrow> Row list) \<Rightarrow> 'f ReadRowsRequest \<Rightarrow> stream \<Rightarrow> bool" where
  "answers table req st \<longleftrightarrow>
     (\<exists>sss. st_responses st = stream_of sss \<and> sent_ok [] (concat sss) \<and> map meant (concat sss) = answer table req)"

lemma consume_all: "consume (\<lambda>_. True) rows s = (True, s1) \<longleftrightarrow> s1 = fold deliver rows s"
  by (induction rows arbitrary: s) auto

lemma full_attempt:
  assumes "srv (rs_calls s) (read_request opts (rs_arg s)) = Inr st" "answers table (read_request opts (rs_arg s)) st" "valid (rs_arg s)"
  shows "read_attempt (\<lambda>_. True) opts srv s
    = stream_end (st_end st) (fold deliver (answer table (read_request opts (rs_arg s))) (s\<lparr>rs_calls := rs_calls s + 1\<rparr>))"
proof -
  obtain sss where sss: "st_responses st = stream_of sss" "sent_ok [] (concat sss)"
    "map meant (concat sss) = answer table (read_request opts (rs_arg s))" using assms(2) by (auto simp: answers_def)
  have "consume (\<lambda>_. True) rows t = (True, fold deliver rows t)" for rows t by (simp add: consume_all)
  then show ?thesis using responses_consume [OF at_start_new sss(2)] assms(1,3) sss(1,3) by (simp add: read_attempt_def)
qed

lemma deliver_rows:
  "rs_rows (fold deliver rows s) = rs_rows s @ rows" "rs_arg (fold deliver rows s) = rs_arg s" "rs_calls (fold deliver rows s) = rs_calls s"
  "rs_prevRowKey (fold deliver rows s) = last (rs_prevRowKey s # map Row_Key rows)"
  by (induction rows arbitrary: s) (auto simp: deliver_def)

lemma limited_answer:
  assumes "valid arg" "rq_RowsLimit (read_request opts arg) = limit" "0 < limit"
  shows "answer table (read_request opts arg) = take (nat limit) (wanted (visible table opts) arg)"
proof -
  have "filter (\<lambda>row. selects (RowSet_proto arg) (Row_Key row)) (visible table opts) = wanted (visible table opts) arg"
    using rows.selected_rows [OF assms(1)] by (simp add: wanted_def)
  moreover have "table (rq_Filter (read_request opts arg)) = visible table opts"
    by (simp add: visible_def request_fields(2) [of opts arg "RowList []"])
  ultimately show ?thesis using assms(2,3) by (simp add: answer_def request_fields(1) Let_def)
qed

text \<open>What one attempt with a limit delivers when its stream is complete, whether it then ends or breaks.\<close>

lemma limited_attempt:
  assumes "ascending (visible table opts)" "reading (visible table opts) arg s"
    and "rq_RowsLimit (read_request opts arg) = limit" "0 < limit"
    and "\<And>req. rq_RowsLimit req = limit \<Longrightarrow> \<exists>st. srv (rs_calls s) req = Inr st \<and> answers table req st \<and> st_end st = fin"
  obtains s1 where "read_attempt (\<lambda>_. True) opts srv s = ((if valid (rs_arg s) then map_option rpc_error fin else None), s1)"
    "rs_rows s1 = rs_rows s @ take (nat limit) (wanted (visible table opts) (rs_arg s))"
    "valid (rs_arg s) \<Longrightarrow> fin \<noteq> None \<Longrightarrow> reading (visible table opts) arg s1 \<and> rs_calls s1 = rs_calls s + 1"
proof (cases "valid (rs_arg s)")
  case False
  then have "wanted (visible table opts) (rs_arg s) = []" using rows.no_rows by (simp add: wanted_def)
  then show thesis using False by (intro that [of s]) (simp_all add: read_attempt_def)
next
  case True
  let ?req = "read_request opts (rs_arg s)" and ?s0 = "s\<lparr>rs_calls := rs_calls s + 1\<rparr>"
  have lim: "rq_RowsLimit ?req = limit" using request_fields(3) [of opts arg "rs_arg s"] assms(3) by simp
  obtain st where st: "srv (rs_calls s) ?req = Inr st" "answers table ?req st" "st_end st = fin" using assms(5) [OF lim] by blast
  note ans = limited_answer [OF True lim assms(4), of table]
  let ?s2 = "fold deliver (answer table ?req) ?s0"
  have r: "read_attempt (\<lambda>_. True) opts srv s = stream_end fin ?s2" using full_attempt [where srv = srv and s = s, OF st(1,2) True] st(3) by simp
  have rd: "reading (visible table opts) arg ?s0" using assms(2) by (simp add: reading_def)
  have pre: "prefix (answer table ?req) (wanted (visible table opts) (rs_arg ?s0))" by (simp add: ans take_is_prefix)
  have "consume (\<lambda>_. True) (answer table ?req) ?s0 = (True, ?s2)" by (simp add: consume_all)
  note k = reading_consume [OF assms(1) rd pre this]
  show thesis
    by (rule that [of "snd (stream_end fin ?s2)"])
      (use r k(2) True in \<open>auto simp: stream_end_def deliver_rows ans split: option.splits\<close>)
qed

text \<open>C38: A limit does not survive a retry.  \<^verbatim>\<open>LimitRows\<close> sets the same limit in every request, and the retained row set begins after the rows
  delivered: the rows that earlier attempts have delivered are not counted.  Against any server that keeps to the limit, whose first stream fails after it has delivered
  its whole answer and whose second stream is complete, a read with one retry succeeds with twice as many rows as the limit allows (or all, if there
  are fewer).\<close>

theorem limit_exceeded_after_retry:
  assumes "ascending (visible table opts)" "rq_RowsLimit (read_request opts arg) = limit" "0 < limit"
    and "\<And>req. rq_RowsLimit req = limit \<Longrightarrow> \<exists>st. srv 0 req = Inr st \<and> answers table req st \<and> st_end st = Some code"
    and "\<And>req. rq_RowsLimit req = limit \<Longrightarrow> \<exists>st. srv 1 req = Inr st \<and> answers table req st \<and> st_end st = None"
  shows "\<exists>s. ReadRows (retry_once status_error) (\<lambda>_. True) opts srv arg = (None, s)
    \<and> rs_rows s = take (2 * nat limit) (wanted (visible table opts) arg)"
proof -
  let ?rows = "visible table opts"
  let ?s0 = "\<lparr>rs_arg = arg, rs_prevRowKey = [], rs_rows = [], rs_calls = 0\<rparr>"
  have srv0: "\<And>req. rq_RowsLimit req = limit \<Longrightarrow> \<exists>st. srv (rs_calls ?s0) req = Inr st \<and> answers table req st \<and> st_end st = Some code"
    using assms(4) by simp
  obtain s1 where s1: "read_attempt (\<lambda>_. True) opts srv ?s0 = ((if valid arg then Some (rpc_error code) else None), s1)"
    "rs_rows s1 = take (nat limit) (wanted ?rows arg)" "valid arg \<Longrightarrow> reading ?rows arg s1 \<and> rs_calls s1 = 1"
    by (rule limited_attempt [where srv = srv and s = ?s0 and fin = "Some code", OF assms(1) reading_start assms(2,3) srv0]) auto
  show ?thesis
  proof (cases "valid arg")
    case False
    then have "wanted ?rows arg = []" using rows.no_rows by (simp add: wanted_def)
    then show ?thesis using s1 False by (simp add: ReadRows_def retry_once_def)
  next
    case True
    then have rd: "reading ?rows arg s1" "rs_calls s1 = 1" using s1(3) by simp_all
    have srv1: "\<And>req. rq_RowsLimit req = limit \<Longrightarrow> \<exists>st. srv (rs_calls s1) req = Inr st \<and> answers table req st \<and> st_end st = None"
      using assms(5) rd(2) by simp
    obtain s2 where s2: "read_attempt (\<lambda>_. True) opts srv s1 = (None, s2)"
      "rs_rows s2 = rs_rows s1 @ take (nat limit) (wanted ?rows (rs_arg s1))"
      by (rule limited_attempt [where srv = srv and s = s1 and fin = None, OF assms(1) rd(1) assms(2,3) srv1]) (auto split: if_splits)
    have "wanted ?rows arg = take (nat limit) (wanted ?rows arg) @ wanted ?rows (rs_arg s1)"
      using rest_wanted [OF assms(1) rd(1)] s1(2) by simp
    then have "wanted ?rows (rs_arg s1) = drop (nat limit) (wanted ?rows arg)"
      by (metis append_take_drop_id same_append_eq)
    then have "rs_rows s2 = take (2 * nat limit) (wanted ?rows arg)" using s1(2) s2(2) by (simp add: mult_2 take_add)
    then show ?thesis using s1(1) s2(1) True by (simp add: ReadRows_def retry_once_def status_error_def)
  qed
qed

theorem limit_exceeded_after_retry_witness:
  "\<exists>s. ReadRows (retry_once status_error) (\<lambda>_. True) [LimitRows 1] demo_server (OneRange (InfiniteRange [])) = (None, s)
    \<and> length (rs_rows s) = 2"
proof -
  have full: "answers demo_table req \<lparr>st_responses = stream_of [demo_answer req], st_end = fin\<rparr>" for req fin
    unfolding answers_def by (rule exI [of _ "[demo_answer req]"]) (simp add: demo_answer_ok demo_answer_meant)
  have one: "take 1 (demo_answer req) = demo_answer req" if "rq_RowsLimit req = 1" for req using that by (simp add: demo_answer_def Let_def)
  have l: "rq_RowsLimit (read_request [LimitRows 1] (OneRange (InfiniteRange []))) = 1" by (simp add: read_request_def)
  have a: "ascending (visible demo_table [LimitRows 1])" by code_simp
  have "length (wanted (visible demo_table [LimitRows 1]) (OneRange (InfiniteRange []))) = 2" by code_simp
  moreover have "\<exists>s. ReadRows (retry_once status_error) (\<lambda>_. True) [LimitRows 1] demo_server (OneRange (InfiniteRange [])) = (None, s)
      \<and> rs_rows s = take (2 * nat 1) (wanted (visible demo_table [LimitRows 1]) (OneRange (InfiniteRange [])))"
    by (rule limit_exceeded_after_retry [OF a l zero_less_one, of demo_server 14]) (simp_all add: demo_server_def one [simplified] full)
  ultimately show ?thesis by auto
qed

end
