(* ===== verification/Bigtable_Apply.thy ===== *)
theory Bigtable_Apply
  imports Gax_Invoke "HOL-Library.Signed_Division"
begin

text \<open>
  Writing to Bigtable (\<^verbatim>\<open>bigtable/bigtable.go\<close>): mutations, \<^verbatim>\<open>Apply\<close>, and \<^verbatim>\<open>ApplyBulk\<close>, which sends many mutations in groups and retries those
  that may be retried.  Error codes are integers.  Filters and values are opaque.  The names of the table and of the application profile, the same
  in all requests, are left out.
\<close>

section \<open>Mutations\<close>

definition ServerTime :: int where
  "ServerTime = -1"

text \<open>The remainder of Go has the sign of the dividend.\<close>

definition TruncateToMilliseconds :: "int \<Rightarrow> int" where
  "TruncateToMilliseconds ts = (if ts = ServerTime then ts else ts - ts smod 1000)"

datatype mutation =
    SetCell (sc_family: string) (sc_qualifier: string) (sc_micros: int) (sc_value: string)
  | DeleteFromColumn string string "(int \<times> int) option"
  | DeleteFromFamily string
  | DeleteFromRow

text \<open>A conditional mutation has a filter and two mutations, either of which may be absent.\<close>

datatype 'f Mutation =
  Mutation (m_ops: "mutation list") (m_cond: "'f option") (m_mtrue: "'f Mutation option") (m_mfalse: "'f Mutation option")

definition NewMutation :: "'f Mutation" where
  "NewMutation = Mutation [] None None None"

definition NewCondMutation :: "'f \<Rightarrow> 'f Mutation option \<Rightarrow> 'f Mutation option \<Rightarrow> 'f Mutation" where
  "NewCondMutation cond mtrue mfalse = Mutation [] (Some cond) mtrue mfalse"

definition add_op :: "mutation \<Rightarrow> 'f Mutation \<Rightarrow> 'f Mutation" where
  "add_op op m = Mutation (m_ops m @ [op]) (m_cond m) (m_mtrue m) (m_mfalse m)"

definition Mutation_Set :: "string \<Rightarrow> string \<Rightarrow> int \<Rightarrow> string \<Rightarrow> 'f Mutation \<Rightarrow> 'f Mutation" where
  "Mutation_Set family column ts v = add_op (SetCell family column (TruncateToMilliseconds ts) v)"

definition DeleteCellsInColumn :: "string \<Rightarrow> string \<Rightarrow> 'f Mutation \<Rightarrow> 'f Mutation" where
  "DeleteCellsInColumn family column = add_op (DeleteFromColumn family column None)"

definition DeleteTimestampRange :: "string \<Rightarrow> string \<Rightarrow> int \<Rightarrow> int \<Rightarrow> 'f Mutation \<Rightarrow> 'f Mutation" where
  "DeleteTimestampRange family column start stop =
     add_op (DeleteFromColumn family column (Some (TruncateToMilliseconds start, TruncateToMilliseconds stop)))"

definition DeleteCellsInFamily :: "string \<Rightarrow> 'f Mutation \<Rightarrow> 'f Mutation" where
  "DeleteCellsInFamily family = add_op (DeleteFromFamily family)"

definition DeleteRow :: "'f Mutation \<Rightarrow> 'f Mutation" where
  "DeleteRow = add_op DeleteFromRow"

fun mutationsAreRetryable :: "mutation list \<Rightarrow> bool" where
  "mutationsAreRetryable [] = True"
| "mutationsAreRetryable (mut # muts) =
     (case mut of
        SetCell _ _ micros _ \<Rightarrow> (if micros = ServerTime then False else mutationsAreRetryable muts)
      | _ \<Rightarrow> mutationsAreRetryable muts)"

lemma retryable_append: "mutationsAreRetryable (xs @ ys) \<longleftrightarrow> mutationsAreRetryable xs \<and> mutationsAreRetryable ys"
  by (induction xs) (auto split: mutation.split)

text \<open>Truncation gives a multiple of a thousand, so that only \<^verbatim>\<open>ServerTime\<close> is sent as \<^verbatim>\<open>ServerTime\<close>.\<close>

lemma Truncate_ServerTime: "TruncateToMilliseconds ts = ServerTime \<longleftrightarrow> ts = ServerTime"
proof -
  have "1000 dvd ts - ts smod 1000" by (simp add: minus_smod_eq_sdiv_mult)
  moreover have "1000 dvd x \<Longrightarrow> x \<noteq> -1" for x :: int by auto
  ultimately have "ts - ts smod 1000 \<noteq> -1" by blast
  then show ?thesis by (simp add: TruncateToMilliseconds_def ServerTime_def)
qed

lemma Set_retryable:
  "mutationsAreRetryable (m_ops (Mutation_Set family column ts v m)) \<longleftrightarrow> mutationsAreRetryable (m_ops m) \<and> ts \<noteq> ServerTime"
  by (simp add: Mutation_Set_def add_op_def retryable_append Truncate_ServerTime)

section \<open>Apply\<close>

datatype 'f request =
    MutateRow string "mutation list"
  | CheckAndMutateRow string 'f "mutation list" "mutation list"

datatype apply_error = rpc_status int | nestedConditional | lengthsDiffer | conditionalInBulk | index_panic

text \<open>\<^verbatim>\<open>gax.Invoke\<close> is a parameter: the flag says whether the options for retries are given.  A call is one RPC; its outcome is a code, or whether the
  condition matched.  The state counts the RPCs made.\<close>

type_synonym 'a call_once_or_more = "bool \<Rightarrow> (nat \<Rightarrow> (int + 'a) \<times> nat) \<Rightarrow> nat \<Rightarrow> (int + 'a) \<times> nat"

definition rpc :: "(nat \<Rightarrow> 'f request \<Rightarrow> int + bool) \<Rightarrow> 'f request \<Rightarrow> nat \<Rightarrow> (int + bool) \<times> nat" where
  "rpc srv req n = (srv n req, n + 1)"

definition Apply :: "bool call_once_or_more \<Rightarrow> (nat \<Rightarrow> 'f request \<Rightarrow> int + bool) \<Rightarrow> string \<Rightarrow> 'f Mutation \<Rightarrow> (apply_error + bool) \<times> nat" where
  "Apply invoke srv row m =
     (case m_cond m of
        None \<Rightarrow>
          (case invoke (mutationsAreRetryable (m_ops m)) (rpc srv (MutateRow row (m_ops m))) 0 of
             (Inl code, n) \<Rightarrow> (Inl (rpc_status code), n)
           | (Inr res, n) \<Rightarrow> (Inr res, n))
      | Some cond \<Rightarrow>
          if (case m_mtrue m of None \<Rightarrow> False | Some mt \<Rightarrow> m_cond mt \<noteq> None) then (Inl nestedConditional, 0)
          else if (case m_mfalse m of None \<Rightarrow> False | Some mf \<Rightarrow> m_cond mf \<noteq> None) then (Inl nestedConditional, 0)
          else
            let tm = (case m_mtrue m of None \<Rightarrow> [] | Some mt \<Rightarrow> m_ops mt);
                fm = (case m_mfalse m of None \<Rightarrow> [] | Some mf \<Rightarrow> m_ops mf)
            in case invoke (mutationsAreRetryable tm \<and> mutationsAreRetryable fm) (rpc srv (CheckAndMutateRow row cond tm fm)) 0 of
                 (Inl code, n) \<Rightarrow> (Inl (rpc_status code), n)
               | (Inr res, n) \<Rightarrow> (Inr res, n))"


text \<open>Without options for retries the library calls once.  Then mutations with a time of the server's are sent at most once.\<close>

definition needs_server_time :: "mutation list \<Rightarrow> bool" where
  "needs_server_time muts \<longleftrightarrow> list_ex (\<lambda>mut. case mut of SetCell _ _ micros _ \<Rightarrow> micros = ServerTime | _ \<Rightarrow> False) muts"

lemma mutationsAreRetryable_iff: "mutationsAreRetryable muts \<longleftrightarrow> \<not> needs_server_time muts"
  by (induction muts) (auto simp: needs_server_time_def split: mutation.split)

lemma Apply_at_most_once:
  assumes "\<And>call n. invoke False call n = call n"
    and "case m_cond m of None \<Rightarrow> needs_server_time (m_ops m)
         | Some _ \<Rightarrow> needs_server_time (case m_mtrue m of None \<Rightarrow> [] | Some mt \<Rightarrow> m_ops mt)
             \<or> needs_server_time (case m_mfalse m of None \<Rightarrow> [] | Some mf \<Rightarrow> m_ops mf)"
  shows "snd (Apply invoke srv row m) \<le> 1"
  using assms(2)
  by (auto simp: Apply_def assms(1) rpc_def mutationsAreRetryable_iff Let_def split: option.splits sum.splits if_splits)

section \<open>Groups\<close>

record entryErr =
  ee_RowKey :: string
  ee_Mutations :: "mutation list"
  ee_Err :: "int option"

text \<open>Groups are slices of the entries, which are shared by reference: a group is the list of the positions of its entries.\<close>

record grouping =
  g_res :: "nat list list"
  g_start :: nat
  g_muts :: nat

definition addGroup :: "nat \<Rightarrow> grouping \<Rightarrow> grouping" where
  "addGroup stop g = (if stop - g_start g > 0 then \<lparr>g_res = g_res g @ [[g_start g..<stop]], g_start = stop, g_muts = 0\<rparr> else g)"

fun group_loop :: "nat \<Rightarrow> nat \<Rightarrow> entryErr list \<Rightarrow> grouping \<Rightarrow> grouping" where
  "group_loop maxSize i [] g = addGroup i g"
| "group_loop maxSize i (e # es) g =
     (let emuts = length (ee_Mutations e);
          g1 = (if g_muts g + emuts > maxSize then addGroup i g else g)
      in group_loop maxSize (i + 1) es (g1\<lparr>g_muts := g_muts g1 + emuts\<rparr>))"

definition groupEntries :: "entryErr list \<Rightarrow> nat \<Rightarrow> nat list list" where
  "groupEntries entries maxSize = g_res (group_loop maxSize 0 entries \<lparr>g_res = [], g_start = 0, g_muts = 0\<rparr>)"

definition muts_of :: "entryErr list \<Rightarrow> nat list \<Rightarrow> nat" where
  "muts_of entries grp = sum_list (map (\<lambda>i. length (ee_Mutations (entries ! i))) grp)"

text \<open>A group fits, or is a single entry; the first entry after it would not have fitted.\<close>

definition fits :: "entryErr list \<Rightarrow> nat \<Rightarrow> nat list \<Rightarrow> bool" where
  "fits entries maxSize grp \<longleftrightarrow> grp \<noteq> [] \<and> (muts_of entries grp \<le> maxSize \<or> length grp = 1)"

definition full_before :: "entryErr list \<Rightarrow> nat \<Rightarrow> nat list \<Rightarrow> nat list \<Rightarrow> bool" where
  "full_before entries maxSize g h \<longleftrightarrow> muts_of entries g + length (ee_Mutations (entries ! hd h)) > maxSize"

definition grouped :: "entryErr list \<Rightarrow> nat \<Rightarrow> nat \<Rightarrow> grouping \<Rightarrow> bool" where
  "grouped entries maxSize i g \<longleftrightarrow>
     g_start g \<le> i \<and> concat (g_res g) = [0..<g_start g] \<and> list_all (fits entries maxSize) (g_res g)
   \<and> successively (full_before entries maxSize) (g_res g) \<and> g_muts g = muts_of entries [g_start g..<i]
   \<and> (g_muts g \<le> maxSize \<or> i = g_start g + 1)
   \<and> (g_res g \<noteq> [] \<longrightarrow> g_start g < length entries \<longrightarrow> full_before entries maxSize (last (g_res g)) [g_start g])"

lemma addGroup_grouped:
  assumes "grouped entries maxSize i g"
  shows "concat (g_res (addGroup i g)) = [0..<i]" "list_all (fits entries maxSize) (g_res (addGroup i g))"
    and "i \<le> length entries \<Longrightarrow> successively (full_before entries maxSize) (g_res (addGroup i g))"
    and "g_start (addGroup i g) = i"
    and "g_start g < i \<Longrightarrow> last (g_res (addGroup i g)) = [g_start g..<i] \<and> g_muts (addGroup i g) = 0"
proof -
  have u: "[0..<g_start g] @ [g_start g..<i] = [0..<i]"
    using assms by (metis grouped_def le_add_diff_inverse plus_nat.add_0 upt_add_eq_append zero_le)
  have "full_before entries maxSize x [g_start g..<i] = full_before entries maxSize x [g_start g]" if "g_start g < i" for x
    using that by (simp add: full_before_def upt_conv_Cons)
  then show "i \<le> length entries \<Longrightarrow> successively (full_before entries maxSize) (g_res (addGroup i g))"
    using assms by (cases "g_res g" rule: rev_cases) (auto simp: addGroup_def grouped_def successively_append_iff)
  show "concat (g_res (addGroup i g)) = [0..<i]" using assms u by (auto simp: addGroup_def grouped_def)
  show "list_all (fits entries maxSize) (g_res (addGroup i g))" using assms by (auto simp: addGroup_def grouped_def fits_def)
  show "g_start (addGroup i g) = i" using assms by (auto simp: addGroup_def grouped_def)
  show "g_start g < i \<Longrightarrow> last (g_res (addGroup i g)) = [g_start g..<i] \<and> g_muts (addGroup i g) = 0" by (simp add: addGroup_def)
qed


lemma group_step:
  assumes "grouped entries maxSize i g" "i < length entries" "n = length (ee_Mutations (entries ! i))"
    and "g1 = (if g_muts g + n > maxSize then addGroup i g else g)"
  shows "grouped entries maxSize (i + 1) (g1\<lparr>g_muts := g_muts g1 + n\<rparr>)"
proof -
  note a = addGroup_grouped [OF assms(1)]
  have m: "muts_of entries [k..<i + 1] = muts_of entries [k..<i] + n" if "k \<le> i" for k
    using that assms(3) by (simp add: muts_of_def)
  show ?thesis
  proof (cases "g_muts g + n > maxSize")
    case False
    then show ?thesis using assms(1,4) m [of "g_start g"] by (auto simp: grouped_def)
  next
    case True
    have z: "g_muts (addGroup i g) = 0"
      using a(5) assms(1) by (cases "g_start g < i") (auto simp: addGroup_def grouped_def muts_of_def)
    have l: "full_before entries maxSize (last (g_res (addGroup i g))) [i]" if "g_res (addGroup i g) \<noteq> []"
    proof (cases "g_start g < i")
      case True
      then show ?thesis using a(5) \<open>g_muts g + n > maxSize\<close> assms(1,3) by (simp add: full_before_def grouped_def)
    next
      case False
      then have "addGroup i g = g" "g_start g = i" using assms(1) by (simp_all add: addGroup_def grouped_def)
      then show ?thesis using assms(1,2) that by (simp add: grouped_def)
    qed
    show ?thesis
      using a(1-4) z l m [of i] True assms(2,4) by (simp add: grouped_def muts_of_def)
  qed
qed

lemma group_loop_ok:
  "grouped entries maxSize i g \<Longrightarrow> es = drop i entries \<Longrightarrow> i \<le> length entries \<Longrightarrow>
     concat (g_res (group_loop maxSize i es g)) = [0..<length entries]
   \<and> list_all (fits entries maxSize) (g_res (group_loop maxSize i es g))
   \<and> successively (full_before entries maxSize) (g_res (group_loop maxSize i es g))"
proof (induction es arbitrary: i g)
  case Nil
  then have "i = length entries" by simp
  then show ?case using addGroup_grouped [OF Nil(1)] by simp
next
  case (Cons e es)
  have i: "i < length entries" "e = entries ! i" "es = drop (i + 1) entries"
    using Cons.prems(2,3) by (metis drop_all list.distinct(1) not_less, metis nth_via_drop, metis drop_Suc Suc_eq_plus1 list.sel(3) tl_drop)
  from group_step [OF Cons.prems(1) i(1) refl refl] Cons.IH i show ?case by (simp add: Let_def)
qed

lemma groupEntries_ok:
  "concat (groupEntries entries maxSize) = [0..<length entries]" "list_all (fits entries maxSize) (groupEntries entries maxSize)"
  "successively (full_before entries maxSize) (groupEntries entries maxSize)"
proof -
  have "grouped entries maxSize 0 \<lparr>g_res = [], g_start = 0, g_muts = 0\<rparr>" by (simp add: grouped_def muts_of_def)
  from group_loop_ok [OF this, of entries] show "concat (groupEntries entries maxSize) = [0..<length entries]"
    "list_all (fits entries maxSize) (groupEntries entries maxSize)" "successively (full_before entries maxSize) (groupEntries entries maxSize)"
    by (simp_all add: groupEntries_def)
qed

text \<open>C39: The groups in which entries are sent are consecutive and cover every entry exactly once, none is empty, none has more than the maximal number of
  mutations unless it is a single entry that has, and no group could have taken the first entry of the next.\<close>

theorem groupEntries_partition:
  "concat (groupEntries entries maxSize) = [0..<length entries]
   \<and> list_all (\<lambda>grp. grp \<noteq> [] \<and> (muts_of entries grp \<le> maxSize \<or> length grp = 1)) (groupEntries entries maxSize)
   \<and> successively (\<lambda>g h. muts_of entries g + length (ee_Mutations (entries ! hd h)) > maxSize) (groupEntries entries maxSize)"
  using groupEntries_ok unfolding fits_def [abs_def] full_before_def [abs_def] by blast

section \<open>Bulk mutations\<close>

definition idempotentRetryCodes :: "int list" where
  "idempotentRetryCodes = [4, 14, 10]"

definition isIdempotentRetryCode :: "int \<Rightarrow> bool" where
  "isIdempotentRetryCode code \<longleftrightarrow> code \<in> set idempotentRetryCodes"

definition maxMutations :: nat where
  "maxMutations = 100000"

text \<open>A response holds an index and a status code for each result; a stream ends or fails with a code.  An access out of bounds, a panic, is the error
  \<^const>\<open>index_panic\<close>.\<close>

record bulk_stream =
  bk_responses :: "(int \<times> int) list list"
  bk_end :: "int option"

type_synonym bulk_server = "nat \<Rightarrow> (string \<times> mutation list) list \<Rightarrow> int + bulk_stream"

record bulk_state =
  bs_entries :: "entryErr list"
  bs_group :: "nat list"
  bs_calls :: nat

definition set_err :: "nat \<Rightarrow> int \<Rightarrow> entryErr list \<Rightarrow> entryErr list" where
  "set_err p code entries = entries[p := (entries ! p)\<lparr>ee_Err := (if code = 0 then None else Some code)\<rparr>]"

fun bulk_results :: "nat list \<Rightarrow> nat \<Rightarrow> (int \<times> int) list \<Rightarrow> entryErr list \<Rightarrow> apply_error option \<times> entryErr list" where
  "bulk_results grp i [] entries = (None, entries)"
| "bulk_results grp i ((index, code) # res) entries =
     (if i \<ge> length grp then (Some index_panic, entries)
      else bulk_results grp (i + 1) res (set_err (grp ! i) code entries))"

fun bulk_responses :: "nat list \<Rightarrow> (int \<times> int) list list \<Rightarrow> int option \<Rightarrow> entryErr list \<Rightarrow> apply_error option \<times> entryErr list" where
  "bulk_responses grp [] fin entries = (map_option rpc_status fin, entries)"
| "bulk_responses grp (res # rest) fin entries =
     (case bulk_results grp 0 res entries of
        (Some e, entries1) \<Rightarrow> (Some e, entries1)
      | (None, entries1) \<Rightarrow> bulk_responses grp rest fin entries1)"

definition doApplyBulk :: "bulk_server \<Rightarrow> bulk_state \<Rightarrow> apply_error option \<times> bulk_state" where
  "doApplyBulk srv s =
     (let req = map (\<lambda>p. (ee_RowKey (bs_entries s ! p), ee_Mutations (bs_entries s ! p))) (bs_group s);
          s1 = s\<lparr>bs_calls := bs_calls s + 1\<rparr>
      in case srv (bs_calls s) req of
           Inl code \<Rightarrow> (Some (rpc_status code), s1)
         | Inr st \<Rightarrow>
             (case bulk_responses (bs_group s) (bk_responses st) (bk_end st) (bs_entries s) of
                (err, entries) \<Rightarrow> (err, s1\<lparr>bs_entries := entries\<rparr>)))"

definition retry_entry :: "entryErr \<Rightarrow> bool" where
  "retry_entry e \<longleftrightarrow>
     (case ee_Err e of None \<Rightarrow> False | Some code \<Rightarrow> isIdempotentRetryCode code \<and> mutationsAreRetryable (ee_Mutations e))"

definition getApplyBulkRetries :: "entryErr list \<Rightarrow> nat list \<Rightarrow> nat list" where
  "getApplyBulkRetries entries grp = filter (\<lambda>p. retry_entry (entries ! p)) grp"

definition bulk_attempt :: "bulk_server \<Rightarrow> bulk_state \<Rightarrow> apply_error option \<times> bulk_state" where
  "bulk_attempt srv s =
     (case doApplyBulk srv s of
        (Some e, s1) \<Rightarrow> (Some e, s1)
      | (None, s1) \<Rightarrow>
          (let grp = getApplyBulkRetries (bs_entries s1) (bs_group s1);
               s2 = s1\<lparr>bs_group := grp\<rparr>
           in if grp \<noteq> [] \<and> idempotentRetryCodes \<noteq> [] then (Some (rpc_status (hd idempotentRetryCodes)), s2) else (None, s2)))"

fun bulk_groups ::
  "(bulk_state, apply_error) invoke \<Rightarrow> bulk_server \<Rightarrow> nat list list \<Rightarrow> bulk_state \<Rightarrow> apply_error option \<times> bulk_state" where
  "bulk_groups gax srv [] s = (None, s)"
| "bulk_groups gax srv (grp # grps) s =
     (case gax (bulk_attempt srv) (s\<lparr>bs_group := grp\<rparr>) of
        (Some e, s1) \<Rightarrow> (Some e, s1)
      | (None, s1) \<Rightarrow> bulk_groups gax srv grps s1)"

definition bulk_entries :: "string list \<Rightarrow> 'f Mutation list \<Rightarrow> entryErr list" where
  "bulk_entries rowKeys muts =
     map (\<lambda>(key, mut). \<lparr>ee_RowKey = key, ee_Mutations = m_ops mut, ee_Err = None\<rparr>) (zip rowKeys muts)"

definition ApplyBulk ::
  "(bulk_state, apply_error) invoke \<Rightarrow> bulk_server \<Rightarrow> string list \<Rightarrow> 'f Mutation list \<Rightarrow> apply_error + int option list option" where
  "ApplyBulk gax srv rowKeys muts =
     (if length rowKeys \<noteq> length muts then Inl lengthsDiffer
      else if list_ex (\<lambda>mut. m_cond mut \<noteq> None) muts then Inl conditionalInBulk
      else
        let origEntries = bulk_entries rowKeys muts
        in case bulk_groups gax srv (groupEntries origEntries maxMutations) \<lparr>bs_entries = origEntries, bs_group = [], bs_calls = 0\<rparr> of
             (Some e, s) \<Rightarrow> Inl e
           | (None, s) \<Rightarrow>
               (let errs = map ee_Err (bs_entries s)
                in if list_ex (\<lambda>err. err \<noteq> None) errs then Inr (Some errs) else Inr None))"


section \<open>What a bulk mutation settles\<close>

text \<open>Only the errors of the entries of a group change.\<close>

definition same_but :: "nat set \<Rightarrow> entryErr list \<Rightarrow> entryErr list \<Rightarrow> bool" where
  "same_but P xs ys \<longleftrightarrow>
     map ee_RowKey ys = map ee_RowKey xs \<and> map ee_Mutations ys = map ee_Mutations xs \<and> (\<forall>p. p \<notin> P \<longrightarrow> ys ! p = xs ! p)"

lemma same_but_refl [simp]: "same_but P xs xs"
  by (simp add: same_but_def)

lemma same_but_trans: "same_but P xs ys \<Longrightarrow> same_but Q ys zs \<Longrightarrow> same_but (P \<union> Q) xs zs"
  by (simp add: same_but_def)

lemma same_but_mono: "same_but P xs ys \<Longrightarrow> P \<subseteq> Q \<Longrightarrow> same_but Q xs ys"
  by (auto simp: same_but_def)

lemma map_update_same: "f y = f (xs ! p) \<Longrightarrow> map f (xs[p := y]) = map f xs"
  by (metis list_update_id map_update)

lemma same_but_set_err: "p \<in> P \<Longrightarrow> same_but P xs (set_err p code xs)"
  by (auto simp: same_but_def set_err_def map_update_same intro: nth_list_update_neq)

lemma bulk_results_same_but: "bulk_results grp i res xs = (err, ys) \<Longrightarrow> same_but (set grp) xs ys"
proof (induction grp i res xs rule: bulk_results.induct)
  case (2 grp i index code res xs)
  show ?case
  proof (cases "i \<ge> length grp")
    case True
    then show ?thesis using 2 by simp
  next
    case False
    then have "same_but (set grp) (set_err (grp ! i) code xs) ys" using 2 by simp
    with same_but_trans [OF same_but_set_err [of "grp ! i" "set grp" xs code] this] False show ?thesis by simp
  qed
qed simp

lemma bulk_responses_same_but: "bulk_responses grp rs fin xs = (err, ys) \<Longrightarrow> same_but (set grp) xs ys"
proof (induction grp rs fin xs rule: bulk_responses.induct)
  case (2 grp res rest fin xs)
  obtain e zs where r: "bulk_results grp 0 res xs = (e, zs)" by fastforce
  show ?case
  proof (cases e)
    case None
    then have "same_but (set grp) zs ys" using 2 r by simp
    with same_but_trans [OF bulk_results_same_but [OF r] this] show ?thesis by simp
  next
    case (Some a)
    then show ?thesis using 2(2) r bulk_results_same_but [OF r] by simp
  qed
qed simp

lemma doApplyBulk_same_but:
  assumes "doApplyBulk srv s = (err, s1)"
  shows "same_but (set (bs_group s)) (bs_entries s) (bs_entries s1)" "bs_group s1 = bs_group s"
  using assms by (auto simp: doApplyBulk_def Let_def dest: bulk_responses_same_but split: sum.splits prod.splits)

text \<open>While a group is being sent, the entries that it no longer holds are settled.\<close>

definition sending :: "entryErr list \<Rightarrow> nat list \<Rightarrow> bulk_state \<Rightarrow> bool" where
  "sending xs grp s \<longleftrightarrow>
     same_but (set grp) xs (bs_entries s) \<and> set (bs_group s) \<subseteq> set grp
   \<and> (\<forall>p. p \<in> set grp - set (bs_group s) \<longrightarrow> \<not> retry_entry (bs_entries s ! p))"

lemma attempt_sending:
  assumes "sending xs grp s" "bulk_attempt srv s = (err, s1)"
  shows "sending xs grp s1" "err = None \<Longrightarrow> bs_group s1 = []"
proof -
  obtain e s0 where d: "doApplyBulk srv s = (e, s0)" by fastforce
  note f = doApplyBulk_same_but [OF d]
  have "same_but (set grp) xs (bs_entries s0)"
    using same_but_trans [of "set grp" xs "bs_entries s" "set (bs_group s)"] f(1) assms(1) by (simp add: sending_def Un_absorb2)
  moreover have "bs_entries s0 ! p = bs_entries s ! p" if "p \<notin> set (bs_group s)" for p using f(1) that by (simp add: same_but_def)
  ultimately have s0: "sending xs grp s0" using assms(1) f(2) by (simp add: sending_def)
  show "sending xs grp s1" "err = None \<Longrightarrow> bs_group s1 = []"
    using assms(2) d s0
    by (auto simp: bulk_attempt_def sending_def getApplyBulkRetries_def idempotentRetryCodes_def filter_empty_conv Let_def split: option.splits if_splits)
qed

lemma group_settled:
  assumes "retrying retryable gax" "gax (bulk_attempt srv) (s\<lparr>bs_group := grp\<rparr>) = (None, s1)"
  shows "same_but (set grp) (bs_entries s) (bs_entries s1)" "p \<in> set grp \<Longrightarrow> \<not> retry_entry (bs_entries s1 ! p)"
proof -
  have "sending (bs_entries s) grp (s\<lparr>bs_group := grp\<rparr>)" by (simp add: sending_def)
  with retrying_runs [OF assms] obtain s0 err where "sending (bs_entries s) grp s0" "bulk_attempt srv s0 = (err, s1)" "err = None"
    using runs_last_call [of retryable "bulk_attempt srv" _ "(None, s1)" "sending (bs_entries s) grp"] attempt_sending(1)
    by (metis fst_conv snd_conv)
  from attempt_sending [OF this(1,2)] this(3) show "same_but (set grp) (bs_entries s) (bs_entries s1)"
    "p \<in> set grp \<Longrightarrow> \<not> retry_entry (bs_entries s1 ! p)" by (auto simp: sending_def)
qed

lemma groups_settled:
  assumes "retrying retryable gax"
  shows "bulk_groups gax srv grps s = (None, s1) \<Longrightarrow> distinct (concat grps) \<Longrightarrow>
    same_but (set (concat grps)) (bs_entries s) (bs_entries s1) \<and> (\<forall>p. p \<in> set (concat grps) \<longrightarrow> \<not> retry_entry (bs_entries s1 ! p))"
proof (induction grps arbitrary: s)
  case (Cons grp grps)
  then obtain s0 where g: "gax (bulk_attempt srv) (s\<lparr>bs_group := grp\<rparr>) = (None, s0)" "bulk_groups gax srv grps s0 = (None, s1)"
    by (auto split: prod.splits option.splits)
  note a = group_settled [OF assms g(1)] and b = Cons.IH [OF g(2)]
  have "bs_entries s1 ! p = bs_entries s0 ! p" if "p \<in> set grp" for p
  proof -
    have "p \<notin> set (concat grps)" using Cons.prems(2) that by auto
    then show ?thesis using b Cons.prems(2) by (simp add: same_but_def)
  qed
  with a b Cons.prems(2) same_but_trans [OF a(1)] show ?case by auto
qed simp

text \<open>C14: When a bulk mutation succeeds as a whole, with any server and any retry policy, the errors returned belong to the entries, one for each, and none of them is
  an error that may be retried for a mutation that may be retried: such an entry is sent again until it has another outcome, or the whole call
  fails.\<close>

theorem ApplyBulk_settled:
  assumes "retrying retryable gax" "ApplyBulk gax srv rowKeys muts = Inr errs"
  shows "length muts = length rowKeys
    \<and> (case errs of
         None \<Rightarrow> True
       | Some es \<Rightarrow> length es = length rowKeys \<and> list_ex (\<lambda>e. e \<noteq> None) es
           \<and> list_all2 (\<lambda>e mut. case e of None \<Rightarrow> True | Some code \<Rightarrow> \<not> (isIdempotentRetryCode code \<and> mutationsAreRetryable (m_ops mut))) es muts)"
proof -
  let ?xs = "bulk_entries rowKeys muts"
  have len: "length rowKeys = length muts" using assms(2) by (auto simp: ApplyBulk_def split: if_splits)
  obtain s where g: "bulk_groups gax srv (groupEntries ?xs maxMutations) \<lparr>bs_entries = ?xs, bs_group = [], bs_calls = 0\<rparr> = (None, s)"
    and errs: "errs = (if list_ex (\<lambda>e. e \<noteq> None) (map ee_Err (bs_entries s)) then Some (map ee_Err (bs_entries s)) else None)"
    using assms(2) by (auto simp: ApplyBulk_def Let_def split: if_splits prod.splits option.splits)
  have c: "concat (groupEntries ?xs maxMutations) = [0..<length ?xs]" by (rule groupEntries_ok)
  have n: "length ?xs = length muts" using len by (simp add: bulk_entries_def)
  from groups_settled [OF assms(1) g] c have f: "same_but {0..<length muts} ?xs (bs_entries s)"
    and r: "p < length muts \<Longrightarrow> \<not> retry_entry (bs_entries s ! p)" for p by (simp_all add: n)
  have l: "length (bs_entries s) = length muts" using f n by (metis same_but_def length_map)
  have "map ee_Mutations (bs_entries s) = map m_ops muts"
    using f len by (auto simp: same_but_def bulk_entries_def zip_map_fst_snd intro: nth_equalityI)
  then have m: "p < length muts \<Longrightarrow> ee_Mutations (bs_entries s ! p) = m_ops (muts ! p)" for p by (metis l nth_map)
  have "case ee_Err (bs_entries s ! p) of None \<Rightarrow> True | Some code \<Rightarrow> \<not> (isIdempotentRetryCode code \<and> mutationsAreRetryable (m_ops (muts ! p)))"
    if "p < length muts" for p
    using r [OF that] m [OF that] by (simp add: retry_entry_def split: option.splits)
  then have "list_all2 (\<lambda>e mut. case e of None \<Rightarrow> True | Some code \<Rightarrow> \<not> (isIdempotentRetryCode code \<and> mutationsAreRetryable (m_ops mut)))
      (map ee_Err (bs_entries s)) muts"
    unfolding list_all2_conv_all_nth using l by simp
  then show ?thesis using errs l len by simp
qed


text \<open>A server that refuses entries: the first time with an error that may be retried for the first entry.\<close>

definition busy_server :: bulk_server where
  "busy_server n req =
     Inr \<lparr>bk_responses = [map (\<lambda>(i, key, muts). (int i, if n = 0 \<and> i = 0 then 14 else if key = ''b'' then 3 else 0)) (enumerate 0 req)], bk_end = None\<rparr>"

text \<open>\<^verbatim>\<open>gax.OnCodes\<close> retries errors with a status of one of the codes only.\<close>

definition retryable_status :: "apply_error \<Rightarrow> bool" where
  "retryable_status e \<longleftrightarrow> (case e of rpc_status code \<Rightarrow> isIdempotentRetryCode code | _ \<Rightarrow> False)"

definition demo_mutation :: "unit Mutation" where
  "demo_mutation = Mutation_Set ''f'' ''q'' 5000 ''v'' NewMutation"

lemmas bulk_eval = retryable_status_def ApplyBulk_def bulk_entries_def groupEntries_def addGroup_def maxMutations_def retry_once_def bulk_attempt_def doApplyBulk_def
  getApplyBulkRetries_def retry_entry_def isIdempotentRetryCode_def idempotentRetryCodes_def set_err_def demo_mutation_def Mutation_Set_def
  NewMutation_def add_op_def TruncateToMilliseconds_def ServerTime_def upt_rec

theorem ApplyBulk_settled_witness:
  "ApplyBulk (retry_once retryable_status) busy_server [''a'', ''b''] [demo_mutation, demo_mutation] = Inr (Some [None, Some 3])
   \<and> \<not> (isIdempotentRetryCode 3 \<and> mutationsAreRetryable (m_ops demo_mutation))"
proof -
  have r: "ApplyBulk (retry_once retryable_status) busy_server [''a'', ''b''] [demo_mutation, demo_mutation] = Inr (Some [None, Some 3])"
    by (simp add: bulk_eval busy_server_def)
  from ApplyBulk_settled [OF retry_once_retrying this] show ?thesis using r by simp
qed

section \<open>Results by position\<close>

definition err_of :: "int \<Rightarrow> int option" where
  "err_of code = (if code = 0 then None else Some code)"

lemma bulk_results_positions:
  "i + length rs \<le> length grp \<Longrightarrow> distinct grp \<Longrightarrow> list_all (\<lambda>p. p < length xs) grp \<Longrightarrow>
     \<exists>ys. bulk_results grp i rs xs = (None, ys) \<and> length ys = length xs
       \<and> (\<forall>j < length grp. ee_Err (ys ! (grp ! j)) =
            (if i \<le> j \<and> j < i + length rs then err_of (snd (rs ! (j - i))) else ee_Err (xs ! (grp ! j))))"
proof (induction rs arbitrary: i xs)
  case (Cons r rs)
  obtain index code where r: "r = (index, code)" by fastforce
  let ?xs = "set_err (grp ! i) code xs"
  have i: "i < length grp" and p: "grp ! i < length xs" using Cons.prems by (auto simp: list_all_length)
  have "list_all (\<lambda>p. p < length ?xs) grp" using Cons.prems(3) by (simp add: set_err_def)
  from Cons.IH [OF _ Cons.prems(2) this, of "i + 1"] Cons.prems(1) obtain ys where
    ys: "bulk_results grp (i + 1) rs ?xs = (None, ys)" "length ys = length xs"
    "\<forall>j < length grp. ee_Err (ys ! (grp ! j)) =
       (if i + 1 \<le> j \<and> j < i + 1 + length rs then err_of (snd (rs ! (j - (i + 1)))) else ee_Err (?xs ! (grp ! j)))"
    by (auto simp: set_err_def)
  have x: "ee_Err (?xs ! (grp ! j)) = (if j = i then err_of code else ee_Err (xs ! (grp ! j)))" if "j < length grp" for j
    using that i p Cons.prems(2) by (auto simp: set_err_def err_of_def nth_list_update nth_eq_iff_index_eq)
  have "ee_Err (ys ! (grp ! j)) =
      (if i \<le> j \<and> j < i + length (r # rs) then err_of (snd ((r # rs) ! (j - i))) else ee_Err (xs ! (grp ! j)))" if j: "j < length grp" for j
    using ys(3) x [OF j] j r by (auto simp: nth_Cons' diff_Suc split: nat.splits)
  then show ?case using ys(1,2) i r by simp
qed auto

lemma single_responses:
  assumes "distinct grp" "list_all (\<lambda>p. p < length xs) grp" "grp \<noteq> []" "rs \<noteq> []"
  shows "\<exists>ys. bulk_responses grp (map (\<lambda>r. [r]) rs) None xs = (None, ys) \<and> length ys = length xs
       \<and> ee_Err (ys ! hd grp) = err_of (snd (last rs)) \<and> (\<forall>p. p \<noteq> hd grp \<longrightarrow> ys ! p = xs ! p)"
  using assms(2,4)
proof (induction rs arbitrary: xs)
  case (Cons r rs)
  obtain index code where r: "r = (index, code)" by fastforce
  let ?xs = "set_err (hd grp) code xs"
  have h: "grp ! 0 = hd grp" "hd grp < length xs" using assms(3) Cons.prems(1) by (cases grp; simp)+
  have one: "bulk_responses grp (map (\<lambda>r. [r]) (r # rs)) None xs = bulk_responses grp (map (\<lambda>r. [r]) rs) None ?xs"
    using assms(3) h(1) r by simp
  have x: "length ?xs = length xs" "ee_Err (?xs ! hd grp) = err_of code" "p \<noteq> hd grp \<Longrightarrow> ?xs ! p = xs ! p" for p
    using h(2) by (auto simp: set_err_def err_of_def)
  show ?case
  proof (cases "rs = []")
    case True
    then show ?thesis using one x r by simp
  next
    case False
    have "list_all (\<lambda>p. p < length ?xs) grp" using Cons.prems(1) x(1) by simp
    from Cons.IH [OF this False] obtain ys where "bulk_responses grp (map (\<lambda>r. [r]) rs) None ?xs = (None, ys)" "length ys = length ?xs"
      "ee_Err (ys ! hd grp) = err_of (snd (last rs))" "\<forall>p. p \<noteq> hd grp \<longrightarrow> ys ! p = ?xs ! p" by blast
    then show ?thesis using one x False by auto
  qed
qed simp

text \<open>C40: Results are attributed by their position in a response, not by the index they carry.  Let a request for a group of entries be answered with one result
  for each, whatever their indices.  When all come in one response, each entry of the group gets the result at its position.  When the same results
  come in a response each, all are stored in the first entry, which keeps the last, and every other entry of the group keeps the error, or the success, that
  it had before.\<close>

theorem bulk_results_by_position:
  assumes "distinct (bs_group s)" "list_all (\<lambda>p. p < length (bs_entries s)) (bs_group s)" "bs_group s \<noteq> []"
    and "length rs = length (bs_group s)"
  shows "\<exists>s1 s2. doApplyBulk (\<lambda>n req. Inr \<lparr>bk_responses = [rs], bk_end = None\<rparr>) s = (None, s1)
    \<and> (\<forall>i < length rs. ee_Err (bs_entries s1 ! (bs_group s ! i)) = err_of (snd (rs ! i)))
    \<and> doApplyBulk (\<lambda>n req. Inr \<lparr>bk_responses = map (\<lambda>r. [r]) rs, bk_end = None\<rparr>) s = (None, s2)
    \<and> ee_Err (bs_entries s2 ! hd (bs_group s)) = err_of (snd (last rs))
    \<and> (\<forall>i. 0 < i \<and> i < length rs \<longrightarrow> bs_entries s2 ! (bs_group s ! i) = bs_entries s ! (bs_group s ! i))"
proof -
  let ?s = "\<lambda>es. s\<lparr>bs_calls := bs_calls s + 1, bs_entries := es\<rparr>"
  obtain ys where ys: "bulk_results (bs_group s) 0 rs (bs_entries s) = (None, ys)"
    "\<forall>i < length rs. ee_Err (ys ! (bs_group s ! i)) = err_of (snd (rs ! i))"
    using bulk_results_positions [of 0 rs "bs_group s" "bs_entries s"] assms by auto
  have "rs \<noteq> []" using assms(3,4) by auto
  from single_responses [OF assms(1-3) this] obtain zs where
    zs: "bulk_responses (bs_group s) (map (\<lambda>r. [r]) rs) None (bs_entries s) = (None, zs)"
    "ee_Err (zs ! hd (bs_group s)) = err_of (snd (last rs))" "\<forall>p. p \<noteq> hd (bs_group s) \<longrightarrow> zs ! p = bs_entries s ! p" by blast
  have "bs_group s ! i \<noteq> hd (bs_group s)" if "0 < i" "i < length rs" for i
    using that assms nth_eq_iff_index_eq [OF assms(1), of i 0] by (simp add: hd_conv_nth)
  then show ?thesis
    using ys zs by (intro exI [of _ "?s ys"] exI [of _ "?s zs"]) (simp add: doApplyBulk_def Let_def)
qed

theorem bulk_results_by_position_witness:
  "let s = \<lparr>bs_entries = bulk_entries [''a'', ''b''] [demo_mutation, demo_mutation], bs_group = [0, 1], bs_calls = 0\<rparr>
   in \<exists>s1 s2. doApplyBulk (\<lambda>n req. Inr \<lparr>bk_responses = [[(0, 0), (1, 3)]], bk_end = None\<rparr>) s = (None, s1)
       \<and> map ee_Err (bs_entries s1) = [None, Some 3]
       \<and> doApplyBulk (\<lambda>n req. Inr \<lparr>bk_responses = [[(0, 0)], [(1, 3)]], bk_end = None\<rparr>) s = (None, s2)
       \<and> map ee_Err (bs_entries s2) = [Some 3, None]"
proof -
  let ?s = "\<lparr>bs_entries = bulk_entries [''a'', ''b''] [demo_mutation, demo_mutation], bs_group = [0, 1], bs_calls = 0\<rparr>"
  have "distinct (bs_group ?s)" "list_all (\<lambda>p. p < length (bs_entries ?s)) (bs_group ?s)" "bs_group ?s \<noteq> []"
    "length [(0, 0), (1, 3)] = length (bs_group ?s)" by (simp_all add: bulk_entries_def)
  from bulk_results_by_position [OF this(1-3), of "[(0 :: int, 0 :: int), (1, 3)]"] show ?thesis
    by (simp add: doApplyBulk_def bulk_entries_def set_err_def)
qed

end
