(* ===== verification/Spec2Isabelle.thy ===== *)
theory Spec2Isabelle
  imports Wire_Routing Wire_Subscribers Btree_Store Btree_Heap Firestore_Listen Bigtable_Rows Bigtable_Apply
begin

text \<open>
  Verification of parts of three client libraries of this repository, in which the state of the client and not the remote call is the
  difficult part: the wire protocol clients of Pub/Sub Lite (\<^verbatim>\<open>pubsublite/internal/wire\<close>), the realtime
  updates of Firestore (\<^verbatim>\<open>firestore/watch.go\<close>) with the B-tree they are built on (\<^verbatim>\<open>internal/btree\<close>), and reading and writing
  rows of Bigtable (\<^verbatim>\<open>bigtable\<close>).

  \<^bold>\<open>Conventions.\<close>  A struct is a record, an enumeration or an interface with known implementations a datatype, an
  operation a function with the name of the source that returns the new state; a panic or an error is a value.
  64-bit integers are HOL integers with the wrap-around written out (\<open>wrap64\<close>), and a conversion to \<^verbatim>\<open>float64\<close> rounds.
  A mutex makes a critical section one step; goroutines that run between critical sections are program counters of a step
  relation or pending calls in the state, and theorems are about all interleavings of these steps.  The notice that a stream has been reconnected is a step
  of its own in the models of the stream and of the publisher; in those of the committer and the subscriber it is made in the
  step that changes the stream.  Channels of the subscriber have no bound.  Code outside the repository (gRPC, the bundler, \<^verbatim>\<open>gax.Invoke\<close>, \<^verbatim>\<open>sync.Pool\<close>, clocks,
  SHA-256, random numbers, conversion of protocol timestamps) is an argument or an input.

  \<^bold>\<open>Shared.\<close>  \<open>Go_Prelude\<close>: 64-bit arithmetic, \<^verbatim>\<open>sort.Search\<close>, rounding to floating point, list lemmas.

  \<^bold>\<open>Pub/Sub Lite\<close> (files under \<^verbatim>\<open>pubsublite/internal/wire/\<close>).
  \<^item> \<open>Wire_Errors\<close> (\<^verbatim>\<open>errors.go\<close>, \<^verbatim>\<open>rpc.go\<close>): error values and the classification of stream errors.
  \<^item> \<open>Wire_Acks\<close> (\<^verbatim>\<open>acks.go\<close>): ack consumers in a store, since the user and the tracker share them; the ack tracker refines the log of
    deliveries, never commits past a message that was delivered since the last reset and is not acknowledged, and commits in flight increase.
  \<^item> \<open>Wire_Flow\<close> (\<^verbatim>\<open>flow_control.go\<close>): token counters do not overflow, tokens are conserved, offsets are checked.
  \<^item> \<open>Wire_Service\<close> (\<^verbatim>\<open>service.go\<close>): services and composites; the contract of a service is the locale \<open>service_contract\<close>, in which
    the lifecycle of a composite is proved once, and which every service below interprets.
  \<^item> \<open>Wire_Settings\<close>, \<open>Wire_Resources\<close> (\<^verbatim>\<open>settings.go\<close>, \<^verbatim>\<open>resources.go\<close>, \<^verbatim>\<open>pscompat/message.go\<close>): validation; parsing and printing of names.
  \<^item> \<open>Wire_Router\<close> (\<^verbatim>\<open>message_router.go\<close>): the locale \<open>message_router\<close> and its three instances.
  \<^item> \<open>Wire_Timers\<close> (\<^verbatim>\<open>periodic_task.go\<close>, \<^verbatim>\<open>request_timer.go\<close>): pollers and timers as step relations.
  \<^item> \<open>Wire_Streams\<close> (\<^verbatim>\<open>streams.go\<close>): the retryable stream with its goroutines; one reconnection at a time.
  \<^item> \<open>Wire_Batcher\<close>, \<open>Wire_Publisher\<close>, \<open>Wire_Routing\<close> (\<^verbatim>\<open>publish_batcher.go\<close>, \<^verbatim>\<open>publisher.go\<close>, \<^verbatim>\<open>partition_count.go\<close>): messages
    are answered in order, exactly once, and routed in range.  Notices of reconnections may reach the publisher late and in another order: that
    responses match requests holds when they come in time, and is refuted when one comes late.  The watcher of the partition count runs
    between the steps of the routing publisher.
  \<^item> \<open>Wire_Committer\<close>, \<open>Wire_Subscriber\<close>, \<open>Wire_Assigner\<close>, \<open>Wire_Subscribers\<close> (\<^verbatim>\<open>committer.go\<close>, \<^verbatim>\<open>subscriber.go\<close>, \<^verbatim>\<open>assigner.go\<close>):
    commits are safe, deliveries are tracked, assignments are applied, composites fail together.

  \<^bold>\<open>B-tree\<close> (\<^verbatim>\<open>internal/btree/btree.go\<close>).
  \<^item> \<open>Btree\<close>: the model of all operations, \<open>None\<close> for a panic.  Insertion and removal are partial functions; that they return is
    part of what is proved.
  \<^item> \<open>Btree_Spec\<close>: the order of keys (locale \<open>strict_weak_order\<close>), operations on sorted sequences, well-formed nodes.
  \<^item> \<open>Btree_Insert\<close>, \<open>Btree_Delete\<close>, \<open>Btree_Access\<close>, \<open>Btree_Iter\<close>: each operation against the sequence of items, in the locale.
  \<^item> \<open>Btree_Keys\<close>: a comparison has to be an order on the keys in use only; the interpretation of the locale on an
    extension of such a comparison carries the results over.
  \<^item> \<open>Btree_Run\<close>: the theorems: any sequence of updates refines the sorted sequence and leaves a balanced tree, reads agree with the
    sequence, and iterators end and enumerate it.  The number of calls of \<^verbatim>\<open>Next\<close> that is allowed (\<open>fuel\<close>) need
    only be above the number of items.
  \<^item> \<open>Btree_Heap\<close>: a second model, with nodes on a heap that are modified in place, shared with clones, freed and reused; a tree is not
    changed by what is done to its clone.
  \<^item> \<open>Btree_Store\<close>: the interface on which snapshots rely (locale \<open>ordered_store\<close>), and the B-tree as its instance.

  \<^bold>\<open>Firestore\<close> (files under \<^verbatim>\<open>firestore/\<close>).
  \<^item> \<open>Firestore_Order\<close> (\<^verbatim>\<open>order.go\<close>): the comparison of values is a total preorder; integers are compared with the precision of
    floating point.
  \<^item> \<open>Firestore_Compare\<close> (\<^verbatim>\<open>query.go\<close>, \<^verbatim>\<open>document.go\<close>): the order of the documents of a query, by its fields and then by name.
  \<^item> \<open>Firestore_Watch\<close>, \<open>Firestore_Snapshot\<close> (\<^verbatim>\<open>watch.go\<close>): \<^verbatim>\<open>computeSnapshot\<close> and its correctness, through \<open>ordered_store\<close>.
  \<^item> \<open>Firestore_Listen\<close> (\<^verbatim>\<open>watch.go\<close>, \<^verbatim>\<open>from_value.go\<close>, \<^verbatim>\<open>client.go\<close>): the listen stream; results of calls on the stream are a
    list of inputs, and \<open>None\<close> also stands for inputs that have run out.  Snapshots follow from each other, a stream that is up to date
    returns one, errors are sticky.

  \<^bold>\<open>Bigtable\<close> (files under \<^verbatim>\<open>bigtable/\<close>).
  \<^item> \<open>Gax_Invoke\<close>: what is relied on of the retries of \<^verbatim>\<open>gax.Invoke\<close>: a step relation for its calls, with one induction for all clients.
  \<^item> \<open>Bigtable_Reader\<close> (\<^verbatim>\<open>reader.go\<close>): the state machine that assembles rows from chunks.  Rows sent in any valid way are read back; whatever is sent, rows
    are well formed and ordered; a row that breaks off is detected.
  \<^item> \<open>Bigtable_Rows\<close> (\<^verbatim>\<open>bigtable.go\<close>): row sets, whose contract is the locale \<open>row_set\<close> with the three implementations and the interface as
    instances; ranges of prefixes; \<^verbatim>\<open>ReadRows\<close> with its retries delivers every row once.  That a server answers as
    documented is the hypothesis \<open>serves\<close>: the chunks of its answer come in any responses and break off anywhere (the code fails when
    a response ends inside of a row, since it closes the reader after every response).
  \<^item> \<open>Bigtable_Apply\<close> (\<^verbatim>\<open>bigtable.go\<close>): mutations, \<^verbatim>\<open>Apply\<close> and \<^verbatim>\<open>ApplyBulk\<close>: groups, and which failures are final.

  \<^bold>\<open>What the proofs brought to light.\<close>  An idle timer that cancels a reconnection (\<open>Wire_Streams\<close>); a graceful stop that drops
  messages, and a late notice of a connection that has a batch sent twice (\<open>Wire_Publisher\<close>); API clients that stay open when an identifier cannot be made (\<open>Wire_Subscribers\<close>); integers beyond
  \<open>2\<^sup>5\<^sup>3\<close> that compare as equal (\<open>Firestore_Order\<close>); deletions that are lost when a connection breaks after a reset
  (\<open>Firestore_Listen\<close>); an iterator after the last position that is empty (\<open>Btree_Run\<close>); a limit of rows that does not survive a
  retry (\<open>Bigtable_Rows\<close>); results of bulk mutations that are attributed by position (\<open>Bigtable_Apply\<close>).

  \<^bold>\<open>Not modelled.\<close>  The generated API clients, and the other hand-written libraries (Spanner, Datastore, BigQuery, Storage,
  Pub/Sub, logging, the debugger and profiler agents, tooling), are outside this development: most are conversions by
  reflection or transfers around remote calls, and those with a state of their own would each need a development like the present ones.
  Of Pub/Sub Lite, the admin client, the construction of RPC clients and the public wrappers (\<^verbatim>\<open>pscompat\<close>) are not modelled.  Of the
  B-tree, the two models are related by what they have in common, not by a refinement: that operations return is proved of the model with
  nodes as values.  Of Bigtable, administration, filters, \<^verbatim>\<open>ReadModifyWrite\<close> and \<^verbatim>\<open>SampleRowKeys\<close> are not modelled.  Of the watch stream, an error of a comparison (a document without a field that the query orders by)
  is not part of the state.  Of the rest of Firestore, queries as messages, writes, transactions and the conversion of values are not.
\<close>

end
